(* ===== verification/Prelude.thy ===== *)
theory Prelude
  imports Main "HOL-Library.Word"
begin

text \<open>
  Shared vocabulary of the development: the machine types of the code, the byte-order
  conversions that the packet formats use, the serial-number arithmetic of the KCP core
  and the lemma collections that the component theories add to.
\<close>

unbundle bit_operations_syntax

section \<open>Machine types\<close>

type_synonym u8 = "8 word"
type_synonym u16 = "16 word"
type_synonym u32 = "32 word"
type_synonym u64 = "64 word"
type_synonym bytes = "u8 list"

text \<open>
  \<open>frame\<close> collects the facts that an operation leaves a field alone, \<open>inv_intro\<close> the
  preservation lemmas of the component invariants, \<open>wire\<close> the round trips of encoders.
\<close>

named_theorems frame
named_theorems inv_intro
named_theorems wire

section \<open>Little- and big-endian integers on the wire\<close>

definition le16 :: "u16 \<Rightarrow> bytes" where
  "le16 w = [ucast w, ucast (drop_bit 8 w)]"

definition le32 :: "u32 \<Rightarrow> bytes" where
  "le32 w = [ucast w, ucast (drop_bit 8 w), ucast (drop_bit 16 w), ucast (drop_bit 24 w)]"

definition le64 :: "u64 \<Rightarrow> bytes" where
  "le64 w = le32 (ucast w) @ le32 (ucast (drop_bit 32 w))"

definition be32 :: "u32 \<Rightarrow> bytes" where
  "be32 w = rev (le32 w)"

definition of_le16 :: "u8 \<Rightarrow> u8 \<Rightarrow> u16" where
  "of_le16 a b = ucast a OR push_bit 8 (ucast b)"

definition of_le32 :: "u8 \<Rightarrow> u8 \<Rightarrow> u8 \<Rightarrow> u8 \<Rightarrow> u32" where
  "of_le32 a b c d =
     ucast a OR push_bit 8 (ucast b) OR push_bit 16 (ucast c) OR push_bit 24 (ucast d)"

definition of_le64 :: "u32 \<Rightarrow> u32 \<Rightarrow> u64" where
  "of_le64 lo hi = ucast lo OR push_bit 32 (ucast hi)"

lemma length_le [simp]:
  "length (le16 w16) = 2" "length (le32 w32) = 4" "length (le64 w64) = 8"
  "length (be32 w32) = 4"
  by (simp_all add: le16_def le32_def le64_def be32_def)

lemma bit_u8_beyond [simp]: "8 \<le> n \<Longrightarrow> \<not> bit (a :: u8) n"
  using bit_imp_le_length [of a n] by auto

lemma of_le16_le16 [wire]:
  fixes w :: u16
  shows "of_le16 (ucast w) (ucast (drop_bit 8 w)) = w"
proof (rule bit_word_eqI)
  fix n :: nat assume "n < LENGTH(16)"
  then consider "n < 8" | "8 \<le> n" "n < 16" by force
  then show "bit (of_le16 (ucast w) (ucast (drop_bit 8 w))) n = bit w n"
    by cases (auto simp: of_le16_def bit_simps)
qed

lemma of_le32_le32 [wire]:
  fixes w :: u32
  shows "of_le32 (ucast w) (ucast (drop_bit 8 w)) (ucast (drop_bit 16 w)) (ucast (drop_bit 24 w)) = w"
proof (rule bit_word_eqI)
  fix n :: nat assume "n < LENGTH(32)"
  then consider "n < 8" | "8 \<le> n" "n < 16" | "16 \<le> n" "n < 24" | "24 \<le> n" "n < 32" by force
  then show "bit (of_le32 (ucast w) (ucast (drop_bit 8 w)) (ucast (drop_bit 16 w))
      (ucast (drop_bit 24 w))) n = bit w n"
    by cases (auto simp: of_le32_def bit_simps)
qed

lemma le32_of_le32:
  "le32 (of_le32 a b c d) = [a, b, c, d]"
  unfolding of_le32_def le32_def
  by (auto intro!: bit_word_eqI simp: bit_simps)

lemma of_le64_le64 [wire]:
  fixes w :: u64
  shows "of_le64 (ucast w) (ucast (drop_bit 32 w)) = w"
proof (rule bit_word_eqI)
  fix n :: nat assume "n < LENGTH(64)"
  then consider "n < 32" | "32 \<le> n" "n < 64" by force
  then show "bit (of_le64 (ucast w) (ucast (drop_bit 32 w))) n = bit w n"
    by cases (auto simp: of_le64_def bit_simps)
qed

section \<open>Serial numbers\<close>

text \<open>
  \<open>_itimediff\<close> of \<open>ikcp.c\<close>: the difference of two 32-bit counters read as a signed
  number. It orders counters that are less than \<open>2 ^ 31\<close> apart, across the wrap-around.
  The distance of a counter from a base, \<open>off b x\<close>, turns such comparisons into
  comparisons of natural numbers.
\<close>

definition itimediff :: "u32 \<Rightarrow> u32 \<Rightarrow> int" where
  "itimediff later earlier = sint (later - earlier)"

definition off :: "u32 \<Rightarrow> u32 \<Rightarrow> nat" where
  "off b x = unat (x - b)"

lemma unat_u32: "unat (w :: u32) < 2 ^ 32"
  using unsigned_less [of w] by simp
lemma uint_u32: "uint (w :: u32) < 2 ^ 32"
  using unsigned_less [of w, where ?'a = int] by simp

lemma ucast_u8_small: "unat (w :: u32) < 256 \<Longrightarrow> ucast (ucast w :: u8) = w"
  by (simp add: word_unat_eq_iff unsigned_ucast_eq unsigned_take_bit_eq take_bit_nat_eq_self)

lemma int_less_uint [simp]: "int n < uint (w :: 'a :: len word) \<longleftrightarrow> n < unat w"
  by (simp add: uint_nat del: of_nat_unat)

lemma sint_of_int_u32:
  "- (2 ^ 31) \<le> d \<Longrightarrow> d < 2 ^ 31 \<Longrightarrow> sint (word_of_int d :: u32) = d"
  by (simp add: signed_of_int signed_take_bit_int_eq_self)

lemma sint_u32: "sint (w :: u32) = (if unat w < 2 ^ 31 then int (unat w) else int (unat w) - 2 ^ 32)"
proof -
  define n where "n = int (unat w)"
  have n: "uint w = n" "0 \<le> n" "n < 2 ^ 32"
    using uint_u32 [of w] by (simp_all add: n_def)
  have s: "sint w = (n + 2 ^ 31) mod 2 ^ 32 - 2 ^ 31"
    using sint_uint [of w] n(1) by (simp add: signed_take_bit_eq_take_bit_shift take_bit_eq_mod)
  have "(n + 2 ^ 31) mod 2 ^ 32 = (if n < 2 ^ 31 then n + 2 ^ 31 else n - 2 ^ 31)"
  proof (cases "n < 2 ^ 31")
    case True
    with n(2) show ?thesis by (simp add: mod_pos_pos_trivial)
  next
    case False
    have "n + 2 ^ 31 = (n - 2 ^ 31) + 2 ^ 32" by simp
    then have "(n + 2 ^ 31) mod 2 ^ 32 = (n - 2 ^ 31) mod 2 ^ 32" by (metis mod_add_self2)
    with False n(3) show ?thesis by (simp add: mod_pos_pos_trivial)
  qed
  then show ?thesis using s by (auto simp: n_def uint_nat simp del: of_nat_unat)
qed
lemma sint_u32_nonneg: "0 \<le> sint (a :: u32) \<longleftrightarrow> unat a < 2 ^ 31"
  using unat_u32 [of a] uint_u32 [of a] by (auto simp: sint_u32)

lemma sint_u32_neg: "sint (a :: u32) < 0 \<longleftrightarrow> 2 ^ 31 \<le> unat a"
  using sint_u32_nonneg [of a] by linarith

lemma off_inject: "off b x = off b y \<longleftrightarrow> x = y"
  by (simp add: off_def flip: word_unat_eq_iff)

lemma off_self: "off b b = 0"
  by (simp add: off_def)

lemma itimediff_off:
  assumes "off b x < 2 ^ 31" "off b y < 2 ^ 31"
  shows "itimediff x y = int (off b x) - int (off b y)"
proof -
  have "x - y = (x - b) - (y - b)" by simp
  also have "\<dots> = word_of_int (int (off b x) - int (off b y))"
    by (simp add: off_def flip: word_of_int_uint) 
  finally show ?thesis
    unfolding itimediff_def using assms by (simp only:) (rule sint_of_int_u32, auto)
qed

lemma itimediff_nonneg: "0 \<le> itimediff x b \<longleftrightarrow> off b x < 2 ^ 31"
  by (simp only: itimediff_def sint_u32_nonneg off_def)

lemma unat_add_u32: "unat (a :: u32) + unat b < 2 ^ 32 \<Longrightarrow> unat (a + b) = unat a + unat b"
  by (simp add: unat_word_ariths)

lemma off_add: "off b x + unat n < 2 ^ 32 \<Longrightarrow> off b (x + n) = off b x + unat n"
  using unat_add_u32 [of "x - b" n] by (simp add: off_def algebra_simps)

lemma off_diff: "off b x \<le> off b y \<Longrightarrow> off x y = off b y - off b x"
proof -
  assume "off b x \<le> off b y"
  then have "unat ((y - b) - (x - b)) = unat (y - b) - unat (x - b)"
    by (intro unat_sub) (simp add: off_def word_le_nat_alt)
  moreover have "y - x = (y - b) - (x - b)" by simp
  ultimately show ?thesis by (simp only: off_def)
qed

lemma off_wnd:
  assumes "unat w < 2 ^ 31"
  shows "itimediff x (b + w) < 0 \<and> 0 \<le> itimediff x b \<longleftrightarrow> off b x < unat w"
proof -
  have w: "off b (b + w) = unat w" by (simp add: off_def)
  show ?thesis
  proof (cases "off b x < 2 ^ 31")
    case True
    then show ?thesis
      using itimediff_off [OF True, of "b + w"] assms by (auto simp: w itimediff_nonneg simp del: of_nat_unat)
  next
    case False
    then have "\<not> 0 \<le> itimediff x b" by (simp only: itimediff_nonneg) simp
    then show ?thesis using False assms by linarith
  qed
qed

lemma unat_of_nat_u32: "n < 2 ^ 32 \<Longrightarrow> unat (of_nat n :: u32) = n"
  by (simp add: unat_of_nat)

lemma off_of_nat: "n < 2 ^ 32 \<Longrightarrow> off b (b + of_nat n) = n"
  by (simp add: off_def unat_of_nat)

end
