(* ===== verification/Ikcp_Types.thy ===== *)
theory Ikcp_Types
  imports Prelude
begin

text \<open>
  Data of the KCP core (\<open>kcp/ikcp.h\<close>, \<open>kcp/ikcp.c\<close>): the protocol constants, the byte
  encoders, segments, the control block with its creation, and the invariant that the
  counters agree with the queues.

  The four queues are lists of segments (theory \<open>Iqueue\<close> justifies it). A 32-bit signed
  field is a word that the code reads with \<open>sint\<close>; options set from a C \<open>int\<close> and only
  compared are of type \<open>int\<close>. Memory allocation succeeds and logging is off
  (\<open>logmask = 0\<close>, as \<open>ikcp_create\<close> leaves it).
\<close>

section \<open>Constants\<close>

definition IKCP_RTO_NDL :: u32 where "IKCP_RTO_NDL = 30"
definition IKCP_RTO_MIN :: u32 where "IKCP_RTO_MIN = 100"
definition IKCP_RTO_DEF :: u32 where "IKCP_RTO_DEF = 200"
definition IKCP_RTO_MAX :: u32 where "IKCP_RTO_MAX = 60000"
definition IKCP_CMD_PUSH :: u32 where "IKCP_CMD_PUSH = 81"
definition IKCP_CMD_ACK :: u32 where "IKCP_CMD_ACK = 82"
definition IKCP_CMD_WASK :: u32 where "IKCP_CMD_WASK = 83"
definition IKCP_CMD_WINS :: u32 where "IKCP_CMD_WINS = 84"
definition IKCP_ASK_SEND :: u32 where "IKCP_ASK_SEND = 1"
definition IKCP_ASK_TELL :: u32 where "IKCP_ASK_TELL = 2"
definition IKCP_WND_SND :: u32 where "IKCP_WND_SND = 32"
definition IKCP_WND_RCV :: u32 where "IKCP_WND_RCV = 128"
definition IKCP_SND_HGHWAT :: u32 where "IKCP_SND_HGHWAT = 4"
definition IKCP_MTU_DEF :: u32 where "IKCP_MTU_DEF = 1400"
definition IKCP_INTERVAL :: u32 where "IKCP_INTERVAL = 100"
definition IKCP_OVERHEAD :: u32 where "IKCP_OVERHEAD = 24"
definition IKCP_DEADLINK :: u32 where "IKCP_DEADLINK = 20"
definition IKCP_THRESH_INIT :: u32 where "IKCP_THRESH_INIT = 2"
definition IKCP_THRESH_MIN :: u32 where "IKCP_THRESH_MIN = 2"
definition IKCP_PROBE_INIT :: u32 where "IKCP_PROBE_INIT = 7000"
definition IKCP_PROBE_LIMIT :: u32 where "IKCP_PROBE_LIMIT = 120000"
definition IKCP_FASTACK_LIMIT :: int where "IKCP_FASTACK_LIMIT = 5"

lemmas ikcp_consts = IKCP_RTO_NDL_def IKCP_RTO_MIN_def IKCP_RTO_DEF_def IKCP_RTO_MAX_def
  IKCP_CMD_PUSH_def IKCP_CMD_ACK_def IKCP_CMD_WASK_def IKCP_CMD_WINS_def IKCP_ASK_SEND_def
  IKCP_ASK_TELL_def IKCP_WND_SND_def IKCP_WND_RCV_def IKCP_SND_HGHWAT_def IKCP_MTU_DEF_def
  IKCP_INTERVAL_def IKCP_OVERHEAD_def IKCP_DEADLINK_def IKCP_THRESH_INIT_def
  IKCP_THRESH_MIN_def IKCP_PROBE_INIT_def IKCP_PROBE_LIMIT_def IKCP_FASTACK_LIMIT_def

section \<open>Encoding and arithmetic helpers\<close>

text \<open>
  An encoder appends to the bytes written so far; a decoder returns the value and the rest,
  or \<open>None\<close> where the C code would read past the end of its input. Integers travel with
  the least significant byte first.
\<close>

definition ikcp_encode8u :: "bytes \<Rightarrow> u8 \<Rightarrow> bytes" where
  "ikcp_encode8u p c = p @ [c]"

definition ikcp_encode16u :: "bytes \<Rightarrow> u16 \<Rightarrow> bytes" where
  "ikcp_encode16u p w = p @ le16 w"

definition ikcp_encode32u :: "bytes \<Rightarrow> u32 \<Rightarrow> bytes" where
  "ikcp_encode32u p l = p @ le32 l"

fun ikcp_decode8u :: "bytes \<Rightarrow> (u8 \<times> bytes) option" where
  "ikcp_decode8u (a # r) = Some (a, r)"
| "ikcp_decode8u _ = None"

fun ikcp_decode16u :: "bytes \<Rightarrow> (u16 \<times> bytes) option" where
  "ikcp_decode16u (a # b # r) = Some (of_le16 a b, r)"
| "ikcp_decode16u _ = None"

fun ikcp_decode32u :: "bytes \<Rightarrow> (u32 \<times> bytes) option" where
  "ikcp_decode32u (a # b # c # d # r) = Some (of_le32 a b c d, r)"
| "ikcp_decode32u _ = None"

lemma decode_encode [wire, simp]:
  "ikcp_decode8u ([c] @ r) = Some (c, r)"
  "ikcp_decode16u (le16 w @ r) = Some (w, r)"
  "ikcp_decode32u (le32 l @ r) = Some (l, r)"
  by (simp_all add: le16_def le32_def of_le16_le16 of_le32_le32)

definition imin :: "u32 \<Rightarrow> u32 \<Rightarrow> u32" where
  "imin a b = (if a \<le> b then a else b)"

definition imax :: "u32 \<Rightarrow> u32 \<Rightarrow> u32" where
  "imax a b = (if a \<ge> b then a else b)"

definition ibound :: "u32 \<Rightarrow> u32 \<Rightarrow> u32 \<Rightarrow> u32" where
  "ibound lower middle upper = imin (imax lower middle) upper"

lemma imin_min: "imin a b = min a b" and imax_max: "imax a b = max a b"
  by (auto simp: imin_def imax_def)

lemma ibound_range: "lo \<le> hi \<Longrightarrow> lo \<le> ibound lo m hi \<and> ibound lo m hi \<le> hi"
  by (auto simp: ibound_def imin_def imax_def)

section \<open>Segments\<close>

record ikcpseg =
  seg_conv :: u32
  seg_cmd :: u32
  seg_frg :: u32
  seg_wnd :: u32
  seg_ts :: u32
  seg_sn :: u32
  seg_una :: u32
  seg_len :: u32
  seg_resendts :: u32
  seg_rto :: u32
  seg_fastack :: u32
  seg_xmit :: u32
  seg_data :: bytes

text \<open>The bytes \<open>data[0 .. len)\<close> of a segment are its payload.\<close>

definition seg_ok :: "ikcpseg \<Rightarrow> bool" where
  "seg_ok s \<longleftrightarrow> length (seg_data s) = unat (seg_len s)"

definition seg_new :: "bytes \<Rightarrow> u32 \<Rightarrow> ikcpseg" where
  "seg_new d len = \<lparr>seg_conv = 0, seg_cmd = 0, seg_frg = 0, seg_wnd = 0, seg_ts = 0,
     seg_sn = 0, seg_una = 0, seg_len = len, seg_resendts = 0, seg_rto = 0,
     seg_fastack = 0, seg_xmit = 0, seg_data = d\<rparr>"

section \<open>The control block\<close>

record ikcpcb =
  conv :: u32
  mtu :: u32
  mss :: u32
  state :: u32
  head_room :: u32
  snd_una :: u32
  snd_nxt :: u32
  rcv_nxt :: u32
  ts_recent :: u32
  ts_lastack :: u32
  ssthresh :: u32
  rx_rttval :: u32
  rx_srtt :: u32
  rx_rto :: u32
  rx_minrto :: u32
  snd_wnd :: u32
  snd_hghwat :: u32
  rcv_wnd :: u32
  rmt_wnd :: u32
  cwnd :: u32
  probe :: u32
  current :: u32
  interval :: u32
  ts_flush :: u32
  xmit :: u32
  nrcv_buf :: u32
  nsnd_buf :: u32
  nrcv_que :: u32
  nsnd_que :: u32
  nodelay :: u32
  updated :: u32
  ts_probe :: u32
  probe_wait :: u32
  dead_link :: u32
  incr :: u32
  snd_queue :: "ikcpseg list"
  rcv_queue :: "ikcpseg list"
  snd_buf :: "ikcpseg list"
  rcv_buf :: "ikcpseg list"
  acklist :: "u32 list"
  ackcount :: u32
  ackblock :: u32
  buffer_size :: nat
  fastresend :: int
  fastlimit :: int
  nocwnd :: int
  stream :: int

definition ikcp_create :: "u32 \<Rightarrow> ikcpcb" where
  "ikcp_create cv = \<lparr>
     conv = cv, mtu = IKCP_MTU_DEF, mss = IKCP_MTU_DEF - IKCP_OVERHEAD, state = 0,
     head_room = 0, snd_una = 0, snd_nxt = 0, rcv_nxt = 0, ts_recent = 0, ts_lastack = 0,
     ssthresh = IKCP_THRESH_INIT, rx_rttval = 0, rx_srtt = 0, rx_rto = IKCP_RTO_DEF,
     rx_minrto = IKCP_RTO_MIN, snd_wnd = IKCP_WND_SND, snd_hghwat = IKCP_SND_HGHWAT,
     rcv_wnd = IKCP_WND_RCV, rmt_wnd = IKCP_WND_RCV, cwnd = 1, probe = 0, current = 0,
     interval = IKCP_INTERVAL, ts_flush = IKCP_INTERVAL, xmit = 0, nrcv_buf = 0,
     nsnd_buf = 0, nrcv_que = 0, nsnd_que = 0, nodelay = 0, updated = 0, ts_probe = 0,
     probe_wait = 0, dead_link = IKCP_DEADLINK, incr = IKCP_MTU_DEF - IKCP_OVERHEAD,
     snd_queue = [], rcv_queue = [], snd_buf = [], rcv_buf = [], acklist = [],
     ackcount = 0, ackblock = 0, buffer_size = unat IKCP_MTU_DEF, fastresend = 0,
     fastlimit = IKCP_FASTACK_LIMIT, nocwnd = 0, stream = 0\<rparr>"

section \<open>Counters and queues\<close>

text \<open>The counters of the control block count the segments of its queues, and every queued
  segment carries as many bytes as its length field says.\<close>

definition counts_ok :: "ikcpcb \<Rightarrow> bool" where
  "counts_ok k \<longleftrightarrow>
     nrcv_buf k = of_nat (length (rcv_buf k)) \<and> nsnd_buf k = of_nat (length (snd_buf k)) \<and>
     nrcv_que k = of_nat (length (rcv_queue k)) \<and> nsnd_que k = of_nat (length (snd_queue k))"

definition segs_ok :: "ikcpcb \<Rightarrow> bool" where
  "segs_ok k \<longleftrightarrow>
     (\<forall>s \<in> set (snd_queue k) \<union> set (snd_buf k) \<union> set (rcv_queue k) \<union> set (rcv_buf k). seg_ok s)"

lemma create_counts: "counts_ok (ikcp_create c)"
  by (simp add: counts_ok_def ikcp_create_def)

lemma create_segs: "segs_ok (ikcp_create c)"
  by (simp add: segs_ok_def ikcp_create_def)

end
