(* ===== verification/Ikcp_Recv.thy ===== *)
theory Ikcp_Recv
  imports Ikcp_Types
begin

text \<open>
  The receiving half of the KCP core: \<open>ikcp_peeksize\<close>, \<open>ikcp_recv\<close>, the loop that moves
  in-order segments from \<open>rcv_buf\<close> to \<open>rcv_queue\<close>, and \<open>ikcp_parse_data\<close>, which files
  an arriving segment. The lemmas establish the order and window invariant of \<open>rcv_buf\<close>
  and that the receiver reassembles the sender's sequence of segments.
\<close>

section \<open>Operations\<close>

text \<open>\<open>length\<close> is a C \<open>int\<close> to which unsigned lengths are added: the sum wraps at 32 bits and
  is read as signed at the end.\<close>

fun peek_len :: "u32 \<Rightarrow> ikcpseg list \<Rightarrow> u32" where
  "peek_len len [] = len"
| "peek_len len (s # ss) =
     (let len = len + seg_len s in if seg_frg s = 0 then len else peek_len len ss)"

definition ikcp_peeksize :: "ikcpcb \<Rightarrow> int" where
  "ikcp_peeksize k =
     (case rcv_queue k of
        [] \<Rightarrow> -1
      | s # _ \<Rightarrow>
          if seg_frg s = 0 then sint (seg_len s)
          else if nrcv_que k < seg_frg s + 1 then -1
          else sint (peek_len 0 (rcv_queue k)))"

text \<open>The merge loop: the bytes copied out, the length and the segments that stay queued.\<close>

fun merge_fragment :: "bytes \<Rightarrow> u32 \<Rightarrow> ikcpseg list \<Rightarrow> bytes \<times> u32 \<times> ikcpseg list" where
  "merge_fragment buf len [] = (buf, len, [])"
| "merge_fragment buf len (s # ss) =
     (let buf = buf @ take (unat (seg_len s)) (seg_data s);
          len = len + seg_len s
      in if seg_frg s = 0 then (buf, len, ss) else merge_fragment buf len ss)"

text \<open>Move available data from \<open>rcv_buf\<close> to \<open>rcv_queue\<close>.\<close>

function rcv_move :: "ikcpcb \<Rightarrow> ikcpcb" where
  "rcv_move k =
     (case rcv_buf k of
        [] \<Rightarrow> k
      | s # ss \<Rightarrow>
          if seg_sn s = rcv_nxt k \<and> nrcv_que k < rcv_wnd k then
            rcv_move (k\<lparr>rcv_buf := ss, nrcv_buf := nrcv_buf k - 1,
              rcv_queue := rcv_queue k @ [s], nrcv_que := nrcv_que k + 1,
              rcv_nxt := rcv_nxt k + 1\<rparr>)
          else k)"
  by pat_completeness auto
termination
  by (relation "measure (\<lambda>k. length (rcv_buf k))") auto

declare rcv_move.simps [simp del]

text \<open>
  \<open>ikcp_recv\<close> returns the C result, the bytes written to \<open>buffer\<close> and the new control
  block; \<open>None\<close> is the failure of \<open>assert(len == peeksize)\<close>. A negative \<open>len\<close> peeks.
\<close>

definition recv_take :: "bool \<Rightarrow> ikcpcb \<Rightarrow> ikcpcb" where
  "recv_take ispeek k =
     (let rest = snd (snd (merge_fragment [] 0 (rcv_queue k)))
      in if ispeek then k
         else k\<lparr>rcv_queue := rest,
                nrcv_que := nrcv_que k - of_nat (length (rcv_queue k) - length rest)\<rparr>)"

definition recv_recover :: "bool \<Rightarrow> ikcpcb \<Rightarrow> ikcpcb" where
  "recv_recover recover k =
     (if nrcv_que k < rcv_wnd k \<and> recover then k\<lparr>probe := probe k OR IKCP_ASK_TELL\<rparr> else k)"

definition ikcp_recv :: "ikcpcb \<Rightarrow> int \<Rightarrow> (int \<times> bytes \<times> ikcpcb) option" where
  "ikcp_recv k len =
     (let ispeek = len < 0; peeksize = ikcp_peeksize k in
      if rcv_queue k = [] then Some (-1, [], k)
      else if peeksize < 0 then Some (-2, [], k)
      else if peeksize > \<bar>len\<bar> then Some (-3, [], k)
      else
        let recover = (nrcv_que k \<ge> rcv_wnd k);
            merged = merge_fragment [] 0 (rcv_queue k);
            len = sint (fst (snd merged))
        in if len \<noteq> peeksize then None
           else Some (len, fst merged, recv_recover recover (rcv_move (recv_take ispeek k))))"

text \<open>
  Filing a segment: the scan runs from the back of \<open>rcv_buf\<close> and stops at a duplicate
  (\<open>None\<close>) or at the first segment that precedes the new one, after which it is inserted.
\<close>

fun insert_back :: "ikcpseg \<Rightarrow> ikcpseg list \<Rightarrow> ikcpseg list option" where
  "insert_back new [] = Some [new]"
| "insert_back new (s # ss) =
     (if seg_sn s = seg_sn new then None
      else if itimediff (seg_sn new) (seg_sn s) > 0 then Some (new # s # ss)
      else map_option (Cons s) (insert_back new ss))"

definition ikcp_parse_data :: "ikcpcb \<Rightarrow> ikcpseg \<Rightarrow> ikcpcb" where
  "ikcp_parse_data k new =
     (if itimediff (seg_sn new) (rcv_nxt k + rcv_wnd k) \<ge> 0 \<or>
         itimediff (seg_sn new) (rcv_nxt k) < 0 then k
      else
        (case insert_back new (rev (rcv_buf k)) of
           None \<Rightarrow> rcv_move k
         | Some buf \<Rightarrow> rcv_move (k\<lparr>rcv_buf := rev buf, nrcv_buf := nrcv_buf k + 1\<rparr>)))"

section \<open>The two halves of a read agree\<close>

lemma merge_len: "fst (snd (merge_fragment buf len ss)) = peek_len len ss"
  by (induction buf len ss rule: merge_fragment.induct) (auto simp: Let_def)

lemma merge_bytes:
  "\<exists>used. ss = used @ snd (snd (merge_fragment buf len ss)) \<and>
     fst (merge_fragment buf len ss) = buf @ concat (map (\<lambda>s. take (unat (seg_len s)) (seg_data s)) used)"
proof (induction buf len ss rule: merge_fragment.induct)
  case (1 buf len)
  then show ?case by simp
next
  case (2 buf len s ss)
  show ?case
  proof (cases "seg_frg s = 0")
    case True
    then show ?thesis by (intro exI [of _ "[s]"]) (simp add: Let_def)
  next
    case False
    from "2.IH" [OF refl refl False] obtain used where u:
      "ss = used @ snd (snd (merge_fragment (buf @ take (unat (seg_len s)) (seg_data s)) (len + seg_len s) ss))"
      "fst (merge_fragment (buf @ take (unat (seg_len s)) (seg_data s)) (len + seg_len s) ss) =
        (buf @ take (unat (seg_len s)) (seg_data s)) @
        concat (map (\<lambda>s. take (unat (seg_len s)) (seg_data s)) used)"
      by blast
    show ?thesis
      by (intro exI [of _ "s # used"]) (use False u in \<open>simp add: Let_def\<close>)
  qed
qed

lemma peeksize_eq: "0 \<le> ikcp_peeksize k \<Longrightarrow> ikcp_peeksize k = sint (peek_len 0 (rcv_queue k))"
  by (auto simp: ikcp_peeksize_def split: list.splits if_splits)

text \<open>The assertion of \<open>ikcp_recv\<close> never fails.\<close>

lemma recv_total: "ikcp_recv k len \<noteq> None"
proof (cases "ikcp_peeksize k < 0")
  case True
  then show ?thesis by (simp add: ikcp_recv_def Let_def)
next
  case False
  then have "ikcp_peeksize k = sint (fst (snd (merge_fragment [] 0 (rcv_queue k))))"
    using peeksize_eq [of k] by (simp add: merge_len)
  then show ?thesis by (simp add: ikcp_recv_def Let_def)
qed

section \<open>Order and window of the receive buffer\<close>

text \<open>
  Seen from \<open>rcv_nxt\<close>, the sequence numbers in \<open>rcv_buf\<close> increase strictly and lie inside
  the receive window; \<open>rcv_queue\<close> never holds more than a window of segments.
\<close>

definition rcv_order :: "u32 \<Rightarrow> ikcpseg list \<Rightarrow> bool" where
  "rcv_order b = sorted_wrt (\<lambda>x y. off b (seg_sn x) < off b (seg_sn y))"

definition rcv_inv :: "ikcpcb \<Rightarrow> bool" where
  "rcv_inv k \<longleftrightarrow> rcv_order (rcv_nxt k) (rcv_buf k) \<and>
     (\<forall>s \<in> set (rcv_buf k). off (rcv_nxt k) (seg_sn s) < unat (rcv_wnd k)) \<and>
     unat (rcv_wnd k) < 2 ^ 31 \<and>
     nrcv_que k = of_nat (length (rcv_queue k)) \<and> length (rcv_queue k) \<le> unat (rcv_wnd k) \<and>
     nrcv_buf k = of_nat (length (rcv_buf k))"

lemma insert_back_spec:
  assumes "sorted_wrt (\<lambda>x y. off b (seg_sn y) < off b (seg_sn x)) rs"
    and "\<And>s. s \<in> set rs \<Longrightarrow> off b (seg_sn s) < 2 ^ 31" "off b (seg_sn new) < 2 ^ 31"
  shows "case insert_back new rs of
      None \<Rightarrow> seg_sn new \<in> seg_sn ` set rs
    | Some rs' \<Rightarrow> seg_sn new \<notin> seg_sn ` set rs \<and> set rs' = insert new (set rs) \<and>
        length rs' = Suc (length rs) \<and>
        sorted_wrt (\<lambda>x y. off b (seg_sn y) < off b (seg_sn x)) rs'"
  using assms
proof (induction rs)
  case Nil
  then show ?case by simp
next
  case (Cons s ss)
  have d: "itimediff (seg_sn new) (seg_sn s) = int (off b (seg_sn new)) - int (off b (seg_sn s))"
    by (rule itimediff_off) (use Cons.prems in auto)
  show ?case
  proof (cases "seg_sn s = seg_sn new")
    case True
    then show ?thesis by simp
  next
    case False
    then have ne: "off b (seg_sn s) \<noteq> off b (seg_sn new)" by (simp add: off_inject)
    show ?thesis
    proof (cases "itimediff (seg_sn new) (seg_sn s) > 0")
      case True
      then have "off b (seg_sn s) < off b (seg_sn new)" using d by simp
      moreover have "seg_sn new \<notin> seg_sn ` set ss"
        using Cons.prems(1) calculation by force
      ultimately show ?thesis using True False Cons.prems(1) by fastforce
    next
      case smaller: False
      then have lt: "off b (seg_sn new) < off b (seg_sn s)" using d ne by simp
      show ?thesis
        using Cons.IH Cons.prems False smaller lt by (auto split: option.splits)
    qed
  qed
qed

lemma off_shift:
  assumes "0 < off b x"
  shows "off (b + 1) x = off b x - 1"
  using off_diff [of b "b + 1" x] assms by (simp add: off_def)

lemma rcv_order_shift:
  assumes "rcv_order b (s # ss)" "seg_sn s = b"
  shows "rcv_order (b + 1) ss"
proof -
  have pos: "0 < off b (seg_sn t)" if "t \<in> set ss" for t
    using assms that by (auto simp: rcv_order_def)
  have "sorted_wrt (\<lambda>x y. off (b + 1) (seg_sn x) < off (b + 1) (seg_sn y)) ss"
  proof (rule sorted_wrt_mono_rel)
    show "sorted_wrt (\<lambda>x y. off b (seg_sn x) < off b (seg_sn y)) ss"
      using assms(1) by (simp add: rcv_order_def)
  next
    fix x y assume "x \<in> set ss" "y \<in> set ss" "off b (seg_sn x) < off b (seg_sn y)"
    then show "off (b + 1) (seg_sn x) < off (b + 1) (seg_sn y)"
      using pos [of x] pos [of y] by (simp add: off_shift)
  qed
  then show ?thesis by (simp add: rcv_order_def)
qed

text \<open>One step of the move loop, and the loop by computation induction.\<close>

definition rcv_step :: "ikcpseg \<Rightarrow> ikcpseg list \<Rightarrow> ikcpcb \<Rightarrow> ikcpcb" where
  "rcv_step s ss k = k\<lparr>rcv_buf := ss, nrcv_buf := nrcv_buf k - 1,
     rcv_queue := rcv_queue k @ [s], nrcv_que := nrcv_que k + 1, rcv_nxt := rcv_nxt k + 1\<rparr>"

lemma rcv_move_Nil: "rcv_buf k = [] \<Longrightarrow> rcv_move k = k"
  by (simp add: rcv_move.simps [of k])

lemma rcv_move_Cons:
  "rcv_buf k = s # ss \<Longrightarrow>
   rcv_move k = (if seg_sn s = rcv_nxt k \<and> nrcv_que k < rcv_wnd k
                 then rcv_move (rcv_step s ss k) else k)"
  by (simp add: rcv_move.simps [of k] rcv_step_def)

lemma rcv_move_rule:
  assumes "P k"
    and "\<And>k s ss. P k \<Longrightarrow> rcv_buf k = s # ss \<Longrightarrow> seg_sn s = rcv_nxt k \<Longrightarrow>
      nrcv_que k < rcv_wnd k \<Longrightarrow> P (rcv_step s ss k)"
  shows "P (rcv_move k)"
  using assms(1)
proof (induction k rule: rcv_move.induct)
  case (1 k)
  show ?case
  proof (cases "rcv_buf k")
    case Nil
    with 1 show ?thesis by (simp add: rcv_move_Nil)
  next
    case (Cons s ss)
    show ?thesis
    proof (cases "seg_sn s = rcv_nxt k \<and> nrcv_que k < rcv_wnd k")
      case True
      have "P (rcv_step s ss k)" by (rule assms(2)) (use 1 Cons True in auto)
      then have "P (rcv_move (rcv_step s ss k))"
        using "1.IH" [OF Cons True] by (simp add: rcv_step_def)
      with Cons True show ?thesis by (simp add: rcv_move_Cons)
    next
      case False
      with Cons have "rcv_move k = k" by (auto simp: rcv_move_Cons)
      with 1 show ?thesis by simp
    qed
  qed
qed

lemma rcv_step_inv:
  assumes "rcv_inv k" "rcv_buf k = s # ss" "seg_sn s = rcv_nxt k" "nrcv_que k < rcv_wnd k"
  shows "rcv_inv (rcv_step s ss k)"
proof -
  have o: "rcv_order (rcv_nxt k) (s # ss)" using assms by (simp add: rcv_inv_def)
  have pos: "0 < off (rcv_nxt k) (seg_sn t)" if "t \<in> set ss" for t
    using o that assms(3) by (auto simp: rcv_order_def)
  have "length (rcv_queue k) < unat (rcv_wnd k)"
    using assms(1,4) unat_of_nat_u32 [of "length (rcv_queue k)"]
    by (auto simp: rcv_inv_def word_less_nat_alt)
  moreover have "off (rcv_nxt k + 1) (seg_sn t) < unat (rcv_wnd k)" if "t \<in> set ss" for t
    using assms(1,2) pos [OF that] that by (auto simp: rcv_inv_def off_shift)
  ultimately show ?thesis
    using assms rcv_order_shift [OF o assms(3)] by (auto simp: rcv_inv_def rcv_step_def)
qed

lemma rcv_move_inv [inv_intro]: "rcv_inv k \<Longrightarrow> rcv_inv (rcv_move k)"
  by (rule rcv_move_rule) (auto intro: rcv_step_inv)

lemma insert_back_inv:
  assumes "rcv_inv k"
    and "\<not> (itimediff (seg_sn new) (rcv_nxt k + rcv_wnd k) \<ge> 0 \<or> itimediff (seg_sn new) (rcv_nxt k) < 0)"
    and "insert_back new (rev (rcv_buf k)) = Some rs"
  shows "rcv_inv (k\<lparr>rcv_buf := rev rs, nrcv_buf := nrcv_buf k + 1\<rparr>)"
proof -
  have w: "off (rcv_nxt k) (seg_sn new) < unat (rcv_wnd k)"
    using off_wnd [of "rcv_wnd k" "seg_sn new" "rcv_nxt k"] assms(1,2) by (auto simp: rcv_inv_def)
  have "case insert_back new (rev (rcv_buf k)) of
      None \<Rightarrow> seg_sn new \<in> seg_sn ` set (rev (rcv_buf k))
    | Some rs' \<Rightarrow> seg_sn new \<notin> seg_sn ` set (rev (rcv_buf k)) \<and>
        set rs' = insert new (set (rev (rcv_buf k))) \<and>
        length rs' = Suc (length (rev (rcv_buf k))) \<and>
        sorted_wrt (\<lambda>x y. off (rcv_nxt k) (seg_sn y) < off (rcv_nxt k) (seg_sn x)) rs'"
    by (rule insert_back_spec) (use assms w in \<open>force simp: rcv_inv_def rcv_order_def sorted_wrt_rev\<close>)+
  with assms w show ?thesis by (auto simp: rcv_inv_def rcv_order_def sorted_wrt_rev)
qed

lemma parse_data_inv [inv_intro]:
  assumes "rcv_inv k"
  shows "rcv_inv (ikcp_parse_data k new)"
proof (cases "insert_back new (rev (rcv_buf k))")
  case None
  with assms show ?thesis by (simp add: ikcp_parse_data_def rcv_move_inv)
next
  case (Some rs)
  with assms insert_back_inv [OF assms _ Some] show ?thesis
    by (auto simp: ikcp_parse_data_def intro: rcv_move_inv)
qed

section \<open>Reassembly\<close>

text \<open>
  The sender's stream is a function \<open>L\<close> from segment numbers to fragment number and data.
  \<open>rcv_coherent L R k\<close>: the application has consumed \<open>R\<close> segments, \<open>rcv_queue\<close> holds the
  next ones of the stream in order and without gaps, \<open>rcv_nxt\<close> is the number of the first
  missing one, and whatever waits in \<open>rcv_buf\<close> is the stream's segment of its number.
\<close>

definition payload :: "ikcpseg \<Rightarrow> u32 \<times> bytes" where
  "payload s = (seg_frg s, take (unat (seg_len s)) (seg_data s))"

definition rcv_pos :: "nat \<Rightarrow> ikcpcb \<Rightarrow> nat" where
  "rcv_pos R k = R + length (rcv_queue k)"

definition rcv_coherent :: "(nat \<Rightarrow> u32 \<times> bytes) \<Rightarrow> nat \<Rightarrow> ikcpcb \<Rightarrow> bool" where
  "rcv_coherent L R k \<longleftrightarrow>
     rcv_nxt k = of_nat (rcv_pos R k) \<and>
     map payload (rcv_queue k) = map L [R ..< rcv_pos R k] \<and>
     (\<forall>s \<in> set (rcv_buf k). payload s = L (rcv_pos R k + off (rcv_nxt k) (seg_sn s)))"

lemma rcv_step_coherent:
  assumes "rcv_inv k" "rcv_coherent L R k"
    and "rcv_buf k = s # ss" "seg_sn s = rcv_nxt k"
  shows "rcv_coherent L R (rcv_step s ss k)"
proof -
  have pos: "0 < off (rcv_nxt k) (seg_sn t)" if "t \<in> set ss" for t
    using assms that by (auto simp: rcv_inv_def rcv_order_def)
  have "payload s = L (rcv_pos R k)"
    using assms(2-4) by (auto simp: rcv_coherent_def off_self)
  moreover have "payload t = L (Suc (rcv_pos R k) + off (rcv_nxt k + 1) (seg_sn t))" if "t \<in> set ss" for t
    using assms(2,3) that pos [OF that] by (auto simp: rcv_coherent_def off_shift)
  ultimately show ?thesis
    using assms(2,3) by (auto simp: rcv_coherent_def rcv_step_def rcv_pos_def add.commute)
qed

lemma rcv_move_coherent:
  assumes "rcv_inv k" "rcv_coherent L R k"
  shows "rcv_coherent L R (rcv_move k)"
proof -
  have "rcv_inv (rcv_move k) \<and> rcv_coherent L R (rcv_move k)"
    by (rule rcv_move_rule) (use assms in \<open>auto intro: rcv_step_inv rcv_step_coherent\<close>)
  then show ?thesis by simp
qed

lemma insert_back_set:
  "insert_back new rs = Some rs' \<Longrightarrow> set rs' = insert new (set rs)"
  by (induction rs arbitrary: rs') (auto split: if_splits)

lemma parse_data_coherent:
  assumes "rcv_inv k" "rcv_coherent L R k"
    and "payload new = L (rcv_pos R k + off (rcv_nxt k) (seg_sn new))"
  shows "rcv_coherent L R (ikcp_parse_data k new)"
proof -
  let ?out = "itimediff (seg_sn new) (rcv_nxt k + rcv_wnd k) \<ge> 0 \<or> itimediff (seg_sn new) (rcv_nxt k) < 0"
  show ?thesis
  proof (cases "?out \<or> insert_back new (rev (rcv_buf k)) = None")
    case True
    with assms(1,2) show ?thesis by (auto simp: ikcp_parse_data_def rcv_move_coherent)
  next
    case False
    then obtain rs where rs: "insert_back new (rev (rcv_buf k)) = Some rs" by auto
    let ?k = "k\<lparr>rcv_buf := rev rs, nrcv_buf := nrcv_buf k + 1\<rparr>"
    have "rcv_coherent L R ?k"
      using assms(2,3) insert_back_set [OF rs] by (auto simp: rcv_coherent_def rcv_pos_def)
    moreover have "rcv_inv ?k"
      using insert_back_inv [OF assms(1) _ rs] False by auto
    ultimately show ?thesis using False rs by (auto simp: ikcp_parse_data_def rcv_move_coherent)
  qed
qed

text \<open>The move loop stops only at a gap or at a full queue.\<close>

lemma rcv_move_maximal:
  "rcv_buf (rcv_move k) = [] \<or> seg_sn (hd (rcv_buf (rcv_move k))) \<noteq> rcv_nxt (rcv_move k) \<or>
   rcv_wnd (rcv_move k) \<le> nrcv_que (rcv_move k)"
proof (induction k rule: rcv_move.induct)
  case (1 k)
  show ?case
  proof (cases "rcv_buf k")
    case Nil
    then show ?thesis by (simp add: rcv_move_Nil)
  next
    case (Cons s ss)
    show ?thesis
    proof (cases "seg_sn s = rcv_nxt k \<and> nrcv_que k < rcv_wnd k")
      case True
      with "1.IH" [OF Cons True] Cons show ?thesis by (simp add: rcv_move_Cons rcv_step_def)
    next
      case False
      with Cons have "rcv_move k = k" by (auto simp: rcv_move_Cons)
      with Cons False show ?thesis by auto
    qed
  qed
qed

lemma rcv_move_idem: "rcv_move (rcv_move k) = rcv_move k"
  using rcv_move_maximal [of k]
  by (cases "rcv_buf (rcv_move k)") (auto simp: rcv_move_Nil rcv_move_Cons)

section \<open>Reading and filing: the contracts\<close>

lemma recv_take_fields [simp]:
  "rcv_buf (recv_take b k) = rcv_buf k" "rcv_nxt (recv_take b k) = rcv_nxt k"
  "rcv_wnd (recv_take b k) = rcv_wnd k" "nrcv_buf (recv_take b k) = nrcv_buf k"
  by (simp_all add: recv_take_def Let_def)

lemma recv_recover_fields [simp]:
  "rcv_buf (recv_recover b k) = rcv_buf k" "rcv_nxt (recv_recover b k) = rcv_nxt k"
  "rcv_wnd (recv_recover b k) = rcv_wnd k" "rcv_queue (recv_recover b k) = rcv_queue k"
  "nrcv_buf (recv_recover b k) = nrcv_buf k" "nrcv_que (recv_recover b k) = nrcv_que k"
  by (simp_all add: recv_recover_def)

text \<open>How many segments a read consumes: up to and including the first with fragment 0.\<close>

fun msg_segs :: "ikcpseg list \<Rightarrow> nat" where
  "msg_segs [] = 0"
| "msg_segs (s # ss) = (if seg_frg s = 0 then 1 else Suc (msg_segs ss))"

lemma msg_segs_le: "msg_segs ss \<le> length ss"
  by (induction ss) auto

lemma msg_segs_pos: "ss \<noteq> [] \<Longrightarrow> 0 < msg_segs ss"
  by (cases ss) auto

lemma msg_segs_inner: "i + 1 < msg_segs ss \<Longrightarrow> seg_frg (ss ! i) \<noteq> 0"
proof (induction ss arbitrary: i)
  case (Cons s ss)
  then show ?case by (cases i) (auto split: if_splits)
qed simp

lemma merge_eq:
  "merge_fragment buf len ss =
     (buf @ concat (map (\<lambda>s. snd (payload s)) (take (msg_segs ss) ss)),
      peek_len len ss, drop (msg_segs ss) ss)"
  by (induction buf len ss rule: merge_fragment.induct) (auto simp: Let_def payload_def)

lemma recv_take_inv [inv_intro]:
  assumes "rcv_inv k"
  shows "rcv_inv (recv_take b k)"
  using assms msg_segs_le [of "rcv_queue k"]
  by (auto simp: rcv_inv_def recv_take_def merge_eq of_nat_diff Let_def)

lemma recv_recover_inv [inv_intro]: "rcv_inv k \<Longrightarrow> rcv_inv (recv_recover b k)"
  by (simp add: rcv_inv_def)

lemma recv_cases:
  assumes "ikcp_recv k len = Some (r, data, k')"
  obtains (fail) "r < 0" "data = []" "k' = k"
  | (ok) "0 \<le> r" "rcv_queue k \<noteq> []" "r \<le> \<bar>len\<bar>" "r = sint (peek_len 0 (rcv_queue k))"
      "data = fst (merge_fragment [] 0 (rcv_queue k))"
      "k' = recv_recover (nrcv_que k \<ge> rcv_wnd k) (rcv_move (recv_take (len < 0) k))"
proof (cases "rcv_queue k = [] \<or> ikcp_peeksize k < 0 \<or> \<bar>len\<bar> < ikcp_peeksize k")
  case True
  with assms show ?thesis by (intro fail) (auto simp: ikcp_recv_def Let_def split: if_splits)
next
  case False
  then have p: "ikcp_peeksize k = sint (peek_len 0 (rcv_queue k))"
    by (intro peeksize_eq) simp
  with False assms show ?thesis
    by (intro ok) (simp_all add: ikcp_recv_def Let_def merge_len)
qed

lemma recv_inv:
  assumes "rcv_inv k" "ikcp_recv k len = Some (r, data, k')"
  shows "rcv_inv k'"
  using assms(2)
proof (cases rule: recv_cases)
  case fail
  with assms(1) show ?thesis by simp
next
  case ok
  with assms(1) show ?thesis by (simp add: recv_recover_inv rcv_move_inv recv_take_inv)
qed

lemma recv_take_coherent:
  assumes "rcv_coherent L R k"
  shows "rcv_coherent L (R + msg_segs (rcv_queue k)) (recv_take False k)"
proof -
  let ?n = "msg_segs (rcv_queue k)"
  have n: "?n \<le> length (rcv_queue k)" by (rule msg_segs_le)
  have "map payload (drop ?n (rcv_queue k)) = drop ?n (map L [R ..< rcv_pos R k])"
    using assms by (simp only: rcv_coherent_def flip: drop_map)
  also have "\<dots> = map L [R + ?n ..< rcv_pos R k]"
    by (simp add: drop_map)
  finally show ?thesis
    using assms n by (auto simp: rcv_coherent_def recv_take_def merge_eq rcv_pos_def)
qed

lemma recv_coherent_n:
  assumes "rcv_inv k" "rcv_coherent L R k"
    and "ikcp_recv k len = Some (r, data, k')" "0 \<le> len" "0 \<le> r"
  shows "\<exists>n > 0. n = msg_segs (rcv_queue k) \<and> data = concat (map (\<lambda>i. snd (L i)) [R ..< R + n]) \<and>
    (\<forall>i. R \<le> i \<and> i + 1 < R + n \<longrightarrow> fst (L i) \<noteq> 0) \<and> rcv_coherent L (R + n) k'"
  using assms(3)
proof (cases rule: recv_cases)
  case fail
  with assms(5) show ?thesis by simp
next
  case ok
  let ?n = "msg_segs (rcv_queue k)"
  have n: "?n \<le> length (rcv_queue k)" by (rule msg_segs_le)
  have L: "payload (rcv_queue k ! i) = L (R + i)" if "i < length (rcv_queue k)" for i
    using assms(2) that nth_map [of i "rcv_queue k" payload] by (simp add: rcv_coherent_def rcv_pos_def)
  have "take ?n (map payload (rcv_queue k)) = map L [R ..< R + ?n]"
    using assms(2) n by (simp add: rcv_coherent_def rcv_pos_def take_map)
  then have "map (\<lambda>s. snd (payload s)) (take ?n (rcv_queue k)) = map (\<lambda>i. snd (L i)) [R ..< R + ?n]"
    by (drule_tac arg_cong [of _ _ "map snd"]) (simp add: take_map comp_def)
  then have "data = concat (map (\<lambda>i. snd (L i)) [R ..< R + ?n])"
    using ok by (simp add: merge_eq)
  moreover have "fst (L i) \<noteq> 0" if i: "R \<le> i" "i + 1 < R + ?n" for i
  proof -
    have "i - R + 1 < ?n" "i - R < length (rcv_queue k)" using i n by linarith+
    then show ?thesis
      using msg_segs_inner [of "i - R" "rcv_queue k"] arg_cong [OF L [of "i - R"], of fst] i(1)
      by (simp add: payload_def)
  qed
  moreover have "rcv_coherent L (R + ?n) k'"
    using rcv_move_coherent [OF recv_take_inv [OF assms(1)] recv_take_coherent [OF assms(2)]]
      ok(6) assms(4)
    by (simp add: rcv_coherent_def rcv_pos_def)
  ultimately show ?thesis using msg_segs_pos [OF ok(2)] by blast
qed

text \<open>Memory: a window bounds what the receiver holds.\<close>

lemma rcv_buf_bounded:
  assumes "rcv_inv k"
  shows "length (rcv_buf k) \<le> unat (rcv_wnd k)"
proof -
  let ?f = "\<lambda>s. off (rcv_nxt k) (seg_sn s)"
  have "sorted_wrt (<) (map ?f (rcv_buf k))"
    using assms by (simp add: rcv_inv_def rcv_order_def sorted_wrt_map)
  then have "distinct (map ?f (rcv_buf k))" by (simp add: strict_sorted_iff)
  moreover have "set (map ?f (rcv_buf k)) \<subseteq> {..< unat (rcv_wnd k)}"
    using assms by (auto simp: rcv_inv_def)
  ultimately show ?thesis
    by (metis card_lessThan card_mono distinct_card finite_lessThan length_map)
qed

text \<open>
  In a stream whose fragment numbers count down to 0 within a message, as \<open>ikcp_write\<close>
  assigns them, a successful read returns one whole message.
\<close>

definition frg_stream :: "(nat \<Rightarrow> u32 \<times> bytes) \<Rightarrow> bool" where
  "frg_stream L \<longleftrightarrow> (\<forall>i. unat (fst (L i)) < 256 \<and>
     (fst (L i) \<noteq> 0 \<longrightarrow> unat (fst (L (Suc i))) = unat (fst (L i)) - 1))"

lemma frg_stream_count:
  assumes "frg_stream L"
  shows "j \<le> unat (fst (L i)) \<Longrightarrow> unat (fst (L (i + j))) = unat (fst (L i)) - j"
proof (induction j)
  case (Suc j)
  then have "unat (fst (L (i + j))) = unat (fst (L i)) - j" "fst (L (i + j)) \<noteq> 0"
    by (auto simp: unat_gt_0 [symmetric])
  with assms show ?case by (auto simp: frg_stream_def)
qed simp

lemma msg_segs_last:
  "m < length ss \<Longrightarrow> seg_frg (ss ! m) = 0 \<Longrightarrow>
   0 < msg_segs ss \<and> seg_frg (ss ! (msg_segs ss - 1)) = 0"
proof (induction ss arbitrary: m)
  case (Cons s ss)
  then show ?case
    by (cases m; cases "msg_segs ss") (auto simp: nth_Cons' split: if_splits)
qed simp

lemma queue_payload:
  "rcv_coherent L R k \<Longrightarrow> i < length (rcv_queue k) \<Longrightarrow> payload (rcv_queue k ! i) = L (R + i)"
  using nth_map [of i "rcv_queue k" payload] by (simp add: rcv_coherent_def rcv_pos_def)

lemma recv_last_fragment:
  assumes "rcv_inv k" "rcv_coherent L R k" "frg_stream L" "rcv_queue k \<noteq> []" "0 \<le> ikcp_peeksize k"
  shows "fst (L (R + msg_segs (rcv_queue k) - 1)) = 0"
proof -
  let ?q = "rcv_queue k" and ?f = "unat (fst (L R))"
  obtain s ss where q: "?q = s # ss" using assms(4) by (cases ?q) auto
  have frg: "seg_frg (?q ! i) = fst (L (R + i))" if "i < length ?q" for i
    using queue_payload [OF assms(2) that] by (auto simp: payload_def dest: arg_cong [of _ _ fst])
  have f: "seg_frg s = fst (L R)" using frg [of 0] q by simp
  have "?f < length ?q"
  proof (cases "seg_frg s = 0")
    case True
    then show ?thesis using f q by simp
  next
    case False
    with assms(5) q have "seg_frg s + 1 \<le> nrcv_que k"
      by (auto simp: ikcp_peeksize_def split: if_splits)
    moreover have "?f < 256" using assms(3) by (simp add: frg_stream_def)
    then have "unat (seg_frg s + 1) = ?f + 1"
      using f unat_add_u32 [of "seg_frg s" 1] by simp
    moreover have "unat (nrcv_que k) = length ?q"
      using assms(1) by (auto simp: rcv_inv_def unat_of_nat_u32)
    ultimately show ?thesis by (simp add: word_le_nat_alt)
  qed
  moreover from this have "seg_frg (?q ! ?f) = 0"
    using frg [of ?f] frg_stream_count [OF assms(3), of ?f R] by (simp add: unat_eq_0)
  ultimately have "0 < msg_segs ?q" "seg_frg (?q ! (msg_segs ?q - 1)) = 0"
    using msg_segs_last [of ?f ?q] by auto
  with frg [of "msg_segs ?q - 1"] msg_segs_le [of ?q] show ?thesis by simp
qed

lemma recv_one:
  assumes "rcv_inv k" "rcv_coherent L R k" "frg_stream L" "rcv_queue k \<noteq> []"
    and "ikcp_recv k len = Some (r, data, k')" "0 \<le> len" "0 \<le> r"
  shows "\<exists>n > 0. data = concat (map (\<lambda>i. snd (L i)) [R ..< R + n]) \<and> fst (L (R + n - 1)) = 0 \<and>
    (\<forall>i. R \<le> i \<and> i + 1 < R + n \<longrightarrow> fst (L i) \<noteq> 0) \<and> rcv_coherent L (R + n) k'"
proof -
  let ?n = "msg_segs (rcv_queue k)"
  have peek: "0 \<le> ikcp_peeksize k"
    using assms(5,7) by (auto simp: ikcp_recv_def Let_def split: if_splits)
  obtain n where n: "n = ?n" "data = concat (map (\<lambda>i. snd (L i)) [R ..< R + n])"
    "\<forall>i. R \<le> i \<and> i + 1 < R + n \<longrightarrow> fst (L i) \<noteq> 0" "rcv_coherent L (R + n) k'"
    using recv_coherent_n [OF assms(1,2,5-7)] by blast
  with recv_last_fragment [OF assms(1-4) peek] msg_segs_pos [OF assms(4)] show ?thesis
    by (intro exI [of _ n]) simp
qed

section \<open>Duplicates\<close>

text \<open>Filing the same segment twice is filing it once, wherever the first copy went.\<close>

lemma insert_back_dup:
  assumes "sorted_wrt (\<lambda>x y. off b (seg_sn y) < off b (seg_sn x)) rs"
    and "\<And>s. s \<in> set rs \<Longrightarrow> off b (seg_sn s) < 2 ^ 31" "off b (seg_sn new) < 2 ^ 31"
    and "seg_sn new \<in> seg_sn ` set rs"
  shows "insert_back new rs = None"
  using insert_back_spec [OF assms(1-3)] assms(4) by (auto split: option.splits)

lemma insert_back_None: "insert_back new rs = None \<Longrightarrow> seg_sn new \<in> seg_sn ` set rs"
  by (induction rs) (auto split: if_splits)

lemma rcv_move_where:
  assumes "rcv_inv k" "s \<in> set (rcv_buf k)"
  shows "s \<in> set (rcv_buf (rcv_move k)) \<or> itimediff (seg_sn s) (rcv_nxt (rcv_move k)) < 0"
proof -
  let ?P = "\<lambda>k'. rcv_inv k' \<and> rcv_wnd k' = rcv_wnd k \<and>
    (\<exists>m. rcv_nxt k' = rcv_nxt k + of_nat m \<and> length (rcv_queue k') = length (rcv_queue k) + m \<and>
      (s \<in> set (rcv_buf k') \<or> off (rcv_nxt k) (seg_sn s) < m))"
  have "?P (rcv_move k)"
  proof (rule rcv_move_rule)
    show "?P k" using assms by (auto intro!: exI [of _ 0])
  next
    fix k' t ts
    assume P: "?P k'" and b: "rcv_buf k' = t # ts" "seg_sn t = rcv_nxt k'" "nrcv_que k' < rcv_wnd k'"
    from P obtain m where m: "rcv_nxt k' = rcv_nxt k + of_nat m"
      "length (rcv_queue k') = length (rcv_queue k) + m"
      "s \<in> set (rcv_buf k') \<or> off (rcv_nxt k) (seg_sn s) < m" by blast
    have "m < 2 ^ 32" using P m(2) by (auto simp: rcv_inv_def)
    then have "off (rcv_nxt k) (seg_sn t) = m" using b(2) m(1) by (simp add: off_of_nat)
    then have "s \<in> set ts \<or> off (rcv_nxt k) (seg_sn s) < Suc m"
      using m(3) b(1) by auto
    moreover have "rcv_inv (rcv_step t ts k')" using P b by (intro rcv_step_inv) auto
    ultimately show "?P (rcv_step t ts k')"
      using P m by (auto simp: rcv_step_def intro!: exI [of _ "Suc m"])
  qed
  then obtain m where m: "rcv_inv (rcv_move k)" "rcv_wnd (rcv_move k) = rcv_wnd k"
    "rcv_nxt (rcv_move k) = rcv_nxt k + of_nat m"
    "length (rcv_queue (rcv_move k)) = length (rcv_queue k) + m"
    "s \<in> set (rcv_buf (rcv_move k)) \<or> off (rcv_nxt k) (seg_sn s) < m" by blast
  have small: "m < 2 ^ 31" using m by (auto simp: rcv_inv_def)
  have o: "off (rcv_nxt k) (rcv_nxt (rcv_move k)) = m"
    using m(3) small by (simp add: off_of_nat)
  show ?thesis
    using m(5) itimediff_off [of "rcv_nxt k" "seg_sn s" "rcv_nxt (rcv_move k)"] small o by auto
qed

lemma parse_data_idem:
  assumes "rcv_inv k"
  shows "ikcp_parse_data (ikcp_parse_data k new) new = ikcp_parse_data k new"
proof -
  let ?out = "\<lambda>k. itimediff (seg_sn new) (rcv_nxt k + rcv_wnd k) \<ge> 0 \<or> itimediff (seg_sn new) (rcv_nxt k) < 0"
  let ?m = "ikcp_parse_data k new"
  show ?thesis
  proof (cases "?out k")
    case True
    then show ?thesis by (simp add: ikcp_parse_data_def)
  next
    case False
    define k1 where "k1 = (case insert_back new (rev (rcv_buf k)) of None \<Rightarrow> k
      | Some buf \<Rightarrow> k\<lparr>rcv_buf := rev buf, nrcv_buf := nrcv_buf k + 1\<rparr>)"
    have m: "?m = rcv_move k1"
      using False by (auto simp: ikcp_parse_data_def k1_def split: option.splits)
    have i1: "rcv_inv k1"
      using assms insert_back_inv [OF assms False] by (auto simp: k1_def split: option.splits)
    have w: "off (rcv_nxt k) (seg_sn new) < unat (rcv_wnd k)"
      using off_wnd [of "rcv_wnd k" "seg_sn new" "rcv_nxt k"] assms False by (auto simp: rcv_inv_def)
    have "\<exists>s \<in> set (rcv_buf k1). seg_sn s = seg_sn new"
    proof (cases "insert_back new (rev (rcv_buf k))")
      case None
      with insert_back_None [OF None] show ?thesis by (auto simp: k1_def)
    next
      case (Some rs)
      with insert_back_set [OF Some] show ?thesis by (auto simp: k1_def)
    qed
    then obtain s where s: "s \<in> set (rcv_buf k1)" "seg_sn s = seg_sn new" by blast
    have im: "rcv_inv ?m" using i1 m by (simp add: rcv_move_inv)
    show ?thesis
    proof (cases "?out ?m")
      case True
      then show ?thesis by (simp add: ikcp_parse_data_def [of ?m])
    next
      case in2: False
      with rcv_move_where [OF i1 s(1)] s(2) m have "seg_sn new \<in> seg_sn ` set (rcv_buf ?m)"
        by (auto intro: rev_image_eqI)
      then have "insert_back new (rev (rcv_buf ?m)) = None"
        using im off_wnd [of "rcv_wnd ?m" "seg_sn new" "rcv_nxt ?m"] in2
        by (intro insert_back_dup [of "rcv_nxt ?m"])
          (force simp: rcv_inv_def rcv_order_def sorted_wrt_rev)+
      with in2 have "ikcp_parse_data ?m new = rcv_move ?m"
        by (simp add: ikcp_parse_data_def [of ?m] del: not_le not_less)
      then show ?thesis by (simp add: m rcv_move_idem)
    qed
  qed
qed

end
