(* ===== verification/Ikcp_Send.thy ===== *)
theory Ikcp_Send
  imports Ikcp_Types
begin

text \<open>
  The writing side of the KCP core: \<open>ikcp_write\<close> with its two entry points \<open>ikcp_send\<close> and
  \<open>ikcp_append\<close>. The lemmas give the fragmentation of a message, the byte contents of
  \<open>snd_queue\<close> in message and in stream mode, the error cases and the size invariant of the
  queued segments.
\<close>

section \<open>Operations\<close>

text \<open>
  A call passes the pointer \<open>buffer\<close> with \<open>len\<close> bytes behind it: \<open>buf\<close> is that block and
  the C argument \<open>len\<close> is its length, or a negative number with which the call is refused. The
  model takes the length of \<open>buf\<close> where \<open>len\<close> is not negative, so blocks of \<open>2 ^ 31\<close> bytes and more,
  which an \<open>int\<close> cannot describe, are outside of the code.
  \<open>buffer\<close> itself is not null, as in every call of this code base.
\<close>

text \<open>The fragmentation loop, \<open>count\<close> times: cut off at most one \<open>mss\<close>, number downwards.\<close>

fun write_fragments :: "bool \<Rightarrow> nat \<Rightarrow> nat \<Rightarrow> nat \<Rightarrow> bytes \<Rightarrow> ikcpcb \<Rightarrow> ikcpcb" where
  "write_fragments stream_mode count i 0 buf k = k"
| "write_fragments stream_mode count i (Suc n) buf k =
     (let size = (if length buf > unat (mss k) then unat (mss k) else length buf);
          seg = (seg_new (take size buf) (of_nat size))
            \<lparr>seg_frg := (if stream_mode then 0 else of_nat (count - i - 1))\<rparr>
      in write_fragments stream_mode count (i + 1) n (drop size buf)
           (k\<lparr>snd_queue := snd_queue k @ [seg], nsnd_que := nsnd_que k + 1\<rparr>))"

text \<open>Stream mode first fills up the last queued segment: a new segment with the old data and
  the first \<open>extend\<close> bytes takes its place.\<close>

definition write_extend :: "bytes \<Rightarrow> ikcpcb \<Rightarrow> bytes \<times> ikcpcb" where
  "write_extend buf k =
     (if snd_queue k = [] then (buf, k)
      else
        let old = last (snd_queue k) in
        if seg_len old < mss k then
          let capacity = unat (mss k - seg_len old);
              extend = (if length buf < capacity then length buf else capacity);
              seg = (seg_new (take (unat (seg_len old)) (seg_data old) @ take extend buf)
                       (seg_len old + of_nat extend))\<lparr>seg_frg := 0\<rparr>
          in (drop extend buf, k\<lparr>snd_queue := butlast (snd_queue k) @ [seg]\<rparr>)
        else (buf, k))"

definition write_count :: "ikcpcb \<Rightarrow> nat \<Rightarrow> nat" where
  "write_count k len =
     (if len \<le> unat (mss k) then 1 else (len + unat (mss k) - 1) div unat (mss k))"

text \<open>
  The result is the C return value and the new control block; \<open>None\<close> is the failure of
  \<open>assert(kcp->mss > 0)\<close>, or an \<open>mss\<close> that is negative as a C \<open>int\<close>, with which the
  fragment sizes would be negative.
\<close>

definition ikcp_write :: "ikcpcb \<Rightarrow> bytes \<Rightarrow> int \<Rightarrow> bool \<Rightarrow> (int \<times> ikcpcb) option" where
  "ikcp_write k buf len always_stream =
     (if sint (mss k) \<le> 0 then None
      else if len < 0 then Some (-1, k)
      else
        let stream_mode = (stream k \<noteq> 0 \<or> always_stream);
            bk = (if stream_mode then write_extend buf k else (buf, k));
            buf = fst bk; k = snd bk
        in if stream_mode \<and> buf = [] then Some (0, k)
           else
             let count = write_count k (length buf) in
             if \<not> stream_mode \<and> count \<ge> unat IKCP_WND_RCV then Some (-2, k)
             else
               let count = (if count = 0 then 1 else count)
               in Some (0, write_fragments stream_mode count 0 count buf k))"

definition ikcp_send :: "ikcpcb \<Rightarrow> bytes \<Rightarrow> int \<Rightarrow> (int \<times> ikcpcb) option" where
  "ikcp_send k buf len = ikcp_write k buf len False"

definition ikcp_append :: "ikcpcb \<Rightarrow> bytes \<Rightarrow> int \<Rightarrow> (int \<times> ikcpcb) option" where
  "ikcp_append k buf len = ikcp_write k buf len True"

definition ikcp_stream :: "ikcpcb \<Rightarrow> int \<Rightarrow> ikcpcb" where
  "ikcp_stream k s = k\<lparr>stream := (if s \<noteq> 0 then 1 else 0)\<rparr>"

definition ikcp_waitsnd :: "ikcpcb \<Rightarrow> u32" where
  "ikcp_waitsnd k = nsnd_buf k + nsnd_que k"

section \<open>Fragmentation\<close>

text \<open>The segments that the loop appends, by themselves.\<close>

fun frag_segs :: "nat \<Rightarrow> bool \<Rightarrow> nat \<Rightarrow> nat \<Rightarrow> nat \<Rightarrow> bytes \<Rightarrow> ikcpseg list" where
  "frag_segs m mode count i 0 buf = []"
| "frag_segs m mode count i (Suc n) buf =
     (seg_new (take m buf) (of_nat (min m (length buf))))
       \<lparr>seg_frg := (if mode then 0 else of_nat (count - i - 1))\<rparr>
     # frag_segs m mode count (i + 1) n (drop m buf)"

lemma write_fragments_eq:
  "write_fragments mode count i n buf k =
     k\<lparr>snd_queue := snd_queue k @ frag_segs (unat (mss k)) mode count i n buf,
       nsnd_que := nsnd_que k + of_nat n\<rparr>"
proof (induction n arbitrary: i buf k)
  case (Suc n)
  then show ?case
    by (cases "length buf > unat (mss k)") (simp_all add: Let_def min_def not_less algebra_simps)
qed simp

lemma length_frag_segs [simp]: "length (frag_segs m mode count i n buf) = n"
  by (induction n arbitrary: i buf) auto

lemma frag_segs_data:
  "concat (map seg_data (frag_segs m mode count i n buf)) = take (n * m) buf"
proof (induction n arbitrary: i buf)
  case (Suc n)
  then show ?case by (simp add: seg_new_def take_add)
qed simp

lemma frag_segs_seg:
  assumes "m < 2 ^ 32" "s \<in> set (frag_segs m mode count i n buf)"
  shows "seg_ok s \<and> unat (seg_len s) \<le> m"
  using assms(2)
proof (induction n arbitrary: i buf)
  case (Suc n)
  have "unat (of_nat (min m (length buf)) :: u32) = min m (length buf)"
    by (rule unat_of_nat_u32) (use assms(1) in simp)
  with Suc show ?case by (auto simp: seg_new_def seg_ok_def)
qed simp

lemma frag_segs_frg:
  "map seg_frg (frag_segs m mode count i n buf) =
     map (\<lambda>j. if mode then 0 else of_nat (count - j - 1)) [i ..< i + n]"
proof (induction n arbitrary: i buf)
  case (Suc n)
  then show ?case by (simp add: seg_new_def upt_conv_Cons del: upt_Suc)
qed simp

lemma count_enough: "0 < m \<Longrightarrow> len \<le> ((len + m - 1) div m) * (m :: nat)"
proof -
  assume "0 < m"
  have "len + m - 1 = ((len + m - 1) div m) * m + (len + m - 1) mod m" by simp
  moreover have "(len + m - 1) mod m < m" using \<open>0 < m\<close> by simp
  ultimately show ?thesis by linarith
qed

lemma count_tight: "0 < m \<Longrightarrow> 0 < len \<Longrightarrow> ((len + m - 1) div m - 1) * m < (len :: nat)"
proof -
  assume m: "0 < m" "0 < len"
  define q where "q = (len + m - 1) div m"
  have "q * m \<le> len + m - 1" by (simp add: q_def)
  then have "(q - 1) * m < len" using m by (cases q) auto
  then show ?thesis by (simp add: q_def)
qed

definition mss_ok :: "ikcpcb \<Rightarrow> bool" where
  "mss_ok k \<longleftrightarrow> 0 < unat (mss k) \<and> unat (mss k) < 2 ^ 31"

lemma mss_ok_sint: "mss_ok k \<longleftrightarrow> 0 < sint (mss k)"
  using unat_u32 [of "mss k"] by (auto simp: mss_ok_def sint_u32 simp del: of_nat_unat)

lemma write_count_bounds:
  assumes "mss_ok k"
  shows "0 < write_count k len" "len \<le> write_count k len * unat (mss k)"
    "0 < len \<Longrightarrow> (write_count k len - 1) * unat (mss k) < len"
proof -
  have m: "0 < unat (mss k)" using assms by (simp add: mss_ok_def)
  show "len \<le> write_count k len * unat (mss k)"
    using count_enough [OF m] by (simp add: write_count_def)
  show "0 < len \<Longrightarrow> (write_count k len - 1) * unat (mss k) < len"
    using count_tight [OF m] by (simp add: write_count_def)
  show "0 < write_count k len"
    using count_enough [OF m, of len] by (auto simp: write_count_def intro!: gr0I)
qed

section \<open>Message mode\<close>

lemma IKCP_WND_RCV_unat: "unat IKCP_WND_RCV = 128"
  by (simp add: IKCP_WND_RCV_def)

text \<open>What a successful \<open>ikcp_send\<close> queues: fragments of at most \<open>mss\<close> bytes that carry the
  message, numbered down to 0.\<close>

lemma send_message:
  assumes "mss_ok k" "stream k = 0" "0 \<le> len" "write_count k (length buf) < 128"
  shows "ikcp_send k buf len = Some (0, k\<lparr>
     snd_queue := snd_queue k @ frag_segs (unat (mss k)) False (write_count k (length buf)) 0
       (write_count k (length buf)) buf,
     nsnd_que := nsnd_que k + of_nat (write_count k (length buf))\<rparr>)"
proof -
  have "0 < sint (mss k)" using assms(1) by (simp add: mss_ok_sint)
  with assms write_count_bounds(1) [OF assms(1), of "length buf"] show ?thesis
    by (simp add: ikcp_send_def ikcp_write_def Let_def write_fragments_eq IKCP_WND_RCV_unat)
qed

text \<open>A message of more than 127 full segments is refused, and only such a message.\<close>

lemma write_count_large:
  assumes "mss_ok k"
  shows "128 \<le> write_count k len \<longleftrightarrow> 127 * unat (mss k) < len"
proof
  assume c: "128 \<le> write_count k len"
  then have "len \<noteq> 0" by (intro notI) (simp add: write_count_def)
  then have "(write_count k len - 1) * unat (mss k) < len"
    using write_count_bounds(3) [OF assms] by simp
  moreover have "127 * unat (mss k) \<le> (write_count k len - 1) * unat (mss k)"
    by (rule mult_le_mono1) (use c in simp)
  ultimately show "127 * unat (mss k) < len" by linarith
next
  assume "127 * unat (mss k) < len"
  then have "127 * unat (mss k) < write_count k len * unat (mss k)"
    using write_count_bounds(2) [OF assms, of len] by linarith
  then show "128 \<le> write_count k len" by simp
qed

lemma send_too_long:
  assumes "mss_ok k" "stream k = 0" "0 \<le> len"
  shows "ikcp_send k buf len = Some (-2, k) \<longleftrightarrow> 127 * unat (mss k) < length buf"
proof -
  have "0 < sint (mss k)" using assms(1) by (simp add: mss_ok_sint)
  with assms show ?thesis
    unfolding write_count_large [OF assms(1), symmetric]
    by (simp add: ikcp_send_def ikcp_write_def Let_def IKCP_WND_RCV_unat)
qed

section \<open>Stream mode\<close>

definition queue_bytes :: "ikcpseg list \<Rightarrow> bytes" where
  "queue_bytes ss = concat (map (\<lambda>s. take (unat (seg_len s)) (seg_data s)) ss)"

lemma queue_bytes_simps [simp]:
  "queue_bytes [] = []" "queue_bytes (s # ss) = take (unat (seg_len s)) (seg_data s) @ queue_bytes ss"
  "queue_bytes (xs @ ys) = queue_bytes xs @ queue_bytes ys"
  by (simp_all add: queue_bytes_def)

lemma queue_bytes_ok: "(\<And>s. s \<in> set ss \<Longrightarrow> seg_ok s) \<Longrightarrow> queue_bytes ss = concat (map seg_data ss)"
  by (induction ss) (auto simp: seg_ok_def)

text \<open>Queued segments are well formed and at most \<open>mss\<close> long.\<close>

definition snd_sizes :: "ikcpcb \<Rightarrow> bool" where
  "snd_sizes k \<longleftrightarrow> (\<forall>s \<in> set (snd_queue k). seg_ok s \<and> unat (seg_len s) \<le> unat (mss k))"

lemma extend_cases:
  assumes "mss_ok k" "snd_sizes k"
  obtains (same) "write_extend buf k = (buf, k)"
  | (filled) old e seg where "snd_queue k \<noteq> []" "old = last (snd_queue k)"
      "e \<le> length buf" "unat (seg_len old) + e \<le> unat (mss k)"
      "e = length buf \<or> unat (seg_len old) + e = unat (mss k)"
      "seg_data seg = seg_data old @ take e buf" "unat (seg_len seg) = unat (seg_len old) + e"
      "seg_frg seg = 0"
      "write_extend buf k = (drop e buf, k\<lparr>snd_queue := butlast (snd_queue k) @ [seg]\<rparr>)"
proof (cases "snd_queue k = [] \<or> \<not> seg_len (last (snd_queue k)) < mss k")
  case True
  then show ?thesis by (intro same) (auto simp: write_extend_def Let_def)
next
  case False
  let ?old = "last (snd_queue k)"
  let ?c = "unat (mss k - seg_len ?old)"
  define e where "e = (if length buf < ?c then length buf else ?c)"
  have lt: "unat (seg_len ?old) < unat (mss k)" using False by (simp add: word_less_nat_alt)
  have c: "?c = unat (mss k) - unat (seg_len ?old)"
    by (rule unat_sub) (use lt in \<open>simp add: word_le_nat_alt\<close>)
  have ok: "seg_ok ?old" using assms(2) False by (simp add: snd_sizes_def)
  have e: "unat (seg_len ?old) + e \<le> unat (mss k)" using lt c by (auto simp: e_def)
  have m: "unat (mss k) < 2 ^ 31" using assms(1) by (simp add: mss_ok_def)
  have ue: "unat (of_nat e :: u32) = e" by (rule unat_of_nat_u32) (use e m in simp)
  have "unat (seg_len ?old + of_nat e) = unat (seg_len ?old) + e"
    using unat_add_u32 [of "seg_len ?old" "of_nat e"] e m ue by simp
  then show ?thesis
    by (intro filled [of ?old e "(seg_new (take (unat (seg_len ?old)) (seg_data ?old) @ take e buf)
        (seg_len ?old + of_nat e))\<lparr>seg_frg := 0\<rparr>"])
      (use False e c lt ok in \<open>auto simp: write_extend_def Let_def e_def seg_new_def seg_ok_def\<close>)
qed

lemma write_extend_spec:
  assumes "mss_ok k" "snd_sizes k" "write_extend buf k = (buf', k')"
  shows "queue_bytes (snd_queue k') @ buf' = queue_bytes (snd_queue k) @ buf"
    "snd_sizes k'" "mss k' = mss k" "length (snd_queue k') = length (snd_queue k)"
    "nsnd_que k' = nsnd_que k"
proof -
  have "queue_bytes (snd_queue k') @ buf' = queue_bytes (snd_queue k) @ buf \<and>
    snd_sizes k' \<and> mss k' = mss k \<and> length (snd_queue k') = length (snd_queue k) \<and>
    nsnd_que k' = nsnd_que k"
    using assms(1,2)
  proof (cases rule: extend_cases [where buf = buf])
    case same
    with assms show ?thesis by simp
  next
    case (filled old e seg)
    have q: "snd_queue k = butlast (snd_queue k) @ [old]" using filled by simp
    have ok: "seg_ok old" "seg_ok seg"
      using assms(2) filled by (auto simp: snd_sizes_def seg_ok_def)
    have r: "buf' = drop e buf" "snd_queue k' = butlast (snd_queue k) @ [seg]"
      "mss k' = mss k" "nsnd_que k' = nsnd_que k"
      using assms(3) filled(9) by auto
    have "queue_bytes (snd_queue k) = queue_bytes (butlast (snd_queue k)) @ seg_data old"
      using ok by (subst q) (simp add: seg_ok_def)
    then have b: "queue_bytes (snd_queue k') @ buf' = queue_bytes (snd_queue k) @ buf"
      using ok filled(3,6,7) r by (simp add: seg_ok_def)
    moreover have "snd_sizes k'"
      using assms(2) r ok filled by (auto simp: snd_sizes_def dest: in_set_butlastD)
    moreover have "length (snd_queue k') = length (snd_queue k)"
      using r q by (metis length_append_singleton)
    ultimately show ?thesis using r by simp
  qed
  then show "queue_bytes (snd_queue k') @ buf' = queue_bytes (snd_queue k) @ buf"
    "snd_sizes k'" "mss k' = mss k" "length (snd_queue k') = length (snd_queue k)"
    "nsnd_que k' = nsnd_que k" by auto
qed

lemma fragments_spec:
  assumes "mss_ok k" "snd_sizes k" "length buf \<le> n * unat (mss k)"
  shows "queue_bytes (snd_queue (write_fragments mode count i n buf k)) = queue_bytes (snd_queue k) @ buf"
    "snd_sizes (write_fragments mode count i n buf k)"
proof -
  have m: "unat (mss k) < 2 ^ 32" using assms(1) by (simp add: mss_ok_def)
  note seg = frag_segs_seg [OF m, of _ mode count i n buf]
  show "snd_sizes (write_fragments mode count i n buf k)"
    using assms(2) seg by (auto simp: snd_sizes_def write_fragments_eq)
  have "queue_bytes (frag_segs (unat (mss k)) mode count i n buf) = buf"
    using queue_bytes_ok [of "frag_segs (unat (mss k)) mode count i n buf"] seg assms(3)
    by (simp add: frag_segs_data)
  then show "queue_bytes (snd_queue (write_fragments mode count i n buf k)) = queue_bytes (snd_queue k) @ buf"
    by (simp add: write_fragments_eq)
qed

text \<open>Whatever the mode, a successful write appends exactly the caller's bytes.\<close>

lemma write_bytes:
  assumes "mss_ok k" "snd_sizes k" "ikcp_write k buf len always = Some (0, k')"
  shows "queue_bytes (snd_queue k') = queue_bytes (snd_queue k) @ buf \<and> snd_sizes k'"
proof -
  let ?mode = "stream k \<noteq> 0 \<or> always"
  obtain buf1 k1 where e: "(if ?mode then write_extend buf k else (buf, k)) = (buf1, k1)"
    by fastforce
  have e1: "queue_bytes (snd_queue k1) @ buf1 = queue_bytes (snd_queue k) @ buf"
    "snd_sizes k1" "mss k1 = mss k"
    using write_extend_spec [OF assms(1,2)] e assms(2) by (auto split: if_splits)
  have m1: "mss_ok k1" using assms(1) e1 by (simp add: mss_ok_def)
  note wc = write_count_bounds [OF m1, of "length buf1"]
  show ?thesis
  proof (cases "?mode \<and> buf1 = []")
    case True
    with assms(3) e e1 show ?thesis by (auto simp: ikcp_write_def Let_def split: if_splits)
  next
    case False
    then have "k' = write_fragments ?mode (write_count k1 (length buf1)) 0 (write_count k1 (length buf1)) buf1 k1"
      using assms(3) e wc(1) by (auto simp: ikcp_write_def Let_def split: if_splits)
    then show ?thesis using fragments_spec [OF m1 e1(2) wc(2)] e1(1) by simp
  qed
qed

end
