(* ===== verification/Ikcp_Ack.thy ===== *)
theory Ikcp_Ack
  imports Ikcp_Types "HOL-Library.Signed_Division"
begin

text \<open>
  Acknowledgement processing of the KCP core: the round-trip estimator \<open>ikcp_update_ack\<close>,
  the removal of acknowledged segments from \<open>snd_buf\<close> (\<open>ikcp_parse_ack\<close>,
  \<open>ikcp_parse_una\<close>, \<open>ikcp_shrink_buf\<close>), the fast-retransmit counters
  (\<open>ikcp_parse_fastack\<close>) and the list of acknowledgements to send (\<open>ikcp_ack_push\<close>,
  \<open>ikcp_ack_get\<close>). The lemmas bound the timeout, keep \<open>snd_buf\<close> ordered inside the send
  window and show that the growing array stores the acknowledgements in order.
\<close>

section \<open>Round-trip time\<close>

text \<open>
  The fields are 32-bit signed integers read with \<open>sint\<close>; C division truncates; \<open>delta\<close>
  is a \<open>long\<close>, so the sum with it is taken exactly and narrowed when stored. Products
  wrap in 32 bits. The last two lines compute in unsigned 32-bit arithmetic.
\<close>

definition ikcp_update_ack :: "ikcpcb \<Rightarrow> u32 \<Rightarrow> ikcpcb" where
  "ikcp_update_ack k rtt =
     (let k1 =
        (if rx_srtt k = 0 then
           k\<lparr>rx_srtt := rtt, rx_rttval := word_of_int (sint rtt sdiv 2)\<rparr>
         else
           let delta = \<bar>sint (rtt - rx_srtt k)\<bar>;
               rttval = word_of_int ((sint (3 * rx_rttval k) + delta) sdiv 4);
               srtt = word_of_int (sint (7 * rx_srtt k + rtt) sdiv 8);
               srtt = (if sint srtt < 1 then 1 else srtt)
           in k\<lparr>rx_rttval := rttval, rx_srtt := srtt\<rparr>);
        rto = rx_srtt k1 + imax (interval k1) (4 * rx_rttval k1)
      in k1\<lparr>rx_rto := ibound (rx_minrto k1) rto IKCP_RTO_MAX\<rparr>)"

lemma update_ack_rto:
  "rx_minrto k \<le> IKCP_RTO_MAX \<Longrightarrow>
   rx_minrto k \<le> rx_rto (ikcp_update_ack k rtt) \<and> rx_rto (ikcp_update_ack k rtt) \<le> IKCP_RTO_MAX"
  by (simp add: ikcp_update_ack_def Let_def ibound_range)

section \<open>The send buffer\<close>

definition ikcp_shrink_buf :: "ikcpcb \<Rightarrow> ikcpcb" where
  "ikcp_shrink_buf k =
     (case snd_buf k of
        s # _ \<Rightarrow> k\<lparr>snd_una := seg_sn s\<rparr>
      | [] \<Rightarrow> k\<lparr>snd_una := snd_nxt k\<rparr>)"

text \<open>The scan of \<open>ikcp_parse_ack\<close> deletes the segment \<open>sn\<close> and stops there or at the first
  later segment.\<close>

fun ack_remove :: "u32 \<Rightarrow> ikcpseg list \<Rightarrow> ikcpseg list" where
  "ack_remove sn [] = []"
| "ack_remove sn (s # ss) =
     (if sn = seg_sn s then ss
      else if itimediff sn (seg_sn s) < 0 then s # ss
      else s # ack_remove sn ss)"

definition ikcp_parse_ack :: "ikcpcb \<Rightarrow> u32 \<Rightarrow> ikcpcb" where
  "ikcp_parse_ack k sn =
     (if itimediff sn (snd_una k) < 0 \<or> itimediff sn (snd_nxt k) \<ge> 0 then k
      else
        let buf = ack_remove sn (snd_buf k)
        in k\<lparr>snd_buf := buf,
             nsnd_buf := nsnd_buf k - of_nat (length (snd_buf k) - length buf)\<rparr>)"

fun una_drop :: "u32 \<Rightarrow> ikcpseg list \<Rightarrow> ikcpseg list" where
  "una_drop una [] = []"
| "una_drop una (s # ss) = (if itimediff una (seg_sn s) > 0 then una_drop una ss else s # ss)"

definition ikcp_parse_una :: "ikcpcb \<Rightarrow> u32 \<Rightarrow> ikcpcb" where
  "ikcp_parse_una k una =
     (let buf = una_drop una (snd_buf k)
      in k\<lparr>snd_buf := buf,
           nsnd_buf := nsnd_buf k - of_nat (length (snd_buf k) - length buf)\<rparr>)"

text \<open>Built without \<open>IKCP_FASTACK_CONSERVE\<close>, every segment before \<open>sn\<close> counts one skip.\<close>

fun fastack_mark :: "u32 \<Rightarrow> ikcpseg list \<Rightarrow> ikcpseg list" where
  "fastack_mark sn [] = []"
| "fastack_mark sn (s # ss) =
     (if itimediff sn (seg_sn s) < 0 then s # ss
      else (if sn \<noteq> seg_sn s then s\<lparr>seg_fastack := seg_fastack s + 1\<rparr> else s) # fastack_mark sn ss)"

definition ikcp_parse_fastack :: "ikcpcb \<Rightarrow> u32 \<Rightarrow> ikcpcb" where
  "ikcp_parse_fastack k sn =
     (if itimediff sn (snd_una k) < 0 \<or> itimediff sn (snd_nxt k) \<ge> 0 then k
      else k\<lparr>snd_buf := fastack_mark sn (snd_buf k)\<rparr>)"

section \<open>Pending acknowledgements\<close>

text \<open>
  \<open>acklist\<close> is an array of \<open>2 * ackblock\<close> words that doubles when it is full. A fresh
  block is uninitialised memory; the model fills it with zeros, which no read depends on.
\<close>

function ack_newblock :: "nat \<Rightarrow> nat \<Rightarrow> nat" where
  "ack_newblock newblock newsize =
     (if 0 < newblock \<and> newblock < newsize then ack_newblock (2 * newblock) newsize else newblock)"
  by pat_completeness auto
termination by (relation "measure (\<lambda>(b, n). n - b)") auto

declare ack_newblock.simps [simp del]

definition ikcp_ack_push :: "ikcpcb \<Rightarrow> u32 \<Rightarrow> u32 \<Rightarrow> ikcpcb" where
  "ikcp_ack_push k sn ts =
     (let newsize = unat (ackcount k + 1);
          k1 = (if newsize > unat (ackblock k) then
                  let newblock = ack_newblock 8 newsize;
                      acklist' = take (2 * unat (ackcount k)) (acklist k)
                        @ replicate (2 * newblock - 2 * unat (ackcount k)) 0
                  in k\<lparr>acklist := acklist', ackblock := of_nat newblock\<rparr>
                else k);
          p = 2 * unat (ackcount k1)
      in k1\<lparr>acklist := (acklist k1)[p := sn, p + 1 := ts], ackcount := ackcount k1 + 1\<rparr>)"

definition ikcp_ack_get :: "ikcpcb \<Rightarrow> nat \<Rightarrow> u32 \<times> u32" where
  "ikcp_ack_get k p = (acklist k ! (2 * p), acklist k ! (2 * p + 1))"

section \<open>Order of the send buffer\<close>

text \<open>
  Seen from \<open>snd_una\<close>, the numbers in \<open>snd_buf\<close> increase strictly and lie before
  \<open>snd_nxt\<close>, which is less than \<open>2 ^ 31\<close> away.
\<close>

definition snd_order :: "u32 \<Rightarrow> ikcpseg list \<Rightarrow> bool" where
  "snd_order b = sorted_wrt (\<lambda>x y. off b (seg_sn x) < off b (seg_sn y))"

definition snd_inv :: "ikcpcb \<Rightarrow> bool" where
  "snd_inv k \<longleftrightarrow> snd_order (snd_una k) (snd_buf k) \<and>
     (\<forall>s \<in> set (snd_buf k). off (snd_una k) (seg_sn s) < off (snd_una k) (snd_nxt k)) \<and>
     off (snd_una k) (snd_nxt k) < 2 ^ 31 \<and>
     nsnd_buf k = of_nat (length (snd_buf k))"

lemma snd_diff:
  assumes "snd_inv k" "s \<in> set (snd_buf k)" "off (snd_una k) sn < 2 ^ 31"
  shows "itimediff sn (seg_sn s) = int (off (snd_una k) sn) - int (off (snd_una k) (seg_sn s))"
  by (rule itimediff_off) (use assms in \<open>force simp: snd_inv_def\<close>)+

text \<open>A sublist of the buffer with the counter adjusted keeps the invariant.\<close>

lemma sorted_wrt_subseq:
  "sorted_wrt P xs \<Longrightarrow> sorted_wrt P (filter Q xs)"
  by (induction xs) auto

lemma una_drop_suffix: "\<exists>pre. ss = pre @ una_drop una ss"
  by (induction ss) (auto intro: exI [of _ "[]"], metis append_Cons)

lemma ack_remove_sub:
  "set (ack_remove sn ss) \<subseteq> set ss" "length (ack_remove sn ss) \<le> length ss"
  "sorted_wrt P ss \<Longrightarrow> sorted_wrt P (ack_remove sn ss)"
  by (induction ss) auto

lemma una_drop_sub:
  "set (una_drop una ss) \<subseteq> set ss" "length (una_drop una ss) \<le> length ss"
  "sorted_wrt P ss \<Longrightarrow> sorted_wrt P (una_drop una ss)"
  by (induction ss) auto

lemma parse_ack_inv [inv_intro]: "snd_inv k \<Longrightarrow> snd_inv (ikcp_parse_ack k sn)"
  using ack_remove_sub [where ss = "snd_buf k" and sn = sn]
  by (auto simp: snd_inv_def snd_order_def ikcp_parse_ack_def Let_def of_nat_diff)

lemma parse_una_inv [inv_intro]: "snd_inv k \<Longrightarrow> snd_inv (ikcp_parse_una k una)"
  using una_drop_sub [where ss = "snd_buf k" and una = una]
  by (auto simp: snd_inv_def snd_order_def ikcp_parse_una_def Let_def of_nat_diff)

lemma fastack_mark_fields:
  "map seg_sn (fastack_mark sn ss) = map seg_sn ss"
  "map seg_len (fastack_mark sn ss) = map seg_len ss"
  "map seg_data (fastack_mark sn ss) = map seg_data ss"
  "length (fastack_mark sn ss) = length ss"
  "seg_sn ` set (fastack_mark sn ss) = seg_sn ` set ss"
  by (induction ss) auto

lemma snd_order_map: "snd_order b ss \<longleftrightarrow> sorted_wrt (\<lambda>x y. off b x < off b y) (map seg_sn ss)"
  by (simp add: snd_order_def sorted_wrt_map)

lemma snd_inv_map:
  "snd_inv k \<longleftrightarrow> sorted_wrt (\<lambda>x y. off (snd_una k) x < off (snd_una k) y) (map seg_sn (snd_buf k)) \<and>
     seg_sn ` set (snd_buf k) \<subseteq> {x. off (snd_una k) x < off (snd_una k) (snd_nxt k)} \<and>
     off (snd_una k) (snd_nxt k) < 2 ^ 31 \<and>
     nsnd_buf k = of_nat (length (snd_buf k))"
  by (auto simp: snd_inv_def snd_order_map)

lemma parse_fastack_inv [inv_intro]: "snd_inv k \<Longrightarrow> snd_inv (ikcp_parse_fastack k sn)"
  by (simp add: snd_inv_map ikcp_parse_fastack_def fastack_mark_fields)

lemma shrink_inv [inv_intro]:
  assumes "snd_inv k"
  shows "snd_inv (ikcp_shrink_buf k)"
proof (cases "snd_buf k")
  case Nil
  with assms show ?thesis
    by (simp add: snd_inv_def ikcp_shrink_buf_def snd_order_def off_self)
next
  case (Cons s ss)
  let ?u = "snd_una k"
  have ge: "off ?u (seg_sn s) \<le> off ?u (seg_sn t)" if "t \<in> set (s # ss)" for t
    using assms that by (auto simp: snd_inv_def Cons snd_order_def intro: less_imp_le)
  then have sh: "off (seg_sn s) (seg_sn t) = off ?u (seg_sn t) - off ?u (seg_sn s)" if "t \<in> set (s # ss)" for t
    using off_diff that by blast
  have nx: "off (seg_sn s) (snd_nxt k) = off ?u (snd_nxt k) - off ?u (seg_sn s)"
    by (rule off_diff) (use assms in \<open>auto simp: snd_inv_def Cons intro: less_imp_le\<close>)
  have "snd_order (seg_sn s) (s # ss)"
    unfolding snd_order_def
  proof (rule sorted_wrt_mono_rel)
    show "sorted_wrt (\<lambda>x y. off ?u (seg_sn x) < off ?u (seg_sn y)) (s # ss)"
      using assms by (simp add: snd_inv_def Cons snd_order_def)
  qed (use ge sh in \<open>simp add: diff_less_mono\<close>)
  moreover have "off (seg_sn s) (seg_sn t) < off (seg_sn s) (snd_nxt k)" if "t \<in> set (s # ss)" for t
    using assms ge [OF that] sh [OF that] nx that by (auto simp: snd_inv_def Cons diff_less_mono)
  ultimately show ?thesis
    using assms nx by (auto simp: snd_inv_def Cons ikcp_shrink_buf_def)
qed

text \<open>What the scans compute on an ordered buffer.\<close>

lemma ack_remove_filter:
  assumes "\<And>s. s \<in> set ss \<Longrightarrow> itimediff sn (seg_sn s) = int (off b sn) - int (off b (seg_sn s))"
    and "snd_order b ss"
  shows "ack_remove sn ss = filter (\<lambda>s. seg_sn s \<noteq> sn) ss"
  using assms
proof (induction ss)
  case (Cons s ss)
  have tail: "\<forall>t \<in> set ss. off b (seg_sn s) < off b (seg_sn t)" and ord: "snd_order b ss"
    using Cons.prems(2) by (auto simp: snd_order_def)
  have d: "itimediff sn (seg_sn s) = int (off b sn) - int (off b (seg_sn s))"
    using Cons.prems(1) by simp
  have IH: "ack_remove sn ss = filter (\<lambda>s. seg_sn s \<noteq> sn) ss"
    using Cons.IH Cons.prems(1) ord by simp
  consider "sn = seg_sn s" | "sn \<noteq> seg_sn s" "off b sn < off b (seg_sn s)"
    | "sn \<noteq> seg_sn s" "off b (seg_sn s) \<le> off b sn" by linarith
  then show ?case
  proof cases
    case 1
    with tail have "filter (\<lambda>s. seg_sn s \<noteq> sn) ss = ss" by (auto simp: filter_id_conv)
    with 1 show ?thesis by simp
  next
    case 2
    with tail have "filter (\<lambda>s. seg_sn s \<noteq> sn) ss = ss" by (force simp: filter_id_conv)
    with 2 d show ?thesis by simp
  next
    case 3
    with d IH show ?thesis by simp
  qed
qed simp

lemma una_drop_filter:
  assumes "\<And>s. s \<in> set ss \<Longrightarrow> itimediff una (seg_sn s) = int (off b una) - int (off b (seg_sn s))"
    and "snd_order b ss"
  shows "una_drop una ss = filter (\<lambda>s. off b una \<le> off b (seg_sn s)) ss"
  using assms
proof (induction ss)
  case (Cons s ss)
  then have tail: "\<forall>t \<in> set ss. off b (seg_sn s) < off b (seg_sn t)" and ord: "snd_order b ss"
    by (auto simp: snd_order_def)
  show ?case
  proof (cases "off b una \<le> off b (seg_sn s)")
    case True
    with tail have "filter (\<lambda>s. off b una \<le> off b (seg_sn s)) ss = ss"
      by (force simp: filter_id_conv)
    with True Cons.prems(1) show ?thesis by simp
  next
    case False
    with Cons.IH Cons.prems(1) ord show ?thesis by simp
  qed
qed simp

lemma fastack_mark_map:
  assumes "\<And>s. s \<in> set ss \<Longrightarrow> itimediff sn (seg_sn s) = int (off b sn) - int (off b (seg_sn s))"
    and "snd_order b ss"
  shows "fastack_mark sn ss =
    map (\<lambda>s. if off b (seg_sn s) < off b sn then s\<lparr>seg_fastack := seg_fastack s + 1\<rparr> else s) ss"
  using assms
proof (induction ss)
  case (Cons s ss)
  then have tail: "\<forall>t \<in> set ss. off b (seg_sn s) < off b (seg_sn t)" and ord: "snd_order b ss"
    by (auto simp: snd_order_def)
  show ?case
  proof (cases "off b sn < off b (seg_sn s)")
    case True
    with tail have "map (\<lambda>s. if off b (seg_sn s) < off b sn then s\<lparr>seg_fastack := seg_fastack s + 1\<rparr> else s) ss = ss"
      by (force intro!: map_idI)
    with True Cons.prems(1) show ?thesis by simp
  next
    case False
    with Cons.IH Cons.prems(1) ord show ?thesis
      by (auto simp: off_inject [of b sn "seg_sn s", symmetric])
  qed
qed simp

lemma parse_ack_exact:
  assumes "snd_inv k" "off (snd_una k) sn < off (snd_una k) (snd_nxt k)"
  shows "snd_buf (ikcp_parse_ack k sn) = filter (\<lambda>s. seg_sn s \<noteq> sn) (snd_buf k)"
proof -
  have sm: "off (snd_una k) sn < 2 ^ 31" using assms by (simp add: snd_inv_def)
  have "itimediff sn (snd_una k) \<ge> 0" using sm by (simp only: itimediff_nonneg)
  moreover have "itimediff sn (snd_nxt k) < 0"
    using itimediff_off [OF sm, of "snd_nxt k"] assms by (simp add: snd_inv_def)
  moreover have "ack_remove sn (snd_buf k) = filter (\<lambda>s. seg_sn s \<noteq> sn) (snd_buf k)"
    by (rule ack_remove_filter [OF snd_diff [OF assms(1)]]) (use assms(1) sm in \<open>auto simp: snd_inv_def\<close>)
  ultimately show ?thesis by (simp add: ikcp_parse_ack_def Let_def)
qed

lemma parse_ack_out_of_window:
  assumes "snd_inv k" "\<not> off (snd_una k) sn < off (snd_una k) (snd_nxt k)"
  shows "ikcp_parse_ack k sn = k"
proof (cases "off (snd_una k) sn < 2 ^ 31")
  case True
  then have "itimediff sn (snd_nxt k) \<ge> 0"
    using itimediff_off [OF True, of "snd_nxt k"] assms by (simp add: snd_inv_def)
  then show ?thesis by (simp add: ikcp_parse_ack_def)
next
  case False
  then have "\<not> 0 \<le> itimediff sn (snd_una k)" by (simp only: itimediff_nonneg) simp
  then show ?thesis by (simp add: ikcp_parse_ack_def)
qed

lemma parse_una_exact:
  assumes "snd_inv k" "off (snd_una k) una \<le> off (snd_una k) (snd_nxt k)"
  shows "snd_buf (ikcp_parse_una k una) =
    filter (\<lambda>s. off (snd_una k) una \<le> off (snd_una k) (seg_sn s)) (snd_buf k)"
proof -
  have sm: "off (snd_una k) una < 2 ^ 31" using assms by (simp add: snd_inv_def)
  show ?thesis
    using una_drop_filter [OF snd_diff [OF assms(1) _ sm], of "snd_buf k"] assms(1)
    by (simp add: ikcp_parse_una_def Let_def snd_inv_def)
qed

section \<open>The acknowledgement array\<close>

definition acks :: "ikcpcb \<Rightarrow> (u32 \<times> u32) list" where
  "acks k = map (ikcp_ack_get k) [0 ..< unat (ackcount k)]"

definition ack_inv :: "ikcpcb \<Rightarrow> bool" where
  "ack_inv k \<longleftrightarrow> length (acklist k) = 2 * unat (ackblock k) \<and>
     unat (ackcount k) \<le> unat (ackblock k) \<and> unat (ackcount k) < 2 ^ 30"

lemma ack_newblock_ge:
  "0 < b \<Longrightarrow> n \<le> ack_newblock b n"
  "0 < b \<Longrightarrow> b \<le> c \<Longrightarrow> n \<le> c \<Longrightarrow> ack_newblock b n < 2 * c \<or> ack_newblock b n = b"
proof (induction b n rule: ack_newblock.induct)
  case (1 b n)
  {
    case 1
    with "1.IH"(1) show ?case by (cases "b < n") (auto simp: ack_newblock.simps [of b n])
  next
    case 2
    show ?case
    proof (cases "b < n")
      case True
      then have "ack_newblock b n = ack_newblock (2 * b) n"
        using 2 by (simp add: ack_newblock.simps [of b n])
      moreover have "ack_newblock (2 * b) n < 2 * c \<or> ack_newblock (2 * b) n = 2 * b"
      proof (cases "2 * b \<le> c")
        case True
        with "1.IH"(2) \<open>b < n\<close> 2 show ?thesis by auto
      next
        case False
        with 2 have "ack_newblock (2 * b) n = 2 * b" by (simp add: ack_newblock.simps [of "2 * b" n])
        then show ?thesis by simp
      qed
      ultimately show ?thesis using True 2 by auto
    next
      case False
      then show ?thesis by (simp add: ack_newblock.simps [of b n])
    qed
  }
qed

lemma ack_newblock_bound: "n \<le> 2 ^ 30 \<Longrightarrow> ack_newblock 8 n < 2 ^ 31"
  using ack_newblock_ge(2) [of 8 "2 ^ 30" n] by auto

lemma ack_push_spec:
  assumes "ack_inv k" "unat (ackcount k) + 1 < 2 ^ 30"
  shows "ack_inv (ikcp_ack_push k sn ts)" "acks (ikcp_ack_push k sn ts) = acks k @ [(sn, ts)]"
proof -
  let ?n = "unat (ackcount k)"
  have c1: "unat (ackcount k + 1) = ?n + 1"
    using unat_add_u32 [of "ackcount k" 1] assms(2) by simp
  define nb where "nb = ack_newblock 8 (?n + 1)"
  have nb: "?n + 1 \<le> nb" "nb < 2 ^ 31"
    using ack_newblock_ge(1) [of 8 "?n + 1"] ack_newblock_bound [of "?n + 1"] assms(2)
    by (auto simp: nb_def)
  have unb: "unat (of_nat nb :: u32) = nb" by (rule unat_of_nat_u32) (use nb in simp)
  define al where "al = (if unat (ackblock k) < ?n + 1
    then take (2 * ?n) (acklist k) @ replicate (2 * nb - 2 * ?n) 0 else acklist k)"
  define ab where "ab = (if unat (ackblock k) < ?n + 1 then of_nat nb else ackblock k)"
  have len: "length al = 2 * unat ab" "?n + 1 \<le> unat ab"
    using assms(1) nb unb by (auto simp: al_def ab_def ack_inv_def)
  have same: "al ! i = acklist k ! i" if "i < 2 * ?n" for i
    using that assms(1) by (auto simp: al_def nth_append ack_inv_def)
  have push: "ikcp_ack_push k sn ts = k\<lparr>acklist := al[2 * ?n := sn, 2 * ?n + 1 := ts],
      ackblock := ab, ackcount := ackcount k + 1\<rparr>"
    using c1 by (simp add: ikcp_ack_push_def Let_def al_def ab_def nb_def)
  show "ack_inv (ikcp_ack_push k sn ts)"
    using len c1 assms(2) by (simp add: push ack_inv_def)
  have "ikcp_ack_get (ikcp_ack_push k sn ts) i = ikcp_ack_get k i" if "i < ?n" for i
    using that same [of "2 * i"] same [of "2 * i + 1"] by (simp add: push ikcp_ack_get_def)
  moreover have "ikcp_ack_get (ikcp_ack_push k sn ts) ?n = (sn, ts)"
    using len by (simp add: push ikcp_ack_get_def)
  moreover have "unat (ackcount (ikcp_ack_push k sn ts)) = Suc ?n" using c1 by (simp add: push)
  ultimately show "acks (ikcp_ack_push k sn ts) = acks k @ [(sn, ts)]"
    by (simp add: acks_def)
qed

lemma ack_push_frame [frame]:
  "snd_buf (ikcp_ack_push k sn ts) = snd_buf k" "snd_una (ikcp_ack_push k sn ts) = snd_una k"
  "snd_nxt (ikcp_ack_push k sn ts) = snd_nxt k" "nsnd_buf (ikcp_ack_push k sn ts) = nsnd_buf k"
  "rcv_buf (ikcp_ack_push k sn ts) = rcv_buf k" "rcv_queue (ikcp_ack_push k sn ts) = rcv_queue k"
  "rcv_nxt (ikcp_ack_push k sn ts) = rcv_nxt k" "rcv_wnd (ikcp_ack_push k sn ts) = rcv_wnd k"
  "nrcv_que (ikcp_ack_push k sn ts) = nrcv_que k" "nrcv_buf (ikcp_ack_push k sn ts) = nrcv_buf k"
  by (simp_all add: ikcp_ack_push_def Let_def)

section \<open>Contract of an append-only log\<close>

text \<open>The input loop appends one acknowledgement per data segment, the flush reads them back
  in order: all it needs of the array is this contract.\<close>

locale append_log =
  fixes items :: "'s \<Rightarrow> 'a list" and push :: "'s \<Rightarrow> 'a \<Rightarrow> 's" and ok :: "'s \<Rightarrow> bool" and room :: "nat"
  assumes push_items: "ok s \<Longrightarrow> length (items s) + 1 < room \<Longrightarrow> items (push s x) = items s @ [x]"
    and push_ok: "ok s \<Longrightarrow> length (items s) + 1 < room \<Longrightarrow> ok (push s x)"
begin

lemma push_all:
  "ok s \<Longrightarrow> length (items s) + length xs < room \<Longrightarrow>
   ok (foldl push s xs) \<and> items (foldl push s xs) = items s @ xs"
proof (induction xs arbitrary: s)
  case (Cons x xs)
  then have "ok (push s x)" "items (push s x) = items s @ [x]"
    using push_items [of s x] push_ok [of s x] by auto
  with Cons.IH [of "push s x"] Cons.prems show ?case by simp
qed simp

end

interpretation acklog: append_log acks "\<lambda>k (sn, ts). ikcp_ack_push k sn ts" ack_inv "2 ^ 30"
proof
  fix s :: ikcpcb and x :: "u32 \<times> u32"
  assume "ack_inv s" "length (acks s) + 1 < 2 ^ 30"
  then show "acks (case x of (sn, ts) \<Rightarrow> ikcp_ack_push s sn ts) = acks s @ [x]"
    "ack_inv (case x of (sn, ts) \<Rightarrow> ikcp_ack_push s sn ts)"
    using ack_push_spec [of s "fst x" "snd x"] by (auto simp: acks_def split: prod.splits)
qed

end
