(* ===== verification/Ikcp_Flush.thy ===== *)
theory Ikcp_Flush
  imports Ikcp_Input
begin

text \<open>
  The sending side of the KCP core: \<open>ikcp_encode_seg\<close>, \<open>ikcp_flush\<close> in the order of the
  source (acknowledgements, window probes, the move from \<open>snd_queue\<close> to \<open>snd_buf\<close>, first
  transmissions and retransmissions, the congestion window), \<open>ikcp_flush_ack\<close>, the clock
  (\<open>ikcp_update\<close>, \<open>ikcp_check\<close>), the settings and the queries.

  The output buffer is \<open>flush_out\<close>: the datagrams already passed to the output callback
  and the bytes written since, both without the \<open>head_room\<close> bytes in front that belong to
  the caller. The callback's result is ignored by the code. The lemmas show that every
  datagram fits the MTU and is a sequence of complete segments that \<open>ikcp_input\<close> reads
  back, that the window is respected and that no queued byte is lost.
\<close>

section \<open>Output buffer\<close>

record flush_out =
  fo_sent :: "bytes list"
  fo_cur :: bytes

definition fo_init :: flush_out where
  "fo_init = \<lparr>fo_sent = [], fo_cur = []\<rparr>"

text \<open>\<open>size\<close> of the code: the bytes of the datagram under construction, head room included.\<close>

definition fo_size :: "ikcpcb \<Rightarrow> flush_out \<Rightarrow> nat" where
  "fo_size k b = unat (head_room k) + length (fo_cur b)"

text \<open>\<open>ikcp_output\<close> followed by \<open>ptr = begin\<close>; a size of zero is not sent.\<close>

definition ikcp_output :: "ikcpcb \<Rightarrow> flush_out \<Rightarrow> flush_out" where
  "ikcp_output k b =
     (if fo_size k b = 0 then b\<lparr>fo_cur := []\<rparr>
      else \<lparr>fo_sent = fo_sent b @ [fo_cur b], fo_cur = []\<rparr>)"

definition out_room :: "ikcpcb \<Rightarrow> int \<Rightarrow> flush_out \<Rightarrow> flush_out" where
  "out_room k need b =
     (if int (fo_size k b) + need > sint (mtu k) then ikcp_output k b else b)"

definition out_final :: "ikcpcb \<Rightarrow> flush_out \<Rightarrow> flush_out" where
  "out_final k b = (if int (fo_size k b) > sint (head_room k) then ikcp_output k b else b)"

definition ikcp_encode_seg :: "bytes \<Rightarrow> ikcpseg \<Rightarrow> bytes" where
  "ikcp_encode_seg p s =
     (let p = ikcp_encode32u p (seg_conv s);
          p = ikcp_encode8u p (ucast (seg_cmd s));
          p = ikcp_encode8u p (ucast (seg_frg s));
          p = ikcp_encode16u p (ucast (seg_wnd s));
          p = ikcp_encode32u p (seg_ts s);
          p = ikcp_encode32u p (seg_sn s);
          p = ikcp_encode32u p (seg_una s);
          p = ikcp_encode32u p (seg_len s)
      in p)"

definition out_seg :: "ikcpseg \<Rightarrow> flush_out \<Rightarrow> flush_out" where
  "out_seg s b = b\<lparr>fo_cur := ikcp_encode_seg (fo_cur b) s\<rparr>"

definition ikcp_wnd_unused :: "ikcpcb \<Rightarrow> u32" where
  "ikcp_wnd_unused k = (if nrcv_que k < rcv_wnd k then rcv_wnd k - nrcv_que k else 0)"

section \<open>Acknowledgements and probes\<close>

text \<open>\<open>seg\<close> of the code: one header reused for all control segments. After the
  acknowledgements it keeps the number and time stamp of the last one.\<close>

definition flush_seg :: "ikcpcb \<Rightarrow> ikcpseg" where
  "flush_seg k = (seg_new [] 0)\<lparr>seg_conv := conv k, seg_cmd := IKCP_CMD_ACK,
     seg_wnd := ikcp_wnd_unused k, seg_una := rcv_nxt k\<rparr>"

definition flush_ack_one :: "ikcpcb \<Rightarrow> nat \<Rightarrow> ikcpseg \<times> flush_out \<Rightarrow> ikcpseg \<times> flush_out" where
  "flush_ack_one k i = (\<lambda>(seg, b).
     let b = out_room k (sint IKCP_OVERHEAD) b;
         seg = seg\<lparr>seg_sn := fst (ikcp_ack_get k i), seg_ts := snd (ikcp_ack_get k i)\<rparr>
     in (seg, out_seg seg b))"

definition flush_acks :: "ikcpcb \<Rightarrow> ikcpseg \<times> flush_out \<Rightarrow> ikcpseg \<times> flush_out" where
  "flush_acks k = fold (flush_ack_one k) [0 ..< nat (sint (ackcount k))]"

definition flush_probe_wait :: "ikcpcb \<Rightarrow> ikcpcb" where
  "flush_probe_wait k =
     (if rmt_wnd k = 0 then
        if probe_wait k = 0 then
          k\<lparr>probe_wait := IKCP_PROBE_INIT, ts_probe := current k + IKCP_PROBE_INIT\<rparr>
        else if itimediff (current k) (ts_probe k) \<ge> 0 then
          let w = (if probe_wait k < IKCP_PROBE_INIT then IKCP_PROBE_INIT else probe_wait k);
              w = w + w div 2;
              w = (if w > IKCP_PROBE_LIMIT then IKCP_PROBE_LIMIT else w)
          in k\<lparr>probe_wait := w, ts_probe := current k + w, probe := probe k OR IKCP_ASK_SEND\<rparr>
        else k
      else k\<lparr>ts_probe := 0, probe_wait := 0\<rparr>)"

definition flush_probe :: "ikcpcb \<Rightarrow> u32 \<Rightarrow> u32 \<Rightarrow> ikcpseg \<times> flush_out \<Rightarrow> ikcpseg \<times> flush_out" where
  "flush_probe k ask cmd = (\<lambda>(seg, b).
     if probe k AND ask \<noteq> 0 then
       let seg = seg\<lparr>seg_cmd := cmd\<rparr>
       in (seg, out_seg seg (out_room k (sint IKCP_OVERHEAD) b))
     else (seg, b))"

section \<open>From the queue to the window\<close>

definition ikcp_calc_wnd :: "ikcpcb \<Rightarrow> int \<Rightarrow> u32" where
  "ikcp_calc_wnd k use_cwnd =
     (let wnd = imin (snd_wnd k) (rmt_wnd k)
      in if use_cwnd > 0 \<and> nocwnd k = 0 then imin (cwnd k) wnd else wnd)"

definition flush_newseg :: "ikcpcb \<Rightarrow> u32 \<Rightarrow> ikcpseg \<Rightarrow> ikcpseg" where
  "flush_newseg k wnd s = s\<lparr>seg_conv := conv k, seg_cmd := IKCP_CMD_PUSH, seg_wnd := wnd,
     seg_ts := current k, seg_sn := snd_nxt k, seg_una := rcv_nxt k, seg_resendts := current k,
     seg_rto := rx_rto k, seg_fastack := 0, seg_xmit := 0\<rparr>"

function flush_move :: "u32 \<Rightarrow> u32 \<Rightarrow> ikcpcb \<Rightarrow> ikcpcb" where
  "flush_move wnd cw k =
     (if itimediff (snd_nxt k) (snd_una k + cw) < 0 then
        case snd_queue k of
          [] \<Rightarrow> k
        | s # ss \<Rightarrow> flush_move wnd cw
            (k\<lparr>snd_queue := ss, snd_buf := snd_buf k @ [flush_newseg k wnd s],
               nsnd_que := nsnd_que k - 1, nsnd_buf := nsnd_buf k + 1, snd_nxt := snd_nxt k + 1\<rparr>)
      else k)"
  by pat_completeness auto
termination
  by (relation "measure (\<lambda>(_, _, k). length (snd_queue k))") auto

declare flush_move.simps [simp del]

section \<open>Transmission and retransmission\<close>

text \<open>Why a segment is sent in this flush; the three sending branches of the loop.\<close>

datatype due = Not_due | First_send | Timed_out | Fast_resend

definition seg_due :: "ikcpcb \<Rightarrow> u32 \<Rightarrow> u32 \<Rightarrow> ikcpseg \<Rightarrow> due" where
  "seg_due k now resent s =
     (if seg_xmit s = 0 then First_send
      else if itimediff now (seg_resendts s) \<ge> 0 then Timed_out
      else if seg_fastack s \<ge> resent \<and> (sint (seg_xmit s) \<le> fastlimit k \<or> fastlimit k \<le> 0)
      then Fast_resend
      else Not_due)"

definition seg_backoff :: "ikcpcb \<Rightarrow> ikcpseg \<Rightarrow> u32" where
  "seg_backoff k s =
     (if nodelay k = 0 then seg_rto s + imax (seg_rto s) (rx_rto k)
      else
        let step = (if nodelay k < 2 then seg_rto s else rx_rto k)
        in seg_rto s + word_of_int (sint step sdiv 2))"

definition seg_mark :: "ikcpcb \<Rightarrow> u32 \<Rightarrow> u32 \<Rightarrow> due \<Rightarrow> ikcpseg \<Rightarrow> ikcpseg" where
  "seg_mark k now rtomin d s =
     (case d of
        Not_due \<Rightarrow> s
      | First_send \<Rightarrow> s\<lparr>seg_xmit := seg_xmit s + 1, seg_rto := rx_rto k,
          seg_resendts := now + rx_rto k + rtomin\<rparr>
      | Timed_out \<Rightarrow> s\<lparr>seg_xmit := seg_xmit s + 1, seg_rto := seg_backoff k s,
          seg_resendts := now + seg_backoff k s\<rparr>
      | Fast_resend \<Rightarrow> s\<lparr>seg_xmit := seg_xmit s + 1, seg_fastack := 0,
          seg_resendts := now + seg_rto s\<rparr>)"

record flush_acc =
  fa_xmit :: u32
  fa_state :: u32
  fa_out :: flush_out
  fa_change :: nat
  fa_lost :: bool
  fa_wait :: u32

definition flush_one :: "ikcpcb \<Rightarrow> u32 \<Rightarrow> u32 \<Rightarrow> u32 \<Rightarrow> u32 \<Rightarrow> ikcpseg \<Rightarrow> flush_acc \<Rightarrow> ikcpseg \<times> flush_acc" where
  "flush_one k now resent rtomin wnd s0 a0 =
     (let d = seg_due k now resent s0;
          s1 = seg_mark k now rtomin d s0;
          a1 = a0\<lparr>fa_xmit := (if d = Timed_out then fa_xmit a0 + 1 else fa_xmit a0),
                  fa_lost := (fa_lost a0 \<or> d = Timed_out),
                  fa_change := (if d = Fast_resend then fa_change a0 + 1 else fa_change a0)\<rparr>;
          s2 = (if d = Not_due then s1
                else s1\<lparr>seg_ts := now, seg_wnd := wnd, seg_una := rcv_nxt k\<rparr>);
          a2 = (if d = Not_due then a1
                else
                  let b = out_room k (sint (IKCP_OVERHEAD + seg_len s2)) (fa_out a1);
                      b = out_seg s2 b
                  in a1\<lparr>fa_out := b\<lparr>fo_cur := fo_cur b @ take (unat (seg_len s2)) (seg_data s2)\<rparr>,
                        fa_state := (if seg_xmit s2 \<ge> dead_link k then - 1 else fa_state a1)\<rparr>);
          diff = itimediff (seg_resendts s2) now;
          a3 = (if diff > 0 \<and> word_of_int diff < fa_wait a2
                then a2\<lparr>fa_wait := word_of_int diff\<rparr> else a2)
      in (s2, a3))"

fun flush_data :: "ikcpcb \<Rightarrow> u32 \<Rightarrow> u32 \<Rightarrow> u32 \<Rightarrow> u32 \<Rightarrow> ikcpseg list \<Rightarrow> flush_acc \<Rightarrow> ikcpseg list \<times> flush_acc" where
  "flush_data k now resent rtomin wnd [] a = ([], a)"
| "flush_data k now resent rtomin wnd (s # ss) a =
     (let (s', a1) = flush_one k now resent rtomin wnd s a;
          (ss', a2) = flush_data k now resent rtomin wnd ss a1
      in (s' # ss', a2))"

definition flush_ssthresh :: "nat \<Rightarrow> bool \<Rightarrow> u32 \<Rightarrow> u32 \<Rightarrow> ikcpcb \<Rightarrow> ikcpcb" where
  "flush_ssthresh change lost cw resent k =
     (let half = (\<lambda>w. if w div 2 < IKCP_THRESH_MIN then IKCP_THRESH_MIN else w div 2);
          k = (if change \<noteq> 0 then
                 let th = half (snd_nxt k - snd_una k)
                 in k\<lparr>ssthresh := th, cwnd := th + resent, incr := (th + resent) * mss k\<rparr>
               else k);
          k = (if lost then k\<lparr>ssthresh := half cw, cwnd := 1, incr := mss k\<rparr> else k)
      in if cwnd k < 1 then k\<lparr>cwnd := 1, incr := mss k\<rparr> else k)"

definition flush_resent :: "ikcpcb \<Rightarrow> u32" where
  "flush_resent k = (if fastresend k > 0 then word_of_int (fastresend k) else 0xffffffff)"

definition flush_rtomin :: "ikcpcb \<Rightarrow> u32" where
  "flush_rtomin k = (if nodelay k = 0 then signed_drop_bit 3 (rx_rto k) else 0)"

text \<open>The control segments of a flush: acknowledgements, then the probes. The result is the
  block with \<open>ackcount\<close> and \<open>probe\<close> cleared, the header and the buffer.\<close>

definition flush_control :: "ikcpcb \<Rightarrow> ikcpcb \<times> ikcpseg \<times> flush_out" where
  "flush_control k0 =
     (let (seg, b) = flush_acks k0 (flush_seg k0, fo_init);
          k = flush_probe_wait (k0\<lparr>ackcount := 0\<rparr>);
          (seg, b) = flush_probe k IKCP_ASK_SEND IKCP_CMD_WASK (seg, b);
          (seg, b) = flush_probe k IKCP_ASK_TELL IKCP_CMD_WINS (seg, b)
      in (k\<lparr>probe := 0\<rparr>, seg, b))"

text \<open>\<open>ikcp_flush\<close>: the wait time it returns, the control block and the datagrams given to
  the output callback, in order.\<close>

definition ikcp_flush :: "ikcpcb \<Rightarrow> u32 \<Rightarrow> u32 \<times> ikcpcb \<times> bytes list" where
  "ikcp_flush k0 now =
     (let (k1, seg, b) = flush_control (k0\<lparr>current := now\<rparr>);
          cw = imin (snd_wnd k1) (rmt_wnd k1);
          cw = (if nocwnd k1 = 0 then imin (cwnd k1) cw else cw);
          k2 = flush_move (seg_wnd seg) cw k1;
          resent = flush_resent k2;
          acc = \<lparr>fa_xmit = xmit k2, fa_state = state k2, fa_out = b, fa_change = 0,
                 fa_lost = False, fa_wait = interval k2\<rparr>;
          (buf, a) = flush_data k2 now resent (flush_rtomin k2) (seg_wnd seg) (snd_buf k2) acc;
          k3 = k2\<lparr>snd_buf := buf, xmit := fa_xmit a, state := fa_state a\<rparr>;
          b = out_final k3 (fa_out a);
          k4 = flush_ssthresh (fa_change a) (fa_lost a) cw resent k3
      in (fa_wait a, k4, fo_sent b))"

definition ikcp_flush_ack :: "ikcpcb \<Rightarrow> ikcpcb \<times> bytes list" where
  "ikcp_flush_ack k =
     (if ackcount k \<le> 0 then (k, [])
      else
        let b = out_final k (snd (flush_acks k (flush_seg k, fo_init)))
        in (k\<lparr>ackcount := 0\<rparr>, fo_sent b))"

section \<open>The clock\<close>

definition ikcp_update :: "ikcpcb \<Rightarrow> u32 \<Rightarrow> ikcpcb \<times> bytes list" where
  "ikcp_update k now =
     (let k = k\<lparr>current := now\<rparr>;
          k = (if updated k = 0 then k\<lparr>updated := 1, ts_flush := current k\<rparr> else k);
          slap = itimediff (current k) (ts_flush k);
          (k, slap) = (if slap \<ge> 10000 \<or> slap < - 10000 then (k\<lparr>ts_flush := current k\<rparr>, 0)
                       else (k, slap))
      in if slap \<ge> 0 then
           let k = k\<lparr>ts_flush := ts_flush k + interval k\<rparr>;
               k = (if itimediff (current k) (ts_flush k) \<ge> 0
                    then k\<lparr>ts_flush := current k + interval k\<rparr> else k)
           in snd (ikcp_flush k now)
         else (k, []))"

text \<open>The scan of \<open>ikcp_check\<close>: \<open>None\<close> is the early return for a segment that is due.\<close>

fun check_packets :: "u32 \<Rightarrow> int \<Rightarrow> ikcpseg list \<Rightarrow> int option" where
  "check_packets now tm [] = Some tm"
| "check_packets now tm (s # ss) =
     (let diff = itimediff (seg_resendts s) now
      in if diff \<le> 0 then None
         else check_packets now (if diff < tm then diff else tm) ss)"

definition ikcp_check :: "ikcpcb \<Rightarrow> u32 \<Rightarrow> u32" where
  "ikcp_check k now =
     (if updated k = 0 then now
      else
        let d = itimediff now (ts_flush k);
            tsf = (if d \<ge> 10000 \<or> d < - 10000 then now else ts_flush k)
        in if itimediff now tsf \<ge> 0 then now
           else
             let tm_flush = itimediff tsf now
             in case check_packets now 0x7fffffff (snd_buf k) of
                  None \<Rightarrow> now
                | Some tm_packet \<Rightarrow>
                    let minimal = word_of_int (if tm_packet < tm_flush then tm_packet else tm_flush)
                    in now + (if minimal \<ge> interval k then interval k else minimal))"

section \<open>Settings\<close>

text \<open>Arguments of type \<open>int\<close> are C ints; storing one in an unsigned field wraps it.\<close>

definition ikcp_setmtu :: "ikcpcb \<Rightarrow> int \<Rightarrow> int \<times> ikcpcb" where
  "ikcp_setmtu k m =
     (if m < 50 \<or> m < sint IKCP_OVERHEAD then (- 1, k)
      else if m < sint (head_room k) then (- 2, k)
      else
        let k1 = k\<lparr>mtu := word_of_int m, mss := word_of_int m - head_room k - IKCP_OVERHEAD,
                   buffer_size := unat ((word_of_int m + IKCP_OVERHEAD) * 3)\<rparr>
        in (0, if incr k1 = 0 then k1\<lparr>incr := mss k1\<rparr> else k1))"

definition ikcp_interval :: "ikcpcb \<Rightarrow> int \<Rightarrow> int \<times> ikcpcb" where
  "ikcp_interval k i =
     (let i = (if i > 5000 then 5000 else if i < 10 then 10 else i)
      in (0, k\<lparr>interval := word_of_int i\<rparr>))"

definition ikcp_nodelay :: "ikcpcb \<Rightarrow> int \<Rightarrow> int \<Rightarrow> int \<Rightarrow> int \<Rightarrow> int \<times> ikcpcb" where
  "ikcp_nodelay k nd i rs nc =
     (let k = (if nd \<ge> 0 then k\<lparr>nodelay := word_of_int nd,
                 rx_minrto := (if nd \<noteq> 0 then IKCP_RTO_NDL else IKCP_RTO_MIN)\<rparr> else k);
          k = (if i \<ge> 0 then snd (ikcp_interval k i) else k);
          k = (if rs \<ge> 0 then k\<lparr>fastresend := rs\<rparr> else k);
          k = (if nc \<ge> 0 then k\<lparr>nocwnd := nc\<rparr> else k)
      in (0, k))"

definition ikcp_wndsize :: "ikcpcb \<Rightarrow> int \<Rightarrow> int \<Rightarrow> int \<times> ikcpcb" where
  "ikcp_wndsize k sndwnd rcvwnd =
     (let k = (if sndwnd > 0 then k\<lparr>snd_wnd := word_of_int sndwnd\<rparr> else k);
          k = (if rcvwnd > 0 then k\<lparr>rcv_wnd := imax (word_of_int rcvwnd) IKCP_WND_RCV\<rparr> else k)
      in (0, k))"

definition ikcp_getconv :: "bytes \<Rightarrow> u32 option" where
  "ikcp_getconv d = map_option fst (ikcp_decode32u d)"

definition ikcp_set_head_room :: "ikcpcb \<Rightarrow> u32 \<Rightarrow> int \<times> ikcpcb" where
  "ikcp_set_head_room k hr =
     (if hr \<ge> mss k then (- 1, k) else (0, k\<lparr>head_room := hr, mss := mss k - hr\<rparr>))"

definition ikcp_set_snd_hghwat :: "ikcpcb \<Rightarrow> u32 \<Rightarrow> int \<times> ikcpcb" where
  "ikcp_set_snd_hghwat k w = (0, k\<lparr>snd_hghwat := w\<rparr>)"

section \<open>Queries\<close>

definition ikcp_is_alive :: "ikcpcb \<Rightarrow> bool" where
  "ikcp_is_alive k = (state k = 0)"

definition ikcp_need_drain :: "ikcpcb \<Rightarrow> bool" where
  "ikcp_need_drain k = (ikcp_waitsnd k > snd_wnd k)"

definition ikcp_reach_snd_hghwat :: "ikcpcb \<Rightarrow> bool" where
  "ikcp_reach_snd_hghwat k = (ikcp_waitsnd k \<ge> snd_wnd k + snd_hghwat k)"

definition ikcp_available_wnd_in_mss :: "ikcpcb \<Rightarrow> int \<Rightarrow> u32" where
  "ikcp_available_wnd_in_mss k use_cwnd =
     (let waitsnd = ikcp_waitsnd k; wnd = ikcp_calc_wnd k use_cwnd
      in if wnd > waitsnd then wnd - waitsnd else 0)"

definition ikcp_available_wnd_in_bytes :: "ikcpcb \<Rightarrow> u32" where
  "ikcp_available_wnd_in_bytes k = ikcp_available_wnd_in_mss k 0 * mss k"

definition ikcp_available_sndwnd_in_bytes :: "ikcpcb \<Rightarrow> u32" where
  "ikcp_available_sndwnd_in_bytes k = ikcp_available_wnd_in_mss k 1 * mss k"

definition ikcp_can_send_ack :: "ikcpcb \<Rightarrow> bool" where
  "ikcp_can_send_ack k =
     (if ackcount k \<le> 0 then False else if nsnd_que k > 0 then False
      else if nsnd_buf k > 0 then False else True)"

definition ikcp_can_flush_after_input :: "ikcpcb \<Rightarrow> bool" where
  "ikcp_can_flush_after_input k =
     (nsnd_que k > 0 \<and> itimediff (snd_nxt k) (snd_una k + ikcp_calc_wnd k 1) < 0)"

section \<open>Datagrams are sequences of segments within the MTU\<close>

definition cfg_ok :: "ikcpcb \<Rightarrow> bool" where
  "cfg_ok k \<longleftrightarrow> 0 < unat (mss k) \<and> unat (head_room k) + 24 + unat (mss k) \<le> unat (mtu k) \<and>
     unat (mtu k) < 2 ^ 31"

lemma cfg_mss_ok: "cfg_ok k \<Longrightarrow> mss_ok k"
  by (simp add: cfg_ok_def mss_ok_def)

definition seg_hdr_of :: "ikcpseg \<Rightarrow> seg_hdr" where
  "seg_hdr_of s = \<lparr>hd_conv = seg_conv s, hd_cmd = ucast (seg_cmd s), hd_frg = ucast (seg_frg s),
     hd_wnd = ucast (seg_wnd s), hd_ts = seg_ts s, hd_sn = seg_sn s, hd_una = seg_una s,
     hd_len = seg_len s\<rparr>"

lemma encode_seg_header [wire]: "ikcp_encode_seg p s = p @ header_bytes (seg_hdr_of s)"
  by (simp add: ikcp_encode_seg_def ikcp_encode8u_def ikcp_encode16u_def ikcp_encode32u_def
      header_bytes_def seg_hdr_of_def Let_def)

text \<open>\<open>written k b ss\<close>: the datagrams sent and the one under construction are the segments
  \<open>ss\<close> cut at segment boundaries, none empty and none longer than the MTU.\<close>

definition fits :: "ikcpcb \<Rightarrow> (seg_hdr \<times> bytes) list \<Rightarrow> bool" where
  "fits k d \<longleftrightarrow> unat (head_room k) + length (wire_bytes d) \<le> unat (mtu k)"

definition written :: "ikcpcb \<Rightarrow> flush_out \<Rightarrow> (seg_hdr \<times> bytes) list \<Rightarrow> bool" where
  "written k b ss \<longleftrightarrow> (\<exists>ds c. fo_sent b = map wire_bytes ds \<and> fo_cur b = wire_bytes c \<and>
     ss = concat ds @ c \<and> (\<forall>d \<in> set ds. d \<noteq> [] \<and> fits k d) \<and> fits k c)"

lemma written_cong:
  "head_room k = head_room k' \<Longrightarrow> mtu k = mtu k' \<Longrightarrow> written k b ss = written k' b ss"
  by (simp add: written_def fits_def)

lemma written_init: "cfg_ok k \<Longrightarrow> written k fo_init []"
  by (auto simp: written_def fo_init_def fits_def wire_bytes_def cfg_ok_def intro!: exI [of _ "[]"])

lemma wire_bytes_empty: "wire_bytes c = [] \<longleftrightarrow> c = []"
  by (cases c) (auto simp: wire_bytes_def header_bytes_def le32_def)

lemma written_add:
  assumes "cfg_ok k" "written k b ss" "need = int (24 + length d)"
    "24 + length d + unat (head_room k) \<le> unat (mtu k)"
  shows "written k ((out_room k need b)\<lparr>fo_cur := fo_cur (out_room k need b) @ header_bytes h @ d\<rparr>)
           (ss @ [(h, d)])"
proof -
  obtain ds c where dc: "fo_sent b = map wire_bytes ds" "fo_cur b = wire_bytes c"
    "ss = concat ds @ c" "\<forall>d \<in> set ds. d \<noteq> [] \<and> fits k d" "fits k c"
    using assms(2) by (auto simp: written_def)
  have m: "sint (mtu k) = int (unat (mtu k))"
    using assms(1) by (simp add: cfg_ok_def sint_u32 del: of_nat_unat)
  show ?thesis
  proof (cases "unat (head_room k) + length (wire_bytes c) + 24 + length d > unat (mtu k)")
    case True
    then have out: "out_room k need b = \<lparr>fo_sent = fo_sent b @ [fo_cur b], fo_cur = []\<rparr>"
      using assms(3,4) m dc(2)
      by (auto simp: out_room_def fo_size_def ikcp_output_def simp del: of_nat_unat)
    have "c \<noteq> []" using True assms(4) by (auto simp: wire_bytes_def)
    with dc assms(4) show ?thesis unfolding written_def
      by (intro exI [of _ "ds @ [c]"] exI [of _ "[(h, d)]"])
        (auto simp: out wire_bytes_def fits_def)
  next
    case False
    then have out: "out_room k need b = b"
      using assms(3) m dc(2) by (auto simp: out_room_def fo_size_def simp del: of_nat_unat)
    with False dc show ?thesis unfolding written_def
      by (intro exI [of _ ds] exI [of _ "c @ [(h, d)]"])
        (auto simp: wire_bytes_append wire_bytes_def fits_def)
  qed
qed

lemma written_final:
  assumes "cfg_ok k" "written k b ss"
  obtains ds where "fo_sent (out_final k b) = map wire_bytes ds" "concat ds = ss"
    "\<forall>d \<in> set ds. d \<noteq> [] \<and> fits k d"
proof -
  obtain ds c where dc: "fo_sent b = map wire_bytes ds" "fo_cur b = wire_bytes c"
    "ss = concat ds @ c" "\<forall>d \<in> set ds. d \<noteq> [] \<and> fits k d" "fits k c"
    using assms(2) by (auto simp: written_def)
  have h: "sint (head_room k) = int (unat (head_room k))"
    using assms(1) by (simp add: cfg_ok_def sint_u32 del: of_nat_unat)
  show thesis
  proof (cases "c = []")
    case True
    with dc h show thesis
      by (intro that [of ds]) (auto simp: out_final_def fo_size_def wire_bytes_def simp del: of_nat_unat)
  next
    case False
    with dc h show thesis
      by (intro that [of "ds @ [c]"])
        (auto simp: out_final_def fo_size_def ikcp_output_def wire_bytes_empty simp del: of_nat_unat)
  qed
qed

section \<open>The control segments\<close>

definition ctl_hdr :: "ikcpcb \<Rightarrow> u32 \<Rightarrow> u32 \<times> u32 \<Rightarrow> seg_hdr" where
  "ctl_hdr k cmd st = seg_hdr_of ((flush_seg k)\<lparr>seg_cmd := cmd, seg_sn := fst st, seg_ts := snd st\<rparr>)"

definition ctl_segs :: "ikcpcb \<Rightarrow> (seg_hdr \<times> bytes) list" where
  "ctl_segs k =
     (let st = (if acks k = [] then (0, 0) else last (acks k));
          ask = probe (flush_probe_wait k)
      in map (\<lambda>st. (ctl_hdr k IKCP_CMD_ACK st, [])) (acks k) @
         (if ask AND IKCP_ASK_SEND \<noteq> 0 then [(ctl_hdr k IKCP_CMD_WASK st, [])] else []) @
         (if ask AND IKCP_ASK_TELL \<noteq> 0 then [(ctl_hdr k IKCP_CMD_WINS st, [])] else []))"

lemma written_ctl:
  assumes "cfg_ok k" "written k b ss"
  shows "written k (out_seg s (out_room k (sint IKCP_OVERHEAD) b)) (ss @ [(seg_hdr_of s, [])])"
proof -
  have o: "sint IKCP_OVERHEAD = 24" by (simp add: ikcp_consts)
  show ?thesis
    using written_add [OF assms, of "sint IKCP_OVERHEAD" "[]" "seg_hdr_of s"] assms(1)
    by (simp add: o out_seg_def encode_seg_header cfg_ok_def)
qed

lemma flush_acks_written:
  assumes "cfg_ok k" "unat (ackcount k) < 2 ^ 31" "written k b ss" "flush_acks k (flush_seg k, b) = (seg, b')"
  shows "written k b' (ss @ map (\<lambda>st. (ctl_hdr k IKCP_CMD_ACK st, [])) (acks k))"
    "seg = (let st = (if acks k = [] then (0, 0) else last (acks k))
            in (flush_seg k)\<lparr>seg_sn := fst st, seg_ts := snd st\<rparr>)"
proof -
  let ?ack = "map (ikcp_ack_get k)"
  have "written k (snd (fold (flush_ack_one k) [0 ..< n] (flush_seg k, b)))
      (ss @ map (\<lambda>st. (ctl_hdr k IKCP_CMD_ACK st, [])) (?ack [0 ..< n])) \<and>
    fst (fold (flush_ack_one k) [0 ..< n] (flush_seg k, b)) =
      (let st = (if n = 0 then (0, 0) else ikcp_ack_get k (n - 1))
       in (flush_seg k)\<lparr>seg_sn := fst st, seg_ts := snd st\<rparr>)" for n
  proof (induction n)
    case 0
    with assms(3) show ?case by (simp add: flush_seg_def seg_new_def)
  next
    case (Suc n)
    let ?s = "(flush_seg k)\<lparr>seg_sn := fst (ikcp_ack_get k n), seg_ts := snd (ikcp_ack_get k n)\<rparr>"
    have h: "ctl_hdr k IKCP_CMD_ACK (ikcp_ack_get k n) = seg_hdr_of ?s"
      by (simp add: ctl_hdr_def flush_seg_def seg_hdr_of_def)
    obtain s0 b0 where f: "fold (flush_ack_one k) [0 ..< n] (flush_seg k, b) = (s0, b0)"
      by fastforce
    have "s0\<lparr>seg_sn := x, seg_ts := y\<rparr> = (flush_seg k)\<lparr>seg_sn := x, seg_ts := y\<rparr>" for x y
      using Suc f by (simp add: Let_def)
    then have "flush_ack_one k n (s0, b0) = (?s, out_seg ?s (out_room k (sint IKCP_OVERHEAD) b0))"
      by (simp add: flush_ack_one_def Let_def)
    with h f show ?case
      using Suc written_ctl [OF assms(1), of b0
          "ss @ map (\<lambda>st. (ctl_hdr k IKCP_CMD_ACK st, [])) (?ack [0 ..< n])" ?s]
      by (simp add: Let_def)
  qed
  from this [of "unat (ackcount k)"] assms(2,4)
  show "written k b' (ss @ map (\<lambda>st. (ctl_hdr k IKCP_CMD_ACK st, [])) (acks k))"
    "seg = (let st = (if acks k = [] then (0, 0) else last (acks k))
            in (flush_seg k)\<lparr>seg_sn := fst st, seg_ts := snd st\<rparr>)"
    by (auto simp: flush_acks_def acks_def sint_u32 last_map Let_def simp del: of_nat_unat)
qed

lemma flush_probe_wait_ackcount [frame]:
  "flush_probe_wait (k\<lparr>ackcount := n\<rparr>) = (flush_probe_wait k)\<lparr>ackcount := n\<rparr>"
  by (simp add: flush_probe_wait_def Let_def)

definition flush_ctl_state :: "ikcpcb \<Rightarrow> ikcpcb" where
  "flush_ctl_state k = (flush_probe_wait k)\<lparr>ackcount := 0, probe := 0\<rparr>"

lemma flush_control_written:
  assumes "cfg_ok k" "unat (ackcount k) < 2 ^ 31" "flush_control k = (k', seg, b)"
  shows "k' = flush_ctl_state k" "written k b (ctl_segs k)" "seg_wnd seg = ikcp_wnd_unused k"
proof -
  obtain seg0 b0 where a: "flush_acks k (flush_seg k, fo_init) = (seg0, b0)" by fastforce
  let ?st = "if acks k = [] then (0, 0) else last (acks k)"
  note w = flush_acks_written [OF assms(1,2) written_init [OF assms(1)] a]
  have s0: "seg0 = (flush_seg k)\<lparr>seg_sn := fst ?st, seg_ts := snd ?st\<rparr>" using w(2) by (simp only: Let_def)
  have h: "ctl_hdr k cmd ?st = seg_hdr_of (seg0\<lparr>seg_cmd := cmd\<rparr>)" for cmd
    by (simp add: ctl_hdr_def s0 seg_hdr_of_def)
  let ?k = "flush_probe_wait (k\<lparr>ackcount := 0\<rparr>)"
  have m: "head_room ?k = head_room k" "mtu ?k = mtu k"
    by (simp_all add: flush_probe_wait_def Let_def)
  then have room: "out_room ?k n c = out_room k n c" for n c
    by (simp add: out_room_def ikcp_output_def fo_size_def)
  have p: "probe ?k = probe (flush_probe_wait k)" by (simp add: flush_probe_wait_ackcount)
  show "k' = flush_ctl_state k"
    using assms(3) a unfolding flush_control_def Let_def
    by (auto simp: flush_ctl_state_def flush_probe_wait_ackcount split: prod.splits)
  show "written k b (ctl_segs k)"
    using assms(3) a w(1) h p
      written_ctl [OF assms(1), of _ _ "seg0\<lparr>seg_cmd := cmd\<rparr>" for cmd]
      written_ctl [OF assms(1) written_ctl [OF assms(1)], of _ _ "seg0\<lparr>seg_cmd := cmd\<rparr>" "seg0\<lparr>seg_cmd := cmd'\<rparr>" for cmd cmd']
    by (auto simp: flush_control_def flush_probe_def ctl_segs_def Let_def room append_assoc [symmetric]
        simp del: append_assoc)
  show "seg_wnd seg = ikcp_wnd_unused k"
    using assms(3) a by (auto simp: flush_control_def flush_probe_def Let_def s0 flush_seg_def
        split: if_splits)
qed

section \<open>The move into the window\<close>

text \<open>\<open>move_n\<close>: the first \<open>n\<close> segments of the queue go to the end of the buffer and are
  numbered consecutively. The loop is \<open>move_n\<close> for the largest \<open>n\<close> the window allows.\<close>

definition flush_taken :: "u32 \<Rightarrow> ikcpcb \<Rightarrow> nat \<Rightarrow> ikcpseg list" where
  "flush_taken wnd k n =
     map (\<lambda>i. flush_newseg (k\<lparr>snd_nxt := snd_nxt k + of_nat i\<rparr>) wnd (snd_queue k ! i)) [0 ..< n]"

definition move_n :: "u32 \<Rightarrow> nat \<Rightarrow> ikcpcb \<Rightarrow> ikcpcb" where
  "move_n wnd n k = k\<lparr>snd_queue := drop n (snd_queue k), snd_buf := snd_buf k @ flush_taken wnd k n,
     nsnd_que := nsnd_que k - of_nat n, nsnd_buf := nsnd_buf k + of_nat n,
     snd_nxt := snd_nxt k + of_nat n\<rparr>"

lemma move_n_0 [simp]: "move_n wnd 0 k = k"
  by (simp add: move_n_def flush_taken_def)

lemma move_n_Suc:
  assumes "snd_queue k = s # ss"
  shows "move_n wnd (Suc n) k = move_n wnd n (k\<lparr>snd_queue := ss,
     snd_buf := snd_buf k @ [flush_newseg k wnd s], nsnd_que := nsnd_que k - 1,
     nsnd_buf := nsnd_buf k + 1, snd_nxt := snd_nxt k + 1\<rparr>)"
proof -
  have "flush_taken wnd k (Suc n) = flush_newseg k wnd s #
    flush_taken wnd (k\<lparr>snd_queue := ss, snd_buf := snd_buf k @ [flush_newseg k wnd s],
      nsnd_que := nsnd_que k - 1, nsnd_buf := nsnd_buf k + 1, snd_nxt := snd_nxt k + 1\<rparr>) n"
    using assms
    by (intro nth_equalityI)
      (auto simp: flush_taken_def flush_newseg_def nth_Cons simp del: upt_Suc split: nat.split)
  then show ?thesis using assms by (simp add: move_n_def)
qed

lemma flush_move_n:
  "\<exists>n \<le> length (snd_queue k). flush_move wnd cw k = move_n wnd n k \<and>
     (\<forall>i < n. itimediff (snd_nxt k + of_nat i) (snd_una k + cw) < 0) \<and>
     (n = length (snd_queue k) \<or> \<not> itimediff (snd_nxt k + of_nat n) (snd_una k + cw) < 0)"
proof (induction wnd cw k rule: flush_move.induct)
  case (1 wnd cw k)
  show ?case
  proof (cases "itimediff (snd_nxt k) (snd_una k + cw) < 0 \<and> snd_queue k \<noteq> []")
    case True
    then obtain s ss where q: "snd_queue k = s # ss" by (cases "snd_queue k") auto
    let ?k = "k\<lparr>snd_queue := ss, snd_buf := snd_buf k @ [flush_newseg k wnd s],
      nsnd_que := nsnd_que k - 1, nsnd_buf := nsnd_buf k + 1, snd_nxt := snd_nxt k + 1\<rparr>"
    have e: "flush_move wnd cw k = flush_move wnd cw ?k"
      using True q by (simp add: flush_move.simps [of wnd cw k])
    obtain n where n: "n \<le> length ss" "flush_move wnd cw ?k = move_n wnd n ?k"
      "\<forall>i < n. itimediff (snd_nxt k + 1 + of_nat i) (snd_una k + cw) < 0"
      "n = length ss \<or> \<not> itimediff (snd_nxt k + 1 + of_nat n) (snd_una k + cw) < 0"
      using "1.IH" [OF _ q] True by auto
    have "itimediff (snd_nxt k + of_nat i) (snd_una k + cw) < 0" if "i < Suc n" for i
      using that n(3) True by (cases i) (auto simp: algebra_simps)
    then show ?thesis
      using n q by (intro exI [of _ "Suc n"]) (auto simp: e move_n_Suc algebra_simps)
  next
    case False
    then have "flush_move wnd cw k = k"
      by (auto simp: flush_move.simps [of wnd cw k] split: list.split)
    with False show ?thesis by (intro exI [of _ 0]) auto
  qed
qed

text \<open>The number of segments in flight after the move: the window, or less when the queue ran
  empty, or the old number when the window had shrunk below it.\<close>

lemma flush_move_window:
  assumes "off (snd_una k) (snd_nxt k) < 2 ^ 31" "unat cw < 2 ^ 31"
  obtains n where "n \<le> length (snd_queue k)" "flush_move wnd cw k = move_n wnd n k"
    "n = min (length (snd_queue k)) (unat cw - off (snd_una k) (snd_nxt k))"
    "off (snd_una k) (snd_nxt k + of_nat n) = off (snd_una k) (snd_nxt k) + n"
proof -
  let ?o = "off (snd_una k) (snd_nxt k)"
  obtain n where n: "n \<le> length (snd_queue k)" "flush_move wnd cw k = move_n wnd n k"
     "\<forall>i < n. itimediff (snd_nxt k + of_nat i) (snd_una k + cw) < 0"
     "n = length (snd_queue k) \<or> \<not> itimediff (snd_nxt k + of_nat n) (snd_una k + cw) < 0"
    using flush_move_n by blast
  have o: "off (snd_una k) (snd_nxt k + of_nat i) = ?o + i" if "?o + i < 2 ^ 32" for i
    using off_add [of "snd_una k" "snd_nxt k" "of_nat i"] that by (simp add: unat_of_nat_u32)
  have w: "off (snd_una k) (snd_una k + cw) = unat cw" by (simp add: off_def)
  have d: "itimediff (snd_nxt k + of_nat i) (snd_una k + cw) < 0 \<longleftrightarrow> ?o + i < unat cw"
    if "?o + i < 2 ^ 31" for i
    using itimediff_off [of "snd_una k" "snd_nxt k + of_nat i" "snd_una k + cw"] o [of i] that w assms(2)
    by (auto simp del: of_nat_unat)
  have le: "n \<le> unat cw - ?o"
  proof (rule ccontr)
    assume "\<not> n \<le> unat cw - ?o"
    then have "unat cw - ?o < n" by simp
    then have "itimediff (snd_nxt k + of_nat (unat cw - ?o)) (snd_una k + cw) < 0" using n(3) by blast
    then show False using d [of "unat cw - ?o"] assms by (cases "?o \<le> unat cw") auto
  qed
  have sm: "?o + n < 2 ^ 31" using le assms by linarith
  have "n = min (length (snd_queue k)) (unat cw - ?o)"
    using n(1,4) le d [OF sm] by auto
  with n(1,2) o sm show thesis by (intro that) auto
qed

section \<open>The data segments\<close>

text \<open>What a flush leaves of a buffered segment, and the segment it sends.\<close>

definition flush_mark :: "ikcpcb \<Rightarrow> u32 \<Rightarrow> u32 \<Rightarrow> u32 \<Rightarrow> u32 \<Rightarrow> ikcpseg \<Rightarrow> ikcpseg" where
  "flush_mark k now resent rtomin wnd s =
     (if seg_due k now resent s = Not_due then s
      else (seg_mark k now rtomin (seg_due k now resent s) s)
             \<lparr>seg_ts := now, seg_wnd := wnd, seg_una := rcv_nxt k\<rparr>)"

definition seg_wire :: "ikcpseg \<Rightarrow> seg_hdr \<times> bytes" where
  "seg_wire s = (seg_hdr_of s, take (unat (seg_len s)) (seg_data s))"

lemma seg_mark_fields [simp]:
  "seg_sn (seg_mark k now rt d s) = seg_sn s" "seg_len (seg_mark k now rt d s) = seg_len s"
  "seg_data (seg_mark k now rt d s) = seg_data s" "seg_frg (seg_mark k now rt d s) = seg_frg s"
  "seg_conv (seg_mark k now rt d s) = seg_conv s" "seg_cmd (seg_mark k now rt d s) = seg_cmd s"
  by (cases d; simp add: seg_mark_def)+

lemma seg_mark_Not_due [simp]: "seg_mark k now rt Not_due s = s"
  by (simp add: seg_mark_def)

lemma flush_mark_fields [simp]:
  "seg_sn (flush_mark k now rs rt w s) = seg_sn s" "seg_len (flush_mark k now rs rt w s) = seg_len s"
  "seg_data (flush_mark k now rs rt w s) = seg_data s" "seg_frg (flush_mark k now rs rt w s) = seg_frg s"
  "seg_conv (flush_mark k now rs rt w s) = seg_conv s" "seg_cmd (flush_mark k now rs rt w s) = seg_cmd s"
  by (simp_all add: flush_mark_def)

lemma flush_one_seg: "fst (flush_one k now rs rt w s a) = flush_mark k now rs rt w s"
  by (simp add: flush_one_def flush_mark_def Let_def)

lemma flush_data_segs: "fst (flush_data k now rs rt w ss a) = map (flush_mark k now rs rt w) ss"
  by (induction ss arbitrary: a)
    (simp_all add: flush_one_seg split: prod.split, metis flush_one_seg fst_conv)

definition data_fit :: "ikcpcb \<Rightarrow> ikcpseg \<Rightarrow> bool" where
  "data_fit k s \<longleftrightarrow> seg_ok s \<and> unat (seg_len s) \<le> unat (mss k)"

lemma flush_one_written:
  assumes "cfg_ok k" "written k (fa_out a) ws" "data_fit k s"
  shows "written k (fa_out (snd (flush_one k now rs rt w s a)))
    (ws @ (if seg_due k now rs s = Not_due then [] else [seg_wire (flush_mark k now rs rt w s)]))"
proof (cases "seg_due k now rs s = Not_due")
  case True
  with assms(2) show ?thesis by (simp add: flush_one_def Let_def)
next
  case False
  let ?s = "flush_mark k now rs rt w s"
  let ?n = "sint (IKCP_OVERHEAD + seg_len s)"
  let ?b = "out_room k ?n (fa_out a)"
  have l: "unat (seg_len s) + 24 + unat (head_room k) \<le> unat (mtu k)" "unat (mtu k) < 2 ^ 31"
    using assms(1,3) by (auto simp: cfg_ok_def data_fit_def)
  have "unat (IKCP_OVERHEAD + seg_len s) = 24 + unat (seg_len s)"
    using unat_add_u32 [of IKCP_OVERHEAD "seg_len s"] l by (simp add: ikcp_consts)
  then have n: "?n = int (24 + length (take (unat (seg_len s)) (seg_data s)))"
    using l assms(3) by (simp add: sint_u32 data_fit_def seg_ok_def)
  have "fa_out (snd (flush_one k now rs rt w s a)) =
      ?b\<lparr>fo_cur := fo_cur ?b @ header_bytes (seg_hdr_of ?s) @ take (unat (seg_len s)) (seg_data s)\<rparr>"
    using False by (simp add: flush_one_def flush_mark_def Let_def out_seg_def encode_seg_header)
  moreover have "written k (?b\<lparr>fo_cur := fo_cur ?b @ header_bytes (seg_hdr_of ?s) @
      take (unat (seg_len s)) (seg_data s)\<rparr>) (ws @ [(seg_hdr_of ?s, take (unat (seg_len s)) (seg_data s))])"
    by (rule written_add [OF assms(1,2) n]) (use l assms(3) in \<open>simp add: data_fit_def seg_ok_def\<close>)
  ultimately show ?thesis using False by (simp add: seg_wire_def)
qed

lemma flush_data_written:
  assumes "cfg_ok k"
  shows "written k (fa_out a) ws \<Longrightarrow> \<forall>s \<in> set ss. data_fit k s \<Longrightarrow>
    written k (fa_out (snd (flush_data k now rs rt w ss a)))
      (ws @ map (\<lambda>s. seg_wire (flush_mark k now rs rt w s)) (filter (\<lambda>s. seg_due k now rs s \<noteq> Not_due) ss))"
proof (induction ss arbitrary: a ws)
  case (Cons s ss)
  let ?a = "snd (flush_one k now rs rt w s a)"
  have "written k (fa_out ?a)
    (ws @ (if seg_due k now rs s = Not_due then [] else [seg_wire (flush_mark k now rs rt w s)]))"
    using flush_one_written [OF assms Cons.prems(1)] Cons.prems(2) by simp
  from Cons.IH [OF this] Cons.prems(2) show ?case by (auto simp: split_beta)
qed simp

text \<open>The loop's other results: which congestion events happened and how long to wait.\<close>

lemma flush_data_events:
  "fa_lost (snd (flush_data k now rs rt w ss a)) \<longleftrightarrow>
     fa_lost a \<or> (\<exists>s \<in> set ss. seg_due k now rs s = Timed_out)"
  "fa_change (snd (flush_data k now rs rt w ss a)) =
     fa_change a + length (filter (\<lambda>s. seg_due k now rs s = Fast_resend) ss)"
  by (induction ss arbitrary: a) (auto simp: split_beta flush_one_def Let_def)

lemma flush_data_wait:
  "fa_wait (snd (flush_data k now rs rt w ss a)) \<le> fa_wait a"
  "0 < fa_wait a \<Longrightarrow> 0 < fa_wait (snd (flush_data k now rs rt w ss a))"
  "s \<in> set ss \<Longrightarrow> 0 < itimediff (seg_resendts (flush_mark k now rs rt w s)) now \<Longrightarrow>
     uint (fa_wait (snd (flush_data k now rs rt w ss a))) \<le>
     itimediff (seg_resendts (flush_mark k now rs rt w s)) now"
proof -
  have d: "uint (word_of_int d :: u32) = d" if "0 < d" "d = itimediff x y" for d x y
  proof -
    have "d < 2 ^ 31" using that sint_less [of "x - y"] by (simp add: itimediff_def)
    with that(1) show ?thesis by (simp add: unsigned_of_int take_bit_int_eq_self)
  qed
  have one: "fa_wait (snd (flush_one k now rs rt w s a)) =
      (let d = itimediff (seg_resendts (flush_mark k now rs rt w s)) now
       in if 0 < d \<and> word_of_int d < fa_wait a then word_of_int d else fa_wait a)" for s a
    by (cases "seg_due k now rs s = Not_due") (auto simp: flush_one_def flush_mark_def Let_def)
  have le1: "fa_wait (snd (flush_one k now rs rt w s a)) \<le> fa_wait a" for s a
    by (simp add: one Let_def less_imp_le)
  have pos1: "0 < fa_wait (snd (flush_one k now rs rt w s a))" if "0 < fa_wait a" for s a
  proof -
    have "0 < (word_of_int d :: u32)" if "0 < d" "d = itimediff x y" for d x y
      using d [OF that] that(1) by (simp add: word_less_def)
    with that show ?thesis by (simp add: one Let_def)
  qed
  have le: "fa_wait (snd (flush_data k now rs rt w ss a)) \<le> fa_wait a" for ss a
    by (induction ss arbitrary: a) (auto simp: split_beta intro: order_trans [OF _ le1])
  then show "fa_wait (snd (flush_data k now rs rt w ss a)) \<le> fa_wait a" .
  show "0 < fa_wait a \<Longrightarrow> 0 < fa_wait (snd (flush_data k now rs rt w ss a))"
    by (induction ss arbitrary: a) (auto simp: split_beta pos1)
  show "s \<in> set ss \<Longrightarrow> 0 < itimediff (seg_resendts (flush_mark k now rs rt w s)) now \<Longrightarrow>
     uint (fa_wait (snd (flush_data k now rs rt w ss a))) \<le>
     itimediff (seg_resendts (flush_mark k now rs rt w s)) now"
  proof (induction ss arbitrary: a)
    case (Cons t ss)
    let ?a = "snd (flush_one k now rs rt w t a)"
    show ?case
    proof (cases "s \<in> set ss")
      case True
      with Cons show ?thesis by (simp add: split_beta)
    next
      case False
      then have t: "t = s" using Cons.prems by simp
      have "uint (fa_wait ?a) \<le> itimediff (seg_resendts (flush_mark k now rs rt w s)) now"
        using Cons.prems(2) d [OF Cons.prems(2) refl] by (auto simp: one Let_def t word_less_def not_less)
      moreover have "uint (fa_wait (snd (flush_data k now rs rt w ss ?a))) \<le> uint (fa_wait ?a)"
        using le [of ss ?a] by (simp add: word_le_def)
      ultimately show ?thesis by (simp add: split_beta)
    qed
  qed simp
qed

section \<open>The whole flush\<close>

text \<open>Every queued or buffered segment fits the MSS and its fragment number one byte; the
  buffered ones carry the conversation and the data command.\<close>

definition snd_ready :: "ikcpcb \<Rightarrow> bool" where
  "snd_ready k \<longleftrightarrow>
     (\<forall>s \<in> set (snd_queue k) \<union> set (snd_buf k). data_fit k s \<and> unat (seg_frg s) < 256) \<and>
     (\<forall>s \<in> set (snd_buf k). seg_conv s = conv k \<and> seg_cmd s = IKCP_CMD_PUSH)"

definition flush_mid :: "ikcpcb \<Rightarrow> u32 \<Rightarrow> ikcpcb" where
  "flush_mid k now =
     flush_move (ikcp_wnd_unused k) (ikcp_calc_wnd k 1) (flush_ctl_state (k\<lparr>current := now\<rparr>))"

definition flush_step :: "ikcpcb \<Rightarrow> u32 \<Rightarrow> ikcpseg \<Rightarrow> ikcpseg" where
  "flush_step k now = flush_mark (flush_mid k now) now (flush_resent (flush_mid k now))
     (flush_rtomin (flush_mid k now)) (ikcp_wnd_unused k)"

definition flush_dues :: "ikcpcb \<Rightarrow> u32 \<Rightarrow> ikcpseg list" where
  "flush_dues k now =
     filter (\<lambda>s. seg_due (flush_mid k now) now (flush_resent (flush_mid k now)) s \<noteq> Not_due)
       (snd_buf (flush_mid k now))"

definition flush_segs :: "ikcpcb \<Rightarrow> u32 \<Rightarrow> (seg_hdr \<times> bytes) list" where
  "flush_segs k now = ctl_segs (k\<lparr>current := now\<rparr>) @
     map (\<lambda>s. seg_wire (flush_step k now s)) (flush_dues k now)"

lemma flush_ssthresh_frame [frame]:
  "rcv_view (flush_ssthresh c l cw rs k) = rcv_view k"
  "snd_view (flush_ssthresh c l cw rs k) = snd_view k"
  "ack_view (flush_ssthresh c l cw rs k) = ack_view k"
  "snd_queue (flush_ssthresh c l cw rs k) = snd_queue k" "conv (flush_ssthresh c l cw rs k) = conv k"
  "mss (flush_ssthresh c l cw rs k) = mss k" "mtu (flush_ssthresh c l cw rs k) = mtu k"
  "head_room (flush_ssthresh c l cw rs k) = head_room k"
  "nsnd_que (flush_ssthresh c l cw rs k) = nsnd_que k"
  by (simp_all add: flush_ssthresh_def Let_def rcv_view_def snd_view_def ack_view_def)

lemma move_n_fields [simp]:
  "conv (move_n w n k) = conv k" "mss (move_n w n k) = mss k" "mtu (move_n w n k) = mtu k"
  "head_room (move_n w n k) = head_room k" "interval (move_n w n k) = interval k"
  "nocwnd (move_n w n k) = nocwnd k" "snd_una (move_n w n k) = snd_una k"
  "rcv_view (move_n w n k) = rcv_view k" "ack_view (move_n w n k) = ack_view k"
  by (simp_all add: move_n_def rcv_view_def ack_view_def)

lemma flush_ctl_fields [simp]:
  "conv (flush_ctl_state k) = conv k" "mss (flush_ctl_state k) = mss k" "mtu (flush_ctl_state k) = mtu k"
  "head_room (flush_ctl_state k) = head_room k" "interval (flush_ctl_state k) = interval k"
  "snd_queue (flush_ctl_state k) = snd_queue k" "snd_buf (flush_ctl_state k) = snd_buf k"
  "snd_una (flush_ctl_state k) = snd_una k" "snd_nxt (flush_ctl_state k) = snd_nxt k"
  "nsnd_buf (flush_ctl_state k) = nsnd_buf k" "nsnd_que (flush_ctl_state k) = nsnd_que k"
  "rcv_view (flush_ctl_state k) = rcv_view k" "ackcount (flush_ctl_state k) = 0"
  "snd_wnd (flush_ctl_state k) = snd_wnd k" "rmt_wnd (flush_ctl_state k) = rmt_wnd k"
  "nocwnd (flush_ctl_state k) = nocwnd k" "cwnd (flush_ctl_state k) = cwnd k"
  "current (flush_ctl_state k) = current k" "rx_rto (flush_ctl_state k) = rx_rto k"
  "rcv_nxt (flush_ctl_state k) = rcv_nxt k" "acklist (flush_ctl_state k) = acklist k"
  "ackblock (flush_ctl_state k) = ackblock k"
  by (simp_all add: flush_ctl_state_def flush_probe_wait_def Let_def rcv_view_def)

lemma current_view [simp]:
  "rcv_view (k\<lparr>current := c\<rparr>) = rcv_view k" "snd_view (k\<lparr>current := c\<rparr>) = snd_view k"
  "ack_view (k\<lparr>current := c\<rparr>) = ack_view k"
  by (simp_all add: rcv_view_def snd_view_def ack_view_def)

lemma flush_mid_n:
  obtains n where "n \<le> length (snd_queue k)"
    "flush_mid k now = move_n (ikcp_wnd_unused k) n (flush_ctl_state (k\<lparr>current := now\<rparr>))"
  using flush_move_n [of "flush_ctl_state (k\<lparr>current := now\<rparr>)" "ikcp_wnd_unused k" "ikcp_calc_wnd k 1"]
  by (auto simp: flush_mid_def)

lemma flush_taken_set:
  assumes "s \<in> set (flush_taken w k n)" "n \<le> length (snd_queue k)"
  shows "seg_conv s = conv k \<and> seg_cmd s = IKCP_CMD_PUSH \<and> seg_xmit s = 0 \<and>
    (\<exists>t \<in> set (snd_queue k). seg_len s = seg_len t \<and> seg_data s = seg_data t \<and> seg_frg s = seg_frg t)"
  using assms by (fastforce simp: flush_taken_def flush_newseg_def)

lemma snd_ready_mid:
  assumes "snd_ready k"
  shows "snd_ready (flush_mid k now)"
proof -
  obtain n where n: "n \<le> length (snd_queue k)"
    "flush_mid k now = move_n (ikcp_wnd_unused k) n (flush_ctl_state (k\<lparr>current := now\<rparr>))"
    by (rule flush_mid_n)
  have "data_fit k s \<and> unat (seg_frg s) < 256 \<and> seg_conv s = conv k \<and> seg_cmd s = IKCP_CMD_PUSH"
    if "s \<in> set (flush_taken (ikcp_wnd_unused k) (flush_ctl_state (k\<lparr>current := now\<rparr>)) n)" for s
    using flush_taken_set [OF that] n(1) assms by (auto simp: snd_ready_def data_fit_def seg_ok_def)
  with assms n(2) show ?thesis
    by (auto simp: snd_ready_def move_n_def data_fit_def dest: in_set_dropD)
qed

lemma flush_spec:
  assumes "cfg_ok k" "unat (ackcount k) < 2 ^ 31" "snd_ready k" "ikcp_flush k now = (w, k', ds)"
  shows "snd_buf k' = map (flush_step k now) (snd_buf (flush_mid k now))"
    "snd_queue k' = snd_queue (flush_mid k now)" "snd_una k' = snd_una k"
    "snd_nxt k' = snd_nxt (flush_mid k now)" "nsnd_buf k' = nsnd_buf (flush_mid k now)"
    "nsnd_que k' = nsnd_que (flush_mid k now)"
    "rcv_view k' = rcv_view k" "acks k' = []"
    "mss k' = mss k \<and> mtu k' = mtu k \<and> head_room k' = head_room k \<and> conv k' = conv k"
    "\<exists>segss. ds = map wire_bytes segss \<and> concat segss = flush_segs k now \<and>
       (\<forall>d \<in> set segss. d \<noteq> [] \<and> fits k d)"
    "w \<le> interval k" "0 < interval k \<Longrightarrow> 0 < w"
    "\<And>s. s \<in> set (snd_buf k') \<Longrightarrow> 0 < itimediff (seg_resendts s) now \<Longrightarrow>
       uint w \<le> itimediff (seg_resendts s) now"
proof -
  let ?k0 = "k\<lparr>current := now\<rparr>"
  let ?m = "flush_mid k now"
  have c0: "cfg_ok ?k0" "unat (ackcount ?k0) < 2 ^ 31" using assms(1,2) by (simp_all add: cfg_ok_def)
  obtain k1 seg b where c: "flush_control ?k0 = (k1, seg, b)" by (metis prod_cases3)
  note fc = flush_control_written [OF c0 c]
  have wnd: "seg_wnd seg = ikcp_wnd_unused k" using fc(3) by (simp add: ikcp_wnd_unused_def)
  have cw: "(if nocwnd k1 = 0 then imin (cwnd k1) (imin (snd_wnd k1) (rmt_wnd k1))
      else imin (snd_wnd k1) (rmt_wnd k1)) = ikcp_calc_wnd k 1"
    using fc(1) by (simp add: ikcp_calc_wnd_def Let_def)
  have m: "flush_move (ikcp_wnd_unused k) (ikcp_calc_wnd k 1) k1 = ?m"
    using fc(1) wnd by (simp add: flush_mid_def)
  obtain n where n: "?m = move_n (ikcp_wnd_unused k) n (flush_ctl_state ?k0)" by (rule flush_mid_n)
  let ?acc = "\<lparr>fa_xmit = xmit ?m, fa_state = state ?m, fa_out = b, fa_change = 0,
                 fa_lost = False, fa_wait = interval ?m\<rparr>"
  define D where "D = flush_data ?m now (flush_resent ?m) (flush_rtomin ?m) (ikcp_wnd_unused k) (snd_buf ?m) ?acc"
  define a where "a = snd D"
  let ?k3 = "?m\<lparr>snd_buf := fst D, xmit := fa_xmit a, state := fa_state a\<rparr>"
  have r: "w = fa_wait a" "ds = fo_sent (out_final ?k3 (fa_out a))"
    "k' = flush_ssthresh (fa_change a) (fa_lost a) (ikcp_calc_wnd k 1) (flush_resent ?m) ?k3"
    using assms(4) unfolding ikcp_flush_def Let_def c
    by (auto simp: cw m wnd D_def a_def split: prod.splits)
  have buf: "fst D = map (flush_step k now) (snd_buf ?m)"
    unfolding D_def flush_data_segs flush_step_def ..
  have v: "snd_view k' = snd_view ?k3" "rcv_view k' = rcv_view ?k3" "ack_view k' = ack_view ?k3"
    by (simp_all add: r flush_ssthresh_frame)
  show "snd_buf k' = map (flush_step k now) (snd_buf ?m)" "snd_nxt k' = snd_nxt ?m"
    "nsnd_buf k' = nsnd_buf ?m" "snd_una k' = snd_una k"
    using v(1) buf n by (simp_all add: snd_view_def)
  show "snd_queue k' = snd_queue ?m" "nsnd_que k' = nsnd_que ?m"
    "mss k' = mss k \<and> mtu k' = mtu k \<and> head_room k' = head_room k \<and> conv k' = conv k"
    by (simp_all add: r flush_ssthresh_frame n)
  have "rcv_view ?k3 = rcv_view ?m" by (simp add: rcv_view_def)
  then show "rcv_view k' = rcv_view k" using v(2) n by simp
  have "ackcount k' = 0" using v(3) n by (simp add: ack_view_def move_n_def)
  then show "acks k' = []" by (simp add: acks_def)
  have fit: "cfg_ok ?m" "\<forall>s \<in> set (snd_buf ?m). data_fit ?m s"
    using assms(1) snd_ready_mid [OF assms(3), of now] by (auto simp: n cfg_ok_def snd_ready_def)
  have "written ?m (fa_out ?acc) (ctl_segs ?k0)"
    using fc(2) by (simp add: n cong: written_cong) (simp add: written_def fits_def)
  from flush_data_written [OF fit(1) this fit(2)]
  have "written ?m (fa_out a) (flush_segs k now)"
    unfolding a_def D_def flush_segs_def flush_step_def flush_dues_def by blast
  then have "written ?k3 (fa_out a) (flush_segs k now)" by (simp add: written_def fits_def)
  moreover have "cfg_ok ?k3" using fit(1) by (simp add: cfg_ok_def)
  ultimately obtain segss where "ds = map wire_bytes segss" "concat segss = flush_segs k now"
    "\<forall>d \<in> set segss. d \<noteq> [] \<and> fits ?k3 d"
    unfolding r by (elim written_final) auto
  moreover have "fits ?k3 d = fits k d" for d by (simp add: fits_def n)
  ultimately show "\<exists>segss. ds = map wire_bytes segss \<and> concat segss = flush_segs k now \<and>
       (\<forall>d \<in> set segss. d \<noteq> [] \<and> fits k d)" by auto
  note wt = flush_data_wait [where k = ?m and now = now and rs = "flush_resent ?m" and rt = "flush_rtomin ?m"
      and w = "ikcp_wnd_unused k" and ss = "snd_buf ?m" and a = ?acc]
  show "w \<le> interval k" "0 < interval k \<Longrightarrow> 0 < w"
    using wt(1,2) by (simp_all add: r a_def D_def n)
  show "uint w \<le> itimediff (seg_resendts s) now"
    if s: "s \<in> set (snd_buf k')" "0 < itimediff (seg_resendts s) now" for s
  proof -
    obtain t where t: "t \<in> set (snd_buf ?m)" "s = flush_step k now t"
      using s(1) v(1) buf by (auto simp: snd_view_def)
    with s(2) wt(3) [of t] show ?thesis by (simp add: r a_def D_def flush_step_def)
  qed
qed

lemma flush_arrays:
  assumes "cfg_ok k" "unat (ackcount k) < 2 ^ 31" "snd_ready k" "ikcp_flush k now = (w, k', ds)"
  shows "acklist k' = acklist k \<and> ackblock k' = ackblock k"
proof -
  obtain k1 seg b where c: "flush_control (k\<lparr>current := now\<rparr>) = (k1, seg, b)" by (metis prod_cases3)
  have "cfg_ok (k\<lparr>current := now\<rparr>)" "unat (ackcount (k\<lparr>current := now\<rparr>)) < 2 ^ 31"
    using assms(1,2) by (simp_all add: cfg_ok_def)
  from flush_control_written(1) [OF this c]
  have k1: "acklist k1 = acklist k" "ackblock k1 = ackblock k" by simp_all
  have mv: "acklist (flush_move v cw k1) = acklist k1 \<and> ackblock (flush_move v cw k1) = ackblock k1" for v cw
    using flush_move_n [of k1 v cw] by (auto simp: move_n_def)
  have th: "acklist (flush_ssthresh c' l cw rs m) = acklist m \<and> ackblock (flush_ssthresh c' l cw rs m) = ackblock m"
    for c' l cw rs m
    using flush_ssthresh_frame(3) [of c' l cw rs m] by (simp add: ack_view_def)
  show ?thesis
    using assms(4) unfolding ikcp_flush_def Let_def c
    by (auto simp: th mv k1 split: prod.splits)
qed

section \<open>What a flush preserves\<close>

lemma queue_bytes_map:
  assumes "\<And>s. s \<in> set ss \<Longrightarrow> seg_len (f s) = seg_len s \<and> seg_data (f s) = seg_data s"
  shows "queue_bytes (map f ss) = queue_bytes ss"
  using assms by (induction ss) auto

lemma flush_step_fields [simp]:
  "seg_sn (flush_step k now s) = seg_sn s" "seg_len (flush_step k now s) = seg_len s"
  "seg_data (flush_step k now s) = seg_data s" "seg_frg (flush_step k now s) = seg_frg s"
  "seg_conv (flush_step k now s) = seg_conv s" "seg_cmd (flush_step k now s) = seg_cmd s"
  by (simp_all add: flush_step_def)

lemma queue_bytes_taken:
  "n \<le> length (snd_queue k) \<Longrightarrow> queue_bytes (flush_taken w k n) = queue_bytes (take n (snd_queue k))"
proof -
  assume n: "n \<le> length (snd_queue k)"
  have "map (\<lambda>s. take (unat (seg_len s)) (seg_data s)) (flush_taken w k n) =
      map (\<lambda>s. take (unat (seg_len s)) (seg_data s)) (take n (snd_queue k))"
    using n by (intro nth_equalityI) (auto simp: flush_taken_def flush_newseg_def)
  then show ?thesis by (simp add: queue_bytes_def)
qed

text \<open>No byte is lost, added or reordered between the application and the window.\<close>

lemma flush_bytes:
  assumes "cfg_ok k" "unat (ackcount k) < 2 ^ 31" "snd_ready k" "ikcp_flush k now = (w, k', ds)"
  shows "queue_bytes (snd_buf k' @ snd_queue k') = queue_bytes (snd_buf k @ snd_queue k)"
proof -
  obtain n where n: "n \<le> length (snd_queue k)"
    "flush_mid k now = move_n (ikcp_wnd_unused k) n (flush_ctl_state (k\<lparr>current := now\<rparr>))"
    by (rule flush_mid_n)
  have "queue_bytes (take n (snd_queue k)) @ queue_bytes (drop n (snd_queue k)) = queue_bytes (snd_queue k)"
    by (metis append_take_drop_id queue_bytes_simps(3))
  then show ?thesis
    using flush_spec(1,2) [OF assms] n by (simp add: queue_bytes_map queue_bytes_taken move_n_def)
qed

lemma flush_ready [inv_intro]:
  assumes "cfg_ok k" "unat (ackcount k) < 2 ^ 31" "snd_ready k" "ikcp_flush k now = (w, k', ds)"
  shows "snd_ready k'" "cfg_ok k'"
proof -
  note sp = flush_spec [OF assms]
  obtain n where "flush_mid k now = move_n (ikcp_wnd_unused k) n (flush_ctl_state (k\<lparr>current := now\<rparr>))"
    by (rule flush_mid_n)
  then have "mss (flush_mid k now) = mss k" "conv (flush_mid k now) = conv k" by simp_all
  with snd_ready_mid [OF assms(3), of now] sp(1,2,9) show "snd_ready k'"
    by (auto simp: snd_ready_def data_fit_def seg_ok_def)
  show "cfg_ok k'" using assms(1) sp(9) by (simp add: cfg_ok_def)
qed

lemma flush_wnd:
  assumes "snd_inv k" "unat (snd_wnd k) < 2 ^ 31"
  obtains n where "n = min (length (snd_queue k)) (unat (ikcp_calc_wnd k 1) - off (snd_una k) (snd_nxt k))"
    "flush_mid k now = move_n (ikcp_wnd_unused k) n (flush_ctl_state (k\<lparr>current := now\<rparr>))"
    "off (snd_una k) (snd_nxt k + of_nat n) = off (snd_una k) (snd_nxt k) + n"
    "off (snd_una k) (snd_nxt k) + n < 2 ^ 31"
proof -
  have "imin (snd_wnd k) x \<le> snd_wnd k" for x by (auto simp: imin_def not_le less_imp_le)
  then have "ikcp_calc_wnd k 1 \<le> snd_wnd k"
    by (auto simp: ikcp_calc_wnd_def Let_def imin_def intro: order_trans)
  then have c: "unat (ikcp_calc_wnd k 1) < 2 ^ 31" using assms(2) by (simp add: word_le_nat_alt)
  let ?k = "flush_ctl_state (k\<lparr>current := now\<rparr>)"
  have o: "off (snd_una ?k) (snd_nxt ?k) < 2 ^ 31" using assms(1) by (simp add: snd_inv_def)
  obtain n where n: "flush_move (ikcp_wnd_unused k) (ikcp_calc_wnd k 1) ?k = move_n (ikcp_wnd_unused k) n ?k"
    "n = min (length (snd_queue ?k)) (unat (ikcp_calc_wnd k 1) - off (snd_una ?k) (snd_nxt ?k))"
    "off (snd_una ?k) (snd_nxt ?k + of_nat n) = off (snd_una ?k) (snd_nxt ?k) + n"
    by (rule flush_move_window [OF o c])
  moreover have "off (snd_una k) (snd_nxt k) + n < 2 ^ 31" using n(2) c o by simp
  ultimately show thesis by (intro that) (simp_all add: flush_mid_def)
qed

lemma snd_order_append:
  "snd_order b (xs @ ys) \<longleftrightarrow> snd_order b xs \<and> snd_order b ys \<and>
     (\<forall>x \<in> set xs. \<forall>y \<in> set ys. off b (seg_sn x) < off b (seg_sn y))"
  by (simp add: snd_order_def sorted_wrt_append)

lemma move_n_inv:
  assumes "snd_inv k" "n \<le> length (snd_queue k)" "off (snd_una k) (snd_nxt k) + n < 2 ^ 31"
  shows "snd_inv (move_n w n k)"
proof -
  let ?o = "off (snd_una k) (snd_nxt k)"
  have o: "off (snd_una k) (snd_nxt k + of_nat i) = ?o + i" if "i \<le> n" for i
    using off_add [of "snd_una k" "snd_nxt k" "of_nat i"] that assms(3) by (simp add: unat_of_nat_u32)
  have "map seg_sn (flush_taken w k n) = map (\<lambda>i. snd_nxt k + of_nat i) [0 ..< n]"
    by (simp add: flush_taken_def flush_newseg_def)
  then have "snd_order (snd_una k) (flush_taken w k n)"
    using o by (simp add: snd_order_map sorted_wrt_map) (auto simp: sorted_wrt_upt intro: sorted_wrt_mono_rel [OF _ sorted_wrt_upt])
  moreover have "?o \<le> off (snd_una k) (seg_sn s) \<and> off (snd_una k) (seg_sn s) < ?o + n"
    if "s \<in> set (flush_taken w k n)" for s
    using that o by (auto simp: flush_taken_def flush_newseg_def)
  ultimately show ?thesis
    using assms o [of n] by (fastforce simp: snd_inv_def move_n_def snd_order_append flush_taken_def)
qed

lemma flush_snd_inv [inv_intro]:
  assumes "cfg_ok k" "unat (ackcount k) < 2 ^ 31" "snd_ready k" "ikcp_flush k now = (w, k', ds)"
    and "snd_inv k" "unat (snd_wnd k) < 2 ^ 31"
  shows "snd_inv k'"
    "off (snd_una k') (snd_nxt k') \<le> max (off (snd_una k) (snd_nxt k)) (unat (ikcp_calc_wnd k 1))"
    "snd_queue k' = [] \<or> unat (ikcp_calc_wnd k 1) \<le> off (snd_una k') (snd_nxt k')"
proof -
  note sp = flush_spec [OF assms(1-4)]
  obtain n where n: "n = min (length (snd_queue k)) (unat (ikcp_calc_wnd k 1) - off (snd_una k) (snd_nxt k))"
    "flush_mid k now = move_n (ikcp_wnd_unused k) n (flush_ctl_state (k\<lparr>current := now\<rparr>))"
    "off (snd_una k) (snd_nxt k + of_nat n) = off (snd_una k) (snd_nxt k) + n"
    "off (snd_una k) (snd_nxt k) + n < 2 ^ 31"
    by (rule flush_wnd [OF assms(5,6)])
  have nx: "snd_nxt k' = snd_nxt k + of_nat n" using sp(4) n(2) by (simp add: move_n_def)
  show "off (snd_una k') (snd_nxt k') \<le> max (off (snd_una k) (snd_nxt k)) (unat (ikcp_calc_wnd k 1))"
    "snd_queue k' = [] \<or> unat (ikcp_calc_wnd k 1) \<le> off (snd_una k') (snd_nxt k')"
    using n(1,3) nx sp(2,3) n(2) by (auto simp: move_n_def)
  have "snd_inv (flush_ctl_state (k\<lparr>current := now\<rparr>))"
    using assms(5) by (simp add: snd_inv_def)
  then have "snd_inv (flush_mid k now)"
    unfolding n(2) using n(1,4) by (intro move_n_inv) simp_all
  moreover have "snd_una (flush_mid k now) = snd_una k" by (simp add: n(2))
  ultimately show "snd_inv k'" using sp(1,3,4,5) by (simp add: snd_inv_map image_image o_def)
qed

text \<open>The probe timer: between 7 and 120 seconds while the peer's window is closed.\<close>

lemma probe_wait_range:
  "rmt_wnd k = 0 \<Longrightarrow> probe_wait k = 0 \<or> IKCP_PROBE_INIT \<le> probe_wait k \<and> probe_wait k \<le> IKCP_PROBE_LIMIT \<Longrightarrow>
   IKCP_PROBE_INIT \<le> probe_wait (flush_probe_wait k) \<and> probe_wait (flush_probe_wait k) \<le> IKCP_PROBE_LIMIT"
proof -
  have "7000 \<le> w + w div 2" if "7000 \<le> w" "w \<le> 120000" for w :: u32
  proof -
    have "w \<le> w + w div 2"
      using that unat_add_u32 [of w "w div 2"] by (simp add: word_le_nat_alt unat_div)
    with that(1) show ?thesis by (rule order_trans)
  qed
  then show "rmt_wnd k = 0 \<Longrightarrow> probe_wait k = 0 \<or> IKCP_PROBE_INIT \<le> probe_wait k \<and> probe_wait k \<le> IKCP_PROBE_LIMIT \<Longrightarrow>
   IKCP_PROBE_INIT \<le> probe_wait (flush_probe_wait k) \<and> probe_wait (flush_probe_wait k) \<le> IKCP_PROBE_LIMIT"
    by (auto simp: flush_probe_wait_def ikcp_consts Let_def)
qed

section \<open>The peer reads what was flushed\<close>

lemma valid_cmd_ucast:
  "c \<in> {IKCP_CMD_PUSH, IKCP_CMD_ACK, IKCP_CMD_WASK, IKCP_CMD_WINS} \<Longrightarrow>
   valid_cmd (ucast c) \<and> ucast (ucast c :: u8) = c"
  by (auto simp: valid_cmd_def ikcp_consts)

lemma ctl_segs_good:
  assumes "(h, d) \<in> set (ctl_segs k)"
  shows "good_seg (conv k) h d" "d = []" "ucast (hd_cmd h) \<noteq> IKCP_CMD_PUSH"
proof -
  have "d = [] \<and> (\<exists>c st. c \<in> {IKCP_CMD_ACK, IKCP_CMD_WASK, IKCP_CMD_WINS} \<and> h = ctl_hdr k c st)"
    using assms by (auto simp: ctl_segs_def Let_def simp del: split_paired_Ex split: if_splits)
  then show "good_seg (conv k) h d" "d = []" "ucast (hd_cmd h) \<noteq> IKCP_CMD_PUSH"
    by (auto simp: good_seg_def ctl_hdr_def seg_hdr_of_def flush_seg_def seg_new_def
        valid_cmd_def ikcp_consts)
qed

lemma seg_wire_good:
  assumes "seg_conv s = c" "seg_cmd s = IKCP_CMD_PUSH" "data_fit k s" "mss_ok k"
  shows "good_seg c (fst (seg_wire s)) (snd (seg_wire s))"
  using assms by (auto simp: good_seg_def seg_wire_def seg_hdr_of_def data_fit_def seg_ok_def mss_ok_def
      valid_cmd_def ikcp_consts)

lemma flush_segs_good:
  assumes "cfg_ok k" "snd_ready k" "(h, d) \<in> set (flush_segs k now)"
  shows "good_seg (conv k) h d"
proof -
  obtain n where n: "flush_mid k now = move_n (ikcp_wnd_unused k) n (flush_ctl_state (k\<lparr>current := now\<rparr>))"
    by (rule flush_mid_n)
  have "good_seg (conv k) (fst (seg_wire (flush_step k now s))) (snd (seg_wire (flush_step k now s)))"
    if "s \<in> set (snd_buf (flush_mid k now))" for s
    using snd_ready_mid [OF assms(2), of now] that cfg_mss_ok [OF assms(1)]
    by (intro seg_wire_good [where k = k]) (auto simp: snd_ready_def n data_fit_def seg_ok_def)
  then show ?thesis
    using assms(3) ctl_segs_good(1) [of h d "k\<lparr>current := now\<rparr>"]
    by (auto simp: flush_segs_def flush_dues_def) (metis fst_conv snd_conv)
qed

lemma input_wire:
  assumes "\<forall>(h, d) \<in> set ss. good_seg (conv r) h d" "ss \<noteq> []" "length (wire_bytes ss) < 2 ^ 31"
  shows "ikcp_input r (wire_bytes ss) =
    (let (k1, a) = input_all ss (r, \<lparr>ia_flag = False, ia_maxack = 0, ia_latest_ts = 0\<rparr>);
         k2 = (if ia_flag a then ikcp_parse_fastack k1 (ia_maxack a) else k1)
     in map_option (Pair 0) (input_cwnd (snd_una r) k2))"
proof -
  let ?a = "\<lparr>ia_flag = False, ia_maxack = 0, ia_latest_ts = 0\<rparr>"
  have "24 \<le> length (wire_bytes ss)" using assms(2) by (cases ss) (auto simp: wire_bytes_def)
  then have "\<not> sint (of_nat (length (wire_bytes ss)) :: u32) < sint IKCP_OVERHEAD"
    using assms(3) by (simp add: sint_u32 unat_of_nat_u32 IKCP_OVERHEAD_def del: of_nat_unat)
  moreover have "input_loop (wire_bytes ss) (r, ?a) = (0, input_all ss (r, ?a))"
    using assms(1) by (intro input_loop_wire) simp
  ultimately show ?thesis by (simp add: ikcp_input_def Let_def split: prod.split)
qed

lemma flush_datagram:
  assumes "cfg_ok k" "unat (ackcount k) < 2 ^ 31" "snd_ready k" "ikcp_flush k now = (w, k', ds)" "d \<in> set ds"
  obtains ss where "d = wire_bytes ss" "ss \<noteq> []" "set ss \<subseteq> set (flush_segs k now)"
    "unat (head_room k) + length d \<le> unat (mtu k)" "length d < 2 ^ 31"
    "\<forall>(h, p) \<in> set ss. good_seg (conv k) h p"
proof -
  obtain segss where s: "ds = map wire_bytes segss" "concat segss = flush_segs k now"
      "\<forall>d \<in> set segss. d \<noteq> [] \<and> fits k d"
    using flush_spec(10) [OF assms(1-4)] by blast
  then obtain ss where ss: "d = wire_bytes ss" "ss \<in> set segss" using assms(5) by auto
  have sub: "set ss \<subseteq> set (flush_segs k now)" using ss(2) by (auto simp flip: s(2))
  have f: "unat (head_room k) + length d \<le> unat (mtu k)" using s(3) ss by (auto simp: fits_def)
  show thesis
  proof (rule that [OF ss(1) _ sub f])
    show "ss \<noteq> []" using s(3) ss by auto
    show "length d < 2 ^ 31" using f assms(1) by (simp add: cfg_ok_def)
    show "\<forall>(h, p) \<in> set ss. good_seg (conv k) h p"
      using sub flush_segs_good [OF assms(1,3)] by blast
  qed
qed

section \<open>Settings and clock\<close>


text \<open>\<open>ikcp_setmtu\<close> accepts every MTU that holds the head room; only those that also hold a
  header leave a usable MSS.\<close>

lemma setmtu_cfg:
  assumes "50 \<le> m" "m < 2 ^ 31" "int (unat (head_room k)) \<le> m" "ikcp_setmtu k m = (r, k')"
  shows "r = 0" "cfg_ok k' \<longleftrightarrow> int (unat (head_room k)) + 24 < m"
proof -
  define n where "n = nat m"
  have n: "m = int n" "50 \<le> n" "n < 2 ^ 31" "unat (head_room k) \<le> n"
    using assms(1-3) by (auto simp: n_def nat_less_iff le_nat_iff simp del: of_nat_unat)
  let ?m = "of_nat n :: u32"
  have um: "unat ?m = n" using n(3) by (simp add: unat_of_nat_u32)
  have hr: "sint (head_room k) = int (unat (head_room k))"
    using n by (simp add: sint_u32 del: of_nat_unat)
  have o: "sint IKCP_OVERHEAD = 24" "unat IKCP_OVERHEAD = 24" by (simp_all add: ikcp_consts)
  have r: "r = 0" "mtu k' = ?m" "mss k' = ?m - head_room k - IKCP_OVERHEAD" "head_room k' = head_room k"
    using assms(4) n by (auto simp: ikcp_setmtu_def Let_def hr o split: if_splits simp del: of_nat_unat)
  show "r = 0" by (rule r)
  have d: "unat (?m - head_room k) = n - unat (head_room k)"
    using n(4) um by (subst unat_sub) (auto simp: word_le_nat_alt)
  show "cfg_ok k' \<longleftrightarrow> int (unat (head_room k)) + 24 < m"
  proof (cases "24 \<le> n - unat (head_room k)")
    case True
    then have "unat (mss k') = n - unat (head_room k) - 24"
      unfolding r(3) using d o by (subst unat_sub) (auto simp: word_le_nat_alt)
    with True n um r(2,4) show ?thesis by (auto simp: cfg_ok_def simp del: of_nat_unat)
  next
    case False
    have "unat (mss k') + 24 \<noteq> n - unat (head_room k)"
      using False by simp
    moreover have "\<not> unat (mss k') < 2 ^ 31"
    proof -
      have "mss k' = of_nat (n - unat (head_room k)) - 24"
        unfolding r(3) by (simp add: IKCP_OVERHEAD_def flip: d)
      then show ?thesis
        using False n(3) by (simp add: unat_sub_if_size unat_of_nat_u32 word_size)
    qed
    ultimately show ?thesis using False n um r(2) by (auto simp: cfg_ok_def simp del: of_nat_unat)
  qed
qed

lemma set_head_room_cfg [inv_intro]:
  assumes "cfg_ok k" "ikcp_set_head_room k hr = (r, k')"
  shows "cfg_ok k'"
proof (cases "hr < mss k")
  case True
  then have "unat (mss k - hr) = unat (mss k) - unat hr" "unat hr < unat (mss k)"
    by (auto simp: word_less_nat_alt word_le_nat_alt intro: unat_sub)
  with assms True show ?thesis
    by (auto simp: ikcp_set_head_room_def cfg_ok_def split: if_splits)
next
  case False
  with assms show ?thesis by (auto simp: ikcp_set_head_room_def not_less)
qed

lemma interval_range:
  "ikcp_interval k i = (r, k') \<Longrightarrow> 10 \<le> interval k' \<and> interval k' \<le> 5000"
proof -
  have "10 \<le> (word_of_int j :: u32) \<and> (word_of_int j :: u32) \<le> 5000" if "10 \<le> j" "j \<le> 5000" for j
    using that by (simp add: word_le_def unsigned_of_int take_bit_int_eq_self)
  then show "ikcp_interval k i = (r, k') \<Longrightarrow> 10 \<le> interval k' \<and> interval k' \<le> 5000"
    by (auto simp: ikcp_interval_def Let_def)
qed

end
