(* ===== verification/Kcp_Link.thy ===== *)
theory Kcp_Link
  imports Ikcp_Flush "HOL-Library.Sublist"
begin

text \<open>
  Two control blocks over a network that loses, duplicates, delays and reorders datagrams.
  Endpoint \<open>a\<close> writes and endpoint \<open>b\<close> reads; both run the complete code of \<open>ikcp_write\<close>,
  \<open>ikcp_flush\<close>, \<open>ikcp_input\<close> and \<open>ikcp_recv\<close>. The state keeps every datagram ever sent, and
  a delivery step takes any of them, any number of times. \<open>log\<close> is a history variable: the
  segments of \<open>a\<close> in the order in which \<open>ikcp_flush\<close> numbered them.

  The theorems are the contract of the protocol: what \<open>b\<close> has read is a prefix of what \<open>a\<close>
  has written, and \<open>a\<close> drops a segment only when \<open>b\<close> holds it.
\<close>

section \<open>The link\<close>

record link =
  lk_a :: ikcpcb
  lk_b :: ikcpcb
  lk_ab :: "bytes list"
  lk_ba :: "bytes list"
  lk_log :: "(u32 \<times> bytes) list"
  lk_in :: bytes
  lk_out :: bytes

definition link_numbered :: "ikcpcb \<Rightarrow> ikcpcb \<Rightarrow> (u32 \<times> bytes) list" where
  "link_numbered k k' =
     map payload (take (length (snd_queue k) - length (snd_queue k')) (snd_queue k))"

inductive link_step :: "link \<Rightarrow> link \<Rightarrow> bool" where
  app_write: "ikcp_write (lk_a l) buf len always = Some (0, a') \<Longrightarrow>
    link_step l (l\<lparr>lk_a := a', lk_in := lk_in l @ buf\<rparr>)"
| flush_a: "ikcp_flush (lk_a l) now = (w, a', ds) \<Longrightarrow>
    length (lk_log l) + length (snd_queue (lk_a l)) < 2 ^ 31 \<Longrightarrow>
    link_step l (l\<lparr>lk_a := a', lk_ab := lk_ab l @ ds,
      lk_log := lk_log l @ link_numbered (lk_a l) a'\<rparr>)"
| flush_b: "ikcp_flush (lk_b l) now = (w, b', ds) \<Longrightarrow>
    link_step l (l\<lparr>lk_b := b', lk_ba := lk_ba l @ ds\<rparr>)"
| to_b: "d \<in> set (lk_ab l) \<Longrightarrow> ikcp_input (lk_b l) d = Some (r, b') \<Longrightarrow>
    unat (ackcount (lk_b l)) + length d < 2 ^ 30 \<Longrightarrow>
    link_step l (l\<lparr>lk_b := b'\<rparr>)"
| to_a: "d \<in> set (lk_ba l) \<Longrightarrow> ikcp_input (lk_a l) d = Some (r, a') \<Longrightarrow>
    link_step l (l\<lparr>lk_a := a'\<rparr>)"
| app_read: "ikcp_recv (lk_b l) len = Some (r, data, b') \<Longrightarrow> 0 \<le> len \<Longrightarrow>
    link_step l (l\<lparr>lk_b := b', lk_out := lk_out l @ data\<rparr>)"

text \<open>Both endpoints are fresh control blocks of one conversation, configured in any way that
  leaves a usable MSS and a receive window below \<open>2 ^ 31\<close>.\<close>

definition link_init :: "ikcpcb \<Rightarrow> ikcpcb \<Rightarrow> link" where
  "link_init a b = \<lparr>lk_a = a, lk_b = b, lk_ab = [], lk_ba = [], lk_log = [], lk_in = [], lk_out = []\<rparr>"

definition fresh_pair :: "ikcpcb \<Rightarrow> ikcpcb \<Rightarrow> bool" where
  "fresh_pair a b \<longleftrightarrow> conv a = conv b \<and> cfg_ok a \<and> cfg_ok b \<and>
     unat (rcv_wnd a) < 2 ^ 31 \<and> unat (rcv_wnd b) < 2 ^ 31 \<and>
     (\<forall>k \<in> {a, b}. snd_queue k = [] \<and> snd_buf k = [] \<and> rcv_queue k = [] \<and> rcv_buf k = [] \<and>
        snd_nxt k = 0 \<and> snd_una k = 0 \<and> rcv_nxt k = 0 \<and> nrcv_que k = 0 \<and> nrcv_buf k = 0 \<and>
        nsnd_buf k = 0 \<and> nsnd_que k = 0 \<and> ackcount k = 0 \<and> ackblock k = 0 \<and> acklist k = [])"

inductive link_reach :: "link \<Rightarrow> bool" where
  init: "fresh_pair a b \<Longrightarrow> link_reach (link_init a b)"
| step: "link_reach l \<Longrightarrow> link_step l l' \<Longrightarrow> link_reach l'"

section \<open>Writing\<close>

lemma write_fragments_frame:
  "write_fragments m c i n buf k = k\<lparr>snd_queue := snd_queue (write_fragments m c i n buf k),
     nsnd_que := nsnd_que (write_fragments m c i n buf k)\<rparr>"
  by (simp add: write_fragments_eq)

lemma write_extend_frame:
  "snd (write_extend buf k) = k\<lparr>snd_queue := snd_queue (snd (write_extend buf k))\<rparr>"
  by (simp add: write_extend_def Let_def)

lemma write_cases:
  assumes "ikcp_write k buf len always = Some (r, k')"
    and e: "(if stream k \<noteq> 0 \<or> always then write_extend buf k else (buf, k)) = (b1, k1)"
  obtains "k' = k" | "k' = k1"
  | c where "k' = write_fragments (stream k \<noteq> 0 \<or> always) c 0 c b1 k1" "stream k \<noteq> 0 \<or> always \<or> c \<le> 128"
proof -
  let ?mode = "stream k \<noteq> 0 \<or> always"
  define c where "c = (if write_count k1 (length b1) = 0 then 1 else write_count k1 (length b1))"
  have "k' = k \<or> k' = k1 \<or> k' = write_fragments ?mode c 0 c b1 k1 \<and> (?mode \<or> c \<le> 128)"
    using assms(1) unfolding ikcp_write_def Let_def e fst_conv snd_conv IKCP_WND_RCV_unat c_def [symmetric]
    by (auto simp: c_def simp del: write_fragments.simps One_nat_def split: if_splits)
  then show thesis using that by blast
qed

lemma write_frame:
  assumes "ikcp_write k buf len always = Some (r, k')"
  shows "k' = k\<lparr>snd_queue := snd_queue k', nsnd_que := nsnd_que k'\<rparr>"
proof -
  obtain b1 k1 where e: "(if stream k \<noteq> 0 \<or> always then write_extend buf k else (buf, k)) = (b1, k1)"
    by fastforce
  have "k1 = k\<lparr>snd_queue := snd_queue k1\<rparr>"
    using write_extend_frame [of buf k] e by (auto split: if_splits)
  then obtain q where k1: "k1 = k\<lparr>snd_queue := q\<rparr>" by blast
  from assms e show ?thesis
  proof (cases rule: write_cases)
    case 2
    then show ?thesis by (simp add: k1)
  next
    case (3 c)
    then show ?thesis by (simp add: write_fragments_eq k1)
  qed simp
qed

lemma frag_segs_small:
  assumes "s \<in> set (frag_segs m mode count i n buf)" "mode \<or> count \<le> 256"
  shows "unat (seg_frg s) < 256"
proof -
  have "seg_frg s \<in> set (map seg_frg (frag_segs m mode count i n buf))" using assms(1) by simp
  then consider "seg_frg s = 0" | j where "\<not> mode" "seg_frg s = of_nat (count - j - 1)"
    unfolding frag_segs_frg by (auto split: if_splits)
  then show ?thesis
  proof cases
    case (2 j)
    then have "count - j - 1 < 256" using assms(2) by linarith
    with 2 show ?thesis by (simp add: unat_of_nat_u32)
  qed simp
qed

lemma write_frg:
  assumes "ikcp_write k buf len always = Some (r, k')" "\<forall>s \<in> set (snd_queue k). unat (seg_frg s) < 256"
  shows "\<forall>s \<in> set (snd_queue k'). unat (seg_frg s) < 256"
proof -
  let ?mode = "stream k \<noteq> 0 \<or> always"
  obtain b1 k1 where e: "(if ?mode then write_extend buf k else (buf, k)) = (b1, k1)"
    by fastforce
  have q1: "\<forall>s \<in> set (snd_queue k1). unat (seg_frg s) < 256"
    using e assms(2) by (auto simp: write_extend_def Let_def seg_new_def dest!: in_set_butlastD split: if_splits)
  from assms(1) e show ?thesis
  proof (cases rule: write_cases)
    case (3 c)
    then show ?thesis
      using q1 frag_segs_small [of _ "unat (mss k1)" ?mode c 0 c b1] by (auto simp: write_fragments_eq)
  qed (use assms(2) q1 in auto)
qed

lemma write_ready [inv_intro]:
  assumes "ikcp_write k buf len always = Some (0, k')" "snd_ready k" "cfg_ok k"
  shows "snd_ready k'" "cfg_ok k'"
proof -
  note f = write_frame [OF assms(1)]
  have e: "snd_buf k' = snd_buf k" "mss k' = mss k" "conv k' = conv k" "mtu k' = mtu k"
    "head_room k' = head_room k"
    by (subst f, simp)+
  have "snd_sizes k" using assms(2) by (auto simp: snd_ready_def snd_sizes_def data_fit_def)
  then have "snd_sizes k'" using write_bytes [OF cfg_mss_ok [OF assms(3)] _ assms(1)] by simp
  with write_frg [OF assms(1)] assms(2) e show "snd_ready k'"
    by (auto simp: snd_ready_def snd_sizes_def data_fit_def)
  show "cfg_ok k'" using assms(3) e by (simp add: cfg_ok_def)
qed

section \<open>The sender against input\<close>

text \<open>What the network sees of a buffered segment; input only removes segments and counts
  skips.\<close>

definition seg_core :: "ikcpseg \<Rightarrow> u32 \<times> u32 \<times> u32 \<times> u32 \<times> u32 \<times> bytes" where
  "seg_core s = (seg_conv s, seg_cmd s, seg_sn s, seg_frg s, seg_len s, seg_data s)"

definition cfg_view :: "ikcpcb \<Rightarrow> u32 \<times> u32 \<times> u32 \<times> u32 \<times> u32 \<times> ikcpseg list \<times> u32" where
  "cfg_view k = (conv k, mtu k, mss k, head_room k, snd_nxt k, snd_queue k, rcv_wnd k)"

definition sender_of :: "ikcpcb \<Rightarrow> ikcpcb \<Rightarrow> bool" where
  "sender_of k k' \<longleftrightarrow> cfg_view k' = cfg_view k \<and> seg_core ` set (snd_buf k') \<subseteq> seg_core ` set (snd_buf k)"

lemma sender_of_refl: "sender_of k k"
  by (simp add: sender_of_def)

lemma sender_of_trans: "sender_of a b \<Longrightarrow> sender_of b c \<Longrightarrow> sender_of a c"
  using order_trans [of "seg_core ` set (snd_buf c)" "seg_core ` set (snd_buf b)"]
  by (simp add: sender_of_def)

lemma fastack_mark_core: "map seg_core (fastack_mark sn ss) = map seg_core ss"
  by (induction ss) (auto simp: seg_core_def)

lemma rcv_move_cfg: "cfg_view (rcv_move k) = cfg_view k \<and> snd_buf (rcv_move k) = snd_buf k"
  by (rule rcv_move_rule) (simp_all add: cfg_view_def rcv_step_def)

lemma sender_of_ops:
  "sender_of k (k\<lparr>rmt_wnd := v\<rparr>)" "sender_of k (k\<lparr>probe := v\<rparr>)"
  "sender_of k (ikcp_update_ack k r)" "sender_of k (ikcp_parse_ack k sn)"
  "sender_of k (ikcp_parse_una k sn)" "sender_of k (ikcp_shrink_buf k)"
  "sender_of k (ikcp_parse_fastack k sn)" "sender_of k (ikcp_ack_push k sn ts)"
  "sender_of k (ikcp_parse_data k s)"
proof -
  show "sender_of k (ikcp_parse_ack k sn)" "sender_of k (ikcp_parse_una k sn)"
    using ack_remove_sub(1) una_drop_sub(1)
    by (fastforce simp: sender_of_def cfg_view_def ikcp_parse_ack_def ikcp_parse_una_def Let_def)+
  show "sender_of k (ikcp_parse_fastack k sn)"
    using arg_cong [OF fastack_mark_core [of sn "snd_buf k"], of set]
    by (simp add: sender_of_def cfg_view_def ikcp_parse_fastack_def)
  show "sender_of k (ikcp_parse_data k s)"
    using rcv_move_cfg by (simp add: sender_of_def cfg_view_def ikcp_parse_data_def split: option.split)
qed (simp_all add: sender_of_def cfg_view_def ikcp_update_ack_def ikcp_shrink_buf_def
    ikcp_ack_push_def Let_def split: list.split)

lemma sender_of_ack: "sender_of k (fst (input_ack h (k, a)))"
  unfolding input_ack_def Let_def
  by (auto intro!: sender_of_ops sender_of_trans [OF _ sender_of_ops(6)] sender_of_trans [OF _ sender_of_ops(4)]
      sender_of_refl)

lemma sender_of_cmd: "sender_of k (fst (input_cmd h d (k, a)))"
proof -
  have u: "sender_of k (input_una h k)"
    unfolding input_una_def
    by (intro sender_of_trans [OF _ sender_of_ops(6)] sender_of_trans [OF _ sender_of_ops(5)] sender_of_ops)
  have p: "sender_of k' (input_push h d k')" for k'
    unfolding input_push_def Let_def
    by (auto intro: sender_of_ops sender_of_trans [OF sender_of_ops(8) sender_of_ops(9)] sender_of_refl)
  show ?thesis
    using sender_of_trans [OF u p] sender_of_trans [OF u sender_of_ops(2)] u
      sender_of_trans [OF u sender_of_ack]
    by (simp add: input_cmd_cases Let_def)
qed

lemma sender_of_cwnd: "input_cwnd p k = Some k' \<Longrightarrow> sender_of k k'"
  by (auto simp: input_cwnd_def Let_def sender_of_def cfg_view_def split: if_splits)

lemma sender_of_input: "ikcp_input k d = Some (r, k') \<Longrightarrow> sender_of k k'"
  by (erule input_rule) (blast intro: sender_of_refl sender_of_trans sender_of_cmd sender_of_ops sender_of_cwnd)+

lemma sender_of_ready: "sender_of k k' \<Longrightarrow> snd_ready k \<Longrightarrow> snd_ready k'"
  and sender_of_cfg: "sender_of k k' \<Longrightarrow> cfg_ok k \<Longrightarrow> cfg_ok k'"
proof -
  assume s: "sender_of k k'"
  show "cfg_ok k \<Longrightarrow> cfg_ok k'" using s by (simp add: sender_of_def cfg_view_def cfg_ok_def)
  assume r: "snd_ready k"
  have "seg_conv x = conv k' \<and> seg_cmd x = IKCP_CMD_PUSH \<and> data_fit k' x \<and> unat (seg_frg x) < 256"
    if x: "x \<in> set (snd_buf k')" for x
  proof -
    obtain y where "y \<in> set (snd_buf k)" "seg_core x = seg_core y" using s x by (auto simp: sender_of_def)
    with r s show ?thesis by (auto simp: snd_ready_def seg_core_def sender_of_def cfg_view_def data_fit_def seg_ok_def)
  qed
  with r s show "snd_ready k'" by (auto simp: snd_ready_def sender_of_def cfg_view_def data_fit_def)
qed

section \<open>The receiver\<close>

text \<open>\<open>receiver log R k\<close>: the application has consumed the first \<open>R\<close> segments of the log, and
  all that \<open>k\<close> holds is data of the log.\<close>

definition receiver :: "(u32 \<times> bytes) list \<Rightarrow> nat \<Rightarrow> ikcpcb \<Rightarrow> bool" where
  "receiver log R k \<longleftrightarrow> rcv_inv k \<and> rcv_coherent (nth log) R k \<and> rcv_pos R k \<le> length log \<and>
     (\<forall>s \<in> set (rcv_buf k). rcv_pos R k + off (rcv_nxt k) (seg_sn s) < length log)"

text \<open>A data segment is genuine when it is some segment of the log.\<close>

definition genuine :: "(u32 \<times> bytes) list \<Rightarrow> seg_hdr \<Rightarrow> bytes \<Rightarrow> bool" where
  "genuine log h d \<longleftrightarrow> (ucast (hd_cmd h) = IKCP_CMD_PUSH \<longrightarrow>
     (\<exists>i < length log. hd_sn h = of_nat i \<and> (ucast (hd_frg h), d) = log ! i))"

lemma receiver_view: "rcv_view k = rcv_view k' \<Longrightarrow> receiver log R k = receiver log R k'"
  by (simp add: receiver_def rcv_view_def rcv_inv_def rcv_coherent_def rcv_pos_def)

lemma receiver_grow: "receiver log R k \<Longrightarrow> receiver (log @ new) R k"
proof -
  assume r: "receiver log R k"
  then have "map (nth (log @ new)) [R ..< rcv_pos R k] = map (nth log) [R ..< rcv_pos R k]"
    by (simp add: receiver_def nth_append)
  with r show ?thesis by (auto simp: receiver_def rcv_coherent_def nth_append)
qed

lemma genuine_grow: "genuine log h d \<Longrightarrow> genuine (log @ new) h d"
  by (fastforce simp: genuine_def nth_append)

lemma off_of_nat_below:
  assumes "off (of_nat p) (of_nat i) < 2 ^ 31" "i < 2 ^ 31" "p \<le> 2 ^ 31"
  shows "p \<le> i \<and> off (of_nat p) (of_nat i) = i - p"
proof (cases "p \<le> i")
  case True
  have "(of_nat i :: u32) - of_nat p = of_nat (i - p)" using True by simp
  then have "off (of_nat p) (of_nat i) = unat (of_nat (i - p) :: u32)" by (simp only: off_def)
  also have "\<dots> = i - p" by (rule unat_of_nat_u32) (use assms(2) in simp)
  finally show ?thesis using True by simp
next
  case False
  have "unat ((of_nat i :: u32) - of_nat p) = 2 ^ 32 + i - p"
    using False assms by (simp add: unat_sub_if' unat_of_nat_u32)
  with False assms show ?thesis by (simp add: off_def)
qed

lemma genuine_agrees:
  assumes "receiver log R k" "genuine log h d" "length log < 2 ^ 31"
  shows "push_agrees (nth log) R k h d"
    "ucast (hd_cmd h) = IKCP_CMD_PUSH \<Longrightarrow> off (rcv_nxt k) (hd_sn h) < 2 ^ 31 \<Longrightarrow>
       rcv_pos R k + off (rcv_nxt k) (hd_sn h) < length log"
proof -
  have n: "rcv_nxt k = of_nat (rcv_pos R k)" "rcv_pos R k \<le> length log" "unat (rcv_wnd k) < 2 ^ 31"
    using assms(1) by (auto simp: receiver_def rcv_coherent_def rcv_inv_def)
  have *: "\<exists>i < length log. i = rcv_pos R k + off (rcv_nxt k) (hd_sn h) \<and> (ucast (hd_frg h), d) = log ! i"
    if cmd: "ucast (hd_cmd h) = IKCP_CMD_PUSH" and o: "off (rcv_nxt k) (hd_sn h) < 2 ^ 31"
  proof -
    obtain i where i: "i < length log" "hd_sn h = of_nat i" "(ucast (hd_frg h), d) = log ! i"
      using assms(2) cmd by (auto simp: genuine_def)
    with off_of_nat_below [of "rcv_pos R k" i] o n assms(3)
    have "i = rcv_pos R k + off (rcv_nxt k) (hd_sn h)" by simp
    with i show ?thesis by blast
  qed
  with n(3) show "push_agrees (nth log) R k h d"
    by (auto simp: push_agrees_def)
  show "ucast (hd_cmd h) = IKCP_CMD_PUSH \<Longrightarrow> off (rcv_nxt k) (hd_sn h) < 2 ^ 31 \<Longrightarrow>
       rcv_pos R k + off (rcv_nxt k) (hd_sn h) < length log"
    using * by blast
qed

lemma receiver_step:
  assumes "receiver log R k" "rcv_buf k = s # ss" "seg_sn s = rcv_nxt k" "nrcv_que k < rcv_wnd k"
  shows "receiver log R (rcv_step s ss k)"
proof -
  have i: "rcv_inv k" "rcv_coherent (nth log) R k" using assms(1) by (auto simp: receiver_def)
  have pos: "0 < off (rcv_nxt k) (seg_sn t)" if "t \<in> set ss" for t
    using i assms(2,3) that by (auto simp: rcv_inv_def rcv_order_def off_self)
  have "rcv_pos R k < length log" using assms by (auto simp: receiver_def off_self)
  moreover have "Suc (rcv_pos R k) + off (rcv_nxt k + 1) (seg_sn t) < length log" if "t \<in> set ss" for t
    using assms(1,2) that pos [OF that] by (auto simp: receiver_def off_shift)
  ultimately show ?thesis
    using rcv_step_inv [OF i(1) assms(2-4)] rcv_step_coherent [OF i assms(2,3)]
    by (simp add: receiver_def) (auto simp: rcv_step_def rcv_pos_def)
qed

lemma receiver_move: "receiver log R k \<Longrightarrow> receiver log R (rcv_move k)"
  by (rule rcv_move_rule) (auto intro: receiver_step)

lemma receiver_data:
  assumes "receiver log R k" "payload new = log ! (rcv_pos R k + off (rcv_nxt k) (seg_sn new))"
    and "off (rcv_nxt k) (seg_sn new) < 2 ^ 31 \<Longrightarrow> rcv_pos R k + off (rcv_nxt k) (seg_sn new) < length log"
  shows "receiver log R (ikcp_parse_data k new)"
proof -
  let ?out = "itimediff (seg_sn new) (rcv_nxt k + rcv_wnd k) \<ge> 0 \<or> itimediff (seg_sn new) (rcv_nxt k) < 0"
  show ?thesis
  proof (cases "?out \<or> insert_back new (rev (rcv_buf k)) = None")
    case True
    with assms(1) show ?thesis by (auto simp: ikcp_parse_data_def receiver_move)
  next
    case False
    then obtain rs where rs: "insert_back new (rev (rcv_buf k)) = Some rs" by auto
    let ?k = "k\<lparr>rcv_buf := rev rs, nrcv_buf := nrcv_buf k + 1\<rparr>"
    have "rcv_inv ?k"
      using insert_back_inv [OF _ _ rs] assms(1) False by (auto simp: receiver_def)
    moreover have "off (rcv_nxt k) (seg_sn new) < 2 ^ 31"
      using False itimediff_nonneg [of "seg_sn new" "rcv_nxt k"] by auto
    ultimately have "receiver log R ?k"
      using assms insert_back_set [OF rs]
      by (auto simp: receiver_def rcv_coherent_def rcv_pos_def)
    with False rs show ?thesis by (auto simp: ikcp_parse_data_def receiver_move)
  qed
qed

lemma receiver_cmd:
  assumes "receiver log R k" "genuine log h d" "length log < 2 ^ 31" "length d = unat (hd_len h)"
  shows "receiver log R (fst (input_cmd h d (k, a)))"
proof -
  have u: "receiver log R (input_una h k)"
    using assms(1) by (simp add: receiver_view [OF input_una_frame(1)])
  have "receiver log R (input_push h d k')"
    if k': "receiver log R k'" and c: "ucast (hd_cmd h) = IKCP_CMD_PUSH" for k'
  proof -
    let ?k = "ikcp_ack_push k' (hd_sn h) (hd_ts h)"
    have v: "rcv_view ?k = rcv_view k'" by (simp add: frame)
    then have k: "receiver log R ?k" using k' by (simp add: receiver_view [OF v])
    have n: "rcv_nxt ?k = rcv_nxt k'" "rcv_wnd ?k = rcv_wnd k'" using view_cong(1) [OF v] by simp_all
    have "receiver log R (ikcp_parse_data ?k (input_segment h d))"
      if "itimediff (hd_sn h) (rcv_nxt k' + rcv_wnd k') < 0" "itimediff (hd_sn h) (rcv_nxt k') \<ge> 0"
    proof (rule receiver_data [OF k])
      have "off (rcv_nxt k') (hd_sn h) < unat (rcv_wnd k')"
        using off_wnd [of "rcv_wnd k'" "hd_sn h" "rcv_nxt k'"] that k' by (simp add: receiver_def rcv_inv_def)
      then show "payload (input_segment h d) = log ! (rcv_pos R ?k + off (rcv_nxt ?k) (seg_sn (input_segment h d)))"
        using genuine_agrees(1) [OF k assms(2,3)] c assms(4)
        by (simp add: push_agrees_def payload_def input_segment_def seg_new_def n)
    qed (use genuine_agrees(2) [OF k assms(2,3) c] in \<open>simp add: input_segment_def\<close>)
    with k' k show ?thesis by (simp add: input_push_def Let_def n)
  qed
  with u show ?thesis
    using receiver_view [OF input_ack_frame(1) [of h "(input_una h k, a)"]]
      receiver_view [OF view_updates(4) [where k = "input_una h k"]]
    by (simp add: input_cmd_cases Let_def)
qed

lemma receiver_all:
  assumes "receiver log R k" "length log < 2 ^ 31"
    and "\<forall>(h, d) \<in> set ss. genuine log h d \<and> length d = unat (hd_len h)"
  shows "receiver log R (fst (input_all ss (k, a)))"
  using assms
proof (induction ss arbitrary: k a)
  case (Cons s ss)
  obtain h d where s: "s = (h, d)" by (cases s)
  obtain k1 a1 where k1: "input_cmd h d (k, a) = (k1, a1)" by fastforce
  have "receiver log R k1"
    using receiver_cmd [of log R k h d a] Cons.prems s k1 by auto
  with Cons.IH [of k1 a1] Cons.prems show ?case by (simp add: input_all_def s k1)
qed (simp add: input_all_def)

text \<open>What is left of a well-formed datagram after its segments: the fast-retransmit counters
  and the congestion window.\<close>

lemma input_wire_cases:
  assumes "\<forall>(h, d) \<in> set ss. good_seg (conv k) h d" "ss \<noteq> []" "length (wire_bytes ss) < 2 ^ 31"
    and "ikcp_input k (wire_bytes ss) = Some (r, k')"
    and "input_all ss (k, \<lparr>ia_flag = False, ia_maxack = 0, ia_latest_ts = 0\<rparr>) = (k1, a1)"
  obtains k2 where "k2 = k1 \<or> k2 = ikcp_parse_fastack k1 (ia_maxack a1)"
    "input_cwnd (snd_una k) k2 = Some k'" "r = 0"
proof -
  define k2 where "k2 = (if ia_flag a1 then ikcp_parse_fastack k1 (ia_maxack a1) else k1)"
  have "map_option (Pair 0) (input_cwnd (snd_una k) k2) = Some (r, k')"
    using input_wire [OF assms(1-3)] assms(4,5) by (simp add: Let_def k2_def)
  then show thesis by (intro that [of k2]) (auto simp: k2_def)
qed

lemma receiver_input:
  assumes "receiver log R k" "length log < 2 ^ 31" "ss \<noteq> []" "length (wire_bytes ss) < 2 ^ 31"
    and "\<forall>(h, d) \<in> set ss. genuine log h d \<and> good_seg (conv k) h d"
    and "ikcp_input k (wire_bytes ss) = Some (r, k')"
  shows "receiver log R k'"
proof -
  let ?a = "\<lparr>ia_flag = False, ia_maxack = 0, ia_latest_ts = 0\<rparr>"
  obtain k1 a1 where k1: "input_all ss (k, ?a) = (k1, a1)" by fastforce
  have r1: "receiver log R k1"
    using receiver_all [OF assms(1,2), of ss ?a] assms(5) k1 by (auto simp: good_seg_def)
  have "\<forall>(h, d) \<in> set ss. good_seg (conv k) h d" using assms(5) by auto
  from this assms(3,4,6) k1 obtain k2 where
    k2: "k2 = k1 \<or> k2 = ikcp_parse_fastack k1 (ia_maxack a1)" "input_cwnd (snd_una k) k2 = Some k'"
    by (rule input_wire_cases)
  then have "rcv_view k' = rcv_view k1"
    using input_cwnd_frame(1) [OF k2(2)] parse_fastack_frame(1) by auto
  from receiver_view [OF this] r1 show ?thesis by simp
qed

lemma recv_recover_view: "rcv_view (recv_recover b k) = rcv_view k"
  by (simp add: recv_recover_def view_updates)

lemma receiver_recv:
  assumes "receiver log R k" "ikcp_recv k len = Some (r, data, k')" "0 \<le> len"
  obtains R' where "receiver log R' k'"
    "concat (map snd (take R log)) @ data = concat (map snd (take R' log))" "R \<le> R'" "R' \<le> length log"
  using assms(2)
proof (cases rule: recv_cases)
  case fail
  with assms(1) show thesis by (intro that [of R]) (auto simp: receiver_def rcv_pos_def)
next
  case ok
  let ?n = "msg_segs (rcv_queue k)"
  have i: "rcv_inv k" "rcv_coherent (nth log) R k" using assms(1) by (auto simp: receiver_def)
  have n: "?n \<le> length (rcv_queue k)" by (rule msg_segs_le)
  have p: "rcv_pos (R + ?n) (recv_take False k) = rcv_pos R k"
    using n by (simp add: rcv_pos_def recv_take_def merge_eq)
  have "receiver log (R + ?n) (recv_take False k)"
    using assms(1) recv_take_inv [OF i(1), of False] recv_take_coherent [OF i(2)] p
    by (simp add: receiver_def)
  then have "receiver log (R + ?n) k'"
    using receiver_move ok(6) assms(3) by (simp add: receiver_view [OF recv_recover_view])
  moreover have le: "R + ?n \<le> length log" using assms(1) n by (simp add: receiver_def rcv_pos_def)
  moreover have "concat (map snd (take R log)) @ data = concat (map snd (take (R + ?n) log))"
  proof -
    have "map payload (take ?n (rcv_queue k)) = take ?n (map (nth log) [R ..< rcv_pos R k])"
      using i(2) by (simp add: rcv_coherent_def flip: take_map)
    also have "\<dots> = map (nth log) [R ..< R + ?n]"
      using n by (simp add: take_map rcv_pos_def)
    also have "\<dots> = take ?n (drop R log)"
      using le by (intro nth_equalityI) auto
    finally have "map payload (take ?n (rcv_queue k)) = take ?n (drop R log)" .
    then have "map snd (map payload (take ?n (rcv_queue k))) = map snd (take ?n (drop R log))" by simp
    then have "data = concat (map snd (take ?n (drop R log)))"
      using ok(5) by (simp add: merge_eq comp_def)
    then show ?thesis by (simp add: take_add)
  qed
  ultimately show thesis using that [of "R + ?n"] by simp
qed

section \<open>Pending acknowledgements stay countable\<close>

lemma rcv_move_ackcount: "ackcount (rcv_move k) = ackcount k"
  using rcv_move_frame [of k] by (simp add: ack_view_def)

lemma ackcount_cmd:
  "unat (ackcount (fst (input_cmd h d (k, a)))) \<le> unat (ackcount k) + 1"
  "ucast (hd_cmd h) \<noteq> IKCP_CMD_PUSH \<Longrightarrow> ackcount (fst (input_cmd h d (k, a))) = ackcount k"
proof -
  have v: "ackcount k1 = ackcount k2" if "ack_view k1 = ack_view k2" for k1 k2
    using that by (simp add: ack_view_def)
  have u: "ackcount (input_una h k) = ackcount k" by (rule v) (simp add: frame)
  have a: "ackcount (fst (input_ack h (k', a))) = ackcount k'" for k'
    using v [OF input_ack_frame(2) [of h "(k', a)"]] by simp
  have "ackcount (ikcp_ack_push k' sn ts) = ackcount k' + 1" for k' sn ts
    by (simp add: ikcp_ack_push_def Let_def)
  then have "ackcount (input_push h d k') = ackcount k' \<or> ackcount (input_push h d k') = ackcount k' + 1" for k'
    using v [OF parse_data_frame(2)] by (auto simp: input_push_def Let_def)
  moreover have "unat (c + 1) \<le> unat c + 1" for c :: u32
    by (simp add: unat_word_ariths)
  ultimately have "unat (ackcount (input_push h d k')) \<le> unat (ackcount k') + 1" for k'
    by (metis le_add1)
  then show "unat (ackcount (fst (input_cmd h d (k, a)))) \<le> unat (ackcount k) + 1"
    using u a by (simp add: input_cmd_cases Let_def) (metis u)
  show "ucast (hd_cmd h) \<noteq> IKCP_CMD_PUSH \<Longrightarrow> ackcount (fst (input_cmd h d (k, a))) = ackcount k"
    using u a by (simp add: input_cmd_cases Let_def)
qed

lemma ackcount_all:
  "unat (ackcount (fst (input_all ss (k, a)))) \<le> unat (ackcount k) + length ss"
proof (induction ss arbitrary: k a)
  case (Cons s ss)
  obtain h d where s: "s = (h, d)" by (cases s)
  obtain k1 a1 where k1: "input_cmd h d (k, a) = (k1, a1)" by fastforce
  show ?case
    using Cons.IH [of k1 a1] ackcount_cmd(1) [of h d k a] by (simp add: input_all_def s k1)
qed (simp add: input_all_def)

lemma ackcount_ctl:
  "\<forall>(h, d) \<in> set ss. ucast (hd_cmd h) \<noteq> IKCP_CMD_PUSH \<Longrightarrow>
     ackcount (fst (input_all ss (k, a))) = ackcount k"
proof (induction ss arbitrary: k a)
  case (Cons s ss)
  obtain h d where s: "s = (h, d)" by (cases s)
  obtain k1 a1 where k1: "input_cmd h d (k, a) = (k1, a1)" by fastforce
  show ?case
    using Cons.IH [of k1 a1] Cons.prems ackcount_cmd(2) [of h d k a] by (simp add: input_all_def s k1)
qed (simp add: input_all_def)

lemma wire_bytes_long: "24 * length ss \<le> length (wire_bytes ss)"
  by (induction ss) (auto simp: wire_bytes_def)

lemma ackcount_input:
  assumes "ss \<noteq> []" "length (wire_bytes ss) < 2 ^ 31" "\<forall>(h, d) \<in> set ss. good_seg (conv k) h d"
    and "ikcp_input k (wire_bytes ss) = Some (r, k')"
  shows "unat (ackcount k') \<le> unat (ackcount k) + length (wire_bytes ss)"
    "\<forall>(h, d) \<in> set ss. ucast (hd_cmd h) \<noteq> IKCP_CMD_PUSH \<Longrightarrow> ackcount k' = ackcount k"
proof -
  let ?a = "\<lparr>ia_flag = False, ia_maxack = 0, ia_latest_ts = 0\<rparr>"
  obtain k1 a1 where k1: "input_all ss (k, ?a) = (k1, a1)" by fastforce
  from assms(3,1,2,4) k1 obtain k2 where
    k2: "k2 = k1 \<or> k2 = ikcp_parse_fastack k1 (ia_maxack a1)" "input_cwnd (snd_una k) k2 = Some k'"
    by (rule input_wire_cases)
  then have "ack_view k' = ack_view k1"
    using input_cwnd_frame(3) [OF k2(2)] parse_fastack_frame(2) by auto
  then have e: "ackcount k' = ackcount k1" by (simp add: ack_view_def)
  show "unat (ackcount k') \<le> unat (ackcount k) + length (wire_bytes ss)"
    using ackcount_all [of ss k ?a] wire_bytes_long [of ss] k1 e by simp
  show "\<forall>(h, d) \<in> set ss. ucast (hd_cmd h) \<noteq> IKCP_CMD_PUSH \<Longrightarrow> ackcount k' = ackcount k"
    using ackcount_ctl [of ss k ?a] k1 e by simp
qed

section \<open>Numbering\<close>

lemma flush_numbered:
  assumes "cfg_ok k" "unat (ackcount k) < 2 ^ 31" "snd_ready k" "ikcp_flush k now = (w, k', ds)"
  obtains n where "n \<le> length (snd_queue k)" "snd_queue k' = drop n (snd_queue k)"
    "link_numbered k k' = map payload (take n (snd_queue k))" "snd_nxt k' = snd_nxt k + of_nat n"
    "map payload (snd_buf k') = map payload (snd_buf k) @ map payload (take n (snd_queue k))"
    "map seg_sn (snd_buf k') = map seg_sn (snd_buf k) @ map (\<lambda>i. snd_nxt k + of_nat i) [0 ..< n]"
proof -
  note sp = flush_spec [OF assms]
  let ?c = "flush_ctl_state (k\<lparr>current := now\<rparr>)"
  obtain n where n: "n \<le> length (snd_queue k)" "flush_mid k now = move_n (ikcp_wnd_unused k) n ?c"
    by (rule flush_mid_n)
  have p: "map payload (flush_taken (ikcp_wnd_unused k) ?c n) = map payload (take n (snd_queue k))"
    using n(1) by (intro nth_equalityI) (auto simp: flush_taken_def flush_newseg_def payload_def)
  have s: "payload (flush_step k now s) = payload s" for s by (simp add: payload_def)
  show thesis
  proof (rule that [OF n(1)])
    show q: "snd_queue k' = drop n (snd_queue k)" using sp(2) n(2) by (simp add: move_n_def)
    show "link_numbered k k' = map payload (take n (snd_queue k))"
      using n(1) by (simp add: link_numbered_def q)
    show "snd_nxt k' = snd_nxt k + of_nat n" using sp(4) n(2) by (simp add: move_n_def)
    show "map payload (snd_buf k') = map payload (snd_buf k) @ map payload (take n (snd_queue k))"
      using sp(1) n(2) p by (simp add: move_n_def s o_def)
    show "map seg_sn (snd_buf k') = map seg_sn (snd_buf k) @ map (\<lambda>i. snd_nxt k + of_nat i) [0 ..< n]"
      using sp(1) n(2) by (simp add: move_n_def o_def) (simp add: flush_taken_def flush_newseg_def)
  qed
qed

section \<open>The invariant of the link\<close>

definition logged :: "(u32 \<times> bytes) list \<Rightarrow> u32 \<times> u32 \<times> bytes \<Rightarrow> bool" where
  "logged log x \<longleftrightarrow> (\<exists>i < length log. fst x = of_nat i \<and> snd x = log ! i)"

definition seg_entry :: "ikcpseg \<Rightarrow> u32 \<times> u32 \<times> bytes" where
  "seg_entry s = (seg_sn s, payload s)"

definition sender :: "(u32 \<times> bytes) list \<Rightarrow> bytes \<Rightarrow> ikcpcb \<Rightarrow> bool" where
  "sender log inp k \<longleftrightarrow> cfg_ok k \<and> snd_ready k \<and> unat (ackcount k) < 2 ^ 30 \<and>
     snd_nxt k = of_nat (length log) \<and> concat (map snd log) @ queue_bytes (snd_queue k) = inp \<and>
     (\<forall>s \<in> set (snd_buf k). logged log (seg_entry s))"

definition quiet :: "ikcpcb \<Rightarrow> bool" where
  "quiet k \<longleftrightarrow> cfg_ok k \<and> snd_queue k = [] \<and> snd_buf k = [] \<and> unat (ackcount k) < 2 ^ 30"

definition datagram :: "(seg_hdr \<Rightarrow> bytes \<Rightarrow> bool) \<Rightarrow> bytes \<Rightarrow> bool" where
  "datagram Q d \<longleftrightarrow> (\<exists>ss. d = wire_bytes ss \<and> ss \<noteq> [] \<and> length d < 2 ^ 31 \<and> (\<forall>(h, p) \<in> set ss. Q h p))"

definition ctl_only :: "seg_hdr \<Rightarrow> bytes \<Rightarrow> bool" where
  "ctl_only h d \<longleftrightarrow> ucast (hd_cmd h) \<noteq> IKCP_CMD_PUSH"

definition link_inv :: "link \<Rightarrow> bool" where
  "link_inv l \<longleftrightarrow> length (lk_log l) < 2 ^ 31 \<and> conv (lk_a l) = conv (lk_b l) \<and>
     sender (lk_log l) (lk_in l) (lk_a l) \<and> quiet (lk_b l) \<and>
     (\<exists>R \<le> length (lk_log l). receiver (lk_log l) R (lk_b l) \<and>
        lk_out l = concat (map snd (take R (lk_log l)))) \<and>
     (\<forall>d \<in> set (lk_ab l). datagram (\<lambda>h p. good_seg (conv (lk_a l)) h p \<and> genuine (lk_log l) h p) d) \<and>
     (\<forall>d \<in> set (lk_ba l). datagram (\<lambda>h p. good_seg (conv (lk_a l)) h p \<and> ctl_only h p) d)"

lemma datagram_mono: "datagram P d \<Longrightarrow> (\<And>h p. P h p \<Longrightarrow> Q h p) \<Longrightarrow> datagram Q d"
  by (fastforce simp: datagram_def)

lemma logged_grow: "logged log x \<Longrightarrow> logged (log @ new) x"
  by (fastforce simp: logged_def nth_append)

lemma quiet_ready: "quiet k \<Longrightarrow> snd_ready k"
  by (simp add: quiet_def snd_ready_def)

lemma sender_bound: "sender log inp k \<Longrightarrow> unat (ackcount k) < 2 ^ 31"
  and quiet_bound: "quiet k \<Longrightarrow> unat (ackcount k) < 2 ^ 31"
  by (simp_all add: sender_def quiet_def)

lemma sender_write:
  assumes "sender log inp k" "ikcp_write k buf len always = Some (0, k')"
  shows "sender log (inp @ buf) k'" "conv k' = conv k"
proof -
  have r: "cfg_ok k" "snd_ready k" using assms(1) by (auto simp: sender_def)
  have sz: "snd_sizes k" using r(2) by (auto simp: snd_ready_def snd_sizes_def data_fit_def)
  note f = write_frame [OF assms(2)]
  have e: "snd_buf k' = snd_buf k" "snd_nxt k' = snd_nxt k" "ackcount k' = ackcount k" "conv k' = conv k"
    by (subst f, simp)+
  from e show "conv k' = conv k" by simp
  have "queue_bytes (snd_queue k') = queue_bytes (snd_queue k) @ buf"
    using write_bytes [OF cfg_mss_ok [OF r(1)] sz assms(2)] by simp
  with assms(1) e write_ready [OF assms(2) r(2,1)] show "sender log (inp @ buf) k'"
    by (auto simp: sender_def)
qed

lemma sender_input:
  assumes "sender log inp k" "datagram (\<lambda>h p. good_seg (conv k) h p \<and> ctl_only h p) d"
    and "ikcp_input k d = Some (r, k')"
  shows "sender log inp k'" "conv k' = conv k"
proof -
  note so = sender_of_input [OF assms(3)]
  obtain ss where ss: "d = wire_bytes ss" "ss \<noteq> []" "length d < 2 ^ 31"
    "\<forall>(h, p) \<in> set ss. good_seg (conv k) h p \<and> ctl_only h p"
    using assms(2) by (auto simp: datagram_def)
  have "ackcount k' = ackcount k"
    using ackcount_input(2) [of ss k r k'] ss assms(3) by (auto simp: ctl_only_def)
  moreover have "logged log (seg_entry s)" if s: "s \<in> set (snd_buf k')" for s
  proof -
    obtain t where "t \<in> set (snd_buf k)" "seg_core s = seg_core t" using so s by (auto simp: sender_of_def)
    with assms(1) show ?thesis by (auto simp: sender_def seg_core_def seg_entry_def payload_def)
  qed
  ultimately show "sender log inp k'"
    using assms(1) so sender_of_ready [OF so] sender_of_cfg [OF so]
    by (auto simp: sender_def sender_of_def cfg_view_def)
  show "conv k' = conv k" using so by (simp add: sender_of_def cfg_view_def)
qed

lemma sender_flush:
  assumes "sender log inp k" "ikcp_flush k now = (w, k', ds)"
    and "length log + length (snd_queue k) < 2 ^ 31"
  shows "sender (log @ link_numbered k k') inp k'" "conv k' = conv k"
    "length (log @ link_numbered k k') < 2 ^ 31"
    "d \<in> set ds \<Longrightarrow>
       datagram (\<lambda>h p. good_seg (conv k) h p \<and> genuine (log @ link_numbered k k') h p) d"
    "(h, p) \<in> set (flush_segs k now) \<Longrightarrow> genuine (log @ link_numbered k k') h p"
proof -
  have r: "cfg_ok k" "snd_ready k" "unat (ackcount k) < 2 ^ 31"
    using assms(1) by (auto simp: sender_def)
  note sp = flush_spec [OF r(1,3,2) assms(2)]
  obtain n where n: "n \<le> length (snd_queue k)" "snd_queue k' = drop n (snd_queue k)"
    "link_numbered k k' = map payload (take n (snd_queue k))" "snd_nxt k' = snd_nxt k + of_nat n"
    "map payload (snd_buf k') = map payload (snd_buf k) @ map payload (take n (snd_queue k))"
    "map seg_sn (snd_buf k') = map seg_sn (snd_buf k) @ map (\<lambda>i. snd_nxt k + of_nat i) [0 ..< n]"
    by (rule flush_numbered [OF r(1,3,2) assms(2)])
  let ?log = "log @ link_numbered k k'"
  show "length ?log < 2 ^ 31" using n(1,3) assms(3) by simp
  show "conv k' = conv k" using sp(9) by simp
  have "map snd (map payload (take n (snd_queue k))) = map (\<lambda>s. take (unat (seg_len s)) (seg_data s)) (take n (snd_queue k))"
    by (simp add: payload_def)
  then have b: "concat (map snd ?log) @ queue_bytes (snd_queue k') = inp"
    using assms(1) queue_bytes_simps(3) [of "take n (snd_queue k)" "drop n (snd_queue k)"]
    by (simp add: sender_def n(2,3) queue_bytes_def payload_def o_def)
  have "map seg_entry (snd_buf k') = zip (map seg_sn (snd_buf k')) (map payload (snd_buf k'))"
    by (simp add: zip_map_map seg_entry_def [abs_def] zip_same_conv_map)
  also have "\<dots> = map seg_entry (snd_buf k) @
      zip (map (\<lambda>i. snd_nxt k + of_nat i) [0 ..< n]) (map payload (take n (snd_queue k)))"
    by (simp add: n(5,6) zip_map_map seg_entry_def [abs_def] zip_same_conv_map)
  finally have e: "map seg_entry (snd_buf k') = \<dots>" .
  have l: "logged ?log (seg_entry s)" if s: "s \<in> set (snd_buf k')" for s
  proof -
    have "seg_entry s \<in> set (map seg_entry (snd_buf k'))" using s by simp
    then consider "seg_entry s \<in> seg_entry ` set (snd_buf k)"
      | i where "i < n" "seg_entry s = (snd_nxt k + of_nat i, payload (snd_queue k ! i))"
      unfolding e using n(1) by (auto simp: set_zip)
    then show ?thesis
    proof cases
      case 1
      with assms(1) show ?thesis by (auto simp: sender_def intro: logged_grow)
    next
      case (2 i)
      then have "?log ! (length log + i) = payload (snd_queue k ! i)" "length log + i < length ?log"
        using n(1,3) by (simp_all add: nth_append)
      moreover have "snd_nxt k + of_nat i = of_nat (length log + i)" using assms(1) by (simp add: sender_def)
      ultimately show ?thesis unfolding logged_def using 2
        by (intro exI [of _ "length log + i"]) simp
    qed
  qed
  have sr: "snd_ready k'" "cfg_ok k'" using flush_ready [OF r(1,3,2) assms(2)] .
  have "ackcount k' = 0" using sp(8) by (simp add: acks_def unsigned_eq_0_iff)
  with b l sr n(3,4) n(1) assms(1) show "sender ?log inp k'"
    by (simp add: sender_def)
  have g: "genuine ?log h p" if hp: "(h, p) \<in> set (flush_segs k now)" for h p
  proof (cases "(h, p) \<in> set (ctl_segs (k\<lparr>current := now\<rparr>))")
    case True
    with ctl_segs_good(3) show ?thesis by (auto simp: genuine_def)
  next
    case False
    then obtain s where s: "s \<in> set (snd_buf (flush_mid k now))" "(h, p) = seg_wire (flush_step k now s)"
      using hp by (auto simp: flush_segs_def flush_dues_def)
    let ?s = "flush_step k now s"
    have m: "?s \<in> set (snd_buf k')" using s(1) sp(1) by simp
    then have "unat (seg_frg ?s) < 256" using sr(1) unfolding snd_ready_def by blast
    then have f: "ucast (ucast (seg_frg ?s) :: u8) = seg_frg ?s" by (rule ucast_u8_small)
    have hp: "h = seg_hdr_of ?s" "p = snd (payload ?s)"
      using s(2) by (simp_all add: seg_wire_def payload_def)
    have "hd_sn h = seg_sn ?s" "(ucast (hd_frg h), p) = payload ?s"
      unfolding hp using f by (simp_all only: seg_hdr_of_def seg_hdr.simps payload_def snd_conv)
    with l [OF m] show ?thesis by (simp add: genuine_def logged_def seg_entry_def)
  qed
  show "(h, p) \<in> set (flush_segs k now) \<Longrightarrow> genuine ?log h p" by (rule g)
  show "datagram (\<lambda>h p. good_seg (conv k) h p \<and> genuine ?log h p) d" if d: "d \<in> set ds"
  proof -
    obtain ss where ss: "d = wire_bytes ss" "ss \<noteq> []" "set ss \<subseteq> set (flush_segs k now)"
      "length d < 2 ^ 31" "\<forall>(h, p) \<in> set ss. good_seg (conv k) h p"
      by (rule flush_datagram [OF r(1,3,2) assms(2) d])
    have "\<forall>(h, p) \<in> set ss. good_seg (conv k) h p \<and> genuine ?log h p"
      using g ss(3,5) by blast
    with ss(1,2,4) show ?thesis unfolding datagram_def by blast
  qed
qed

lemma quiet_step:
  assumes "quiet k"
  shows "ikcp_flush k now = (w, k', ds) \<Longrightarrow> quiet k' \<and> conv k' = conv k \<and> rcv_view k' = rcv_view k \<and>
      (\<forall>d \<in> set ds. datagram (\<lambda>h p. good_seg (conv k) h p \<and> ctl_only h p) d)"
    "ikcp_recv k len = Some (r, data, k') \<Longrightarrow> quiet k' \<and> conv k' = conv k"
proof -
  have q: "cfg_ok k" "snd_ready k" "unat (ackcount k) < 2 ^ 31" "snd_queue k = []" "snd_buf k = []"
    using assms by (auto simp: quiet_def snd_ready_def)
  assume f: "ikcp_flush k now = (w, k', ds)"
  note sp = flush_spec [OF q(1,3,2) f]
  obtain n where "n \<le> length (snd_queue k)"
    "flush_mid k now = move_n (ikcp_wnd_unused k) n (flush_ctl_state (k\<lparr>current := now\<rparr>))"
    by (rule flush_mid_n)
  then have m: "snd_queue (flush_mid k now) = []" "snd_buf (flush_mid k now) = []"
    using q(4,5) by (simp_all add: move_n_def flush_taken_def)
  have "datagram (\<lambda>h p. good_seg (conv k) h p \<and> ctl_only h p) d" if d: "d \<in> set ds" for d
  proof -
    obtain ss where ss: "d = wire_bytes ss" "ss \<noteq> []" "set ss \<subseteq> set (flush_segs k now)"
      "length d < 2 ^ 31" "\<forall>(h, p) \<in> set ss. good_seg (conv k) h p"
      by (rule flush_datagram [OF q(1,3,2) f d])
    have "flush_segs k now = ctl_segs (k\<lparr>current := now\<rparr>)"
      by (simp add: flush_segs_def flush_dues_def m)
    then have "\<forall>(h, p) \<in> set ss. ctl_only h p"
      using ctl_segs_good(3) ss(3) by (fastforce simp: ctl_only_def)
    with ss(5) have "\<forall>(h, p) \<in> set ss. good_seg (conv k) h p \<and> ctl_only h p" by blast
    with ss(1,2,4) show ?thesis unfolding datagram_def by blast
  qed
  moreover have "ackcount k' = 0" using sp(8) by (simp add: acks_def unsigned_eq_0_iff)
  ultimately show "quiet k' \<and> conv k' = conv k \<and> rcv_view k' = rcv_view k \<and>
      (\<forall>d \<in> set ds. datagram (\<lambda>h p. good_seg (conv k) h p \<and> ctl_only h p) d)"
    using sp(1,2,7,9) m flush_ready(2) [OF q(1,3,2) f] by (simp add: quiet_def)
next
  assume "ikcp_recv k len = Some (r, data, k')"
  then show "quiet k' \<and> conv k' = conv k"
  proof (cases rule: recv_cases)
    case fail
    with assms show ?thesis by simp
  next
    case ok
    have v: "cfg_view (recv_recover b (rcv_move m)) = cfg_view m \<and> snd_buf (recv_recover b (rcv_move m)) = snd_buf m \<and>
      ackcount (recv_recover b (rcv_move m)) = ackcount m" for b m
      using rcv_move_cfg [of m] rcv_move_ackcount [of m] by (simp add: recv_recover_def cfg_view_def)
    have "cfg_view (recv_take b k) = cfg_view k \<and> snd_buf (recv_take b k) = snd_buf k \<and>
      ackcount (recv_take b k) = ackcount k" for b
      by (simp add: recv_take_def Let_def cfg_view_def)
    with v [of _ "recv_take (len < 0) k"] ok(6) assms show ?thesis
      by (simp add: quiet_def cfg_ok_def cfg_view_def)
  qed
qed

lemma quiet_input:
  assumes "quiet k" "datagram (\<lambda>h p. good_seg (conv k) h p \<and> Q h p) d" "ikcp_input k d = Some (r, k')"
    and "unat (ackcount k) + length d < 2 ^ 30"
  shows "quiet k'" "conv k' = conv k"
proof -
  note so = sender_of_input [OF assms(3)]
  obtain ss where ss: "d = wire_bytes ss" "ss \<noteq> []" "length d < 2 ^ 31"
    "\<forall>(h, p) \<in> set ss. good_seg (conv k) h p \<and> Q h p"
    using assms(2) by (auto simp: datagram_def)
  have "\<forall>(h, p) \<in> set ss. good_seg (conv k) h p" using ss(4) by auto
  then have "unat (ackcount k') \<le> unat (ackcount k) + length d"
    using ackcount_input(1) [of ss k r k'] ss assms(3) by simp
  then show "quiet k'"
    using assms(1,4) so sender_of_cfg [OF so] by (simp add: quiet_def sender_of_def cfg_view_def)
  show "conv k' = conv k" using so by (simp add: sender_of_def cfg_view_def)
qed

lemma receiver_datagram:
  assumes "receiver log R k" "length log < 2 ^ 31"
    and "datagram (\<lambda>h p. good_seg (conv k) h p \<and> genuine log h p) d" "ikcp_input k d = Some (r, k')"
  shows "receiver log R k'"
proof -
  obtain ss where ss: "d = wire_bytes ss" "ss \<noteq> []" "length d < 2 ^ 31"
    "\<forall>(h, p) \<in> set ss. good_seg (conv k) h p \<and> genuine log h p"
    using assms(3) by (auto simp: datagram_def)
  then show ?thesis
    using receiver_input [OF assms(1,2), of ss r k'] assms(4) by auto
qed

lemma link_inv_init: "fresh_pair a b \<Longrightarrow> link_inv (link_init a b)"
  by (auto simp: fresh_pair_def link_inv_def link_init_def sender_def quiet_def snd_ready_def
      receiver_def rcv_inv_def rcv_order_def rcv_coherent_def rcv_pos_def)

lemma link_inv_step:
  assumes "link_step l l'" "link_inv l"
  shows "link_inv l'"
  using assms
proof (cases rule: link_step.cases)
  case (app_write buf len always a')
  have "sender (lk_log l) (lk_in l) (lk_a l)" using assms(2) by (simp add: link_inv_def)
  note w = sender_write [OF this app_write(2)]
  show ?thesis
    using assms(2) app_write(1) w(1) by (auto simp: link_inv_def w(2))
next
  case (flush_a now w a' ds)
  have s: "sender (lk_log l) (lk_in l) (lk_a l)" using assms(2) by (simp add: link_inv_def)
  note f = sender_flush [OF s flush_a(2,3)]
  let ?log = "lk_log l @ link_numbered (lk_a l) a'"
  obtain R where R: "R \<le> length (lk_log l)" "receiver (lk_log l) R (lk_b l)"
    "lk_out l = concat (map snd (take R (lk_log l)))" using assms(2) by (auto simp: link_inv_def)
  then have "\<exists>R \<le> length ?log. receiver ?log R (lk_b l) \<and> lk_out l = concat (map snd (take R ?log))"
    by (intro exI [of _ R]) (simp add: receiver_grow)
  moreover have "datagram (\<lambda>h p. good_seg (conv (lk_a l)) h p \<and> genuine ?log h p) d"
    if "d \<in> set (lk_ab l @ ds)" for d
    using that assms(2) f(4) by (auto simp: link_inv_def intro: genuine_grow elim!: datagram_mono)
  ultimately show ?thesis
    using assms(2) f(1-3) flush_a(1) by (auto simp: link_inv_def)
next
  case (flush_b now w b' ds)
  have "quiet (lk_b l)" using assms(2) by (simp add: link_inv_def)
  note q = quiet_step(1) [OF this flush_b(2)]
  have "receiver (lk_log l) R b' = receiver (lk_log l) R (lk_b l)" for R
    by (rule receiver_view) (use q in simp)
  with q assms(2) flush_b(1) show ?thesis by (auto simp: link_inv_def)
next
  case (to_b d r b')
  have i: "quiet (lk_b l)" "length (lk_log l) < 2 ^ 31"
    "datagram (\<lambda>h p. good_seg (conv (lk_b l)) h p \<and> genuine (lk_log l) h p) d"
    using assms(2) to_b(2) by (auto simp: link_inv_def)
  show ?thesis
    using assms(2) to_b(1) quiet_input [OF i(1,3) to_b(3,4)] receiver_datagram [OF _ i(2,3) to_b(3)]
    by (auto simp: link_inv_def)
next
  case (to_a d r a')
  have i: "sender (lk_log l) (lk_in l) (lk_a l)"
    "datagram (\<lambda>h p. good_seg (conv (lk_a l)) h p \<and> ctl_only h p) d"
    using assms(2) to_a(2) by (auto simp: link_inv_def)
  show ?thesis
    using assms(2) to_a(1) sender_input [OF i to_a(3)] by (auto simp: link_inv_def)
next
  case (app_read len r data b')
  have i: "quiet (lk_b l)" using assms(2) by (simp add: link_inv_def)
  obtain R where R: "receiver (lk_log l) R (lk_b l)" "lk_out l = concat (map snd (take R (lk_log l)))"
    using assms(2) by (auto simp: link_inv_def)
  obtain R' where "receiver (lk_log l) R' b'" "R' \<le> length (lk_log l)"
    "concat (map snd (take R (lk_log l))) @ data = concat (map snd (take R' (lk_log l)))"
    by (rule receiver_recv [OF R(1) app_read(2,3)])
  then show ?thesis
    using assms(2) app_read(1) quiet_step(2) [OF i app_read(2)] R(2) by (auto simp: link_inv_def)
qed

lemma link_reach_inv: "link_reach l \<Longrightarrow> link_inv l"
  by (induction rule: link_reach.induct) (auto intro: link_inv_init link_inv_step)

text \<open>What was read is a prefix of what was written.\<close>

lemma link_prefix: "link_inv l \<Longrightarrow> prefix (lk_out l) (lk_in l)"
proof -
  assume "link_inv l"
  then obtain R where "lk_out l = concat (map snd (take R (lk_log l)))"
    "concat (map snd (lk_log l)) @ queue_bytes (snd_queue (lk_a l)) = lk_in l"
    by (auto simp: link_inv_def sender_def)
  moreover have "concat (map snd (lk_log l)) =
      concat (map snd (take R (lk_log l))) @ concat (map snd (drop R (lk_log l)))"
    by (metis append_take_drop_id concat_append map_append)
  ultimately show ?thesis by (metis append_assoc prefixI)
qed

section \<open>Acknowledged means received\<close>

text \<open>\<open>held k i\<close>: the receiver \<open>k\<close> has taken in segment \<open>i\<close> of the log. Fewer than \<open>2 ^ 31\<close>
  segments are numbered, so numbers and indices determine each other.\<close>

definition held :: "ikcpcb \<Rightarrow> nat \<Rightarrow> bool" where
  "held k i \<longleftrightarrow> i < unat (rcv_nxt k) \<or> of_nat i \<in> seg_sn ` set (rcv_buf k)"

lemma held_view: "rcv_view k = rcv_view k' \<Longrightarrow> held k i = held k' i"
  by (simp add: rcv_view_def held_def)

lemma unat_small: "i < 2 ^ 31 \<Longrightarrow> unat (of_nat i :: u32) = i"
  by (rule unat_of_nat_u32) simp

lemma receiver_nxt: "receiver log R k \<Longrightarrow> length log < 2 ^ 31 \<Longrightarrow>
    unat (rcv_nxt k) = rcv_pos R k \<and> rcv_pos R k \<le> length log"
  by (simp add: receiver_def rcv_coherent_def unat_small)

lemma held_step:
  assumes "receiver log R k" "length log < 2 ^ 31" "rcv_buf k = s # ss" "seg_sn s = rcv_nxt k"
    and "nrcv_que k < rcv_wnd k" "held k i" "i < length log"
  shows "held (rcv_step s ss k) i"
proof -
  have "receiver log R (rcv_step s ss k)" by (rule receiver_step) (use assms in auto)
  from receiver_nxt [OF this assms(2)] receiver_nxt [OF assms(1,2)]
  have n: "unat (rcv_nxt (rcv_step s ss k)) = unat (rcv_nxt k) + 1"
    by (simp add: rcv_pos_def rcv_step_def)
  show ?thesis
  proof (cases "of_nat i = seg_sn s")
    case True
    then have "unat (rcv_nxt k) = i" using assms(2,4,7) unat_small [of i] by simp
    with n show ?thesis by (simp add: held_def)
  next
    case False
    with assms(3,6) n show ?thesis by (auto simp: held_def rcv_step_def)
  qed
qed

lemma held_move:
  assumes "receiver log R k" "length log < 2 ^ 31" "held k i" "i < length log"
  shows "held (rcv_move k) i"
proof -
  have "receiver log R (rcv_move k) \<and> held (rcv_move k) i"
    by (rule rcv_move_rule) (use assms in \<open>auto intro: receiver_step held_step\<close>)
  then show ?thesis ..
qed

lemma held_data:
  assumes "receiver log R k" "length log < 2 ^ 31" "i < length log"
    and "payload new = log ! (rcv_pos R k + off (rcv_nxt k) (seg_sn new))"
    and "off (rcv_nxt k) (seg_sn new) < 2 ^ 31 \<Longrightarrow> rcv_pos R k + off (rcv_nxt k) (seg_sn new) < length log"
  shows "held k i \<Longrightarrow> held (ikcp_parse_data k new) i"
    "seg_sn new = of_nat i \<Longrightarrow> itimediff (seg_sn new) (rcv_nxt k + rcv_wnd k) < 0 \<Longrightarrow>
       0 \<le> itimediff (seg_sn new) (rcv_nxt k) \<Longrightarrow> held (ikcp_parse_data k new) i"
proof -
  let ?out = "itimediff (seg_sn new) (rcv_nxt k + rcv_wnd k) \<ge> 0 \<or> itimediff (seg_sn new) (rcv_nxt k) < 0"
  define k1 where "k1 = (case insert_back new (rev (rcv_buf k)) of None \<Rightarrow> k
      | Some buf \<Rightarrow> k\<lparr>rcv_buf := rev buf, nrcv_buf := nrcv_buf k + 1\<rparr>)"
  have e: "ikcp_parse_data k new = (if ?out then k else rcv_move k1)"
    by (auto simp: ikcp_parse_data_def k1_def split: option.splits)
  have r: "receiver log R k1" if "\<not> ?out"
  proof (cases "insert_back new (rev (rcv_buf k))")
    case None
    with assms(1) show ?thesis by (simp add: k1_def)
  next
    case (Some rs)
    have "off (rcv_nxt k) (seg_sn new) < 2 ^ 31"
      using that itimediff_nonneg [of "seg_sn new" "rcv_nxt k"] by auto
    moreover have "rcv_inv k1"
      using insert_back_inv [OF _ that Some] assms(1) Some by (simp add: receiver_def k1_def)
    ultimately show ?thesis
      using assms insert_back_set [OF Some] Some
      by (auto simp: receiver_def rcv_coherent_def rcv_pos_def k1_def)
  qed
  have k1: "rcv_nxt k1 = rcv_nxt k" "set (rcv_buf k) \<subseteq> set (rcv_buf k1)"
    "seg_sn new \<in> seg_sn ` set (rcv_buf k1)"
    using insert_back_set [of new "rev (rcv_buf k)"] insert_back_None [of new "rev (rcv_buf k)"]
    by (auto simp: k1_def split: option.split)
  show "held (ikcp_parse_data k new) i" if "held k i"
  proof -
    have "held k1 i" using that k1 by (auto simp: held_def)
    with that r show ?thesis using held_move [of log R k1 i] assms(2,3) by (cases ?out) (auto simp: e)
  qed
  show "held (ikcp_parse_data k new) i" if "seg_sn new = of_nat i"
    "itimediff (seg_sn new) (rcv_nxt k + rcv_wnd k) < 0" "0 \<le> itimediff (seg_sn new) (rcv_nxt k)"
  proof -
    have "held k1 i" using that(1) k1(3) by (simp add: held_def)
    with that(2,3) r show ?thesis using held_move [OF _ assms(2) _ assms(3)] by (simp add: e)
  qed
qed

text \<open>One segment at the receiver: nothing held is forgotten, and the number pushed to the list
  of pending acknowledgements is that of a segment it now holds.\<close>

definition acks_held :: "(u32 \<times> bytes) list \<Rightarrow> ikcpcb \<Rightarrow> bool" where
  "acks_held log k \<longleftrightarrow> ack_inv k \<and> (\<forall>(sn, ts) \<in> set (acks k). \<exists>i < length log. sn = of_nat i \<and> held k i)"

lemma held_push:
  assumes "receiver log R k" "length log < 2 ^ 31" "genuine log h d" "length d = unat (hd_len h)"
    and "ucast (hd_cmd h) = IKCP_CMD_PUSH"
  shows "i < length log \<Longrightarrow> held k i \<Longrightarrow> held (input_push h d k) i"
    "itimediff (hd_sn h) (rcv_nxt k + rcv_wnd k) < 0 \<Longrightarrow>
       \<exists>i < length log. hd_sn h = of_nat i \<and> held (input_push h d k) i"
proof -
  let ?k = "ikcp_ack_push k (hd_sn h) (hd_ts h)"
  let ?s = "input_segment h d"
  have v: "rcv_view ?k = rcv_view k" by (simp add: frame)
  have k: "receiver log R ?k" using receiver_view [OF v] assms(1) by simp
  have n: "rcv_nxt ?k = rcv_nxt k" "rcv_wnd ?k = rcv_wnd k" using view_cong(1) [OF v] by simp_all
  have sn: "seg_sn ?s = hd_sn h" by (simp add: input_segment_def)
  have w: "unat (rcv_wnd k) < 2 ^ 31" using assms(1) by (simp add: receiver_def rcv_inv_def)
  have push: "input_push h d k =
      (if itimediff (hd_sn h) (rcv_nxt k + rcv_wnd k) < 0
       then if 0 \<le> itimediff (hd_sn h) (rcv_nxt k) then ikcp_parse_data ?k ?s else ?k else k)"
    by (simp add: input_push_def Let_def n)
  have p: "payload ?s = log ! (rcv_pos R ?k + off (rcv_nxt ?k) (seg_sn ?s))"
    if "itimediff (hd_sn h) (rcv_nxt k + rcv_wnd k) < 0" "0 \<le> itimediff (hd_sn h) (rcv_nxt k)"
  proof -
    have "off (rcv_nxt k) (hd_sn h) < unat (rcv_wnd k)" using off_wnd [OF w] that by blast
    then show ?thesis
      using genuine_agrees(1) [OF k assms(3,2)] assms(4,5)
      by (simp add: push_agrees_def payload_def input_segment_def seg_new_def n)
  qed
  have q: "rcv_pos R ?k + off (rcv_nxt ?k) (seg_sn ?s) < length log" if "off (rcv_nxt ?k) (seg_sn ?s) < 2 ^ 31"
    using genuine_agrees(2) [OF k assms(3,2,5)] that by (simp add: sn)
  note hd = held_data [OF k assms(2) _ p q]
  have hk: "held ?k i = held k i" for i by (rule held_view [OF v])
  show "held (input_push h d k) i" if "i < length log" "held k i"
    using that hd(1) [OF that(1)] by (simp add: push hk)
  show "\<exists>i < length log. hd_sn h = of_nat i \<and> held (input_push h d k) i"
    if in_wnd: "itimediff (hd_sn h) (rcv_nxt k + rcv_wnd k) < 0"
  proof -
    obtain i where i: "i < length log" "hd_sn h = of_nat i"
      using assms(3,5) by (auto simp: genuine_def)
    have "held (input_push h d k) i"
    proof (cases "0 \<le> itimediff (hd_sn h) (rcv_nxt k)")
      case True
      then show ?thesis using hd(2) [OF i(1), unfolded sn n] i(2) in_wnd by (simp add: push)
    next
      case False
      have "itimediff (of_nat i) (rcv_nxt k) = int i - int (unat (rcv_nxt k))"
        using itimediff_off [of 0 "of_nat i" "rcv_nxt k"] receiver_nxt [OF assms(1,2)] assms(2) i(1)
        by (simp add: off_def unat_small del: of_nat_unat)
      with False i(2) have "held k i" by (simp add: held_def del: of_nat_unat)
      then show ?thesis using False in_wnd by (simp add: push hk)
    qed
    with i show ?thesis by blast
  qed
qed

lemma held_cmd:
  assumes "receiver log R k" "length log < 2 ^ 31" "genuine log h d" "length d = unat (hd_len h)"
    and "unat (ackcount k) + 1 < 2 ^ 30" "acks_held log k"
  shows "i < length log \<Longrightarrow> held k i \<Longrightarrow> held (fst (input_cmd h d (k, a))) i"
    "acks_held log (fst (input_cmd h d (k, a)))"
proof -
  let ?u = "input_una h k"
  let ?k' = "fst (input_cmd h d (k, a))"
  have u: "rcv_view ?u = rcv_view k" "ack_view ?u = ack_view k" by (simp_all add: frame)
  have ru: "receiver log R ?u" using receiver_view [OF u(1)] assms(1) by simp
  have au: "ack_inv ?u" "acks ?u = acks k" "ackcount ?u = ackcount k"
    using assms(6) u(2) inv_by_view(4,5) [OF u(2)] by (simp_all add: acks_held_def ack_view_def)
  have hu: "held ?u i = held k i" for i by (rule held_view [OF u(1)])
  have step: "(\<forall>i < length log. held k i \<longrightarrow> held ?k' i) \<and> acks_held log ?k'"
  proof (cases "ucast (hd_cmd h) = IKCP_CMD_PUSH")
    case False
    have v: "rcv_view ?k' = rcv_view ?u" "ack_view ?k' = ack_view ?u"
      using False input_ack_frame [of h "(?u, a)"] by (simp_all add: input_cmd_cases Let_def frame)
    show ?thesis
      using assms(6) held_view [OF v(1)] hu inv_by_view(4,5) [OF v(2)] au by (simp add: acks_held_def)
  next
    case True
    then have k': "?k' = input_push h d ?u"
      by (simp add: input_cmd_cases Let_def ikcp_consts)
    note hp = held_push [OF ru assms(2-4) True]
    have mono: "held ?k' i" if "i < length log" "held k i" for i
      using hp(1) that by (simp add: k' hu)
    show ?thesis
    proof (cases "itimediff (hd_sn h) (rcv_nxt ?u + rcv_wnd ?u) < 0")
      case False
      then have "?k' = ?u" by (simp add: k' input_push_def)
      with assms(6) au hu show ?thesis by (simp add: acks_held_def)
    next
      case out: True
      let ?p = "ikcp_ack_push ?u (hd_sn h) (hd_ts h)"
      have p: "ack_inv ?p" "acks ?p = acks k @ [(hd_sn h, hd_ts h)]"
        using ack_push_spec [OF au(1), of "hd_sn h" "hd_ts h"] au(2,3) assms(5) by simp_all
      have v: "ack_view ?k' = ack_view ?p"
        using out by (simp add: k' input_push_def Let_def frame)
      obtain j where j: "j < length log" "hd_sn h = of_nat j" "held ?k' j"
        using hp(2) [OF out] by (auto simp: k')
      show ?thesis
        using assms(6) mono inv_by_view(4,5) [OF v] p j unfolding acks_held_def by fastforce
    qed
  qed
  then show "i < length log \<Longrightarrow> held k i \<Longrightarrow> held ?k' i" "acks_held log ?k'" by auto
qed

lemma held_all:
  assumes "receiver log R k" "length log < 2 ^ 31"
    and "\<forall>(h, d) \<in> set ss. genuine log h d \<and> length d = unat (hd_len h)"
    and "unat (ackcount k) + length ss < 2 ^ 30" "acks_held log k"
  shows "(\<forall>i < length log. held k i \<longrightarrow> held (fst (input_all ss (k, a))) i) \<and>
    acks_held log (fst (input_all ss (k, a)))"
  using assms
proof (induction ss arbitrary: k a)
  case (Cons s ss)
  obtain h d where s: "s = (h, d)" by (cases s)
  obtain k1 a1 where k1: "input_cmd h d (k, a) = (k1, a1)" by fastforce
  have g: "genuine log h d" "length d = unat (hd_len h)" "unat (ackcount k) + 1 < 2 ^ 30"
    using Cons.prems(3,4) s by auto
  have 1: "receiver log R k1"
    using receiver_cmd [OF Cons.prems(1) g(1) Cons.prems(2) g(2), of a] k1 by simp
  have 2: "acks_held log k1" "\<And>i. i < length log \<Longrightarrow> held k i \<Longrightarrow> held k1 i"
    using held_cmd [OF Cons.prems(1,2) g Cons.prems(5), where a = a] k1 by simp_all
  have 3: "unat (ackcount k1) + length ss < 2 ^ 30"
    using ackcount_cmd(1) [of h d k a] k1 Cons.prems(4) by simp
  have "(\<forall>i < length log. held k1 i \<longrightarrow> held (fst (input_all ss (k1, a1))) i) \<and>
      acks_held log (fst (input_all ss (k1, a1)))"
    using Cons.prems(3) by (intro Cons.IH 1 2 3 Cons.prems(2)) auto
  moreover have "input_all (s # ss) (k, a) = input_all ss (k1, a1)" by (simp add: input_all_def s k1)
  ultimately show ?case using 2(2) by auto
qed (simp add: input_all_def)

text \<open>The sender lets go of a segment only for a cumulative or a selective acknowledgement.\<close>

definition acked_by :: "seg_hdr \<Rightarrow> u32 \<Rightarrow> bool" where
  "acked_by h sn \<longleftrightarrow> itimediff (hd_una h) sn > 0 \<or>
     ucast (hd_cmd h) = IKCP_CMD_ACK \<and> sn = hd_sn h"

lemma una_drop_keeps: "s \<in> set ss \<Longrightarrow> s \<in> set (una_drop una ss) \<or> itimediff una (seg_sn s) > 0"
  by (induction ss) auto

lemma ack_remove_keeps: "s \<in> set ss \<Longrightarrow> s \<in> set (ack_remove sn ss) \<or> seg_sn s = sn"
  by (induction ss) auto

lemma input_una_keeps:
  "s \<in> set (snd_buf k) \<Longrightarrow> s \<in> set (snd_buf (input_una h k)) \<or> itimediff (hd_una h) (seg_sn s) > 0"
  using una_drop_keeps [of s "snd_buf k" "hd_una h"]
  by (auto simp: input_una_def ikcp_shrink_buf_def ikcp_parse_una_def Let_def split: list.split)

lemma input_ack_keeps:
  "s \<in> set (snd_buf k) \<Longrightarrow> s \<in> set (snd_buf (fst (input_ack h (k, a)))) \<or> seg_sn s = hd_sn h"
proof -
  have sh: "snd_buf (ikcp_shrink_buf k') = snd_buf k'" for k'
    by (simp add: ikcp_shrink_buf_def split: list.split)
  have up: "snd_buf (ikcp_update_ack k' r) = snd_buf k'" for k' r
    using update_ack_frame(2) [of k' r] by (simp add: snd_view_def)
  show "s \<in> set (snd_buf k) \<Longrightarrow> s \<in> set (snd_buf (fst (input_ack h (k, a)))) \<or> seg_sn s = hd_sn h"
    using ack_remove_keeps [of s "snd_buf k" "hd_sn h"]
    by (auto simp: input_ack_def Let_def sh up ikcp_parse_ack_def)
qed

lemma input_cmd_keeps:
  "s \<in> set (snd_buf k) \<Longrightarrow> s \<in> set (snd_buf (fst (input_cmd h d (k, a)))) \<or> acked_by h (seg_sn s)"
proof -
  assume s: "s \<in> set (snd_buf k)"
  have push: "snd_buf (input_push h d k') = snd_buf k'" for k'
  proof -
    have "snd_view (input_push h d k') = snd_view k'" by (simp add: input_push_def Let_def frame)
    then show ?thesis by (simp add: snd_view_def)
  qed
  show ?thesis
    using input_una_keeps [OF s, of h] input_ack_keeps [of s "input_una h k" h a] push
    by (auto simp: input_cmd_cases Let_def acked_by_def)
qed

lemma input_all_keeps:
  "s \<in> set (snd_buf k) \<Longrightarrow>
   s \<in> set (snd_buf (fst (input_all ss (k, a)))) \<or> (\<exists>(h, d) \<in> set ss. acked_by h (seg_sn s))"
proof (induction ss arbitrary: k a)
  case (Cons p ss)
  obtain h d where p: "p = (h, d)" by (cases p)
  obtain k1 a1 where k1: "input_cmd h d (k, a) = (k1, a1)" by fastforce
  show ?case
    using Cons.IH [of k1 a1] input_cmd_keeps [OF Cons.prems, of h d a] by (auto simp: input_all_def p k1)
qed (simp add: input_all_def)

lemma input_keeps:
  assumes "\<forall>(h, d) \<in> set ss. good_seg (conv k) h d" "ss \<noteq> []" "length (wire_bytes ss) < 2 ^ 31"
    and "ikcp_input k (wire_bytes ss) = Some (r, k')" "sn \<in> seg_sn ` set (snd_buf k)"
  shows "sn \<in> seg_sn ` set (snd_buf k') \<or> (\<exists>(h, d) \<in> set ss. acked_by h sn)"
proof -
  obtain k1 a1 where k1: "input_all ss (k, \<lparr>ia_flag = False, ia_maxack = 0, ia_latest_ts = 0\<rparr>) = (k1, a1)"
    by fastforce
  obtain k2 where k2: "k2 = k1 \<or> k2 = ikcp_parse_fastack k1 (ia_maxack a1)" "input_cwnd (snd_una k) k2 = Some k'"
    by (rule input_wire_cases [OF assms(1-4) k1])
  have "snd_buf k' = snd_buf k2" using input_cwnd_frame(2) [OF k2(2)] by (simp add: snd_view_def)
  moreover have "seg_sn ` set (snd_buf k2) = seg_sn ` set (snd_buf k1)"
    using k2(1) by (elim disjE) (simp_all add: ikcp_parse_fastack_def fastack_mark_fields(5))
  moreover obtain s where "s \<in> set (snd_buf k)" "seg_sn s = sn" using assms(5) by auto
  ultimately show ?thesis
    using input_all_keeps [of s k ss "\<lparr>ia_flag = False, ia_maxack = 0, ia_latest_ts = 0\<rparr>"] k1 by auto
qed

text \<open>A segment of the way back acknowledges nothing but what the receiver holds.\<close>

definition truthful :: "(u32 \<times> bytes) list \<Rightarrow> ikcpcb \<Rightarrow> seg_hdr \<Rightarrow> bool" where
  "truthful log b h \<longleftrightarrow>
     unat (hd_una h) \<le> length log \<and> (\<forall>i < unat (hd_una h). held b i) \<and>
     (ucast (hd_cmd h) = IKCP_CMD_ACK \<longrightarrow> (\<exists>i < length log. hd_sn h = of_nat i \<and> held b i))"

lemma truthful_acked:
  assumes "truthful log b h" "acked_by h (of_nat i)" "i < length log" "length log < 2 ^ 31"
  shows "held b i"
  using assms(2) unfolding acked_by_def
proof
  assume a: "itimediff (hd_una h) (of_nat i) > 0"
  have n: "unat (hd_una h) < 2 ^ 31"
    using assms(1,4) by (simp add: truthful_def)
  have "itimediff (hd_una h) (of_nat i) = int (unat (hd_una h)) - int i"
    using itimediff_off [of 0 "hd_una h" "of_nat i"] n assms(3,4)
    by (simp add: off_def unat_small del: of_nat_unat)
  with a assms(1) show ?thesis by (simp add: truthful_def del: of_nat_unat)
next
  assume e: "ucast (hd_cmd h) = IKCP_CMD_ACK \<and> of_nat i = hd_sn h"
  then obtain j where j: "j < length log" "hd_sn h = of_nat j" "held b j"
    using assms(1) by (auto simp: truthful_def)
  then have "unat (of_nat i :: u32) = unat (of_nat j :: u32)" using e by simp
  with j(1,3) assms(3,4) show ?thesis by (simp add: unat_small)
qed

lemma truthful_mono:
  assumes "truthful log b h" "\<And>i. i < length log \<Longrightarrow> held b i \<Longrightarrow> held b' i"
  shows "truthful (log @ new) b' h"
  unfolding truthful_def
proof (intro conjI impI allI)
  show "unat (hd_una h) \<le> length (log @ new)" using assms(1) by (simp add: truthful_def)
  show "held b' i" if "i < unat (hd_una h)" for i
    using assms that by (simp add: truthful_def)
  show "\<exists>i < length (log @ new). hd_sn h = of_nat i \<and> held b' i" if c: "ucast (hd_cmd h) = IKCP_CMD_ACK"
  proof -
    obtain i where "i < length log" "hd_sn h = of_nat i" "held b i"
      using assms(1) c by (auto simp: truthful_def)
    with assms(2) show ?thesis by (intro exI [of _ i]) simp
  qed
qed

definition link_safe :: "link \<Rightarrow> bool" where
  "link_safe l \<longleftrightarrow>
     (\<forall>i < length (lk_log l). of_nat i \<in> seg_sn ` set (snd_buf (lk_a l)) \<or> held (lk_b l) i) \<and>
     acks_held (lk_log l) (lk_b l) \<and>
     (\<forall>d \<in> set (lk_ba l). datagram (\<lambda>h p. good_seg (conv (lk_a l)) h p \<and>
        ctl_only h p \<and> truthful (lk_log l) (lk_b l) h) d)"

lemma flush_truthful:
  assumes "acks_held log k" "receiver log R k" "length log < 2 ^ 31"
    and "(h, p) \<in> set (ctl_segs (k\<lparr>current := now\<rparr>))"
  shows "truthful log k h"
proof -
  let ?k = "k\<lparr>current := now\<rparr>"
  have a: "acks ?k = acks k" by (simp add: acks_def ikcp_ack_get_def)
  have "\<exists>c st. h = ctl_hdr ?k c st \<and> (c = IKCP_CMD_ACK \<and> st \<in> set (acks k) \<or> c = IKCP_CMD_WASK \<or> c = IKCP_CMD_WINS)"
    using assms(4) by (auto simp: ctl_segs_def Let_def a simp del: split_paired_Ex split: if_splits)
  then obtain c st where c: "h = ctl_hdr ?k c st"
    "c = IKCP_CMD_ACK \<and> st \<in> set (acks k) \<or> c = IKCP_CMD_WASK \<or> c = IKCP_CMD_WINS" by blast
  have f: "hd_una h = rcv_nxt k" "hd_sn h = fst st" "ucast (hd_cmd h) = (ucast (ucast c :: u8) :: u32)"
    by (simp_all add: c(1) ctl_hdr_def seg_hdr_of_def flush_seg_def)
  have n: "ucast (ucast IKCP_CMD_WASK :: u8) \<noteq> IKCP_CMD_ACK" "ucast (ucast IKCP_CMD_WINS :: u8) \<noteq> IKCP_CMD_ACK"
    by (simp_all add: ikcp_consts)
  have "\<exists>i < length log. fst st = of_nat i \<and> held k i" if "st \<in> set (acks k)"
    using assms(1) that by (cases st) (auto simp: acks_held_def)
  then show ?thesis
    using c(2) n receiver_nxt [OF assms(2,3)] by (auto simp: truthful_def f held_def)
qed

lemma acks_held_view:
  "rcv_view k = rcv_view k' \<Longrightarrow> ack_view k = ack_view k' \<Longrightarrow> acks_held log k = acks_held log k'"
  using held_view [of k k'] inv_by_view(4,5) [of k k'] by (simp add: acks_held_def)

lemma acks_held_mono:
  assumes "acks_held log k" "ack_view k' = ack_view k" "\<And>i. i < length log \<Longrightarrow> held k i \<Longrightarrow> held k' i"
  shows "acks_held (log @ new) k'"
proof -
  have "\<exists>i < length (log @ new). sn = of_nat i \<and> held k' i" if m: "(sn, ts) \<in> set (acks k)" for sn ts
  proof -
    obtain i where "i < length log" "sn = of_nat i" "held k i"
      using assms(1) m by (auto simp: acks_held_def)
    with assms(3) show ?thesis by (intro exI [of _ i]) simp
  qed
  with assms(1) inv_by_view(4,5) [OF assms(2)] show ?thesis by (auto simp: acks_held_def)
qed

lemmas acks_held_grow = acks_held_mono [OF _ refl]

section \<open>The second invariant\<close>

lemma link_safe_init: "fresh_pair a b \<Longrightarrow> link_safe (link_init a b)"
  by (auto simp: fresh_pair_def link_safe_def link_init_def acks_held_def ack_inv_def acks_def)

lemma datagram_segs:
  assumes "datagram Q d"
  obtains ss where "d = wire_bytes ss" "ss \<noteq> []" "length (wire_bytes ss) < 2 ^ 31" "\<forall>(h, p) \<in> set ss. Q h p"
  using assms by (auto simp: datagram_def)

lemma safe_to_a:
  assumes "link_inv l" "link_safe l" "d \<in> set (lk_ba l)" "ikcp_input (lk_a l) d = Some (r, a')"
  shows "link_safe (l\<lparr>lk_a := a'\<rparr>)"
proof -
  have n: "length (lk_log l) < 2 ^ 31" using assms(1) by (simp add: link_inv_def)
  have "datagram (\<lambda>h p. good_seg (conv (lk_a l)) h p \<and> ctl_only h p \<and> truthful (lk_log l) (lk_b l) h) d"
    using assms(2,3) by (simp add: link_safe_def)
  then obtain ss where ss: "d = wire_bytes ss" "ss \<noteq> []" "length (wire_bytes ss) < 2 ^ 31"
    "\<forall>(h, p) \<in> set ss. good_seg (conv (lk_a l)) h p \<and> ctl_only h p \<and> truthful (lk_log l) (lk_b l) h"
    by (rule datagram_segs)
  have g: "\<forall>(h, p) \<in> set ss. good_seg (conv (lk_a l)) h p" using ss(4) by auto
  have c: "conv a' = conv (lk_a l)"
    using sender_of_input [OF assms(4)] by (simp add: sender_of_def cfg_view_def)
  have "of_nat i \<in> seg_sn ` set (snd_buf a') \<or> held (lk_b l) i" if i: "i < length (lk_log l)" for i
  proof (cases "(of_nat i :: u32) \<in> seg_sn ` set (snd_buf (lk_a l))")
    case True
    from input_keeps [OF g ss(2,3) assms(4) [unfolded ss(1)] True] show ?thesis
      using truthful_acked [OF _ _ i n] ss(4) by blast
  next
    case False
    with assms(2) i show ?thesis by (auto simp: link_safe_def)
  qed
  then show ?thesis using assms(2) c by (simp add: link_safe_def)
qed

lemma safe_to_b:
  assumes "link_inv l" "link_safe l" "d \<in> set (lk_ab l)" "ikcp_input (lk_b l) d = Some (r, b')"
    and "unat (ackcount (lk_b l)) + length d < 2 ^ 30"
  shows "link_safe (l\<lparr>lk_b := b'\<rparr>)"
proof -
  let ?log = "lk_log l"
  have n: "length ?log < 2 ^ 31" using assms(1) by (simp add: link_inv_def)
  obtain R where R: "receiver ?log R (lk_b l)" using assms(1) by (auto simp: link_inv_def)
  have "datagram (\<lambda>h p. good_seg (conv (lk_b l)) h p \<and> genuine ?log h p) d"
    using assms(1,3) by (auto simp: link_inv_def)
  then obtain ss where ss: "d = wire_bytes ss" "ss \<noteq> []" "length (wire_bytes ss) < 2 ^ 31"
    "\<forall>(h, p) \<in> set ss. good_seg (conv (lk_b l)) h p \<and> genuine ?log h p"
    by (rule datagram_segs)
  have g: "\<forall>(h, p) \<in> set ss. good_seg (conv (lk_b l)) h p"
    "\<forall>(h, p) \<in> set ss. genuine ?log h p \<and> length p = unat (hd_len h)"
    using ss(4) by (auto simp: good_seg_def)
  let ?a = "\<lparr>ia_flag = False, ia_maxack = 0, ia_latest_ts = 0\<rparr>"
  obtain k1 a1 where k1: "input_all ss (lk_b l, ?a) = (k1, a1)" by fastforce
  have cnt: "unat (ackcount (lk_b l)) + length ss < 2 ^ 30"
    using assms(5) wire_bytes_long [of ss] ss(1) by simp
  have hk: "\<forall>i < length ?log. held (lk_b l) i \<longrightarrow> held k1 i" "acks_held ?log k1"
    using held_all [OF R n g(2) cnt, of ?a] assms(2) k1 by (simp_all add: link_safe_def)
  obtain k2 where k2: "k2 = k1 \<or> k2 = ikcp_parse_fastack k1 (ia_maxack a1)"
    "input_cwnd (snd_una (lk_b l)) k2 = Some b'"
    by (rule input_wire_cases [OF g(1) ss(2,3) assms(4) [unfolded ss(1)] k1])
  have v: "rcv_view b' = rcv_view k1" "ack_view b' = ack_view k1"
    using input_cwnd_frame(1,3) [OF k2(2)] k2(1) parse_fastack_frame(1,2) by auto
  have m: "held b' i" if "i < length ?log" "held (lk_b l) i" for i
    using hk(1) that held_view [OF v(1)] by simp
  have "acks_held ?log b'" using hk(2) acks_held_view [OF v] by simp
  moreover have "datagram (\<lambda>h p. good_seg (conv (lk_a l)) h p \<and> ctl_only h p \<and> truthful ?log b' h) d"
    if "d \<in> set (lk_ba l)" for d
  proof (rule datagram_mono)
    show "datagram (\<lambda>h p. good_seg (conv (lk_a l)) h p \<and> ctl_only h p \<and> truthful ?log (lk_b l) h) d"
      using that assms(2) by (simp add: link_safe_def)
  qed (use m truthful_mono [where new = "[]" and b' = b' and b = "lk_b l" and log = ?log] in auto)
  ultimately show ?thesis using assms(2) m by (auto simp: link_safe_def)
qed

lemma safe_flush_a:
  assumes "link_inv l" "link_safe l" "ikcp_flush (lk_a l) now = (w, a', ds)"
    and "length (lk_log l) + length (snd_queue (lk_a l)) < 2 ^ 31"
  shows "link_safe (l\<lparr>lk_a := a', lk_ab := lk_ab l @ ds, lk_log := lk_log l @ link_numbered (lk_a l) a'\<rparr>)"
proof -
  let ?k = "lk_a l"
  let ?log = "lk_log l @ link_numbered ?k a'"
  have r: "cfg_ok ?k" "snd_ready ?k" "unat (ackcount ?k) < 2 ^ 31" "snd_nxt ?k = of_nat (length (lk_log l))"
    using assms(1) by (auto simp: link_inv_def sender_def)
  obtain n where n: "n \<le> length (snd_queue ?k)" "link_numbered ?k a' = map payload (take n (snd_queue ?k))"
    "map seg_sn (snd_buf a') = map seg_sn (snd_buf ?k) @ map (\<lambda>i. snd_nxt ?k + of_nat i) [0 ..< n]"
    by (rule flush_numbered [OF r(1,3,2) assms(3)])
  have sns: "seg_sn ` set (snd_buf a') = seg_sn ` set (snd_buf ?k) \<union> (\<lambda>i. snd_nxt ?k + of_nat i) ` {..< n}"
    using arg_cong [OF n(3), of set] by (auto simp: atLeast0LessThan)
  have "of_nat i \<in> seg_sn ` set (snd_buf a') \<or> held (lk_b l) i" if i: "i < length ?log" for i
  proof (cases "i < length (lk_log l)")
    case True
    with assms(2) sns show ?thesis by (auto simp: link_safe_def)
  next
    case False
    then have "i - length (lk_log l) < n" "of_nat i = snd_nxt ?k + of_nat (i - length (lk_log l))"
      using i n(1,2) by (simp_all add: r(4) of_nat_diff)
    with sns show ?thesis by blast
  qed
  moreover have "datagram (\<lambda>h p. good_seg (conv a') h p \<and> ctl_only h p \<and> truthful ?log (lk_b l) h) d"
    if "d \<in> set (lk_ba l)" for d
  proof (rule datagram_mono)
    show "datagram (\<lambda>h p. good_seg (conv a') h p \<and> ctl_only h p \<and> truthful (lk_log l) (lk_b l) h) d"
      using that assms(2) flush_spec(9) [OF r(1,3,2) assms(3)] by (simp add: link_safe_def)
  qed (use truthful_mono [of "lk_log l" "lk_b l" _ "lk_b l"] in auto)
  moreover have "acks_held ?log (lk_b l)"
    using assms(2) acks_held_grow by (auto simp: link_safe_def)
  ultimately show ?thesis by (simp add: link_safe_def)
qed

lemma safe_flush_b:
  assumes "link_inv l" "link_safe l" "ikcp_flush (lk_b l) now = (w, b', ds)"
  shows "link_safe (l\<lparr>lk_b := b', lk_ba := lk_ba l @ ds\<rparr>)"
proof -
  let ?k = "lk_b l"
  have n: "length (lk_log l) < 2 ^ 31" and q: "quiet ?k" and c: "conv ?k = conv (lk_a l)"
    using assms(1) by (auto simp: link_inv_def)
  obtain R where R: "receiver (lk_log l) R ?k" using assms(1) by (auto simp: link_inv_def)
  have r: "cfg_ok ?k" "snd_ready ?k" "unat (ackcount ?k) < 2 ^ 31" "snd_queue ?k = []" "snd_buf ?k = []"
    using q quiet_ready [OF q] by (auto simp: quiet_def)
  note sp = flush_spec [OF r(1,3,2) assms(3)]
  have h: "held b' i = held ?k i" for i by (rule held_view [OF sp(7)])
  have ac: "ack_inv b'"
  proof -
    have "ackcount b' = 0" using sp(8) by (simp add: acks_def unsigned_eq_0_iff)
    moreover have "acklist b' = acklist ?k \<and> ackblock b' = ackblock ?k"
      by (rule flush_arrays [OF r(1,3,2) assms(3)])
    ultimately show ?thesis using assms(2) by (simp add: link_safe_def acks_held_def ack_inv_def)
  qed
  have t: "truthful (lk_log l) b' hd = truthful (lk_log l) ?k hd" for hd by (simp add: truthful_def h)
  have "flush_segs ?k now = ctl_segs (?k\<lparr>current := now\<rparr>)"
  proof -
    obtain m where "m \<le> length (snd_queue ?k)"
      "flush_mid ?k now = move_n (ikcp_wnd_unused ?k) m (flush_ctl_state (?k\<lparr>current := now\<rparr>))"
      by (rule flush_mid_n)
    then show ?thesis using r(4,5) by (simp add: flush_segs_def flush_dues_def move_n_def flush_taken_def)
  qed
  then have ft: "truthful (lk_log l) b' hd" if "(hd, p) \<in> set (flush_segs ?k now)" for hd p
    using flush_truthful [OF _ R n, of hd p now] that assms(2) by (simp add: t link_safe_def)
  have new: "datagram (\<lambda>h p. good_seg (conv (lk_a l)) h p \<and> ctl_only h p \<and> truthful (lk_log l) b' h) d"
    if d: "d \<in> set ds" for d
  proof -
    obtain ss where ss: "d = wire_bytes ss" "ss \<noteq> []" "set ss \<subseteq> set (flush_segs ?k now)"
      "length d < 2 ^ 31" "\<forall>(h, p) \<in> set ss. good_seg (conv ?k) h p"
      by (rule flush_datagram [OF r(1,3,2) assms(3) d])
    have "\<forall>(h, p) \<in> set ss. ctl_only h p"
      using ctl_segs_good(3) ss(3) \<open>flush_segs ?k now = _\<close> by (fastforce simp: ctl_only_def)
    with ss(3,5) c ft have "\<forall>(h, p) \<in> set ss. good_seg (conv (lk_a l)) h p \<and> ctl_only h p \<and> truthful (lk_log l) b' h"
      by fastforce
    with ss(1,2,4) show ?thesis unfolding datagram_def by blast
  qed
  show ?thesis
    using assms(2) h new ac sp(8) by (auto simp: link_safe_def t acks_held_def)
qed

lemma held_recv:
  assumes "receiver log R k" "length log < 2 ^ 31" "ikcp_recv k len = Some (r, data, k')"
    and "acks_held log k" "0 \<le> len"
  shows "i < length log \<Longrightarrow> held k i \<Longrightarrow> held k' i" "acks_held log k'"
proof -
  have "(\<forall>i < length log. held k i \<longrightarrow> held k' i) \<and> ack_view k' = ack_view k"
    using assms(3)
  proof (cases rule: recv_cases)
    case fail
    then show ?thesis by simp
  next
    case ok
    let ?t = "recv_take (len < 0) k"
    have i: "rcv_inv k" "rcv_coherent (nth log) R k" using assms(1) by (auto simp: receiver_def)
    have p: "rcv_pos (R + msg_segs (rcv_queue k)) (recv_take False k) = rcv_pos R k"
      using msg_segs_le [of "rcv_queue k"] by (simp add: rcv_pos_def recv_take_def merge_eq)
    have "receiver log (R + msg_segs (rcv_queue k)) (recv_take False k)"
      using assms(1) recv_take_inv [OF i(1), of False] recv_take_coherent [OF i(2)] p
      by (simp add: receiver_def)
    moreover have "held (recv_take False k) i = held k i" for i by (simp add: held_def)
    ultimately have "held (rcv_move (recv_take False k)) i" if "i < length log" "held k i" for i
      using held_move [OF _ assms(2) _ that(1)] that(2) by blast
    moreover have "rcv_view k' = rcv_view (rcv_move ?t)" "ack_view k' = ack_view (rcv_move ?t)"
      using ok(6) by (simp_all add: recv_recover_def view_updates)
    moreover have "ack_view (rcv_move ?t) = ack_view k"
      using rcv_move_frame [of ?t] by (simp add: recv_take_def Let_def ack_view_def)
    ultimately show ?thesis using held_view [of k' "rcv_move ?t"] assms(5) by simp
  qed
  then show "i < length log \<Longrightarrow> held k i \<Longrightarrow> held k' i" "acks_held log k'"
    using acks_held_mono [OF assms(4), of k' "[]"] by auto
qed

lemma safe_held:
  assumes "link_safe l" "\<And>i. i < length (lk_log l) \<Longrightarrow> held (lk_b l) i \<Longrightarrow> held b' i"
    and "acks_held (lk_log l) b'"
  shows "link_safe (l\<lparr>lk_b := b', lk_out := out\<rparr>)"
proof -
  have "datagram (\<lambda>h p. good_seg (conv (lk_a l)) h p \<and> ctl_only h p \<and> truthful (lk_log l) b' h) d"
    if "d \<in> set (lk_ba l)" for d
  proof (rule datagram_mono)
    show "datagram (\<lambda>h p. good_seg (conv (lk_a l)) h p \<and> ctl_only h p \<and> truthful (lk_log l) (lk_b l) h) d"
      using that assms(1) by (simp add: link_safe_def)
  qed (use assms(2) truthful_mono [where new = "[]" and b' = b' and b = "lk_b l" and log = "lk_log l"] in auto)
  with assms show ?thesis by (auto simp: link_safe_def)
qed

lemma link_safe_step:
  assumes "link_step l l'" "link_inv l" "link_safe l"
  shows "link_safe l'"
  using assms(1)
proof (cases rule: link_step.cases)
  case (app_write buf len always a')
  have "snd_buf a' = snd_buf (lk_a l)" "conv a' = conv (lk_a l)"
    by (subst write_frame [OF app_write(2)], simp)+
  with assms(3) app_write(1) show ?thesis by (simp add: link_safe_def)
next
  case (flush_a now w a' ds)
  with safe_flush_a [OF assms(2,3)] show ?thesis by simp
next
  case (flush_b now w b' ds)
  with safe_flush_b [OF assms(2,3)] show ?thesis by simp
next
  case (to_b d r b')
  with safe_to_b [OF assms(2,3)] show ?thesis by simp
next
  case (to_a d r a')
  with safe_to_a [OF assms(2,3)] show ?thesis by simp
next
  case (app_read len r data b')
  obtain R where R: "receiver (lk_log l) R (lk_b l)" "length (lk_log l) < 2 ^ 31"
    using assms(2) by (auto simp: link_inv_def)
  have "acks_held (lk_log l) (lk_b l)" using assms(3) by (simp add: link_safe_def)
  note h = held_recv [OF R app_read(2) this app_read(3)]
  show ?thesis unfolding app_read(1) by (rule safe_held [OF assms(3)]) (use h in auto)
qed

lemma link_reach_safe: "link_reach l \<Longrightarrow> link_safe l"
proof -
  assume "link_reach l"
  then have "link_inv l \<and> link_safe l"
    by (induction rule: link_reach.induct)
      (auto intro: link_inv_init link_inv_step link_safe_init link_safe_step)
  then show ?thesis ..
qed

end
