(* ===== verification/Iqueue.thy ===== *)
theory Iqueue
  imports Prelude
begin

text \<open>
  The intrusive queues of \<open>kcp/ikcp.h\<close> (\<open>struct IQUEUEHEAD\<close> and the \<open>IQUEUE_*\<close>
  macros) at the level of pointers: a heap of \<open>next\<close>/\<open>prev\<close> links, the macros as heap
  updates in the order of their assignments, and the abstraction \<open>queue h q xs\<close> that says
  which nodes hang off the head \<open>q\<close>. The locale \<open>list_queue\<close> is the contract under which
  the KCP core treats its four queues as lists; the heap operations satisfy it.
\<close>

section \<open>The link heap and the macros\<close>

type_synonym addr = nat

text \<open>\<open>struct IQUEUEHEAD { struct IQUEUEHEAD *next, *prev; }\<close> for every address; 0 is null.\<close>

record qheap =
  nxt :: "addr \<Rightarrow> addr"
  prv :: "addr \<Rightarrow> addr"

definition set_nxt :: "addr \<Rightarrow> addr \<Rightarrow> qheap \<Rightarrow> qheap" where
  "set_nxt a v h = h\<lparr>nxt := (nxt h)(a := v)\<rparr>"

definition set_prv :: "addr \<Rightarrow> addr \<Rightarrow> qheap \<Rightarrow> qheap" where
  "set_prv a v h = h\<lparr>prv := (prv h)(a := v)\<rparr>"

definition iqueue_init :: "addr \<Rightarrow> qheap \<Rightarrow> qheap" where
  "iqueue_init ptr h = set_prv ptr ptr (set_nxt ptr ptr h)"

definition iqueue_add :: "addr \<Rightarrow> addr \<Rightarrow> qheap \<Rightarrow> qheap" where
  "iqueue_add node head h =
     (let h1 = set_prv node head h;
          h2 = set_nxt node (nxt h1 head) h1;
          h3 = set_prv (nxt h2 head) node h2
      in set_nxt head node h3)"

definition iqueue_add_tail :: "addr \<Rightarrow> addr \<Rightarrow> qheap \<Rightarrow> qheap" where
  "iqueue_add_tail node head h =
     (let h1 = set_prv node (prv h head) h;
          h2 = set_nxt node head h1;
          h3 = set_nxt (prv h2 head) node h2
      in set_prv head node h3)"

definition iqueue_del :: "addr \<Rightarrow> qheap \<Rightarrow> qheap" where
  "iqueue_del entry h =
     (let h1 = set_prv (nxt h entry) (prv h entry) h;
          h2 = set_nxt (prv h1 entry) (nxt h1 entry) h1;
          h3 = set_nxt entry 0 h2
      in set_prv entry 0 h3)"

definition iqueue_del_init :: "addr \<Rightarrow> qheap \<Rightarrow> qheap" where
  "iqueue_del_init entry h = iqueue_init entry (iqueue_del entry h)"

definition iqueue_is_empty :: "addr \<Rightarrow> qheap \<Rightarrow> bool" where
  "iqueue_is_empty entry h \<longleftrightarrow> entry = nxt h entry"

lemmas iqueue_defs = iqueue_init_def iqueue_add_def iqueue_add_tail_def iqueue_del_def
  iqueue_del_init_def iqueue_is_empty_def set_nxt_def set_prv_def

section \<open>Abstraction to lists\<close>

text \<open>\<open>links h a xs b\<close>: following \<open>next\<close> from \<open>a\<close> one meets \<open>xs\<close> and then \<open>b\<close>, and
  \<open>prev\<close> leads back.\<close>

fun links :: "qheap \<Rightarrow> addr \<Rightarrow> addr list \<Rightarrow> addr \<Rightarrow> bool" where
  "links h a [] b \<longleftrightarrow> nxt h a = b \<and> prv h b = a"
| "links h a (x # xs) b \<longleftrightarrow> nxt h a = x \<and> prv h x = a \<and> links h x xs b"

definition queue :: "qheap \<Rightarrow> addr \<Rightarrow> addr list \<Rightarrow> bool" where
  "queue h q xs \<longleftrightarrow> distinct (q # xs) \<and> links h q xs q"

lemma links_append [simp]:
  "links h a (xs @ y # ys) b \<longleftrightarrow> links h a xs y \<and> links h y ys b"
  by (induction xs arbitrary: a) auto

text \<open>Only the \<open>next\<close> of the left end and the \<open>prev\<close> of the right end lie outside the
  inner nodes.\<close>

lemma links_frame:
  assumes "links h a xs b"
    and "nxt h' a = nxt h a" "prv h' b = prv h b"
    and "\<And>x. x \<in> set xs \<Longrightarrow> nxt h' x = nxt h x \<and> prv h' x = prv h x"
  shows "links h' a xs b"
  using assms by (induction xs arbitrary: a) auto

lemma links_next: "links h a xs b \<Longrightarrow> nxt h a = hd (xs @ [b])"
  by (cases xs) auto

lemma links_prev: "links h a xs b \<Longrightarrow> prv h b = last (a # xs)"
  by (induction xs arbitrary: a) auto

lemma queue_frame:
  assumes "queue h q xs" and "\<And>x. x \<in> set (q # xs) \<Longrightarrow> nxt h' x = nxt h x \<and> prv h' x = prv h x"
  shows "queue h' q xs"
  using assms by (auto simp: queue_def intro: links_frame)

lemma queue_init: "queue (iqueue_init q h) q []"
  by (simp add: queue_def iqueue_defs)

lemma queue_is_empty: "queue h q xs \<Longrightarrow> iqueue_is_empty q h \<longleftrightarrow> xs = []"
  by (cases xs) (auto simp: queue_def iqueue_is_empty_def)

lemma queue_add_head:
  assumes "queue h q xs" "n \<notin> set (q # xs)"
  shows "queue (iqueue_add n q h) q (n # xs)"
proof (cases xs)
  case Nil
  with assms show ?thesis by (auto simp: queue_def iqueue_defs Let_def)
next
  case (Cons y ys)
  have "links (iqueue_add n q h) y ys q"
    by (rule links_frame [of h]) (use assms Cons in \<open>auto simp: queue_def iqueue_defs Let_def\<close>)
  with Cons assms show ?thesis by (auto simp: queue_def iqueue_defs Let_def)
qed

text \<open>Insertion after an arbitrary node \<open>p\<close> of the ring, as \<open>ikcp_parse_data\<close> does it.\<close>

lemma queue_add_after:
  assumes "queue h q (xs @ p # ys)" "n \<notin> set (q # xs @ p # ys)"
  shows "queue (iqueue_add n p h) q (xs @ p # n # ys)"
proof -
  have pre: "links (iqueue_add n p h) q xs p"
    by (rule links_frame [of h])
      (use assms links_next [of h p ys q] in \<open>auto simp: queue_def iqueue_defs Let_def hd_append\<close>)
  have "links (iqueue_add n p h) p (n # ys) q"
  proof (cases ys)
    case Nil
    with assms show ?thesis by (auto simp: queue_def iqueue_defs Let_def)
  next
    case (Cons y zs)
    have "links (iqueue_add n p h) y zs q"
      by (rule links_frame [of h]) (use assms Cons in \<open>auto simp: queue_def iqueue_defs Let_def\<close>)
    with Cons assms show ?thesis by (auto simp: queue_def iqueue_defs Let_def)
  qed
  with pre assms show ?thesis by (auto simp: queue_def)
qed

lemma queue_add_tail:
  assumes "queue h q xs" "n \<notin> set (q # xs)"
  shows "queue (iqueue_add_tail n q h) q (xs @ [n])"
proof (cases xs rule: rev_cases)
  case Nil
  with assms show ?thesis by (auto simp: queue_def iqueue_defs Let_def)
next
  case (snoc ys y)
  have "links (iqueue_add_tail n q h) q ys y"
    by (rule links_frame [of h]) (use assms snoc in \<open>auto simp: queue_def iqueue_defs Let_def\<close>)
  with snoc assms show ?thesis by (auto simp: queue_def iqueue_defs Let_def)
qed

lemma queue_del:
  assumes "queue h q (xs @ x # ys)"
  shows "queue (iqueue_del x h) q (xs @ ys)"
proof (cases xs rule: rev_cases)
  case Nil
  show ?thesis
  proof (cases ys)
    case Nil
    with assms \<open>xs = []\<close> show ?thesis by (auto simp: queue_def iqueue_defs Let_def)
  next
    case (Cons v vs)
    have "links (iqueue_del x h) v vs q"
      by (rule links_frame [of h])
        (use assms Cons \<open>xs = []\<close> in \<open>auto simp: queue_def iqueue_defs Let_def\<close>)
    with assms Cons \<open>xs = []\<close> show ?thesis by (auto simp: queue_def iqueue_defs Let_def)
  qed
next
  case (snoc us u)
  have left: "links (iqueue_del x h) q us u"
  proof (rule links_frame [of h])
    show "links h q us u" using assms snoc by (auto simp: queue_def)
  qed (use assms snoc in \<open>cases ys; auto simp: queue_def iqueue_defs Let_def\<close>)+
  show ?thesis
  proof (cases ys)
    case Nil
    with assms snoc left show ?thesis by (auto simp: queue_def iqueue_defs Let_def)
  next
    case (Cons v vs)
    have "links (iqueue_del x h) v vs q"
      by (rule links_frame [of h])
        (use assms Cons snoc in \<open>auto simp: queue_def iqueue_defs Let_def\<close>)
    with assms Cons snoc left show ?thesis by (auto simp: queue_def iqueue_defs Let_def)
  qed
qed

text \<open>The operations touch the queue they work on and the inserted node only.\<close>

lemma iqueue_del_other:
  assumes "queue h q (xs @ x # ys)" "z \<notin> set (q # xs @ x # ys)"
  shows "nxt (iqueue_del x h) z = nxt h z \<and> prv (iqueue_del x h) z = prv h z"
proof -
  have "nxt h x \<in> set (q # ys)" "prv h x \<in> set (q # xs)"
    using assms links_next [of h x ys q] links_prev [of h q xs x]
    by (cases ys; auto simp: queue_def)+
  with assms(2) show ?thesis by (auto simp: iqueue_defs Let_def)
qed

lemma iqueue_add_tail_other:
  assumes "queue h q xs" "z \<notin> set (q # xs)" "z \<noteq> n"
  shows "nxt (iqueue_add_tail n q h) z = nxt h z \<and> prv (iqueue_add_tail n q h) z = prv h z"
proof -
  have "prv h q \<in> set (q # xs)"
    using assms(1) links_prev [of h q xs q] by (auto simp: queue_def)
  with assms show ?thesis by (auto simp: iqueue_defs Let_def)
qed

section \<open>The contract of a list queue\<close>

text \<open>
  What the KCP core relies on: a queue holds a list of nodes, deletion and insertion act on
  that list, and a queue that shares no node with the one operated on keeps its list.
\<close>

locale list_queue =
  fixes holds :: "'h \<Rightarrow> 'a \<Rightarrow> 'a list \<Rightarrow> bool"
    and enq :: "'a \<Rightarrow> 'a \<Rightarrow> 'h \<Rightarrow> 'h"
    and del :: "'a \<Rightarrow> 'h \<Rightarrow> 'h"
    and empty :: "'a \<Rightarrow> 'h \<Rightarrow> bool"
  assumes holds_distinct: "holds h q xs \<Longrightarrow> distinct (q # xs)"
    and holds_enq: "holds h q xs \<Longrightarrow> n \<notin> set (q # xs) \<Longrightarrow> holds (enq n q h) q (xs @ [n])"
    and holds_del: "holds h q (xs @ x # ys) \<Longrightarrow> holds (del x h) q (xs @ ys)"
    and holds_empty: "holds h q xs \<Longrightarrow> empty q h \<longleftrightarrow> xs = []"
    and del_other: "holds h q (xs @ x # ys) \<Longrightarrow> holds h r zs \<Longrightarrow>
      set (r # zs) \<inter> set (q # xs @ x # ys) = {} \<Longrightarrow> holds (del x h) r zs"
    and enq_other: "holds h q xs \<Longrightarrow> holds h r zs \<Longrightarrow>
      set (r # zs) \<inter> set (n # q # xs) = {} \<Longrightarrow> holds (enq n q h) r zs"
begin

text \<open>Deleting the first node of one queue and appending it to another: the body of the
  loops that move segments from \<open>rcv_buf\<close> to \<open>rcv_queue\<close> and from \<open>snd_queue\<close> to
  \<open>snd_buf\<close>.\<close>

lemma move_first:
  assumes "holds h q (x # xs)" "holds h r ys" "set (q # x # xs) \<inter> set (r # ys) = {}"
  shows "holds (enq x r (del x h)) q xs \<and> holds (enq x r (del x h)) r (ys @ [x])"
proof -
  have q: "holds (del x h) q xs" using holds_del [of h q "[]" x xs] assms(1) by simp
  have r: "holds (del x h) r ys"
    using del_other [of h q "[]" x xs r ys] assms by auto
  have "x \<notin> set (q # xs)" using holds_distinct [OF assms(1)] by auto
  then show ?thesis
    using holds_enq [OF r, of x] enq_other [OF r q, of x] assms(3) by auto
qed

text \<open>Moving the first \<open>length xs\<close> nodes one by one transfers them in order.\<close>

lemma move_prefix:
  assumes "holds h q (xs @ zs)" "holds h r ys" "set (q # xs @ zs) \<inter> set (r # ys) = {}"
  shows "holds (fold (\<lambda>x h. enq x r (del x h)) xs h) q zs
    \<and> holds (fold (\<lambda>x h. enq x r (del x h)) xs h) r (ys @ xs)"
  using assms
proof (induction xs arbitrary: h ys)
  case Nil
  then show ?case by simp
next
  case (Cons x xs)
  have m: "holds (enq x r (del x h)) q (xs @ zs) \<and> holds (enq x r (del x h)) r (ys @ [x])"
    by (rule move_first) (use Cons.prems in auto)
  have "set (q # xs @ zs) \<inter> set (r # ys @ [x]) = {}"
    using Cons.prems(3) holds_distinct [OF Cons.prems(1)] by auto
  from Cons.IH [OF conjunct1 [OF m] conjunct2 [OF m] this] show ?case by simp
qed

end

interpretation iq: list_queue queue iqueue_add_tail iqueue_del iqueue_is_empty
proof unfold_locales
  fix h q xs x ys r zs
  assume q: "queue h q (xs @ x # ys)" and r: "queue h r zs"
    and d: "set (r # zs) \<inter> set (q # xs @ x # ys) = {}"
  show "queue (iqueue_del x h) r zs"
    by (rule queue_frame [OF r], rule iqueue_del_other [OF q]) (use d in blast)
next
  fix h q xs r zs n
  assume q: "queue h q xs" and r: "queue h r zs"
    and d: "set (r # zs) \<inter> set (n # q # xs) = {}"
  show "queue (iqueue_add_tail n q h) r zs"
    by (rule queue_frame [OF r], rule iqueue_add_tail_other [OF q]) (use d in auto)
qed (simp only: queue_def, (rule queue_add_tail queue_del queue_is_empty, assumption+)+)

end
