(* ===== verification/Kcp_Core_Props.thy ===== *)
theory Kcp_Core_Props
  imports Kcp_Link Iqueue
begin

text \<open>
  The properties of the KCP core and of two endpoints over a hostile network, each with a
  witness that applies it to a concrete run. The control blocks of the witnesses come from
  \<open>ikcp_create\<close> and the operations themselves.
\<close>

section \<open>Concrete states\<close>

definition demo_k :: ikcpcb where "demo_k = ikcp_create 7"

definition demo_a :: ikcpcb where
  "demo_a = snd (the (ikcp_write demo_k [10, 20, 30] 3 False))"

definition demo_flush :: "u32 \<times> ikcpcb \<times> bytes list" where
  "demo_flush = ikcp_flush demo_a 5"

definition demo_b :: ikcpcb where
  "demo_b = snd (the (ikcp_input demo_k (hd (snd (snd demo_flush)))))"

definition demo_read :: "int \<times> bytes \<times> ikcpcb" where
  "demo_read = the (ikcp_recv demo_b 100)"

definition demo_link :: link where
  "demo_link = \<lparr>lk_a = fst (snd demo_flush), lk_b = snd (snd demo_read),
     lk_ab = snd (snd demo_flush), lk_ba = [], lk_log = link_numbered demo_a (fst (snd demo_flush)),
     lk_in = [10, 20, 30], lk_out = fst (snd demo_read)\<rparr>"

lemma demo_write: "ikcp_write demo_k [10, 20, 30] 3 False = Some (0, demo_a)"
  by code_simp

lemma demo_input: "ikcp_input demo_k (hd (snd (snd demo_flush))) = Some (0, demo_b)"
  by code_simp

lemma demo_recv: "ikcp_recv demo_b 100 = Some (3, [10, 20, 30], snd (snd demo_read))"
  by code_simp

lemma demo_datagrams: "hd (snd (snd demo_flush)) \<in> set (snd (snd demo_flush))"
  by code_simp

lemma demo_small:
  "length (hd (snd (snd demo_flush))) = 27" "length (link_numbered demo_a (fst (snd demo_flush))) = 1"
  by code_simp+

lemma demo_k_cfg: "cfg_ok demo_k" "mss_ok demo_k" "snd_ready demo_k" "snd_inv demo_k" "rcv_inv demo_k"
  "unat (ackcount demo_k) < 2 ^ 31" "unat (snd_wnd demo_k) < 2 ^ 31"
  by (simp_all add: demo_k_def ikcp_create_def cfg_ok_def mss_ok_def snd_ready_def snd_inv_def
      snd_order_def rcv_inv_def rcv_order_def off_def ikcp_consts)

lemma demo_a_ok: "cfg_ok demo_a" "snd_ready demo_a" "snd_inv demo_a" "unat (ackcount demo_a) < 2 ^ 31"
  "unat (snd_wnd demo_a) < 2 ^ 31"
proof -
  show "cfg_ok demo_a" "snd_ready demo_a"
    using write_ready [OF demo_write demo_k_cfg(3,1)] by simp_all
  have e: "snd_view demo_a = snd_view demo_k" "ackcount demo_a = ackcount demo_k"
    "snd_wnd demo_a = snd_wnd demo_k"
    by code_simp+
  show "snd_inv demo_a" using inv_by_view(3) [OF e(1)] demo_k_cfg(4) by simp
  show "unat (ackcount demo_a) < 2 ^ 31" "unat (snd_wnd demo_a) < 2 ^ 31"
    using demo_k_cfg(6,7) by (simp_all only: e)
qed

lemma demo_flush_eq: "ikcp_flush demo_a 5 = (fst demo_flush, fst (snd demo_flush), snd (snd demo_flush))"
  by (simp add: demo_flush_def)

lemma demo_steps:
  "link_step (link_init demo_k demo_k) ((link_init demo_k demo_k)\<lparr>lk_a := demo_a, lk_in := [10, 20, 30]\<rparr>)"
  "lk_a l = demo_a \<Longrightarrow> lk_log l = [] \<Longrightarrow> lk_ab l = [] \<Longrightarrow>
     link_step l (l\<lparr>lk_a := fst (snd demo_flush), lk_ab := snd (snd demo_flush),
       lk_log := link_numbered demo_a (fst (snd demo_flush))\<rparr>)"
  "lk_b l = demo_k \<Longrightarrow> lk_ab l = snd (snd demo_flush) \<Longrightarrow> link_step l (l\<lparr>lk_b := demo_b\<rparr>)"
  "lk_b l = demo_b \<Longrightarrow> lk_out l = [] \<Longrightarrow>
     link_step l (l\<lparr>lk_b := snd (snd demo_read), lk_out := [10, 20, 30]\<rparr>)"
proof -
  show "link_step (link_init demo_k demo_k) ((link_init demo_k demo_k)\<lparr>lk_a := demo_a, lk_in := [10, 20, 30]\<rparr>)"
    using link_step.app_write [of "link_init demo_k demo_k" "[10, 20, 30]" 3 False demo_a] demo_write
    by (simp only: link_init_def link.simps append_Nil)
  have "length (snd_queue demo_a) = 1" by code_simp
  then have q: "length (snd_queue demo_a) < 2 ^ 31" by simp
  show "link_step l (l\<lparr>lk_a := fst (snd demo_flush), lk_ab := snd (snd demo_flush),
       lk_log := link_numbered demo_a (fst (snd demo_flush))\<rparr>)"
    if l: "lk_a l = demo_a" "lk_log l = []" "lk_ab l = []"
    using link_step.flush_a [of l 5 "fst demo_flush" "fst (snd demo_flush)" "snd (snd demo_flush)",
        unfolded l append_Nil list.size add_0, OF demo_flush_eq q] .
  have c: "unat (ackcount demo_k) + length (hd (snd (snd demo_flush))) < 2 ^ 30"
    by (simp add: demo_small demo_k_def ikcp_create_def)
  show "link_step l (l\<lparr>lk_b := demo_b\<rparr>)" if l: "lk_b l = demo_k" "lk_ab l = snd (snd demo_flush)"
    by (rule link_step.to_b [of "hd (snd (snd demo_flush))" l 0])
      (simp_all only: l demo_input demo_datagrams c)
  show "link_step l (l\<lparr>lk_b := snd (snd demo_read), lk_out := [10, 20, 30]\<rparr>)"
    if l: "lk_b l = demo_b" "lk_out l = []"
    using link_step.app_read [of l 100, unfolded l append_Nil, OF demo_recv] by simp
qed

text \<open>The link when the only datagram of the message is under way, or lost.\<close>

definition demo_lost :: link where
  "demo_lost = \<lparr>lk_a = fst (snd demo_flush), lk_b = demo_k, lk_ab = snd (snd demo_flush),
     lk_ba = [], lk_log = link_numbered demo_a (fst (snd demo_flush)), lk_in = [10, 20, 30], lk_out = []\<rparr>"

lemma demo_lost_reach: "link_reach demo_lost"
proof -
  have "link_reach (link_init demo_k demo_k)"
    by (rule link_reach.init) (use demo_k_cfg(1) in
      \<open>simp add: fresh_pair_def demo_k_def ikcp_create_def IKCP_WND_RCV_def\<close>)
  then have "link_reach \<lparr>lk_a = demo_a, lk_b = demo_k, lk_ab = [], lk_ba = [], lk_log = [],
      lk_in = [10, 20, 30], lk_out = []\<rparr>"
    using link_reach.step [OF _ demo_steps(1)] by (simp add: link_init_def)
  from link_reach.step [OF this demo_steps(2)] show ?thesis by (simp add: demo_lost_def)
qed

lemma demo_reach: "link_reach demo_link"
proof -
  have "link_reach \<lparr>lk_a = fst (snd demo_flush), lk_b = demo_b, lk_ab = snd (snd demo_flush),
      lk_ba = [], lk_log = link_numbered demo_a (fst (snd demo_flush)), lk_in = [10, 20, 30], lk_out = []\<rparr>"
    using link_reach.step [OF demo_lost_reach demo_steps(3)] by (simp add: demo_lost_def)
  then have l4: "link_reach \<lparr>lk_a = fst (snd demo_flush), lk_b = snd (snd demo_read), lk_ab = snd (snd demo_flush),
      lk_ba = [], lk_log = link_numbered demo_a (fst (snd demo_flush)), lk_in = [10, 20, 30],
      lk_out = [10, 20, 30]\<rparr>"
    using link_reach.step [OF _ demo_steps(4)] by fastforce
  have r: "fst (snd demo_read) = [10, 20, 30]" by code_simp
  show ?thesis using l4 by (simp only: demo_link_def r)
qed

definition demo_ack :: "u32 \<times> ikcpcb \<times> bytes list" where
  "demo_ack = ikcp_flush (snd (snd demo_read)) 6"

definition demo_a2 :: ikcpcb where
  "demo_a2 = snd (the (ikcp_input (fst (snd demo_flush)) (hd (snd (snd demo_ack)))))"

definition demo_done :: link where
  "demo_done = demo_link\<lparr>lk_a := demo_a2, lk_b := fst (snd demo_ack), lk_ba := snd (snd demo_ack)\<rparr>"

lemma demo_ack_input: "ikcp_input (fst (snd demo_flush)) (hd (snd (snd demo_ack))) = Some (0, demo_a2)"
  by code_simp

lemma demo_ack_datagrams: "hd (snd (snd demo_ack)) \<in> set (snd (snd demo_ack))"
  by code_simp

lemma demo_a2_empty: "snd_buf demo_a2 = []"
  by code_simp

lemma demo_done_reach: "link_reach demo_done"
proof -
  have "link_step demo_link (demo_link\<lparr>lk_b := fst (snd demo_ack), lk_ba := snd (snd demo_ack)\<rparr>)"
    using link_step.flush_b [of demo_link 6 "fst demo_ack" "fst (snd demo_ack)" "snd (snd demo_ack)"]
    by (simp add: demo_link_def demo_ack_def)
  from link_reach.step [OF demo_reach this]
  have r: "link_reach (demo_link\<lparr>lk_b := fst (snd demo_ack), lk_ba := snd (snd demo_ack)\<rparr>)" .
  show ?thesis
    unfolding demo_done_def
    using link_reach.step [OF r link_step.to_a [of "hd (snd (snd demo_ack))" _ 0 demo_a2]]
      demo_ack_input demo_ack_datagrams
    by (simp add: demo_link_def)
qed

section \<open>Two endpoints\<close>

text \<open>C1: whatever the network loses, repeats, delays or reorders, and however the
  two endpoints interleave writing, flushing, receiving and reading, the bytes the reader got
  are a prefix of the bytes the writer wrote.\<close>

theorem kcp_delivers_prefix:
  assumes "link_reach l"
  shows "prefix (lk_out l) (lk_in l)"
  by (rule link_prefix [OF link_reach_inv [OF assms]])

theorem kcp_delivers_prefix_witness:
  "lk_out demo_link = [10, 20, 30] \<and> prefix (lk_out demo_link) (lk_in demo_link)"
proof
  show "lk_out demo_link = [10, 20, 30]" by code_simp
  show "prefix (lk_out demo_link) (lk_in demo_link)" by (rule kcp_delivers_prefix [OF demo_reach])
qed

text \<open>C2: a segment that was numbered and is no longer in the sender's buffer is held
  by the receiver: the sender never drops data that did not arrive.\<close>

theorem kcp_acked_is_held:
  assumes "link_reach l" "i < length (lk_log l)" "of_nat i \<notin> seg_sn ` set (snd_buf (lk_a l))"
  shows "held (lk_b l) i"
  using link_reach_safe [OF assms(1)] assms(2,3) by (auto simp: link_safe_def)

theorem kcp_acked_is_held_witness: "snd_buf (lk_a demo_done) = [] \<and> held (lk_b demo_done) 0"
proof
  show e: "snd_buf (lk_a demo_done) = []" by (simp add: demo_done_def demo_a2_empty)
  show "held (lk_b demo_done) 0"
    by (rule kcp_acked_is_held [OF demo_done_reach]) (simp_all add: e, code_simp)
qed

section \<open>Sending\<close>

text \<open>C7: a flush cuts exactly the acknowledgements, the probes and the due segments, in
  this order, into datagrams of whole segments; none is empty and none exceeds the MTU.\<close>

theorem flush_datagrams:
  assumes "cfg_ok k" "unat (ackcount k) < 2 ^ 31" "snd_ready k" "ikcp_flush k now = (w, k', ds)"
  shows "\<exists>segss. ds = map wire_bytes segss \<and> concat segss = flush_segs k now \<and>
    (\<forall>d \<in> set segss. d \<noteq> [] \<and> unat (head_room k) + length (wire_bytes d) \<le> unat (mtu k))"
  using flush_spec(10) [OF assms] by (simp add: fits_def)

theorem flush_datagrams_witness:
  "\<exists>segss. snd (snd demo_flush) = map wire_bytes segss \<and> concat segss = flush_segs demo_a 5 \<and>
    (\<forall>d \<in> set segss. d \<noteq> [] \<and> unat (head_room demo_a) + length (wire_bytes d) \<le> unat (mtu demo_a))"
  by (rule flush_datagrams [OF demo_a_ok(1,4,2) demo_flush_eq])

text \<open>C8: every datagram of a flush is accepted by a peer of the same conversation: its
  parser returns 0, the inverse of the encoder.\<close>

theorem flush_accepted:
  assumes "cfg_ok k" "unat (ackcount k) < 2 ^ 31" "snd_ready k" "ikcp_flush k now = (w, k', ds)"
    and "d \<in> set ds" "conv r = conv k" "0 < mss r"
  shows "\<exists>r'. ikcp_input r d = Some (0, r')"
proof -
  obtain ss where ss: "d = wire_bytes ss" "ss \<noteq> []" "length d < 2 ^ 31"
    "\<forall>(h, p) \<in> set ss. good_seg (conv k) h p"
    by (rule flush_datagram [OF assms(1-5)])
  then show ?thesis
    using input_wire [of ss r] input_total [OF assms(7), of d] assms(6)
    by (auto simp: Let_def split: prod.splits)
qed

theorem flush_accepted_witness: "\<exists>r'. ikcp_input demo_k (hd (snd (snd demo_flush))) = Some (0, r')"
  by (rule flush_accepted [OF demo_a_ok(1,4,2) demo_flush_eq demo_datagrams]) code_simp+

text \<open>a flush neither loses nor adds nor reorders a byte between the
  application and the acknowledgement; it leaves the receiving side alone.\<close>

theorem flush_keeps_bytes:
  assumes "cfg_ok k" "unat (ackcount k) < 2 ^ 31" "snd_ready k" "ikcp_flush k now = (w, k', ds)"
  shows "queue_bytes (snd_buf k' @ snd_queue k') = queue_bytes (snd_buf k @ snd_queue k) \<and>
    rcv_queue k' = rcv_queue k \<and> rcv_buf k' = rcv_buf k \<and> rcv_nxt k' = rcv_nxt k"
  using flush_bytes [OF assms] view_cong(1) [OF flush_spec(7) [OF assms]] by simp

theorem flush_keeps_bytes_witness:
  "queue_bytes (snd_buf (fst (snd demo_flush)) @ snd_queue (fst (snd demo_flush))) =
     queue_bytes (snd_buf demo_a @ snd_queue demo_a) \<and>
   rcv_queue (fst (snd demo_flush)) = rcv_queue demo_a \<and> rcv_buf (fst (snd demo_flush)) = rcv_buf demo_a \<and>
   rcv_nxt (fst (snd demo_flush)) = rcv_nxt demo_a"
  by (rule flush_keeps_bytes [OF demo_a_ok(1,4,2) demo_flush_eq])

text \<open>C9: after a flush the send buffer is ordered, the segments in flight are at
  most the window \<open>min (cwnd, snd_wnd, rmt_wnd)\<close> unless there were more before, and the window
  is used up unless the queue is empty.\<close>

theorem flush_respects_window:
  assumes "cfg_ok k" "unat (ackcount k) < 2 ^ 31" "snd_ready k" "ikcp_flush k now = (w, k', ds)"
    and "snd_inv k" "unat (snd_wnd k) < 2 ^ 31"
  shows "snd_inv k' \<and>
    off (snd_una k') (snd_nxt k') \<le> max (off (snd_una k) (snd_nxt k)) (unat (ikcp_calc_wnd k 1)) \<and>
    (snd_queue k' = [] \<or> unat (ikcp_calc_wnd k 1) \<le> off (snd_una k') (snd_nxt k'))"
  using flush_snd_inv [OF assms] by blast

theorem flush_respects_window_witness:
  "snd_inv (fst (snd demo_flush)) \<and>
   off (snd_una (fst (snd demo_flush))) (snd_nxt (fst (snd demo_flush))) \<le>
     max (off (snd_una demo_a) (snd_nxt demo_a)) (unat (ikcp_calc_wnd demo_a 1)) \<and>
   (snd_queue (fst (snd demo_flush)) = [] \<or> unat (ikcp_calc_wnd demo_a 1) \<le>
     off (snd_una (fst (snd demo_flush))) (snd_nxt (fst (snd demo_flush))))"
  by (rule flush_respects_window [OF demo_a_ok(1,4,2) demo_flush_eq demo_a_ok(3,5)])

text \<open>the time a flush asks to wait is at most the interval, positive, and not beyond
  the retransmission of any segment still due later.\<close>

theorem flush_wait:
  assumes "cfg_ok k" "unat (ackcount k) < 2 ^ 31" "snd_ready k" "ikcp_flush k now = (w, k', ds)"
    and "0 < interval k" "s \<in> set (snd_buf k')" "0 < itimediff (seg_resendts s) now"
  shows "0 < w \<and> w \<le> interval k \<and> uint w \<le> itimediff (seg_resendts s) now"
  using flush_spec(11-13) [OF assms(1-4)] assms(5-7) by blast

theorem flush_wait_witness:
  "0 < fst demo_flush \<and> fst demo_flush \<le> interval demo_a \<and>
   uint (fst demo_flush) \<le> itimediff (seg_resendts (hd (snd_buf (fst (snd demo_flush))))) 5"
  by (rule flush_wait [OF demo_a_ok(1,4,2) demo_flush_eq]) code_simp+

section \<open>Receiving\<close>

text \<open>C10: any datagram at all, hostile ones included, keeps the invariants of both
  queues; in particular it cannot make the receiver buffer more than one window.\<close>

theorem input_preserves:
  assumes "ikcp_input k data = Some (r, k')" "rcv_inv k" "snd_inv k"
  shows "rcv_inv k' \<and> snd_inv k' \<and> length (rcv_buf k') \<le> unat (rcv_wnd k')"
  using input_rcv_inv [OF assms(1,2)] input_snd_inv [OF assms(1,3)] rcv_buf_bounded by blast

theorem input_preserves_witness:
  "rcv_inv demo_b \<and> snd_inv demo_b \<and> length (rcv_buf demo_b) \<le> unat (rcv_wnd demo_b)"
  by (rule input_preserves [OF demo_input demo_k_cfg(5,4)])

text \<open>C11: parsing ends on every datagram, with one of the four documented results, and
  the division of the window growth never traps.\<close>

theorem input_returns:
  assumes "0 < mss k"
  shows "\<exists>r k'. ikcp_input k data = Some (r, k') \<and> r \<in> {0, - 1, - 2, - 3}"
  using input_total [OF assms, of data] input_result [of k data] by fastforce

theorem input_returns_witness:
  "\<exists>r k'. ikcp_input demo_k (replicate 30 81) = Some (r, k') \<and> r \<in> {0, - 1, - 2, - 3}"
  by (rule input_returns) (simp add: demo_k_def ikcp_create_def ikcp_consts)

text \<open>acknowledgements never open the congestion window beyond the window
  that the peer advertised.\<close>

theorem input_window_growth:
  assumes "input_cwnd prev_una k = Some k'"
  shows "cwnd k' \<le> max (cwnd k) (rmt_wnd k') \<and> (cwnd k < ssthresh k \<longrightarrow> cwnd k' \<le> cwnd k + 1)"
  using input_cwnd_bound [OF assms] input_cwnd_ssthresh [OF assms] input_cwnd_frame(6) [OF assms] by simp

theorem input_window_growth_witness:
  "cwnd (the (input_cwnd 0 (demo_k\<lparr>snd_una := 1\<rparr>))) = 2 \<and>
   cwnd (the (input_cwnd 0 (demo_k\<lparr>snd_una := 1\<rparr>))) \<le>
     max (cwnd demo_k) (rmt_wnd (the (input_cwnd 0 (demo_k\<lparr>snd_una := 1\<rparr>))))"
proof -
  let ?k = "demo_k\<lparr>snd_una := 1\<rparr>"
  let ?k' = "the (input_cwnd 0 ?k)"
  have "input_cwnd 0 ?k = Some ?k'" by code_simp
  from input_window_growth [OF this] have "cwnd ?k' \<le> max (cwnd ?k) (rmt_wnd ?k')" by blast
  moreover have "cwnd ?k' = 2" by code_simp
  ultimately show ?thesis by simp
qed

text \<open>the internal assertion of \<open>ikcp_recv\<close>, that the merged length is the peeked
  one, never fails, whatever the queue holds.\<close>

theorem recv_never_aborts: "\<exists>r data k'. ikcp_recv k len = Some (r, data, k')"
  using recv_total [of k len] by auto

text \<open>C12: when what the peer queued is a stream of numbered messages, a successful
  read returns exactly the next message: the data of its segments in order, ending with the
  segment numbered 0, and the receiver stays on the stream.\<close>

theorem recv_one_message:
  assumes "rcv_inv k" "rcv_coherent L R k" "frg_stream L" "rcv_queue k \<noteq> []"
    and "ikcp_recv k len = Some (r, data, k')" "0 \<le> len" "0 \<le> r"
  shows "\<exists>n > 0. data = concat (map (\<lambda>i. snd (L i)) [R ..< R + n]) \<and> fst (L (R + n - 1)) = 0 \<and>
    (\<forall>i. R \<le> i \<and> i + 1 < R + n \<longrightarrow> fst (L i) \<noteq> 0) \<and> rcv_coherent L (R + n) k'"
  using recv_one [OF assms] .

definition demo_stream :: "nat \<Rightarrow> u32 \<times> bytes" where
  "demo_stream i = (0, if i = 0 then [10, 20, 30] else [])"

theorem recv_one_message_witness:
  "\<exists>n > 0. [10, 20, 30] = concat (map (\<lambda>i. snd (demo_stream i)) [0 ..< 0 + n]) \<and>
    fst (demo_stream (0 + n - 1)) = 0 \<and>
    (\<forall>i. 0 \<le> i \<and> i + 1 < 0 + n \<longrightarrow> fst (demo_stream i) \<noteq> 0) \<and>
    rcv_coherent demo_stream (0 + n) (snd (snd demo_read))"
proof (rule recv_one_message [OF _ _ _ _ demo_recv])
  show "rcv_inv demo_b" using input_rcv_inv [OF demo_input demo_k_cfg(5)] .
  have q: "map payload (rcv_queue demo_b) = [(0, [10, 20, 30])]" "rcv_nxt demo_b = 1" "rcv_buf demo_b = []"
    by code_simp+
  then have "length (rcv_queue demo_b) = 1" by (metis length_map length_Cons list.size(3) One_nat_def)
  with q show "rcv_coherent demo_stream 0 demo_b"
    by (simp add: rcv_coherent_def rcv_pos_def demo_stream_def)
  show "frg_stream demo_stream" by (simp add: frg_stream_def demo_stream_def)
  show "rcv_queue demo_b \<noteq> []" using q(1) by auto
qed simp_all

text \<open>filing a segment twice is filing it once, wherever the first copy
  went.\<close>

theorem duplicates_are_ignored:
  assumes "rcv_inv k"
  shows "ikcp_parse_data (ikcp_parse_data k new) new = ikcp_parse_data k new"
  by (rule parse_data_idem [OF assms])

theorem duplicates_are_ignored_witness:
  "ikcp_parse_data (ikcp_parse_data demo_k ((seg_new [1] 1)\<lparr>seg_sn := 3\<rparr>)) ((seg_new [1] 1)\<lparr>seg_sn := 3\<rparr>) =
   ikcp_parse_data demo_k ((seg_new [1] 1)\<lparr>seg_sn := 3\<rparr>)"
  by (rule duplicates_are_ignored [OF demo_k_cfg(5)])

section \<open>Timeouts and acknowledgements\<close>

definition rto_ok :: "u32 \<Rightarrow> ikcpcb \<Rightarrow> bool" where
  "rto_ok m k \<longleftrightarrow> rx_minrto k = m \<and> m \<le> rx_rto k \<and> rx_rto k \<le> IKCP_RTO_MAX"

definition rto_view :: "ikcpcb \<Rightarrow> u32 \<times> u32" where
  "rto_view k = (rx_minrto k, rx_rto k)"

lemma rto_ok_view: "rto_view k = rto_view k' \<Longrightarrow> rto_ok m k = rto_ok m k'"
  by (simp add: rto_view_def rto_ok_def)

lemma rto_view_ops [simp]:
  "rto_view (k\<lparr>rmt_wnd := v\<rparr>) = rto_view k" "rto_view (k\<lparr>probe := v\<rparr>) = rto_view k"
  "rto_view (ikcp_parse_ack k sn) = rto_view k" "rto_view (ikcp_parse_una k sn) = rto_view k"
  "rto_view (ikcp_shrink_buf k) = rto_view k" "rto_view (ikcp_parse_fastack k sn) = rto_view k"
  "rto_view (ikcp_ack_push k sn ts) = rto_view k" "rto_view (ikcp_parse_data k s) = rto_view k"
  "rto_view (input_una h k) = rto_view k"
proof -
  have m: "rto_view (rcv_move k) = rto_view k" for k
    by (rule rcv_move_rule) (simp_all add: rto_view_def rcv_step_def)
  show "rto_view (ikcp_parse_data k s) = rto_view k"
    using m by (simp add: ikcp_parse_data_def split: option.split) (simp add: rto_view_def)
qed (simp_all add: rto_view_def ikcp_parse_ack_def ikcp_parse_una_def ikcp_shrink_buf_def Let_def
    ikcp_parse_fastack_def ikcp_ack_push_def input_una_def split: list.split)

lemma rto_ok_cmd:
  assumes "rto_ok m k" "m \<le> IKCP_RTO_MAX"
  shows "rto_ok m (fst (input_cmd h d (k, a)))"
proof -
  have u: "rto_ok m (input_una h k)" using rto_ok_view [of "input_una h k" k] assms(1) by simp
  have "rto_ok m (ikcp_update_ack k' r)" if "rto_ok m k'" for k' r
    using that update_ack_rto [of k' r] assms(2)
    by (auto simp: rto_ok_def) (simp add: ikcp_update_ack_def Let_def)
  then have "rto_ok m (fst (input_ack h (k', a)))" if "rto_ok m k'" for k'
    using that rto_ok_view [of "ikcp_shrink_buf (ikcp_parse_ack x n)" x for x n]
    by (auto simp: input_ack_def Let_def)
  moreover have "rto_view (input_push h d k') = rto_view k'" for k'
    by (simp add: input_push_def Let_def)
  ultimately show ?thesis
    using u rto_ok_view [of "input_push h d (input_una h k)" "input_una h k"]
      rto_ok_view [of "(input_una h k)\<lparr>probe := p\<rparr>" "input_una h k" for p]
    by (simp add: input_cmd_cases Let_def)
qed

text \<open>no datagram moves the retransmission timeout out of the range from
  \<open>rx_minrto\<close> to one minute.\<close>

theorem rto_bounded:
  assumes "ikcp_input k data = Some (r, k')" "rx_minrto k \<le> rx_rto k" "rx_rto k \<le> IKCP_RTO_MAX"
  shows "rx_minrto k' = rx_minrto k \<and> rx_minrto k' \<le> rx_rto k' \<and> rx_rto k' \<le> IKCP_RTO_MAX"
proof -
  let ?m = "rx_minrto k"
  have m: "?m \<le> IKCP_RTO_MAX" using assms(2,3) by (rule order_trans)
  from assms(1) have "rto_ok ?m k'"
  proof (rule input_rule [where P = "rto_ok ?m"])
    show "rto_ok ?m k" using assms(2,3) by (simp add: rto_ok_def)
    show "rto_ok ?m (fst (input_cmd h d (k', a)))" if "rto_ok ?m k'" for h d k' a
      by (rule rto_ok_cmd [OF that m])
    show "rto_ok ?m (ikcp_parse_fastack k' sn)" if "rto_ok ?m k'" for k' sn
      using that rto_ok_view [of "ikcp_parse_fastack k' sn" k'] by simp
    show "rto_ok ?m k2" if "rto_ok ?m k1" "input_cwnd p k1 = Some k2" for p k1 k2
      using that by (auto simp: input_cwnd_def Let_def rto_ok_def split: if_splits)
  qed
  then show ?thesis by (simp add: rto_ok_def)
qed

theorem rto_bounded_witness:
  "rx_minrto demo_b = rx_minrto demo_k \<and> rx_minrto demo_b \<le> rx_rto demo_b \<and> rx_rto demo_b \<le> IKCP_RTO_MAX"
  by (rule rto_bounded [OF demo_input]) (simp_all add: demo_k_def ikcp_create_def ikcp_consts)

text \<open>for a number in the window, the early-exit scan of \<open>ikcp_parse_ack\<close> is a
  filter: it removes the acknowledged segment and nothing else. A number outside the window
  changes nothing.\<close>

theorem ack_removes_exactly:
  assumes "snd_inv k"
  shows "ikcp_parse_ack k sn =
    (if off (snd_una k) sn < off (snd_una k) (snd_nxt k)
     then let buf = filter (\<lambda>s. seg_sn s \<noteq> sn) (snd_buf k)
          in k\<lparr>snd_buf := buf, nsnd_buf := of_nat (length buf)\<rparr>
     else k)"
proof (cases "off (snd_una k) sn < off (snd_una k) (snd_nxt k)")
  case True
  let ?k = "ikcp_parse_ack k sn"
  have b: "snd_buf ?k = filter (\<lambda>s. seg_sn s \<noteq> sn) (snd_buf k)"
    by (rule parse_ack_exact [OF assms True])
  moreover have "nsnd_buf ?k = of_nat (length (snd_buf ?k))"
    using parse_ack_inv [OF assms] by (simp add: snd_inv_def)
  moreover have "?k = k\<lparr>snd_buf := snd_buf ?k, nsnd_buf := nsnd_buf ?k\<rparr>"
    by (simp add: ikcp_parse_ack_def Let_def)
  ultimately show ?thesis using True by (simp add: Let_def)
next
  case False
  with parse_ack_out_of_window [OF assms] show ?thesis by simp
qed

definition demo_wrap :: ikcpcb where
  "demo_wrap = demo_k\<lparr>snd_una := 0xfffffffe, snd_nxt := 1, nsnd_buf := 3,
     snd_buf := map (\<lambda>n. (seg_new [] 0)\<lparr>seg_sn := n\<rparr>) [0xfffffffe, 0xffffffff, 0]\<rparr>"

lemma demo_wrap_inv: "snd_inv demo_wrap"
  by (simp add: demo_wrap_def snd_inv_def snd_order_def seg_new_def off_def)

theorem ack_removes_exactly_witness:
  "map seg_sn (snd_buf (ikcp_parse_ack demo_wrap 0xffffffff)) = [0xfffffffe, 0]"
proof -
  have "off (snd_una demo_wrap) 0xffffffff < off (snd_una demo_wrap) (snd_nxt demo_wrap)"
    by (simp add: demo_wrap_def off_def)
  then show ?thesis
    using ack_removes_exactly [OF demo_wrap_inv, of "0xffffffff"]
    by (simp add: Let_def) (simp add: demo_wrap_def seg_new_def)
qed

text \<open>a cumulative acknowledgement inside the window removes exactly the
  segments before it, across the wrap-around of the numbers.\<close>

theorem una_removes_exactly:
  assumes "snd_inv k" "off (snd_una k) una \<le> off (snd_una k) (snd_nxt k)"
  shows "snd_buf (ikcp_parse_una k una) =
    filter (\<lambda>s. off (snd_una k) una \<le> off (snd_una k) (seg_sn s)) (snd_buf k) \<and>
    snd_inv (ikcp_shrink_buf (ikcp_parse_una k una))"
  using parse_una_exact [OF assms] parse_una_inv [OF assms(1), of una] shrink_inv by blast

theorem una_removes_exactly_witness:
  "snd_buf (ikcp_parse_una demo_wrap 0) =
     filter (\<lambda>s. off (snd_una demo_wrap) 0 \<le> off (snd_una demo_wrap) (seg_sn s)) (snd_buf demo_wrap) \<and>
   snd_inv (ikcp_shrink_buf (ikcp_parse_una demo_wrap 0))"
  by (rule una_removes_exactly [OF demo_wrap_inv]) (simp add: demo_wrap_def off_def)

text \<open>the doubling array behaves as a list: after any sequence of pushes it holds
  the old entries followed by the new ones in order.\<close>

theorem ack_list_is_fifo:
  assumes "ack_inv k" "unat (ackcount k) + length xs < 2 ^ 30"
  shows "acks (foldl (\<lambda>k (sn, ts). ikcp_ack_push k sn ts) k xs) = acks k @ xs"
  using acklog.push_all [of k xs] assms by (simp add: acks_def)

theorem ack_list_is_fifo_witness:
  "acks (foldl (\<lambda>k (sn, ts). ikcp_ack_push k sn ts) demo_k (map (\<lambda>i. (of_nat i, 100)) [0 ..< 20])) =
     acks demo_k @ map (\<lambda>i. (of_nat i, 100)) [0 ..< 20]"
  by (rule ack_list_is_fifo) (simp_all add: demo_k_def ikcp_create_def ack_inv_def)

section \<open>Writing and settings\<close>

text \<open>a successful write, in message or in stream mode, appends exactly the caller's
  bytes to the send queue, in segments of at most one MSS.\<close>

theorem write_appends:
  assumes "mss_ok k" "snd_sizes k" "ikcp_write k buf len always = Some (0, k')"
  shows "queue_bytes (snd_queue k') = queue_bytes (snd_queue k) @ buf \<and> snd_sizes k'"
  by (rule write_bytes [OF assms])

theorem write_appends_witness:
  "queue_bytes (snd_queue demo_a) = queue_bytes (snd_queue demo_k) @ [10, 20, 30] \<and> snd_sizes demo_a"
  by (rule write_appends [OF demo_k_cfg(2) _ demo_write])
    (simp add: demo_k_def ikcp_create_def snd_sizes_def)

text \<open>in message mode a message is refused with \<open>-2\<close> exactly when it needs more
  than 127 fragments, whatever the configured windows, and the queue is left alone.\<close>

theorem send_refuses_long:
  assumes "mss_ok k" "stream k = 0" "0 \<le> len"
  shows "ikcp_send k buf len = Some (- 2, k) \<longleftrightarrow> 127 * unat (mss k) < length buf"
  by (rule send_too_long [OF assms])

theorem send_refuses_long_witness:
  "ikcp_send (demo_k\<lparr>mss := 1\<rparr>) (replicate 128 0) 128 = Some (- 2, demo_k\<lparr>mss := 1\<rparr>) \<longleftrightarrow>
    127 * unat (mss (demo_k\<lparr>mss := 1\<rparr>)) < length (replicate 128 (0 :: u8))"
  by (rule send_refuses_long) (simp_all add: mss_ok_def demo_k_def ikcp_create_def)

text \<open>\<open>ikcp_setmtu\<close> reports success for every MTU from 50 up that holds the head room,
  but leaves a usable MSS only when the MTU exceeds head room and header; otherwise the
  unsigned subtraction wraps around.\<close>

theorem setmtu_usable:
  assumes "50 \<le> m" "m < 2 ^ 31" "int (unat (head_room k)) \<le> m" "ikcp_setmtu k m = (r, k')"
  shows "r = 0 \<and> (cfg_ok k' \<longleftrightarrow> int (unat (head_room k)) + 24 < m)"
  using setmtu_cfg [OF assms] by blast

theorem setmtu_usable_witness:
  "fst (ikcp_setmtu (demo_k\<lparr>head_room := 100\<rparr>) 110) = 0 \<and>
   \<not> cfg_ok (snd (ikcp_setmtu (demo_k\<lparr>head_room := 100\<rparr>) 110)) \<and>
   mss (snd (ikcp_setmtu (demo_k\<lparr>head_room := 100\<rparr>) 110)) = 0xfffffff2"
proof -
  let ?r = "ikcp_setmtu (demo_k\<lparr>head_room := 100\<rparr>) 110"
  have "mss (snd ?r) = 0xfffffff2" by code_simp
  moreover have "fst ?r = 0 \<and> (cfg_ok (snd ?r) \<longleftrightarrow> int (unat (head_room (demo_k\<lparr>head_room := 100\<rparr>))) + 24 < 110)"
    by (rule setmtu_usable) simp_all
  ultimately show ?thesis by simp
qed

section \<open>Queues\<close>

text \<open>C13: the pointer operations refine list operations: moving the first nodes of one
  doubly linked queue to the tail of another, as the flush and the receive loop do, moves that
  prefix of the list and keeps both rings well linked.\<close>

theorem queue_move_refines:
  assumes "queue h q (xs @ zs)" "queue h r ys" "set (q # xs @ zs) \<inter> set (r # ys) = {}"
  shows "queue (fold (\<lambda>x h. iqueue_add_tail x r (iqueue_del x h)) xs h) q zs \<and>
    queue (fold (\<lambda>x h. iqueue_add_tail x r (iqueue_del x h)) xs h) r (ys @ xs)"
  by (rule iq.move_prefix [OF assms])

definition demo_heap :: qheap where
  "demo_heap = iqueue_init 9 (iqueue_add_tail 3 1 (iqueue_add_tail 2 1
     (iqueue_init 1 \<lparr>nxt = \<lambda>_. 0, prv = \<lambda>_. 0\<rparr>)))"

lemma demo_heap_queues: "queue demo_heap 1 [2, 3]" "queue demo_heap 9 []"
  by (simp_all add: demo_heap_def queue_def iqueue_defs Let_def)

theorem queue_move_refines_witness:
  "queue (fold (\<lambda>x h. iqueue_add_tail x 9 (iqueue_del x h)) [2] demo_heap) 1 [3] \<and>
   queue (fold (\<lambda>x h. iqueue_add_tail x 9 (iqueue_del x h)) [2] demo_heap) 9 ([] @ [2])"
  by (rule queue_move_refines) (use demo_heap_queues in simp_all)

end
