(* ===== verification/Kcp_Recovery.thy ===== *)
theory Kcp_Recovery
  imports Kcp_Core_Props
begin

text \<open>
  Recovery from loss. Whatever the network did before, one round trip that it lets through is
  enough: once the timers of the sender's segments have run out, the next \<open>ikcp_flush\<close> sends
  all of them again; when its datagrams and the datagrams of the receiver's own flush arrive,
  everything below the end of the receiver's window is held by the receiver and gone from the
  sender.
\<close>

section \<open>A flush whose datagrams all arrive\<close>

text \<open>The datagrams of one flush, given to the peer one after the other.\<close>

fun link_feed :: "ikcpcb \<Rightarrow> bytes list \<Rightarrow> ikcpcb option" where
  "link_feed k [] = Some k"
| "link_feed k (d # ds) =
     (case ikcp_input k d of None \<Rightarrow> None | Some (r, k') \<Rightarrow> link_feed k' ds)"

text \<open>Endpoint \<open>a\<close> flushes at \<open>now\<close>, endpoint \<open>b\<close> receives all of it and answers with a flush
  at \<open>now'\<close>, which \<open>a\<close> receives.\<close>

definition link_round :: "link \<Rightarrow> u32 \<Rightarrow> u32 \<Rightarrow> link option" where
  "link_round l now now' =
     (let (w, a1, ds) = ikcp_flush (lk_a l) now in
      case link_feed (lk_b l) ds of None \<Rightarrow> None
      | Some b1 \<Rightarrow>
          let (w', b2, es) = ikcp_flush b1 now' in
          case link_feed a1 es of None \<Rightarrow> None
          | Some a2 \<Rightarrow> Some (l\<lparr>lk_a := a2, lk_b := b2, lk_ab := lk_ab l @ ds, lk_ba := lk_ba l @ es,
              lk_log := lk_log l @ link_numbered (lk_a l) a1\<rparr>))"

definition all_due :: "ikcpcb \<Rightarrow> u32 \<Rightarrow> bool" where
  "all_due k now \<longleftrightarrow> (\<forall>s \<in> set (snd_buf k). seg_xmit s = 0 \<or> 0 \<le> itimediff now (seg_resendts s))"

section \<open>The sender's window in the log\<close>

text \<open>The numbers of the window do not run past the end of the log.\<close>

definition below :: "nat \<Rightarrow> ikcpcb \<Rightarrow> bool" where
  "below n k \<longleftrightarrow> snd_inv k \<and> unat (snd_una k) \<le> n \<and> unat (snd_nxt k) \<le> n \<and>
     (\<forall>s \<in> set (snd_buf k). unat (seg_sn s) \<le> n)"

lemma below_view: "snd_view k = snd_view k' \<Longrightarrow> below n k = below n k'"
  using inv_by_view(3) [of k k'] by (auto simp: snd_view_def below_def)

lemma below_parse:
  "below n k \<Longrightarrow> below n (ikcp_parse_una k una)" "below n k \<Longrightarrow> below n (ikcp_parse_ack k sn)"
  "below n k \<Longrightarrow> below n (ikcp_shrink_buf k)" "below n k \<Longrightarrow> below n (ikcp_parse_fastack k sn)"
proof -
  assume b: "below n k"
  then have i: "snd_inv k" by (simp add: below_def)
  show "below n (ikcp_parse_una k una)"
    using b parse_una_inv [OF i, of una] una_drop_sub(1) [of una "snd_buf k"]
    by (auto simp: below_def ikcp_parse_una_def Let_def)
  show "below n (ikcp_parse_ack k sn)"
    using b parse_ack_inv [OF i, of sn] ack_remove_sub(1) [of sn "snd_buf k"]
    by (auto simp: below_def ikcp_parse_ack_def Let_def)
  show "below n (ikcp_shrink_buf k)"
    using b shrink_inv [OF i] by (auto simp: below_def ikcp_shrink_buf_def split: list.splits)
  have "\<forall>sn \<in> seg_sn ` set (snd_buf k). unat sn \<le> n" using b by (simp add: below_def)
  then have "\<forall>x \<in> seg_sn ` set (fastack_mark sn (snd_buf k)). unat x \<le> n"
    by (simp only: fastack_mark_fields(5))
  with b show "below n (ikcp_parse_fastack k sn)"
    using parse_fastack_inv [OF i, of sn] by (simp add: below_def ikcp_parse_fastack_def)
qed

lemma below_una: "below n k \<Longrightarrow> below n (input_una h k)"
proof -
  assume b: "below n k"
  have "below n (k\<lparr>rmt_wnd := w\<rparr>)" for w
    by (subst below_view [of _ k]) (simp_all add: b snd_view_def)
  then show ?thesis by (simp add: input_una_def below_parse)
qed

lemma below_ack: "below n k \<Longrightarrow> below n (fst (input_ack h (k, a)))"
proof -
  assume b: "below n k"
  have "below n (ikcp_update_ack k r)" for r
    by (subst below_view [of _ k]) (simp_all add: b frame)
  with b show ?thesis by (simp add: input_ack_def Let_def below_parse)
qed

lemma below_cmd: "below n k \<Longrightarrow> below n (fst (input_cmd h d (k, a)))"
proof -
  assume "below n k"
  then have u: "below n (input_una h k)" by (rule below_una)
  have "snd_view (input_push h d k') = snd_view k'" for k'
    by (simp add: input_push_def Let_def frame)
  note p = below_view [OF this]
  have q: "below n (k'\<lparr>probe := v\<rparr>) = below n k'" for k' v
    by (rule below_view) (simp add: snd_view_def)
  show ?thesis using u by (simp add: input_cmd_cases Let_def p q below_ack)
qed

lemma below_input: "ikcp_input k d = Some (r, k') \<Longrightarrow> below n k \<Longrightarrow> below n k'"
  by (erule input_rule) (auto intro: below_cmd below_parse
      dest: input_cwnd_frame(2) below_view)

lemma below_flush:
  assumes "sender log inp k" "below (length log) k" "ikcp_flush k now = (w, k', ds)"
    and "length log + length (snd_queue k) < 2 ^ 31"
  shows "below (length (log @ link_numbered k k')) k'"
proof -
  have r: "cfg_ok k" "unat (ackcount k) < 2 ^ 31" "snd_ready k" "snd_nxt k = of_nat (length log)"
    using assms(1) by (auto simp: sender_def)
  note sp = flush_spec [OF r(1-3) assms(3)]
  obtain n where n: "n \<le> length (snd_queue k)"
    "flush_mid k now = move_n (ikcp_wnd_unused k) n (flush_ctl_state (k\<lparr>current := now\<rparr>))"
    by (rule flush_mid_n)
  have q: "snd_queue k' = drop n (snd_queue k)" using sp(2) n(2) by (simp add: move_n_def)
  have len: "length (log @ link_numbered k k') = length log + n"
    using n(1) by (simp add: link_numbered_def q)
  have nx: "snd_nxt k' = of_nat (length log + n)" using sp(4) n(2) by (simp add: move_n_def r(4))
  have inv: "snd_inv (flush_ctl_state (k\<lparr>current := now\<rparr>))"
    using assms(2) by (simp add: below_def snd_inv_def)
  have un: "unat (snd_una k) \<le> length log" and nxt: "unat (snd_nxt k) = length log"
    using assms(2,4) r(4) by (simp_all add: below_def unat_small)
  have "off (snd_una k) (snd_nxt k) = length log - unat (snd_una k)"
    using off_of_nat_below [of "unat (snd_una k)" "length log"] un assms(2,4) r(4)
    by (simp add: below_def snd_inv_def)
  then have "off (snd_una k) (snd_nxt k) + n < 2 ^ 31" using n(1) assms(4) by simp
  then have m: "snd_inv (flush_mid k now)"
    unfolding n(2) using n(1) by (intro move_n_inv inv) simp_all
  moreover have "snd_una (flush_mid k now) = snd_una k" by (simp add: n(2))
  ultimately have "snd_inv k'" using sp(1,3,4,5) by (simp add: snd_inv_map image_image o_def)
  moreover have "unat (snd_nxt k') = length log + n" unfolding nx using n(1) assms(4) by (intro unat_small) simp
  moreover have "unat (seg_sn s) \<le> length log + n" if s: "s \<in> set (snd_buf k')" for s
  proof -
    have "sender (log @ link_numbered k k') inp k'" by (rule sender_flush(1) [OF assms(1,3,4)])
    then obtain i where "i < length log + n" "seg_sn s = of_nat i"
      using s len by (auto simp: sender_def logged_def seg_entry_def)
    then show ?thesis using unat_small [of i] n(1) assms(4) by simp
  qed
  ultimately show ?thesis using un sp(3) unfolding below_def len by simp
qed

lemma link_below_step:
  assumes "link_step l l'" "link_inv l" "below (length (lk_log l)) (lk_a l)"
  shows "below (length (lk_log l')) (lk_a l')"
  using assms(1)
proof (cases rule: link_step.cases)
  case (app_write buf len always a')
  obtain q m where "a' = (lk_a l)\<lparr>snd_queue := q, nsnd_que := m\<rparr>"
    using write_frame [OF app_write(2)] by blast
  then have v: "snd_view a' = snd_view (lk_a l)" by (simp add: snd_view_def)
  show ?thesis using assms(3) by (simp add: app_write(1) below_view [OF v])
next
  case (flush_a now w a' ds)
  with below_flush [OF _ assms(3) flush_a(2,3)] assms(2) show ?thesis by (auto simp: link_inv_def)
next
  case (to_a d r a')
  with below_input [OF to_a(3) assms(3)] show ?thesis by simp
qed (use assms(3) in simp_all)

lemma link_reach_below: "link_reach l \<Longrightarrow> below (length (lk_log l)) (lk_a l)"
proof (induction rule: link_reach.induct)
  case (init a b)
  then show ?case
    by (auto simp: fresh_pair_def link_init_def below_def snd_inv_def snd_order_def off_self)
qed (rule link_below_step [OF _ link_reach_inv])

section \<open>What a flush cuts\<close>

definition cut_for :: "ikcpcb \<Rightarrow> (seg_hdr \<Rightarrow> bytes \<Rightarrow> bool) \<Rightarrow> (seg_hdr \<times> bytes) list \<Rightarrow> bool" where
  "cut_for k Q ss \<longleftrightarrow> ss \<noteq> [] \<and> length (wire_bytes ss) < 2 ^ 31 \<and>
     (\<forall>(h, p) \<in> set ss. good_seg (conv k) h p \<and> Q h p)"

lemma flush_cut:
  assumes "cfg_ok k" "unat (ackcount k) < 2 ^ 31" "snd_ready k" "ikcp_flush k now = (w, k', ds)"
    and "\<And>h p. (h, p) \<in> set (flush_segs k now) \<Longrightarrow> Q h p" "conv r = conv k"
  obtains segss where "ds = map wire_bytes segss" "concat segss = flush_segs k now"
    "\<forall>ss \<in> set segss. cut_for r Q ss"
proof -
  obtain segss where s: "ds = map wire_bytes segss" "concat segss = flush_segs k now"
      "\<forall>d \<in> set segss. d \<noteq> [] \<and> fits k d"
    using flush_spec(10) [OF assms(1-4)] by blast
  have "cut_for r Q ss" if ss: "ss \<in> set segss" for ss
  proof -
    have "set ss \<subseteq> set (flush_segs k now)" using ss by (auto simp flip: s(2))
    moreover have "length (wire_bytes ss) < 2 ^ 31"
      using s(3) ss assms(1) by (auto simp: fits_def cfg_ok_def)
    ultimately show ?thesis
      using s(3) ss flush_segs_good [OF assms(1,3)] assms(5,6) unfolding cut_for_def by fastforce
  qed
  with s(1,2) show thesis by (intro that) auto
qed

lemma cut_input:
  assumes "cut_for k Q ss" "0 < mss k"
  obtains k2 k' where "ikcp_input k (wire_bytes ss) = Some (0, k')"
    "k2 = fst (input_all ss (k, \<lparr>ia_flag = False, ia_maxack = 0, ia_latest_ts = 0\<rparr>))"
    "rcv_view k' = rcv_view k2" "ack_view k' = ack_view k2"
    "seg_sn ` set (snd_buf k') = seg_sn ` set (snd_buf k2)"
    "snd_una k' = snd_una k2" "snd_nxt k' = snd_nxt k2" "probe k' = probe k2" "rmt_wnd k' = rmt_wnd k2"
proof -
  obtain k1 a1 where k1: "input_all ss (k, \<lparr>ia_flag = False, ia_maxack = 0, ia_latest_ts = 0\<rparr>) = (k1, a1)"
    by fastforce
  have c: "\<forall>(h, d) \<in> set ss. good_seg (conv k) h d" "ss \<noteq> []" "length (wire_bytes ss) < 2 ^ 31"
    using assms(1) by (auto simp: cut_for_def)
  obtain r k' where i: "ikcp_input k (wire_bytes ss) = Some (r, k')"
    using input_total [OF assms(2)] by fastforce
  obtain k3 where k3: "k3 = k1 \<or> k3 = ikcp_parse_fastack k1 (ia_maxack a1)"
    "input_cwnd (snd_una k) k3 = Some k'" "r = 0"
    by (rule input_wire_cases [OF c i k1])
  have "snd_buf k' = snd_buf k3" "snd_una k' = snd_una k3" "snd_nxt k' = snd_nxt k3"
    using input_cwnd_frame(2) [OF k3(2)] by (simp_all add: snd_view_def)
  moreover have "probe k' = probe k3 \<and> rmt_wnd k' = rmt_wnd k3"
    using k3(2) by (auto simp: input_cwnd_def Let_def split: if_splits)
  moreover have "snd_una k3 = snd_una k1" "snd_nxt k3 = snd_nxt k1" "probe k3 = probe k1" "rmt_wnd k3 = rmt_wnd k1"
    using k3(1) by (elim disjE; simp add: ikcp_parse_fastack_def)+
  moreover have "seg_sn ` set (snd_buf k3) = seg_sn ` set (snd_buf k1)"
    using k3(1) by (elim disjE) (simp_all add: ikcp_parse_fastack_def fastack_mark_fields(5))
  moreover have "rcv_view k' = rcv_view k1 \<and> ack_view k' = ack_view k1"
    using input_cwnd_frame(1,3) [OF k3(2)] k3(1) parse_fastack_frame(1,2) by auto
  ultimately show thesis using i k3(3) k1 by (intro that [of k' k1]) simp_all
qed

section \<open>The receiver acknowledges all it is sent\<close>

text \<open>\<open>answering log R W k\<close>: \<open>k\<close> receives the log, and its window reaches to segment \<open>W\<close>.\<close>

definition answering :: "(u32 \<times> bytes) list \<Rightarrow> nat \<Rightarrow> nat \<Rightarrow> ikcpcb \<Rightarrow> bool" where
  "answering log R W k \<longleftrightarrow> receiver log R k \<and> acks_held log k \<and>
     W \<le> unat (rcv_nxt k) + unat (rcv_wnd k) \<and> length log + unat (rcv_wnd k) < 2 ^ 31"

definition answers :: "nat \<Rightarrow> ikcpcb \<Rightarrow> seg_hdr \<Rightarrow> bool" where
  "answers W k h \<longleftrightarrow>
     (ucast (hd_cmd h) = IKCP_CMD_PUSH \<longrightarrow> unat (hd_sn h) < W \<longrightarrow> hd_sn h \<in> fst ` set (acks k))"

lemma rcv_queue_grows:
  "length (rcv_queue k) \<le> length (rcv_queue (rcv_move k))"
  "length (rcv_queue k) \<le> length (rcv_queue (ikcp_parse_data k s))"
  "length (rcv_queue k) \<le> length (rcv_queue (fst (input_cmd h d (k, a))))"
proof -
  have m: "length (rcv_queue k) \<le> length (rcv_queue (rcv_move k))" for k
    by (rule rcv_move_rule) (auto simp: rcv_step_def)
  then show "length (rcv_queue k) \<le> length (rcv_queue (rcv_move k))" .
  have d: "length (rcv_queue k) \<le> length (rcv_queue (ikcp_parse_data k s))" for k s
    using m by (auto simp: ikcp_parse_data_def split: option.split intro: order_trans [OF _ m])
  then show "length (rcv_queue k) \<le> length (rcv_queue (ikcp_parse_data k s))" .
  have v: "rcv_view k = rcv_view k' \<Longrightarrow> rcv_queue k = rcv_queue k'" for k k'
    by (simp add: rcv_view_def)
  have u: "rcv_queue (input_una h k) = rcv_queue k" by (rule v) (simp add: frame)
  have p: "rcv_queue (ikcp_ack_push k sn ts) = rcv_queue k" for k sn ts by (rule v) (simp add: frame)
  have k: "rcv_queue (fst (input_ack h (k, a))) = rcv_queue k" for k by (rule v) (simp add: frame)
  have "length (rcv_queue k) \<le> length (rcv_queue (input_push h d k))" for k
    using d [of "ikcp_ack_push k (hd_sn h) (hd_ts h)"] by (simp add: input_push_def Let_def p)
  then show "length (rcv_queue k) \<le> length (rcv_queue (fst (input_cmd h d (k, a))))"
    using u by (simp add: input_cmd_cases Let_def k) (metis u)
qed

lemma answering_cmd:
  assumes "answering log R W k" "genuine log h d" "length d = unat (hd_len h)"
    and "unat (ackcount k) + 1 < 2 ^ 30"
    and k'_def: "k' = fst (input_cmd h d (k, a))"
  shows "answering log R W k'" "fst ` set (acks k) \<subseteq> fst ` set (acks k')" "answers W k' h"
proof -
  let ?u = "input_una h k"
  have i: "receiver log R k" "acks_held log k" "length log < 2 ^ 31"
    "W \<le> unat (rcv_nxt k) + unat (rcv_wnd k)" "length log + unat (rcv_wnd k) < 2 ^ 31"
    using assms(1) by (auto simp: answering_def)
  have r: "receiver log R k'" unfolding k'_def by (rule receiver_cmd [OF i(1) assms(2) i(3) assms(3)])
  have wnd: "rcv_wnd k' = rcv_wnd k"
    using sender_of_cmd [of k h d a] by (simp add: k'_def sender_of_def cfg_view_def)
  have "unat (rcv_nxt k) \<le> unat (rcv_nxt k')"
    using receiver_nxt [OF i(1,3)] receiver_nxt [OF r i(3)] rcv_queue_grows(3) [of k h d a]
    by (simp add: rcv_pos_def k'_def)
  moreover have "acks_held log k'"
    unfolding k'_def by (rule held_cmd(2) [OF i(1,3) assms(2-4) i(2)])
  ultimately show "answering log R W k'" using r i(4,5) by (simp add: answering_def wnd)
  have u: "rcv_view ?u = rcv_view k" "ack_view ?u = ack_view k" by (simp_all add: frame)
  have au: "ack_inv ?u" "acks ?u = acks k" "ackcount ?u = ackcount k" "rcv_nxt ?u = rcv_nxt k" "rcv_wnd ?u = rcv_wnd k"
    using i(2) u inv_by_view(4,5) [OF u(2)] by (simp_all add: acks_held_def ack_view_def rcv_view_def)
  let ?in = "itimediff (hd_sn h) (rcv_nxt k + rcv_wnd k) < 0"
  have push: "k' = input_push h d ?u" if "ucast (hd_cmd h) = IKCP_CMD_PUSH"
    using that by (simp add: k'_def input_cmd_cases Let_def ikcp_consts)
  have acks: "acks k' = acks k @ (if ucast (hd_cmd h) = IKCP_CMD_PUSH \<and> ?in then [(hd_sn h, hd_ts h)] else [])"
  proof (cases "ucast (hd_cmd h) = IKCP_CMD_PUSH")
    case False
    have "ack_view k' = ack_view ?u"
      using False input_ack_frame [of h "(?u, a)"] by (simp add: k'_def input_cmd_cases Let_def frame)
    from inv_by_view(5) [OF this] False show ?thesis by (simp add: au)
  next
    case True
    let ?p = "ikcp_ack_push ?u (hd_sn h) (hd_ts h)"
    have v: "ack_view k' = (if ?in then ack_view ?p else ack_view ?u)"
      by (simp add: push [OF True] input_push_def Let_def frame au)
    show ?thesis
      using ack_push_spec(2) [OF au(1), of "hd_sn h" "hd_ts h"] v assms(4) True au(2,3)
        inv_by_view(5) [of k' ?p] inv_by_view(5) [of k' ?u] by auto
  qed
  then show "fst ` set (acks k) \<subseteq> fst ` set (acks k')" by auto
  have "?in" if c: "ucast (hd_cmd h) = IKCP_CMD_PUSH" "unat (hd_sn h) < W"
  proof -
    obtain j where j: "j < length log" "hd_sn h = of_nat j" using assms(2) c(1) by (auto simp: genuine_def)
    have n: "unat (rcv_nxt k) \<le> length log" using receiver_nxt [OF i(1,3)] by simp
    then have s: "unat (rcv_nxt k + rcv_wnd k) = unat (rcv_nxt k) + unat (rcv_wnd k)"
      using i(5) by (intro unat_add_u32) simp
    have "itimediff (hd_sn h) (rcv_nxt k + rcv_wnd k) =
        int (unat (hd_sn h)) - int (unat (rcv_nxt k) + unat (rcv_wnd k))"
      using itimediff_off [of 0 "hd_sn h" "rcv_nxt k + rcv_wnd k"] n i(5) j unat_small [of j]
      by (simp add: off_def s del: of_nat_unat)
    with c(2) i(4) show ?thesis by (simp del: of_nat_unat)
  qed
  with acks show "answers W k' h" by (auto simp: answers_def)
qed

lemma answering_all:
  assumes "answering log R W k" "\<forall>(h, d) \<in> set ss. genuine log h d \<and> length d = unat (hd_len h)"
    and "unat (ackcount k) + length ss < 2 ^ 30" "k' = fst (input_all ss (k, a))"
  shows "answering log R W k' \<and> fst ` set (acks k) \<subseteq> fst ` set (acks k') \<and>
    (\<forall>(h, d) \<in> set ss. answers W k' h)"
  using assms
proof (induction ss arbitrary: k a)
  case (Cons s ss)
  obtain h d where s: "s = (h, d)" by (cases s)
  obtain k1 a1 where k1: "input_cmd h d (k, a) = (k1, a1)" by fastforce
  have g: "genuine log h d" "length d = unat (hd_len h)" "unat (ackcount k) + 1 < 2 ^ 30"
    using Cons.prems(2,3) s by auto
  have k1': "k1 = fst (input_cmd h d (k, a))" using k1 by simp
  note c = answering_cmd [OF Cons.prems(1) g k1']
  have "unat (ackcount k1) + length ss < 2 ^ 30"
    using ackcount_cmd(1) [of h d k a] k1 Cons.prems(3) by simp
  moreover have "k' = fst (input_all ss (k1, a1))"
    using Cons.prems(4) by (simp add: input_all_def s k1)
  ultimately have "answering log R W k' \<and> fst ` set (acks k1) \<subseteq> fst ` set (acks k') \<and>
      (\<forall>(h, d) \<in> set ss. answers W k' h)"
    using Cons.prems(2) by (intro Cons.IH c(1)) auto
  moreover from this have "answers W k' h" using c(3) by (auto simp: answers_def)
  ultimately show ?case using c(2) by (auto simp: s)
qed (simp add: input_all_def)

lemma answering_datagram:
  assumes "answering log R W k" "cut_for k (genuine log) ss" "0 < mss k"
    and "unat (ackcount k) + length (wire_bytes ss) < 2 ^ 30"
  obtains k' where "ikcp_input k (wire_bytes ss) = Some (0, k')" "answering log R W k'"
    "fst ` set (acks k) \<subseteq> fst ` set (acks k')" "\<forall>(h, d) \<in> set ss. answers W k' h"
    "unat (ackcount k') \<le> unat (ackcount k) + length (wire_bytes ss)"
proof -
  obtain k2 k' where i: "ikcp_input k (wire_bytes ss) = Some (0, k')"
    "k2 = fst (input_all ss (k, \<lparr>ia_flag = False, ia_maxack = 0, ia_latest_ts = 0\<rparr>))"
    "rcv_view k' = rcv_view k2" "ack_view k' = ack_view k2"
    by (rule cut_input [OF assms(2,3)])
  have g: "\<forall>(h, d) \<in> set ss. genuine log h d \<and> length d = unat (hd_len h)"
    using assms(2) by (auto simp: cut_for_def good_seg_def)
  have n: "unat (ackcount k) + length ss < 2 ^ 30" using assms(4) wire_bytes_long [of ss] by simp
  note a = answering_all [OF assms(1) g n i(2)]
  have "acks_held log k' = acks_held log k2" by (rule acks_held_view [OF i(3,4)])
  moreover have "receiver log R k' = receiver log R k2" by (rule receiver_view [OF i(3)])
  ultimately have "answering log R W k'"
    using a i(3) by (simp add: answering_def rcv_view_def)
  moreover have "acks k' = acks k2" by (rule inv_by_view(5) [OF i(4)])
  moreover have "unat (ackcount k') \<le> unat (ackcount k) + length (wire_bytes ss)"
    using ackcount_all [of ss k] wire_bytes_long [of ss] i(2,4) by (fastforce simp: ack_view_def intro: order_trans)
  ultimately show thesis using i(1) a by (intro that) (auto simp: answers_def)
qed

section \<open>The sender drops what is acknowledged\<close>

definition acked_all :: "(seg_hdr \<times> bytes) list \<Rightarrow> u32 set" where
  "acked_all ss =
     {sn. \<exists>x \<in> set ss. ucast (hd_cmd (fst x)) = IKCP_CMD_ACK \<and> sn = hd_sn (fst x)}"

lemma sender_of_sns: "sender_of k k' \<Longrightarrow> seg_sn ` set (snd_buf k') \<subseteq> seg_sn ` set (snd_buf k)"
proof -
  assume "sender_of k k'"
  then have "seg_core ` set (snd_buf k') \<subseteq> seg_core ` set (snd_buf k)" by (simp add: sender_of_def)
  from image_mono [OF this, of "\<lambda>c. fst (snd (snd c))"] show ?thesis by (simp add: image_image seg_core_def)
qed

lemma acked_ack: "snd_inv k \<Longrightarrow> hd_sn h \<notin> seg_sn ` set (snd_buf (fst (input_ack h (k, a))))"
proof -
  assume i: "snd_inv k"
  have sh: "snd_buf (ikcp_shrink_buf k') = snd_buf k'" for k'
    by (simp add: ikcp_shrink_buf_def split: list.split)
  have "hd_sn h \<notin> seg_sn ` set (snd_buf (ikcp_parse_ack k' (hd_sn h)))" if v: "snd_view k' = snd_view k" for k'
  proof (cases "hd_sn h \<in> seg_sn ` set (snd_buf k')")
    case True
    have i': "snd_inv k'" using i inv_by_view(3) [OF v] by simp
    from True i' have "off (snd_una k') (hd_sn h) < off (snd_una k') (snd_nxt k')"
      by (auto simp: snd_inv_def)
    from parse_ack_exact [OF i' this] show ?thesis by auto
  next
    case False
    then show ?thesis using sender_of_sns [OF sender_of_ops(4) [of k' "hd_sn h"]] by blast
  qed
  then show ?thesis using update_ack_frame(2) by (simp add: input_ack_def Let_def sh)
qed

lemma acked_input_all:
  assumes "snd_inv k" "k' = fst (input_all ss (k, a))"
  shows "seg_sn ` set (snd_buf k') \<subseteq> seg_sn ` set (snd_buf k) - acked_all ss"
  using assms
proof (induction ss arbitrary: k a)
  case (Cons s ss)
  obtain h d where s: "s = (h, d)" by (cases s)
  obtain k1 a1 where k1: "input_cmd h d (k, a) = (k1, a1)" by fastforce
  have i: "snd_inv k1" using input_cmd_snd [of "(k, a)" h d] Cons.prems(1) k1 by simp
  have k': "k' = fst (input_all ss (k1, a1))" using Cons.prems(2) by (simp add: input_all_def s k1)
  have sub: "seg_sn ` set (snd_buf k1) \<subseteq> seg_sn ` set (snd_buf k)"
    using sender_of_sns [OF sender_of_cmd [of k h d a]] k1 by simp
  have "hd_sn h \<notin> seg_sn ` set (snd_buf k1)" if "ucast (hd_cmd h) = IKCP_CMD_ACK"
    using acked_ack [OF input_una_snd [OF Cons.prems(1)], of h h a] that k1
    by (simp add: input_cmd_cases Let_def)
  moreover have "acked_all (s # ss) = (if ucast (hd_cmd h) = IKCP_CMD_ACK then {hd_sn h} else {}) \<union> acked_all ss"
    by (auto simp: acked_all_def s)
  ultimately show ?case
    using Cons.IH [OF i k'] sub by (cases "ucast (hd_cmd h) = IKCP_CMD_ACK"; simp; blast)
qed (simp add: input_all_def acked_all_def)

section \<open>The two directions of the round\<close>

lemma link_cfg: "link_inv l \<Longrightarrow> 0 < mss (lk_a l) \<and> 0 < mss (lk_b l)"
  by (simp add: link_inv_def sender_def quiet_def cfg_ok_def word_neq_0_conv unat_gt_0)

lemma feed_b:
  assumes "link_reach l" "answering (lk_log l) R W (lk_b l)"
    and "\<forall>ss \<in> set segss. cut_for (lk_b l) (genuine (lk_log l)) ss \<and> wire_bytes ss \<in> set (lk_ab l)"
    and "unat (ackcount (lk_b l)) + length (concat (map wire_bytes segss)) < 2 ^ 30"
  shows "\<exists>b'. link_feed (lk_b l) (map wire_bytes segss) = Some b' \<and> link_reach (l\<lparr>lk_b := b'\<rparr>) \<and>
    fst ` set (acks (lk_b l)) \<subseteq> fst ` set (acks b') \<and>
    (\<forall>(h, d) \<in> set (concat segss). answers W b' h)"
  using assms
proof (induction segss arbitrary: l)
  case (Cons ss segss)
  let ?b = "lk_b l"
  have c: "cut_for ?b (genuine (lk_log l)) ss" "wire_bytes ss \<in> set (lk_ab l)"
    "unat (ackcount ?b) + length (wire_bytes ss) < 2 ^ 30"
    using Cons.prems(3,4) by auto
  have m: "0 < mss ?b" using link_cfg [OF link_reach_inv [OF Cons.prems(1)]] by simp
  obtain b1 where b1: "ikcp_input ?b (wire_bytes ss) = Some (0, b1)" "answering (lk_log l) R W b1"
    "fst ` set (acks ?b) \<subseteq> fst ` set (acks b1)" "\<forall>(h, d) \<in> set ss. answers W b1 h"
    "unat (ackcount b1) \<le> unat (ackcount ?b) + length (wire_bytes ss)"
    by (rule answering_datagram [OF Cons.prems(2) c(1) m c(3)])
  let ?l = "l\<lparr>lk_b := b1\<rparr>"
  have r: "link_reach ?l" by (rule link_reach.step [OF Cons.prems(1) link_step.to_b [OF c(2) b1(1) c(3)]])
  have cv: "conv b1 = conv ?b"
    using sender_of_input [OF b1(1)] by (simp add: sender_of_def cfg_view_def)
  have "\<exists>b'. link_feed (lk_b ?l) (map wire_bytes segss) = Some b' \<and> link_reach (?l\<lparr>lk_b := b'\<rparr>) \<and>
      fst ` set (acks (lk_b ?l)) \<subseteq> fst ` set (acks b') \<and>
      (\<forall>(h, d) \<in> set (concat segss). answers W b' h)"
  proof (rule Cons.IH [OF r])
    show "answering (lk_log ?l) R W (lk_b ?l)" using b1(2) by simp
    show "\<forall>ss \<in> set segss. cut_for (lk_b ?l) (genuine (lk_log ?l)) ss \<and> wire_bytes ss \<in> set (lk_ab ?l)"
      using Cons.prems(3) by (simp add: cut_for_def cv)
    show "unat (ackcount (lk_b ?l)) + length (concat (map wire_bytes segss)) < 2 ^ 30"
      using Cons.prems(4) b1(5) by simp
  qed
  then obtain b' where b': "link_feed b1 (map wire_bytes segss) = Some b'" "link_reach (l\<lparr>lk_b := b'\<rparr>)"
    "fst ` set (acks b1) \<subseteq> fst ` set (acks b')" "\<forall>(h, d) \<in> set (concat segss). answers W b' h"
    by auto
  have "\<forall>(h, d) \<in> set ss. answers W b' h" using b1(4) b'(3) by (auto simp: answers_def)
  moreover have "fst ` set (acks ?b) \<subseteq> fst ` set (acks b')" by (rule order_trans [OF b1(3) b'(3)])
  ultimately show ?case using b' b1(1) by (intro exI [of _ b'] conjI) auto
qed (simp add: answers_def)

lemma feed_a:
  assumes "link_reach l"
    and "\<forall>ss \<in> set segss. cut_for (lk_a l) ctl_only ss \<and> wire_bytes ss \<in> set (lk_ba l)"
  shows "\<exists>a'. link_feed (lk_a l) (map wire_bytes segss) = Some a' \<and> link_reach (l\<lparr>lk_a := a'\<rparr>) \<and>
    seg_sn ` set (snd_buf a') \<subseteq> seg_sn ` set (snd_buf (lk_a l)) - acked_all (concat segss)"
  using assms
proof (induction segss arbitrary: l)
  case (Cons ss segss)
  let ?a = "lk_a l"
  have c: "cut_for ?a ctl_only ss" "wire_bytes ss \<in> set (lk_ba l)" using Cons.prems(2) by auto
  have m: "0 < mss ?a" using link_cfg [OF link_reach_inv [OF Cons.prems(1)]] by simp
  obtain k2 a1 where a1: "ikcp_input ?a (wire_bytes ss) = Some (0, a1)"
    "k2 = fst (input_all ss (?a, \<lparr>ia_flag = False, ia_maxack = 0, ia_latest_ts = 0\<rparr>))"
    "seg_sn ` set (snd_buf a1) = seg_sn ` set (snd_buf k2)"
    by (rule cut_input [OF c(1) m])
  have i: "snd_inv ?a" using link_reach_below [OF Cons.prems(1)] by (simp add: below_def)
  have s1: "seg_sn ` set (snd_buf a1) \<subseteq> seg_sn ` set (snd_buf ?a) - acked_all ss"
    using acked_input_all [OF i a1(2)] a1(3) by simp
  let ?l = "l\<lparr>lk_a := a1\<rparr>"
  have r: "link_reach ?l" by (rule link_reach.step [OF Cons.prems(1) link_step.to_a [OF c(2) a1(1)]])
  have cv: "conv a1 = conv ?a"
    using sender_of_input [OF a1(1)] by (simp add: sender_of_def cfg_view_def)
  have "\<exists>a'. link_feed (lk_a ?l) (map wire_bytes segss) = Some a' \<and> link_reach (?l\<lparr>lk_a := a'\<rparr>) \<and>
      seg_sn ` set (snd_buf a') \<subseteq> seg_sn ` set (snd_buf (lk_a ?l)) - acked_all (concat segss)"
    by (rule Cons.IH [OF r]) (use Cons.prems(2) in \<open>simp add: cut_for_def cv\<close>)
  then obtain a' where a': "link_feed a1 (map wire_bytes segss) = Some a'" "link_reach (l\<lparr>lk_a := a'\<rparr>)"
    "seg_sn ` set (snd_buf a') \<subseteq> seg_sn ` set (snd_buf a1) - acked_all (concat segss)"
    by auto
  have "acked_all (concat (ss # segss)) = acked_all ss \<union> acked_all (concat segss)"
    by (simp only: acked_all_def concat.simps set_append bex_Un) blast
  with a' a1(1) s1 show ?case by (intro exI [of _ a'] conjI) (simp, simp, blast)
qed (simp add: acked_all_def)

section \<open>One round trip\<close>

text \<open>A flush sends every segment that was never sent or whose timer has run out.\<close>

lemma flush_sends:
  assumes "snd_ready k" "s \<in> set (snd_buf (flush_mid k now))"
    and "seg_xmit s = 0 \<or> 0 \<le> itimediff now (seg_resendts s)"
  obtains h p where "(h, p) \<in> set (flush_segs k now)" "hd_sn h = seg_sn s" "ucast (hd_cmd h) = IKCP_CMD_PUSH"
proof -
  have "s \<in> set (flush_dues k now)" using assms(2,3) by (auto simp: flush_dues_def seg_due_def)
  then have "seg_wire (flush_step k now s) \<in> set (flush_segs k now)" by (simp add: flush_segs_def)
  moreover have "seg_cmd s = IKCP_CMD_PUSH"
    using snd_ready_mid [OF assms(1), of now] assms(2) by (simp add: snd_ready_def)
  then have "ucast (hd_cmd (fst (seg_wire (flush_step k now s)))) = IKCP_CMD_PUSH"
    using valid_cmd_ucast [of IKCP_CMD_PUSH] by (simp add: seg_wire_def seg_hdr_of_def)
  moreover have "hd_sn (fst (seg_wire (flush_step k now s))) = seg_sn s"
    by (simp add: seg_wire_def seg_hdr_of_def)
  ultimately show thesis
    using that [of "fst (seg_wire (flush_step k now s))" "snd (seg_wire (flush_step k now s))"] by simp
qed

lemma flush_sends_all:
  assumes "cfg_ok k" "unat (ackcount k) < 2 ^ 31" "snd_ready k" "ikcp_flush k now = (w, k', ds)"
    and "all_due k now" "sn \<in> seg_sn ` set (snd_buf k')"
  obtains h p where "(h, p) \<in> set (flush_segs k now)" "hd_sn h = sn" "ucast (hd_cmd h) = IKCP_CMD_PUSH"
proof -
  let ?m = "flush_mid k now"
  obtain n where n: "n \<le> length (snd_queue k)"
    "?m = move_n (ikcp_wnd_unused k) n (flush_ctl_state (k\<lparr>current := now\<rparr>))"
    by (rule flush_mid_n)
  have "snd_buf k' = map (flush_step k now) (snd_buf ?m)" by (rule flush_spec(1) [OF assms(1-4)])
  then obtain s where s: "s \<in> set (snd_buf ?m)" "seg_sn s = sn" using assms(6) by auto
  have "seg_xmit s = 0 \<or> 0 \<le> itimediff now (seg_resendts s)"
    using s(1) assms(5) n(1) flush_taken_set [of s] by (auto simp: n(2) move_n_def all_due_def)
  from flush_sends [OF assms(3) s(1) this] show thesis using that unfolding s(2) by blast
qed

lemma quiet_segs: "quiet k \<Longrightarrow> flush_segs k now = ctl_segs (k\<lparr>current := now\<rparr>)"
proof -
  assume q: "quiet k"
  obtain n where "n \<le> length (snd_queue k)"
    "flush_mid k now = move_n (ikcp_wnd_unused k) n (flush_ctl_state (k\<lparr>current := now\<rparr>))"
    by (rule flush_mid_n)
  then have "snd_buf (flush_mid k now) = []" using q by (simp add: quiet_def move_n_def flush_taken_def)
  then show ?thesis by (simp add: flush_segs_def flush_dues_def)
qed

lemma flush_sends_acks: "quiet k \<Longrightarrow> fst ` set (acks k) \<subseteq> acked_all (flush_segs k now)"
proof
  fix sn
  assume q: "quiet k" and "sn \<in> fst ` set (acks k)"
  then obtain st where st: "st \<in> set (acks k)" "fst st = sn" by blast
  let ?k = "k\<lparr>current := now\<rparr>"
  have "acks ?k = acks k" by (simp add: acks_def ikcp_ack_get_def)
  then have "(ctl_hdr ?k IKCP_CMD_ACK st, []) \<in> set (flush_segs k now)"
    using st(1) by (simp add: quiet_segs [OF q] ctl_segs_def Let_def)
  moreover have "ucast (hd_cmd (ctl_hdr ?k IKCP_CMD_ACK st)) = IKCP_CMD_ACK"
    using valid_cmd_ucast [of IKCP_CMD_ACK] by (simp add: ctl_hdr_def seg_hdr_of_def)
  moreover have "hd_sn (ctl_hdr ?k IKCP_CMD_ACK st) = sn"
    by (simp add: ctl_hdr_def seg_hdr_of_def st(2))
  ultimately show "sn \<in> acked_all (flush_segs k now)" unfolding acked_all_def by force
qed

lemma round_there:
  assumes "link_reach l"
    and "length (lk_log l) + length (snd_queue (lk_a l)) + unat (rcv_wnd (lk_b l)) < 2 ^ 31"
    and "unat (ackcount (lk_b l)) + length (concat ds) < 2 ^ 30"
    and f: "ikcp_flush (lk_a l) now = (w, a1, ds)"
  defines "l1 \<equiv> l\<lparr>lk_a := a1, lk_ab := lk_ab l @ ds, lk_log := lk_log l @ link_numbered (lk_a l) a1\<rparr>"
  obtains b1 where "link_feed (lk_b l) ds = Some b1" "link_reach (l1\<lparr>lk_b := b1\<rparr>)"
    "\<forall>(h, p) \<in> set (flush_segs (lk_a l) now).
       answers (unat (rcv_nxt (lk_b l)) + unat (rcv_wnd (lk_b l))) b1 h"
proof -
  let ?a = "lk_a l" and ?b = "lk_b l"
  let ?log = "lk_log l @ link_numbered ?a a1"
  let ?W = "unat (rcv_nxt ?b) + unat (rcv_wnd ?b)"
  have n: "length (lk_log l) + length (snd_queue ?a) < 2 ^ 31" using assms(2) by simp
  have inv: "link_inv l" by (rule link_reach_inv [OF assms(1)])
  have s: "sender (lk_log l) (lk_in l) ?a" and cv: "conv ?b = conv ?a"
    using inv by (simp_all add: link_inv_def)
  have r: "cfg_ok ?a" "unat (ackcount ?a) < 2 ^ 31" "snd_ready ?a"
    using s by (auto simp: sender_def)
  have l1: "link_reach l1" unfolding l1_def by (rule link_reach.step [OF assms(1) link_step.flush_a [OF f n]])
  obtain segss where sg: "ds = map wire_bytes segss" "concat segss = flush_segs ?a now"
    "\<forall>ss \<in> set segss. cut_for ?b (genuine ?log) ss"
    by (rule flush_cut [OF r f sender_flush(5) [OF s f n] cv])
  obtain R where R: "receiver ?log R ?b"
    using link_reach_inv [OF l1] by (auto simp: link_inv_def l1_def)
  have "length (link_numbered ?a a1) \<le> length (snd_queue ?a)" by (simp add: link_numbered_def)
  then have an: "answering ?log R ?W ?b"
    using R link_reach_safe [OF l1] assms(2) by (simp add: answering_def link_safe_def l1_def)
  have "\<exists>b'. link_feed (lk_b l1) (map wire_bytes segss) = Some b' \<and> link_reach (l1\<lparr>lk_b := b'\<rparr>) \<and>
    fst ` set (acks (lk_b l1)) \<subseteq> fst ` set (acks b') \<and>
    (\<forall>(h, d) \<in> set (concat segss). answers ?W b' h)"
  proof (rule feed_b [OF l1])
    show "answering (lk_log l1) R ?W (lk_b l1)" using an by (simp add: l1_def)
    show "\<forall>ss \<in> set segss. cut_for (lk_b l1) (genuine (lk_log l1)) ss \<and> wire_bytes ss \<in> set (lk_ab l1)"
      using sg(1,3) by (simp add: l1_def)
    show "unat (ackcount (lk_b l1)) + length (concat (map wire_bytes segss)) < 2 ^ 30"
      using assms(3) sg(1) by (simp add: l1_def)
  qed
  then show thesis using sg(1,2) by (auto simp: l1_def intro!: that)
qed

lemma round_back:
  assumes "link_reach l" "ikcp_flush (lk_b l) now = (w, b2, es)"
  defines "l2 \<equiv> l\<lparr>lk_b := b2, lk_ba := lk_ba l @ es\<rparr>"
  obtains a2 where "link_feed (lk_a l) es = Some a2" "link_reach (l2\<lparr>lk_a := a2\<rparr>)"
    "seg_sn ` set (snd_buf a2) \<subseteq> seg_sn ` set (snd_buf (lk_a l)) - fst ` set (acks (lk_b l))"
proof -
  let ?a = "lk_a l" and ?b = "lk_b l"
  have inv: "link_inv l" by (rule link_reach_inv [OF assms(1)])
  have q: "quiet ?b" and cv: "conv ?a = conv ?b" using inv by (simp_all add: link_inv_def)
  have r: "cfg_ok ?b" "unat (ackcount ?b) < 2 ^ 31" "snd_ready ?b"
    using q quiet_ready [OF q] by (auto simp: quiet_def)
  have l2: "link_reach l2" unfolding l2_def by (rule link_reach.step [OF assms(1) link_step.flush_b [OF assms(2)]])
  have ctl: "ctl_only h p" if "(h, p) \<in> set (flush_segs ?b now)" for h p
    using that ctl_segs_good(3) by (simp add: quiet_segs [OF q] ctl_only_def)
  obtain segss where sg: "es = map wire_bytes segss" "concat segss = flush_segs ?b now"
    "\<forall>ss \<in> set segss. cut_for ?a ctl_only ss"
    by (rule flush_cut [OF r assms(2) ctl cv])
  have "\<exists>a'. link_feed (lk_a l2) (map wire_bytes segss) = Some a' \<and> link_reach (l2\<lparr>lk_a := a'\<rparr>) \<and>
    seg_sn ` set (snd_buf a') \<subseteq> seg_sn ` set (snd_buf (lk_a l2)) - acked_all (concat segss)"
    by (rule feed_a [OF l2]) (use sg(1,3) in \<open>simp add: l2_def\<close>)
  then obtain a2 where "link_feed ?a es = Some a2" "link_reach (l2\<lparr>lk_a := a2\<rparr>)"
    "seg_sn ` set (snd_buf a2) \<subseteq> seg_sn ` set (snd_buf ?a) - acked_all (flush_segs ?b now)"
    using sg(1,2) by (auto simp: l2_def)
  with flush_sends_acks [OF q, of now] show thesis by (intro that) auto
qed

text \<open>C3: whatever the network lost before, one round trip it lets through recovers: when the
  timers of the sender's segments have run out and its flush and the receiver's answer arrive,
  the round runs without an abort, everything below the end of the receiver's window is held by
  the receiver, and nothing of it is left in the sender's buffer.\<close>

theorem kcp_recovers:
  assumes "link_reach l" "all_due (lk_a l) now"
    and "length (lk_log l) + length (snd_queue (lk_a l)) + unat (rcv_wnd (lk_b l)) < 2 ^ 31"
    and "unat (ackcount (lk_b l)) + length (concat (snd (snd (ikcp_flush (lk_a l) now)))) < 2 ^ 30"
  shows "\<exists>l'. link_round l now now' = Some l' \<and> link_reach l' \<and>
    (\<forall>i < length (lk_log l'). i < unat (rcv_nxt (lk_b l)) + unat (rcv_wnd (lk_b l)) \<longrightarrow> held (lk_b l') i) \<and>
    (\<forall>s \<in> set (snd_buf (lk_a l')). unat (rcv_nxt (lk_b l)) + unat (rcv_wnd (lk_b l)) \<le> unat (seg_sn s))"
proof -
  let ?W = "unat (rcv_nxt (lk_b l)) + unat (rcv_wnd (lk_b l))"
  obtain w a1 ds where f: "ikcp_flush (lk_a l) now = (w, a1, ds)" by (metis prod_cases3)
  have c: "unat (ackcount (lk_b l)) + length (concat ds) < 2 ^ 30" using assms(4) f by simp
  let ?l1 = "l\<lparr>lk_a := a1, lk_ab := lk_ab l @ ds, lk_log := lk_log l @ link_numbered (lk_a l) a1\<rparr>"
  obtain b1 where b1: "link_feed (lk_b l) ds = Some b1" "link_reach (?l1\<lparr>lk_b := b1\<rparr>)"
    "\<forall>(h, p) \<in> set (flush_segs (lk_a l) now). answers ?W b1 h"
    by (rule round_there [OF assms(1,3) c f])
  have s: "cfg_ok (lk_a l)" "unat (ackcount (lk_a l)) < 2 ^ 31" "snd_ready (lk_a l)"
    using link_reach_inv [OF assms(1)] by (auto simp: link_inv_def sender_def)
  have acked: "sn \<in> fst ` set (acks b1)" if m: "sn \<in> seg_sn ` set (snd_buf a1)" and u: "unat sn < ?W" for sn
  proof -
    obtain h p where "(h, p) \<in> set (flush_segs (lk_a l) now)" "hd_sn h = sn" "ucast (hd_cmd h) = IKCP_CMD_PUSH"
      by (rule flush_sends_all [OF s f assms(2) m])
    with b1(3) u show ?thesis by (auto simp: answers_def)
  qed
  obtain w' b2 es where g: "ikcp_flush b1 now' = (w', b2, es)" by (metis prod_cases3)
  then have g': "ikcp_flush (lk_b (?l1\<lparr>lk_b := b1\<rparr>)) now' = (w', b2, es)" by simp
  obtain a2 where "link_feed (lk_a (?l1\<lparr>lk_b := b1\<rparr>)) es = Some a2"
    and r2: "link_reach (?l1\<lparr>lk_b := b1\<rparr>\<lparr>lk_b := b2, lk_ba := lk_ba (?l1\<lparr>lk_b := b1\<rparr>) @ es\<rparr>\<lparr>lk_a := a2\<rparr>)"
    and "seg_sn ` set (snd_buf a2) \<subseteq>
      seg_sn ` set (snd_buf (lk_a (?l1\<lparr>lk_b := b1\<rparr>))) - fst ` set (acks (lk_b (?l1\<lparr>lk_b := b1\<rparr>)))"
    by (rule round_back [OF b1(2) g'])
  then have a2: "link_feed a1 es = Some a2"
    "seg_sn ` set (snd_buf a2) \<subseteq> seg_sn ` set (snd_buf a1) - fst ` set (acks b1)" by simp_all
  let ?l' = "l\<lparr>lk_a := a2, lk_b := b2, lk_ab := lk_ab l @ ds, lk_ba := lk_ba l @ es,
      lk_log := lk_log l @ link_numbered (lk_a l) a1\<rparr>"
  have "link_round l now now' = Some ?l'" by (simp add: link_round_def f b1(1) g a2(1))
  moreover have r: "link_reach ?l'" using r2 by (cases l) simp
  moreover have gone: "?W \<le> unat sn" if "sn \<in> seg_sn ` set (snd_buf a2)" for sn
    using that a2(2) acked [of sn] by (meson DiffE not_le subsetD)
  moreover have "held b2 i" if i: "i < length (lk_log ?l')" "i < ?W" for i
  proof -
    have "length (lk_log ?l') < 2 ^ 31" using link_reach_inv [OF r] by (simp add: link_inv_def)
    then have "unat (of_nat i :: u32) = i" using i(1) by (intro unat_small) simp
    then have "of_nat i \<notin> seg_sn ` set (snd_buf a2)" using gone [of "of_nat i"] i(2) by auto
    moreover have "\<forall>i < length (lk_log ?l'). of_nat i \<in> seg_sn ` set (snd_buf a2) \<or> held b2 i"
      using link_reach_safe [OF r] unfolding link_safe_def by simp
    ultimately show ?thesis using i(1) by blast
  qed
  ultimately show ?thesis by (intro exI [of _ ?l']) auto
qed

theorem kcp_recovers_witness:
  "\<exists>l'. link_round demo_lost 1000 1010 = Some l' \<and> link_reach l' \<and>
    (\<forall>i < length (lk_log l'). i < 128 \<longrightarrow> held (lk_b l') i) \<and>
    (\<forall>s \<in> set (snd_buf (lk_a l')). 128 \<le> unat (seg_sn s))"
proof -
  have due: "all_due (lk_a demo_lost) 1000" by code_simp
  have b: "rcv_nxt (lk_b demo_lost) = 0" "rcv_wnd (lk_b demo_lost) = 128" "ackcount (lk_b demo_lost) = 0"
    by (simp_all add: demo_lost_def demo_k_def ikcp_create_def IKCP_WND_RCV_def)
  have n: "length (lk_log demo_lost) = 1" "length (snd_queue (lk_a demo_lost)) = 0"
    "length (concat (snd (snd (ikcp_flush (lk_a demo_lost) 1000)))) = 27"
    by code_simp+
  show ?thesis
    using kcp_recovers [OF demo_lost_reach due, of 1010] by (simp only: b n) simp
qed

end
