(* ===== verification/Ikcp_Contract.thy ===== *)
theory Ikcp_Contract
  imports Kcp_Link
begin

text \<open>
  What the layers above the KCP core rely on: one invariant of a control block that every
  operation keeps, whatever the network delivers, and the effect of each operation on the
  bytes waiting to be acknowledged (\<open>unacked\<close>) and on the segments waiting to be read
  (\<open>rcv_load\<close>). The locale \<open>arq_core\<close> states this contract; it is interpreted on the
  operations of the core.
\<close>

section \<open>The invariant\<close>

definition kcp_inv :: "ikcpcb \<Rightarrow> bool" where
  "kcp_inv k \<longleftrightarrow> cfg_ok k \<and> snd_ready k \<and> rcv_inv k \<and> snd_inv k \<and>
     unat (snd_wnd k) < 2 ^ 31 \<and> unat (ackcount k) < 2 ^ 30"

definition unacked :: "ikcpcb \<Rightarrow> bytes" where
  "unacked k = queue_bytes (snd_buf k @ snd_queue k)"

definition rcv_load :: "ikcpcb \<Rightarrow> nat" where
  "rcv_load k = length (rcv_queue k) + length (rcv_buf k)"

lemma kcp_inv_cfg: "kcp_inv k \<Longrightarrow> cfg_ok k" and kcp_inv_mss: "kcp_inv k \<Longrightarrow> mss_ok k"
  and kcp_inv_ready: "kcp_inv k \<Longrightarrow> snd_ready k"
  and kcp_inv_acks: "kcp_inv k \<Longrightarrow> unat (ackcount k) < 2 ^ 31"
  by (auto simp: kcp_inv_def cfg_mss_ok)

lemma ready_sizes: "snd_ready k \<Longrightarrow> snd_sizes k"
  by (auto simp: snd_ready_def snd_sizes_def data_fit_def)

section \<open>Writing\<close>

lemma write_total: "mss_ok k \<Longrightarrow> ikcp_write k buf len always \<noteq> None"
  by (simp add: ikcp_write_def mss_ok_sint Let_def)

lemma write_refused: "ikcp_write k buf len always = Some (r, k') \<Longrightarrow> r \<noteq> 0 \<Longrightarrow> k' = k"
  by (auto simp: ikcp_write_def Let_def split: if_splits)

lemma kcp_inv_write [inv_intro]:
  assumes "kcp_inv k" "ikcp_write k buf len always = Some (r, k')"
  shows "kcp_inv k'"
proof (cases "r = 0")
  case False
  with assms write_refused show ?thesis by blast
next
  case True
  note f = write_frame [OF assms(2)]
  have e: "rcv_view k' = rcv_view k" "snd_view k' = snd_view k" "snd_wnd k' = snd_wnd k"
    "ackcount k' = ackcount k"
    by (subst f, simp add: rcv_view_def snd_view_def)+
  with assms write_ready [of k buf len always k'] True show ?thesis
    by (simp add: kcp_inv_def inv_by_view(1) [of k' k] inv_by_view(3) [of k' k])
qed

lemma unacked_write:
  assumes "kcp_inv k" "ikcp_write k buf len always = Some (0, k')"
  shows "unacked k' = unacked k @ buf"
proof -
  have "snd_buf k' = snd_buf k" by (subst write_frame [OF assms(2)], simp)
  then show ?thesis
    using write_bytes [OF kcp_inv_mss [OF assms(1)] ready_sizes [OF kcp_inv_ready [OF assms(1)]] assms(2)]
    by (simp add: unacked_def)
qed

section \<open>Flushing\<close>

lemma flush_control_state: "flush_control k = (k', seg, b) \<Longrightarrow> k' = flush_ctl_state k"
  unfolding flush_control_def Let_def
  by (auto simp: flush_ctl_state_def flush_probe_wait_ackcount split: prod.splits)

lemma flush_frame:
  assumes "ikcp_flush k now = (w, k', ds)"
  shows "rcv_view k' = rcv_view k" "snd_wnd k' = snd_wnd k" "ackcount k' = 0" "conv k' = conv k"
    "head_room k' = head_room k"
proof -
  obtain k1 seg b where c: "flush_control (k\<lparr>current := now\<rparr>) = (k1, seg, b)" by (metis prod_cases3)
  note k1 = flush_control_state [OF c]
  let ?view = "\<lambda>k. (rcv_view k, snd_wnd k, ackcount k, conv k, head_room k)"
  have mv: "?view (flush_move v cw k1) = ?view k1" for v cw
    using flush_move_n [of k1 v cw] by (auto simp: move_n_def rcv_view_def)
  have th: "?view (flush_ssthresh c' l cw rs m) = ?view m" for c' l cw rs m
    by (simp add: flush_ssthresh_def Let_def rcv_view_def)
  have up: "?view (m\<lparr>snd_buf := x, xmit := y, state := z\<rparr>) = ?view m" for m x y z
    by (simp add: rcv_view_def)
  obtain l c' cw rs m x y z v cw'
    where "k' = flush_ssthresh c' l cw rs (m\<lparr>snd_buf := x, xmit := y, state := z\<rparr>)" "m = flush_move v cw' k1"
    using assms unfolding ikcp_flush_def Let_def c by (auto split: prod.splits)
  then have "?view k' = ?view k1" using mv th up by (simp only:)
  then show "rcv_view k' = rcv_view k" "snd_wnd k' = snd_wnd k" "ackcount k' = 0" "conv k' = conv k"
    "head_room k' = head_room k"
    by (simp_all add: k1)
qed

lemma kcp_inv_flush [inv_intro]:
  assumes "kcp_inv k" "ikcp_flush k now = (w, k', ds)"
  shows "kcp_inv k'"
proof -
  note a = kcp_inv_cfg [OF assms(1)] kcp_inv_acks [OF assms(1)] kcp_inv_ready [OF assms(1)] assms(2)
  note f = flush_frame [OF assms(2)]
  have "rcv_inv k'" using inv_by_view(1) [OF f(1)] assms(1) by (simp add: kcp_inv_def)
  moreover have "snd_inv k'" using flush_snd_inv(1) [OF a] assms(1) by (simp add: kcp_inv_def)
  ultimately show ?thesis
    using flush_ready [OF a] f assms(1) by (simp add: kcp_inv_def)
qed

lemma unacked_flush:
  assumes "kcp_inv k" "ikcp_flush k now = (w, k', ds)"
  shows "unacked k' = unacked k"
  using flush_bytes [OF kcp_inv_cfg [OF assms(1)] kcp_inv_acks [OF assms(1)] kcp_inv_ready [OF assms(1)] assms(2)]
  by (simp add: unacked_def)

section \<open>Input\<close>

lemma input_loop_acks:
  "unat (ackcount (fst (snd (input_loop data ka)))) \<le> unat (ackcount (fst ka)) + length data"
proof (induction data ka rule: input_loop.induct)
  case (1 data ka)
  show ?case
  proof (cases "\<exists>h r. decode_header data = Some (h, r) \<and>
      input_loop data ka = input_loop (drop (unat (hd_len h)) r) (input_cmd h (take (unat (hd_len h)) r) ka) \<and>
      \<not> (length data < unat IKCP_OVERHEAD \<or> hd_conv h \<noteq> conv (fst ka) \<or>
        int (length r) < int (unat (hd_len h)) \<or> sint (hd_len h) < 0 \<or> \<not> valid_cmd (hd_cmd h))")
    case True
    then obtain h r where h: "decode_header data = Some (h, r)"
      "input_loop data ka = input_loop (drop (unat (hd_len h)) r) (input_cmd h (take (unat (hd_len h)) r) ka)"
      "\<not> (length data < unat IKCP_OVERHEAD \<or> hd_conv h \<noteq> conv (fst ka) \<or>
        int (length r) < int (unat (hd_len h)) \<or> sint (hd_len h) < 0 \<or> \<not> valid_cmd (hd_cmd h))"
      by blast
    let ?d = "drop (unat (hd_len h)) r" and ?p = "take (unat (hd_len h)) r"
    have "unat (ackcount (fst (snd (input_loop ?d (input_cmd h ?p ka))))) \<le>
        unat (ackcount (fst (input_cmd h ?p ka))) + length ?d"
      by (rule "1.IH" [OF _ h(1) refl]) (use h(3) in auto)
    moreover have "unat (ackcount (fst (input_cmd h ?p ka))) \<le> unat (ackcount (fst ka)) + 1"
      using ackcount_cmd(1) [of h ?p "fst ka" "snd ka"] by simp
    moreover have "length r < length data" using decode_header_length [OF h(1)] by simp
    ultimately show ?thesis unfolding h(2) by simp
  next
    case False
    then have "snd (input_loop data ka) = ka"
      by (auto simp: input_loop.simps [of data ka] split: option.splits if_splits)
    then show ?thesis by simp
  qed
qed

lemma ackcount_any_input:
  assumes "ikcp_input k d = Some (r, k')"
  shows "unat (ackcount k') \<le> unat (ackcount k) + length d"
proof -
  let ?a = "\<lparr>ia_flag = False, ia_maxack = 0, ia_latest_ts = 0\<rparr>"
  obtain e k1 a where l: "input_loop d (k, ?a) = (e, k1, a)" by (metis prod_cases3)
  have 1: "unat (ackcount k1) \<le> unat (ackcount k) + length d"
    using input_loop_acks [of d "(k, ?a)"] by (simp add: l)
  have "ackcount (ikcp_parse_fastack k1 (ia_maxack a)) = ackcount k1"
    using parse_fastack_frame(2) [of k1 "ia_maxack a"] by (simp add: ack_view_def)
  moreover have "ackcount k3 = ackcount k2" if "input_cwnd p k2 = Some k3" for p k2 k3
    using input_cwnd_frame(3) [OF that] by (simp add: ack_view_def)
  ultimately have "ackcount k' = ackcount k1 \<or> k' = k"
    using assms by (auto simp: ikcp_input_def Let_def l split: if_splits)
  with 1 show ?thesis by auto
qed

lemma rcv_move_snd_wnd: "snd_wnd (rcv_move k) = snd_wnd k"
  by (rule rcv_move_rule) (simp_all add: rcv_step_def)

lemma snd_wnd_frame [frame]:
  "snd_wnd (ikcp_update_ack k r) = snd_wnd k" "snd_wnd (ikcp_parse_ack k sn) = snd_wnd k"
  "snd_wnd (ikcp_shrink_buf k) = snd_wnd k" "snd_wnd (ikcp_parse_una k sn) = snd_wnd k"
  "snd_wnd (ikcp_ack_push k sn ts) = snd_wnd k" "snd_wnd (ikcp_parse_fastack k sn) = snd_wnd k"
  by (simp_all add: ikcp_update_ack_def ikcp_parse_ack_def ikcp_shrink_buf_def ikcp_parse_una_def
      ikcp_ack_push_def ikcp_parse_fastack_def Let_def split: list.split)

lemma parse_data_snd_wnd [frame]: "snd_wnd (ikcp_parse_data k s) = snd_wnd k"
  unfolding ikcp_parse_data_def Let_def by (simp add: rcv_move_snd_wnd split: option.split)

lemma input_cmd_snd_wnd: "snd_wnd (fst (input_cmd h d ka)) = snd_wnd (fst ka)"
  by (simp add: input_cmd_def input_ack_def input_push_def Let_def frame split: prod.split)

lemma input_snd_wnd: "ikcp_input k d = Some (r, k') \<Longrightarrow> snd_wnd k' = snd_wnd k"
  by (erule input_rule [where P = "\<lambda>k'. snd_wnd k' = snd_wnd k"])
    (auto simp: input_cmd_snd_wnd snd_wnd_frame input_cwnd_def Let_def split: if_splits)

lemma kcp_inv_input [inv_intro]:
  assumes "kcp_inv k" "ikcp_input k d = Some (r, k')" "unat (ackcount k) + length d < 2 ^ 30"
  shows "kcp_inv k'"
  using assms ackcount_any_input [OF assms(2)] sender_of_ready [OF sender_of_input [OF assms(2)]]
    sender_of_cfg [OF sender_of_input [OF assms(2)]] input_snd_inv [OF assms(2)]
    input_rcv_inv [OF assms(2)] input_snd_wnd [OF assms(2)]
  by (simp add: kcp_inv_def)

lemma kcp_inv_input_total: "kcp_inv k \<Longrightarrow> ikcp_input k d \<noteq> None"
  by (rule input_total) (auto simp: kcp_inv_def cfg_ok_def word_less_nat_alt)

section \<open>Reading\<close>

lemma rcv_move_load: "rcv_load (rcv_move k) = rcv_load k"
  by (rule rcv_move_rule [where P = "\<lambda>k'. rcv_load k' = rcv_load k"])
    (auto simp: rcv_load_def rcv_step_def)

lemma recv_load:
  assumes "ikcp_recv k len = Some (r, data, k')" "0 \<le> r" "0 \<le> len"
  shows "rcv_load k' < rcv_load k"
  using assms(1)
proof (cases rule: recv_cases)
  case ok
  have "rcv_load (recv_take False k) < rcv_load k"
    using msg_segs_pos [OF ok(2)] msg_segs_le [of "rcv_queue k"] ok(2)
    by (auto simp: rcv_load_def recv_take_def merge_eq Let_def)
  moreover have "rcv_load (recv_recover c m) = rcv_load m" for c m by (simp add: rcv_load_def)
  ultimately show ?thesis using ok(6) assms(3) rcv_move_load by simp
qed (use assms(2) in simp)

lemma recv_snd:
  assumes "ikcp_recv k len = Some (r, data, k')"
  shows "sender_of k k'" "snd_view k' = snd_view k" "snd_wnd k' = snd_wnd k" "ackcount k' = ackcount k"
    "snd_queue k' = snd_queue k"
proof -
  have t: "cfg_view (recv_take b m) = cfg_view m" "snd_view (recv_take b m) = snd_view m"
    "snd_wnd (recv_take b m) = snd_wnd m" "ackcount (recv_take b m) = ackcount m"
    "cfg_view (recv_recover b m) = cfg_view m" "snd_view (recv_recover b m) = snd_view m"
    "snd_wnd (recv_recover b m) = snd_wnd m" "ackcount (recv_recover b m) = ackcount m" for b m
    by (simp_all add: recv_take_def recv_recover_def cfg_view_def snd_view_def Let_def)
  have m: "snd_view (rcv_move m) = snd_view m" "ackcount (rcv_move m) = ackcount m" for m
    using rcv_move_frame [of m] by (simp_all add: rcv_move_ackcount)
  have v: "cfg_view k' = cfg_view k \<and> snd_view k' = snd_view k \<and> snd_wnd k' = snd_wnd k \<and> ackcount k' = ackcount k"
    using assms
  proof (cases rule: recv_cases)
    case ok
    then show ?thesis
      using rcv_move_cfg [of "recv_take (len < 0) k"] by (simp add: t m rcv_move_snd_wnd)
  qed simp
  then show "snd_view k' = snd_view k" "snd_wnd k' = snd_wnd k" "ackcount k' = ackcount k"
    "snd_queue k' = snd_queue k"
    by (simp_all add: cfg_view_def)
  show "sender_of k k'" using v by (simp add: sender_of_def snd_view_def)
qed

lemma kcp_inv_recv [inv_intro]:
  assumes "kcp_inv k" "ikcp_recv k len = Some (r, data, k')"
  shows "kcp_inv k'"
  using assms recv_snd [OF assms(2)] recv_inv [OF _ assms(2)] inv_by_view(3) [OF recv_snd(2) [OF assms(2)]]
    sender_of_ready [OF recv_snd(1) [OF assms(2)]] sender_of_cfg [OF recv_snd(1) [OF assms(2)]]
  by (simp add: kcp_inv_def)

lemma unacked_recv: "ikcp_recv k len = Some (r, data, k') \<Longrightarrow> unacked k' = unacked k"
  using recv_snd(2,5) by (fastforce simp: unacked_def snd_view_def)

section \<open>The contract as an interface\<close>

text \<open>
  A session uses the core through two operations that change what waits for acknowledgement:
  it appends bytes, in one of the two modes, and it flushes. Their laws are all that the
  accounting of a session needs.
\<close>

locale arq_core =
  fixes inv :: "'k \<Rightarrow> bool"
    and pending :: "'k \<Rightarrow> 'b list"
    and accept :: "'k \<Rightarrow> 'b list \<Rightarrow> 'k \<Rightarrow> bool"
    and transmit :: "'k \<Rightarrow> 'k \<Rightarrow> bool"
  assumes accept_inv: "inv k \<Longrightarrow> accept k b k' \<Longrightarrow> inv k'"
    and accept_pending: "inv k \<Longrightarrow> accept k b k' \<Longrightarrow> pending k' = pending k @ b"
    and transmit_inv: "inv k \<Longrightarrow> transmit k k' \<Longrightarrow> inv k'"
    and transmit_pending: "inv k \<Longrightarrow> transmit k k' \<Longrightarrow> pending k' = pending k"
begin

lemma accept_transmit:
  assumes "inv k" "accept k b k1" "k2 = k1 \<or> transmit k1 k2"
  shows "inv k2 \<and> pending k2 = pending k @ b"
  using assms accept_inv [of k b k1] accept_pending [of k b k1] transmit_inv [of k1 k2]
    transmit_pending [of k1 k2] by auto

lemma accept_split:
  assumes "inv k" "k1 = k \<and> a = [] \<or> accept k a k1" "k2 = k1 \<or> transmit k1 k2"
    and "k3 = k2 \<and> b = [] \<or> accept k2 b k3"
  shows "inv k3 \<and> pending k3 = pending k @ a @ b"
proof -
  have 1: "inv k1" "pending k1 = pending k @ a"
    using assms(1,2) accept_inv [of k a k1] accept_pending [of k a k1] by auto
  have 2: "inv k2" "pending k2 = pending k @ a"
    using assms(3) 1 transmit_inv [of k1 k2] transmit_pending [of k1 k2] by auto
  show ?thesis
    using assms(4) 2 accept_inv [of k2 b k3] accept_pending [of k2 b k3] by auto
qed

end

definition accepts :: "ikcpcb \<Rightarrow> bytes \<Rightarrow> ikcpcb \<Rightarrow> bool" where
  "accepts k b k' \<longleftrightarrow> (\<exists>len always. ikcp_write k b len always = Some (0, k'))"

definition flushes :: "ikcpcb \<Rightarrow> ikcpcb \<Rightarrow> bool" where
  "flushes k k' \<longleftrightarrow> (\<exists>now. fst (snd (ikcp_flush k now)) = k')"

interpretation core: arq_core kcp_inv unacked accepts flushes
proof unfold_locales
  show "kcp_inv k'" if "kcp_inv k" "accepts k b k'" for k b k'
    using that kcp_inv_write by (auto simp: accepts_def)
  show "unacked k' = unacked k @ b" if "kcp_inv k" "accepts k b k'" for k b k'
    using that unacked_write by (auto simp: accepts_def)
  have f: "\<exists>now w ds. ikcp_flush k now = (w, k', ds)" if "flushes k k'" for k k'
    using that unfolding flushes_def by (metis prod.collapse)
  show "kcp_inv k'" if "kcp_inv k" "flushes k k'" for k k'
    using f [OF that(2)] kcp_inv_flush [OF that(1)] by blast
  show "unacked k' = unacked k" if "kcp_inv k" "flushes k k'" for k k'
    using f [OF that(2)] unacked_flush [OF that(1)] by blast
qed

end
