(* ===== verification/Kcp_Progress.thy ===== *)
theory Kcp_Progress
  imports Kcp_Recovery Ikcp_Contract
begin

text \<open>
  Within bounds on the windows, the MTU and the number of segments the protocol does not wedge:
  from every such reachable state of the link some schedule of flushes, deliveries and reads
  hands everything that was written to the reader. The schedule is built
  from three moves: read the message at the head of the queue; retransmit the segment the
  receiver waits for; and, when the window is used up or closed, open it by an
  acknowledgement or a window probe.
\<close>

section \<open>Fragment numbers\<close>

text \<open>In the sequence of all segments the fragment numbers count down to the end of each message.\<close>

definition frgs_ok :: "nat list \<Rightarrow> bool" where
  "frgs_ok fs \<longleftrightarrow> (\<forall>i < length fs. fs ! i < 128 \<and> i + fs ! i < length fs \<and>
     (0 < fs ! i \<longrightarrow> fs ! Suc i = fs ! i - 1))"

definition frgs :: "ikcpseg list \<Rightarrow> nat list" where
  "frgs ss = map (\<lambda>s. unat (seg_frg s)) ss"

lemma frgs_append: "frgs_ok xs \<Longrightarrow> frgs_ok ys \<Longrightarrow> frgs_ok (xs @ ys)"
proof -
  assume x: "frgs_ok xs" and y: "frgs_ok ys"
  have "(xs @ ys) ! i < 128 \<and> i + (xs @ ys) ! i < length (xs @ ys) \<and>
      (0 < (xs @ ys) ! i \<longrightarrow> (xs @ ys) ! Suc i = (xs @ ys) ! i - 1)"
    if i: "i < length (xs @ ys)" for i
  proof (cases "i < length xs")
    case True
    with x have h: "xs ! i < 128 \<and> i + xs ! i < length xs \<and> (0 < xs ! i \<longrightarrow> xs ! Suc i = xs ! i - 1)"
      by (simp add: frgs_ok_def)
    then have "Suc i < length xs" if "0 < xs ! i" using that by linarith
    with h True show ?thesis by (auto simp: nth_append)
  next
    case False
    then have "i - length xs < length ys" using i by simp
    with y have "ys ! (i - length xs) < 128 \<and> i - length xs + ys ! (i - length xs) < length ys \<and>
        (0 < ys ! (i - length xs) \<longrightarrow> ys ! Suc (i - length xs) = ys ! (i - length xs) - 1)"
      by (simp add: frgs_ok_def)
    then show ?thesis using False by (auto simp: nth_append Suc_diff_le)
  qed
  then show ?thesis by (simp add: frgs_ok_def)
qed

lemma frgs_last: "frgs_ok (xs @ [f]) \<Longrightarrow> f = 0"
proof -
  assume "frgs_ok (xs @ [f])"
  then have "length xs + (xs @ [f]) ! length xs < length (xs @ [f])"
    unfolding frgs_ok_def by (auto simp del: nth_append_length)
  then show ?thesis by simp
qed

lemma frgs_countdown:
  assumes "frgs_ok fs" "i < length fs"
  shows "j \<le> fs ! i \<Longrightarrow> fs ! (i + j) = fs ! i - j"
proof (induction j)
  case (Suc j)
  have "i + fs ! i < length fs" using assms by (simp add: frgs_ok_def)
  then have "i + j < length fs" "0 < fs ! (i + j)" using Suc by simp_all
  then have "fs ! Suc (i + j) = fs ! (i + j) - 1" using assms(1) by (simp add: frgs_ok_def)
  with Suc show ?case by simp
qed simp

lemma frgs_frag_segs:
  assumes "mode \<or> c \<le> 128"
  shows "frgs_ok (frgs (frag_segs m mode c 0 c buf))"
proof -
  have "frgs (frag_segs m mode c 0 c buf) = map unat (map seg_frg (frag_segs m mode c 0 c buf))"
    by (simp add: frgs_def)
  also have "\<dots> = map (\<lambda>j. if mode then 0 else c - j - 1) [0 ..< c]"
    using assms by (auto simp: frag_segs_frg unat_of_nat_u32 simp del: of_nat_diff)
  finally have "frgs (frag_segs m mode c 0 c buf) = \<dots>" .
  with assms show ?thesis by (auto simp: frgs_ok_def)
qed

lemma write_frgs:
  assumes "ikcp_write k buf len always = Some (r, k')" "frgs_ok (pre @ frgs (snd_queue k))"
  shows "frgs_ok (pre @ frgs (snd_queue k'))"
proof -
  let ?mode = "stream k \<noteq> 0 \<or> always"
  obtain b1 k1 where e: "(if ?mode then write_extend buf k else (buf, k)) = (b1, k1)"
    by fastforce
  have "frgs (snd_queue k1) = frgs (snd_queue k)"
  proof (cases "snd_queue k = [] \<or> snd_queue k1 = snd_queue k")
    case True
    then show ?thesis using e by (auto simp: write_extend_def Let_def split: if_splits)
  next
    case False
    then obtain xs x where x: "snd_queue k = xs @ [x]" by (cases "snd_queue k" rule: rev_cases) auto
    have "frgs_ok ((pre @ frgs xs) @ [unat (seg_frg x)])" using assms(2) by (simp add: x frgs_def)
    then have l: "unat (seg_frg x) = 0" by (rule frgs_last)
    have "\<exists>y. snd_queue k1 = butlast (snd_queue k) @ [y] \<and> seg_frg y = 0"
      using e False by (auto simp: write_extend_def Let_def split: if_splits)
    then obtain y where "snd_queue k1 = butlast (snd_queue k) @ [y]" "seg_frg y = 0" by blast
    then show ?thesis using l by (simp add: x frgs_def)
  qed
  then have q1: "frgs_ok (pre @ frgs (snd_queue k1))" using assms(2) by simp
  from assms(1) e show ?thesis
  proof (cases rule: write_cases)
    case (3 c)
    then show ?thesis
      using frgs_append [OF q1 frgs_frag_segs [of ?mode c "unat (mss k1)" b1]]
      by (simp add: write_fragments_eq frgs_def)
  qed (use assms(2) q1 in auto)
qed

section \<open>The receiver is tidy\<close>

text \<open>What can move to the queue has moved, and every stored segment has the length it says.\<close>

definition rcv_tidy :: "ikcpcb \<Rightarrow> bool" where
  "rcv_tidy k \<longleftrightarrow> (rcv_buf k = [] \<or> seg_sn (hd (rcv_buf k)) \<noteq> rcv_nxt k \<or> rcv_wnd k \<le> nrcv_que k) \<and>
     (\<forall>s \<in> set (rcv_queue k) \<union> set (rcv_buf k). seg_ok s)"

lemma tidy_view: "rcv_view k = rcv_view k' \<Longrightarrow> rcv_tidy k = rcv_tidy k'"
  by (simp add: rcv_view_def rcv_tidy_def)

lemma tidy_move: "\<forall>s \<in> set (rcv_queue k) \<union> set (rcv_buf k). seg_ok s \<Longrightarrow> rcv_tidy (rcv_move k)"
proof -
  assume ok: "\<forall>s \<in> set (rcv_queue k) \<union> set (rcv_buf k). seg_ok s"
  have "\<forall>s \<in> set (rcv_queue (rcv_move k)) \<union> set (rcv_buf (rcv_move k)). seg_ok s"
    by (rule rcv_move_rule) (use ok in \<open>auto simp: rcv_step_def\<close>)
  with rcv_move_maximal [of k] show ?thesis by (simp add: rcv_tidy_def)
qed

lemma tidy_data: "rcv_tidy k \<Longrightarrow> seg_ok s \<Longrightarrow> rcv_tidy (ikcp_parse_data k s)"
proof -
  assume t: "rcv_tidy k" "seg_ok s"
  have "rcv_tidy (rcv_move (k\<lparr>rcv_buf := rev rs, nrcv_buf := n\<rparr>))"
    if "insert_back s (rev (rcv_buf k)) = Some rs" for rs n
    using t insert_back_set [OF that] by (intro tidy_move) (auto simp: rcv_tidy_def)
  moreover have "rcv_tidy (rcv_move k)" using t(1) by (intro tidy_move) (simp add: rcv_tidy_def)
  ultimately show ?thesis using t(1) by (simp add: ikcp_parse_data_def split: option.split)
qed

lemma tidy_cmd: "rcv_tidy k \<Longrightarrow> good_seg c h d \<Longrightarrow> rcv_tidy (fst (input_cmd h d (k, a)))"
proof -
  assume t: "rcv_tidy k" and g: "good_seg c h d"
  have u: "rcv_tidy (input_una h k)" using t by (simp add: tidy_view [OF input_una_frame(1)])
  have "seg_ok (input_segment h d)" using g by (simp add: good_seg_def input_segment_def seg_new_def seg_ok_def)
  moreover have "rcv_tidy (ikcp_ack_push k' sn ts) = rcv_tidy k'" for k' sn ts
    by (rule tidy_view) (simp add: frame)
  ultimately have "rcv_tidy (input_push h d k')" if "rcv_tidy k'" for k'
    using that by (simp add: input_push_def Let_def tidy_data)
  with u show ?thesis
    using tidy_view [OF input_ack_frame(1) [of h "(input_una h k, a)"]]
      tidy_view [OF view_updates(4) [where k = "input_una h k"]]
    by (simp add: input_cmd_cases Let_def)
qed

lemma tidy_input: "ikcp_input k d = Some (r, k') \<Longrightarrow> rcv_tidy k \<Longrightarrow> rcv_tidy k'"
  by (erule input_rule) (auto intro: tidy_cmd simp: tidy_view [OF parse_fastack_frame(1)]
      dest: input_cwnd_frame(1) tidy_view)

lemma tidy_recv:
  assumes "ikcp_recv k len = Some (r, data, k')" "rcv_tidy k"
  shows "rcv_tidy k'"
  using assms(1)
proof (cases rule: recv_cases)
  case ok
  have "rcv_tidy (rcv_move (recv_take b k))" for b
    using assms(2) by (intro tidy_move)
      (auto simp: rcv_tidy_def recv_take_def merge_eq Let_def dest: in_set_dropD)
  then show ?thesis using ok(6) by (simp add: tidy_view [OF recv_recover_view])
qed (use assms(2) in simp)

section \<open>More about the link\<close>

definition log_frgs :: "(u32 \<times> bytes) list \<Rightarrow> nat list" where
  "log_frgs log = map (\<lambda>x. unat (fst x)) log"

definition link_tidy :: "link \<Rightarrow> bool" where
  "link_tidy l \<longleftrightarrow> frgs_ok (log_frgs (lk_log l) @ frgs (snd_queue (lk_a l))) \<and> rcv_tidy (lk_b l) \<and>
     (\<forall>x \<in> set (lk_log l). length (snd x) \<le> unat (mss (lk_a l))) \<and>
     (snd_buf (lk_a l) = [] \<longrightarrow> snd_una (lk_a l) = snd_nxt (lk_a l))"

lemma una_cmd:
  "snd_buf k = [] \<longrightarrow> snd_una k = snd_nxt k \<Longrightarrow>
   snd_buf (fst (input_cmd h d (k, a))) = [] \<longrightarrow>
     snd_una (fst (input_cmd h d (k, a))) = snd_nxt (fst (input_cmd h d (k, a)))"
proof -
  let ?P = "\<lambda>k. snd_buf k = [] \<longrightarrow> snd_una k = snd_nxt k"
  have sh: "?P (ikcp_shrink_buf k)" for k by (simp add: ikcp_shrink_buf_def split: list.split)
  have v: "snd_view k' = snd_view k \<Longrightarrow> ?P k \<Longrightarrow> ?P k'" for k k' by (simp add: snd_view_def)
  have u: "?P (input_una h k)" unfolding input_una_def by (rule sh)
  have "?P (input_push h d (input_una h k))"
    by (rule v [OF _ u]) (simp add: input_push_def Let_def frame)
  moreover have "?P (fst (input_ack h (input_una h k, a)))" using sh by (simp add: input_ack_def Let_def)
  ultimately show ?thesis using u by (simp add: input_cmd_cases Let_def)
qed

lemma una_input:
  assumes "ikcp_input k d = Some (r, k')" "snd_buf k = [] \<longrightarrow> snd_una k = snd_nxt k"
  shows "snd_buf k' = [] \<longrightarrow> snd_una k' = snd_nxt k'"
proof -
  let ?P = "\<lambda>k. snd_buf k = [] \<longrightarrow> snd_una k = snd_nxt k"
  have v: "snd_view k' = snd_view k \<Longrightarrow> ?P k \<Longrightarrow> ?P k'" for k k' by (simp add: snd_view_def)
  show ?thesis
  proof (rule input_rule [OF assms(1), where P = ?P])
    show "?P k" by (rule assms(2))
    show "?P (fst (input_cmd h d (k, a)))" if "?P k" for h d k a using una_cmd [OF that] .
    show "?P (ikcp_parse_fastack k sn)" if "?P k" for k sn
      using that fastack_mark_fields(5) [of sn "snd_buf k"] by (auto simp: ikcp_parse_fastack_def)
    show "?P k'" if "?P k" "input_cwnd p k = Some k'" for p k k'
      using v [OF _ that(1)] input_cwnd_frame(2) [OF that(2)] by simp
  qed
qed

lemma mss_input: "ikcp_input k d = Some (r, k') \<Longrightarrow> mss k' = mss k \<and> mtu k' = mtu k \<and> rcv_wnd k' = rcv_wnd k
    \<and> snd_queue k' = snd_queue k"
  using sender_of_input [of k d r k'] by (simp add: sender_of_def cfg_view_def)

lemma tidy_flush_a:
  assumes "sender log inp k" "ikcp_flush k now = (w, k', ds)"
    and "frgs_ok (log_frgs log @ frgs (snd_queue k))"
    and "\<forall>x \<in> set log. length (snd x) \<le> unat (mss k)"
    and "snd_buf k = [] \<longrightarrow> snd_una k = snd_nxt k"
  shows "frgs_ok (log_frgs (log @ link_numbered k k') @ frgs (snd_queue k'))"
    "\<forall>x \<in> set (log @ link_numbered k k'). length (snd x) \<le> unat (mss k')"
    "snd_buf k' = [] \<longrightarrow> snd_una k' = snd_nxt k'"
proof -
  have r: "cfg_ok k" "unat (ackcount k) < 2 ^ 31" "snd_ready k"
    using assms(1) by (auto simp: sender_def)
  note sp = flush_spec [OF r assms(2)]
  obtain n where n: "n \<le> length (snd_queue k)" "snd_queue k' = drop n (snd_queue k)"
    "link_numbered k k' = map payload (take n (snd_queue k))" "snd_nxt k' = snd_nxt k + of_nat n"
    "map seg_sn (snd_buf k') = map seg_sn (snd_buf k) @ map (\<lambda>i. snd_nxt k + of_nat i) [0 ..< n]"
    by (rule flush_numbered [OF r assms(2)])
  have "log_frgs (link_numbered k k') = frgs (take n (snd_queue k))"
    by (simp add: n(3) log_frgs_def frgs_def payload_def)
  moreover have "frgs (take n (snd_queue k)) @ frgs (drop n (snd_queue k)) = frgs (snd_queue k)"
    unfolding frgs_def by (metis append_take_drop_id map_append)
  ultimately have "log_frgs (log @ link_numbered k k') @ frgs (snd_queue k') = log_frgs log @ frgs (snd_queue k)"
    by (simp add: n(2)) (simp add: log_frgs_def)
  with assms(3) show "frgs_ok (log_frgs (log @ link_numbered k k') @ frgs (snd_queue k'))" by simp
  have "length (snd (payload s)) \<le> unat (mss k)" if "s \<in> set (snd_queue k)" for s
  proof -
    have "data_fit k s" using r(3) that by (simp add: snd_ready_def)
    then show ?thesis by (simp add: data_fit_def payload_def seg_ok_def)
  qed
  then show "\<forall>x \<in> set (log @ link_numbered k k'). length (snd x) \<le> unat (mss k')"
    using assms(4) sp(9) by (auto simp: n(3) dest: in_set_takeD)
  show "snd_buf k' = [] \<longrightarrow> snd_una k' = snd_nxt k'"
  proof
    assume "snd_buf k' = []"
    then have "map seg_sn (snd_buf k) = []" "n = 0" using n(5) by auto
    with assms(5) n(4) sp(3) show "snd_una k' = snd_nxt k'" by simp
  qed
qed

lemma link_tidy_step:
  assumes "link_step l l'" "link_inv l" "link_tidy l"
  shows "link_tidy l'"
  using assms(1)
proof (cases rule: link_step.cases)
  case (app_write buf len always a')
  obtain q m where a': "a' = (lk_a l)\<lparr>snd_queue := q, nsnd_que := m\<rparr>"
    using write_frame [OF app_write(2)] by blast
  have "frgs_ok (log_frgs (lk_log l) @ frgs (snd_queue a'))"
    using write_frgs [OF app_write(2)] assms(3) by (simp add: link_tidy_def)
  then show ?thesis using assms(3) by (simp add: app_write(1) link_tidy_def a')
next
  case (flush_a now w a' ds)
  have s: "sender (lk_log l) (lk_in l) (lk_a l)" using assms(2) by (simp add: link_inv_def)
  have t: "frgs_ok (log_frgs (lk_log l) @ frgs (snd_queue (lk_a l)))" "rcv_tidy (lk_b l)"
    "\<forall>x \<in> set (lk_log l). length (snd x) \<le> unat (mss (lk_a l))"
    "snd_buf (lk_a l) = [] \<longrightarrow> snd_una (lk_a l) = snd_nxt (lk_a l)"
    using assms(3) by (simp_all add: link_tidy_def)
  show ?thesis
    using tidy_flush_a [OF s flush_a(2) t(1,3,4)] t(2) by (simp add: flush_a(1) link_tidy_def)
next
  case (flush_b now w b' ds)
  have "rcv_tidy b'" using assms(3) by (simp add: link_tidy_def tidy_view [OF flush_frame(1) [OF flush_b(2)]])
  then show ?thesis using assms(3) by (simp add: flush_b(1) link_tidy_def)
next
  case (to_b d r b')
  then show ?thesis using assms(3) tidy_input [OF to_b(3)] by (simp add: link_tidy_def)
next
  case (to_a d r a')
  then show ?thesis
    using assms(3) una_input [OF to_a(3)] mss_input [OF to_a(3)] by (simp add: link_tidy_def)
next
  case (app_read len r data b')
  then show ?thesis using assms(3) tidy_recv [OF app_read(2)] by (simp add: link_tidy_def)
qed

lemma link_reach_tidy: "link_reach l \<Longrightarrow> link_tidy l"
proof (induction rule: link_reach.induct)
  case (init a b)
  then show ?case
    by (auto simp: fresh_pair_def link_init_def link_tidy_def rcv_tidy_def frgs_ok_def frgs_def log_frgs_def)
qed (rule link_tidy_step [OF _ link_reach_inv])

section \<open>Reading\<close>

definition readable :: "ikcpcb \<Rightarrow> bool" where
  "readable k \<longleftrightarrow> rcv_queue k \<noteq> [] \<and> unat (seg_frg (hd (rcv_queue k))) < length (rcv_queue k)"

lemma peek_len_bound:
  "\<forall>s \<in> set ss. unat (seg_len s) \<le> M \<Longrightarrow> unat len + msg_segs ss * M < 2 ^ 32 \<Longrightarrow>
   unat (peek_len len ss) \<le> unat len + msg_segs ss * M"
proof (induction ss arbitrary: len)
  case (Cons s ss)
  have l: "unat (seg_len s) \<le> M" using Cons.prems(1) by simp
  show ?case
  proof (cases "seg_frg s = 0")
    case True
    then show ?thesis using Cons.prems(2) l unat_add_u32 [of len "seg_len s"] by (simp add: Let_def)
  next
    case False
    then have b: "unat len + (M + msg_segs ss * M) < 2 ^ 32" using Cons.prems(2) by simp
    then have a: "unat (len + seg_len s) = unat len + unat (seg_len s)"
      using l by (intro unat_add_u32) linarith
    have "unat (peek_len (len + seg_len s) ss) \<le> unat (len + seg_len s) + msg_segs ss * M"
      using Cons.prems(1) b l by (intro Cons.IH) (simp_all add: a)
    then show ?thesis using False l by (simp add: Let_def a)
  qed
qed simp

lemma msg_segs_bound: "m < length ss \<Longrightarrow> seg_frg (ss ! m) = 0 \<Longrightarrow> msg_segs ss \<le> Suc m"
proof (induction ss arbitrary: m)
  case (Cons s ss)
  then show ?case by (cases m) auto
qed simp

text \<open>The fragment numbers in the queue are those of the log.\<close>

lemma queue_frg:
  assumes "receiver log R k" "j < length (rcv_queue k)"
  shows "R + j < length log" "unat (seg_frg (rcv_queue k ! j)) = log_frgs log ! (R + j)"
proof -
  have c: "rcv_coherent (nth log) R k" and n: "R + length (rcv_queue k) \<le> length log"
    using assms(1) by (auto simp: receiver_def rcv_pos_def)
  show l: "R + j < length log" using n assms(2) by simp
  have "payload (rcv_queue k ! j) = log ! (R + j)" by (rule queue_payload [OF c assms(2)])
  from arg_cong [OF this, of "\<lambda>x. unat (fst x)"] l
  show "unat (seg_frg (rcv_queue k ! j)) = log_frgs log ! (R + j)"
    by (simp add: payload_def log_frgs_def)
qed

lemma readable_peek:
  assumes "receiver log R k" "rcv_tidy k" "readable k" "frgs_ok (log_frgs log @ fs)"
    and "\<forall>x \<in> set log. length (snd x) < 2 ^ 24"
  shows "0 \<le> ikcp_peeksize k"
proof -
  let ?q = "rcv_queue k"
  define f where "f = unat (seg_frg (?q ! 0))"
  have q: "?q \<noteq> []" "f < length ?q" using assms(3) by (auto simp: readable_def hd_conv_nth f_def)
  have at: "(log_frgs log @ fs) ! (R + j) = unat (seg_frg (?q ! j))" if "j < length ?q" for j
    using queue_frg [OF assms(1) that] by (simp add: nth_append log_frgs_def)
  have f0: "(log_frgs log @ fs) ! R = f" using at [of 0] q by (simp add: f_def)
  have R: "R < length (log_frgs log @ fs)" using queue_frg(1) [OF assms(1), of 0] q by (simp add: log_frgs_def)
  have f: "f < 128" using assms(4) R f0 by (auto simp: frgs_ok_def)
  have "(log_frgs log @ fs) ! (R + f) = 0" using frgs_countdown [OF assms(4) R, of f] f0 by simp
  then have "unat (seg_frg (?q ! f)) = 0" using at [OF q(2)] by simp
  then have m: "msg_segs ?q \<le> Suc f" using msg_segs_bound [OF q(2)] by (simp add: unat_eq_0)
  have len: "unat (seg_len s) \<le> 2 ^ 24 - 1" if s: "s \<in> set ?q" for s
  proof -
    obtain j where j: "j < length ?q" "s = ?q ! j" using s by (metis in_set_conv_nth)
    have "payload s = log ! (R + j)"
      using queue_payload [OF _ j(1)] assms(1) j(2) by (simp add: receiver_def)
    moreover have "length (snd (log ! (R + j))) < 2 ^ 24"
      using assms(5) queue_frg(1) [OF assms(1) j(1)] by simp
    moreover have "seg_ok s" using assms(2) s by (simp add: rcv_tidy_def)
    ultimately show ?thesis by (auto simp: payload_def seg_ok_def dest: arg_cong [of _ _ snd])
  qed
  have "msg_segs ?q * (2 ^ 24 - 1) \<le> 128 * (2 ^ 24 - 1)" using m f by (intro mult_le_mono1) simp
  then have "unat (peek_len 0 ?q) < 2 ^ 31"
    using peek_len_bound [of ?q "2 ^ 24 - 1" 0] len by simp
  then have s: "0 \<le> sint (peek_len 0 ?q)" by (simp add: sint_u32_nonneg)
  obtain t ts where t: "?q = t # ts" using q(1) by (cases ?q) auto
  have "seg_frg t + 1 \<le> nrcv_que k"
  proof -
    have "unat (seg_frg t + 1) = f + 1"
      using unat_add_u32 [of "seg_frg t" 1] f by (simp add: f_def t)
    moreover have "unat (nrcv_que k) = length ?q"
      using assms(1) by (auto simp: receiver_def rcv_inv_def unat_of_nat_u32)
    ultimately show ?thesis using q(2) by (simp add: word_le_nat_alt)
  qed
  then show ?thesis using s by (auto simp: ikcp_peeksize_def t Let_def not_less)
qed

section \<open>Moves of the link\<close>

text \<open>The configurations: \<open>ikcp_wndsize\<close> sets a positive send window and a receive window of at
  least 128 segments, which here fits the 16 bits in which a window is announced.\<close>

definition wnd_cfg :: "link \<Rightarrow> bool" where
  "wnd_cfg l \<longleftrightarrow> 128 \<le> unat (rcv_wnd (lk_b l)) \<and> unat (rcv_wnd (lk_b l)) < 2 ^ 16 \<and>
     0 < unat (snd_wnd (lk_a l)) \<and> unat (snd_wnd (lk_a l)) < 2 ^ 31 \<and> unat (mtu (lk_a l)) < 2 ^ 24"

definition link_total :: "link \<Rightarrow> nat" where
  "link_total l = length (lk_log l) + length (snd_queue (lk_a l))"

definition steady :: "link \<Rightarrow> bool" where
  "steady l \<longleftrightarrow> link_reach l \<and> wnd_cfg l \<and> link_total l + 2 ^ 16 < 2 ^ 31"

text \<open>How far the transfer is: the segments that reached the receiver's queue, and those read.\<close>

abbreviation arrived :: "link \<Rightarrow> nat" where
  "arrived l \<equiv> unat (rcv_nxt (lk_b l))"

definition taken :: "link \<Rightarrow> nat" where
  "taken l = arrived l - length (rcv_queue (lk_b l))"

definition goes :: "link \<Rightarrow> link \<Rightarrow> bool" where
  "goes l l' \<longleftrightarrow> link_step\<^sup>*\<^sup>* l l' \<and> steady l' \<and> lk_in l' = lk_in l \<and> link_total l' = link_total l \<and>
     arrived l \<le> arrived l' \<and> taken l \<le> taken l'"

definition progress :: "link \<Rightarrow> bool" where
  "progress l \<longleftrightarrow> (\<exists>l'. goes l l' \<and> (arrived l < arrived l' \<or> taken l < taken l'))"

lemma goes_refl: "steady l \<Longrightarrow> goes l l"
  by (simp add: goes_def)

lemma goes_trans: "goes l l' \<Longrightarrow> goes l' l'' \<Longrightarrow> goes l l''"
  by (auto simp: goes_def)

lemma goes_progress: "goes l l' \<Longrightarrow> progress l' \<Longrightarrow> progress l"
  unfolding progress_def using goes_trans by (fastforce simp: goes_def)

lemma goes_steady: "goes l l' \<Longrightarrow> steady l'"
  by (simp add: goes_def)

lemma steady_facts:
  assumes "steady l"
  shows "link_reach l" "link_inv l" "link_safe l" "link_tidy l" "below (length (lk_log l)) (lk_a l)"
    "wnd_cfg l" "length (lk_log l) + length (snd_queue (lk_a l)) + unat (rcv_wnd (lk_b l)) < 2 ^ 31"
  using assms link_reach_inv link_reach_safe link_reach_tidy link_reach_below
  by (auto simp: steady_def link_total_def wnd_cfg_def)

lemma steady_receiver:
  assumes "steady l"
  obtains R where "receiver (lk_log l) R (lk_b l)" "lk_out l = concat (map snd (take R (lk_log l)))"
    "unat (rcv_nxt (lk_b l)) = R + length (rcv_queue (lk_b l))"
    "R + length (rcv_queue (lk_b l)) \<le> length (lk_log l)"
    "taken l = R"
proof -
  have i: "link_inv l" by (rule steady_facts [OF assms])
  then obtain R where R: "receiver (lk_log l) R (lk_b l)" "lk_out l = concat (map snd (take R (lk_log l)))"
    by (auto simp: link_inv_def)
  have "length (lk_log l) < 2 ^ 31" using i by (simp add: link_inv_def)
  with receiver_nxt [OF R(1)] have "unat (rcv_nxt (lk_b l)) = R + length (rcv_queue (lk_b l))"
    "R + length (rcv_queue (lk_b l)) \<le> length (lk_log l)" by (simp_all add: rcv_pos_def)
  with R show thesis by (intro that) (auto simp: taken_def)
qed

lemma steady_ready:
  assumes "steady l"
  shows "cfg_ok (lk_a l)" "unat (ackcount (lk_a l)) < 2 ^ 31" "snd_ready (lk_a l)"
    "sender (lk_log l) (lk_in l) (lk_a l)" "quiet (lk_b l)" "conv (lk_a l) = conv (lk_b l)"
    "length (lk_log l) < 2 ^ 31" "snd_nxt (lk_a l) = of_nat (length (lk_log l))"
    "0 < mss (lk_a l)" "0 < mss (lk_b l)"
  using steady_facts(2) [OF assms] link_cfg [OF steady_facts(2) [OF assms]]
  by (auto simp: link_inv_def sender_def)

lemma goes_step:
  assumes "steady l" "link_step l l'" "wnd_cfg l'" "link_total l' = link_total l" "lk_in l' = lk_in l"
    and "arrived l \<le> arrived l'" "taken l \<le> taken l'"
  shows "goes l l'"
  using assms link_reach.step [of l l'] by (auto simp: goes_def steady_def)

lemma goes_flush_b:
  assumes "steady l" "ikcp_flush (lk_b l) now = (w, b', ds)"
  shows "goes l (l\<lparr>lk_b := b', lk_ba := lk_ba l @ ds\<rparr>)"
proof -
  have "rcv_view b' = rcv_view (lk_b l)" by (rule flush_frame [OF assms(2)])
  then have v: "rcv_wnd b' = rcv_wnd (lk_b l)" "rcv_nxt b' = rcv_nxt (lk_b l)" "rcv_queue b' = rcv_queue (lk_b l)"
    by (simp_all add: rcv_view_def)
  show ?thesis
    by (rule goes_step [OF assms(1) link_step.flush_b [OF assms(2)]])
      (use steady_facts(6) [OF assms(1)] in \<open>simp_all add: wnd_cfg_def v link_total_def taken_def\<close>)
qed

lemma goes_flush_a:
  assumes "steady l" "ikcp_flush (lk_a l) now = (w, a', ds)"
  shows "goes l (l\<lparr>lk_a := a', lk_ab := lk_ab l @ ds, lk_log := lk_log l @ link_numbered (lk_a l) a'\<rparr>)"
    (is "goes l ?l'")
proof -
  have n: "length (lk_log l) + length (snd_queue (lk_a l)) < 2 ^ 31"
    using assms(1) by (simp add: steady_def link_total_def)
  note r = steady_ready(1-3) [OF assms(1)]
  obtain m where m: "m \<le> length (snd_queue (lk_a l))" "snd_queue a' = drop m (snd_queue (lk_a l))"
    "link_numbered (lk_a l) a' = map payload (take m (snd_queue (lk_a l)))"
    by (rule flush_numbered [OF r assms(2)])
  have t: "link_total ?l' = link_total l" using m by (simp add: link_total_def)
  show ?thesis
    by (rule goes_step [OF assms(1) link_step.flush_a [OF assms(2) n] _ t])
      (use steady_facts(6) [OF assms(1)] flush_frame(2) [OF assms(2)] flush_spec(9) [OF r assms(2)] in
        \<open>simp_all add: wnd_cfg_def taken_def\<close>)
qed

lemma goes_to_b:
  assumes "steady l" "d \<in> set (lk_ab l)" "ikcp_input (lk_b l) d = Some (r, b')"
    and "unat (ackcount (lk_b l)) + length d < 2 ^ 30"
  shows "goes l (l\<lparr>lk_b := b'\<rparr>)"
proof -
  obtain R where R: "receiver (lk_log l) R (lk_b l)"
    "arrived l = R + length (rcv_queue (lk_b l))" "taken l = R"
    by (rule steady_receiver [OF assms(1)])
  have i: "length (lk_log l) < 2 ^ 31"
    "datagram (\<lambda>h p. good_seg (conv (lk_b l)) h p \<and> genuine (lk_log l) h p) d"
    using steady_facts(2) [OF assms(1)] assms(2) by (auto simp: link_inv_def)
  have R': "receiver (lk_log l) R b'" by (rule receiver_datagram [OF R(1) i assms(3)])
  then have n: "unat (rcv_nxt b') = R + length (rcv_queue b')"
    using receiver_nxt [OF R' i(1)] by (simp add: rcv_pos_def)
  have "length (rcv_queue (lk_b l)) \<le> length (rcv_queue b')"
  proof (rule input_rule [OF assms(3), where P = "\<lambda>k. length (rcv_queue (lk_b l)) \<le> length (rcv_queue k)"])
    show "length (rcv_queue (lk_b l)) \<le> length (rcv_queue (fst (input_cmd h d (k, a))))"
      if "length (rcv_queue (lk_b l)) \<le> length (rcv_queue k)" for h d k a
      using that rcv_queue_grows(3) order_trans by blast
    show "length (rcv_queue (lk_b l)) \<le> length (rcv_queue k')"
      if "length (rcv_queue (lk_b l)) \<le> length (rcv_queue k)" "input_cwnd p k = Some k'" for p k k'
      using that(1) input_cwnd_frame(1) [OF that(2)] by (simp add: rcv_view_def)
  qed (use parse_fastack_frame(1) in \<open>simp_all add: rcv_view_def\<close>)
  with n R show ?thesis
    by (intro goes_step [OF assms(1) link_step.to_b [OF assms(2-4)]])
      (use steady_facts(6) [OF assms(1)] mss_input [OF assms(3)] in
        \<open>simp_all add: wnd_cfg_def link_total_def taken_def\<close>)
qed

lemma goes_to_a:
  assumes "steady l" "d \<in> set (lk_ba l)" "ikcp_input (lk_a l) d = Some (r, a')"
  shows "goes l (l\<lparr>lk_a := a'\<rparr>)"
  by (rule goes_step [OF assms(1) link_step.to_a [OF assms(2,3)]])
    (use steady_facts(6) [OF assms(1)] mss_input [OF assms(3)] input_snd_wnd [OF assms(3)] in
      \<open>simp_all add: wnd_cfg_def link_total_def taken_def\<close>)

text \<open>The first move: a complete message is read.\<close>

lemma read_progress:
  assumes "steady l" "readable (lk_b l)"
  shows "progress l"
proof -
  let ?b = "lk_b l"
  obtain R where R: "receiver (lk_log l) R ?b" "unat (rcv_nxt ?b) = R + length (rcv_queue ?b)"
    "R + length (rcv_queue ?b) \<le> length (lk_log l)" "taken l = R"
    by (rule steady_receiver [OF assms(1)])
  have t: "rcv_tidy ?b" "frgs_ok (log_frgs (lk_log l) @ frgs (snd_queue (lk_a l)))"
    "\<forall>x \<in> set (lk_log l). length (snd x) \<le> unat (mss (lk_a l))"
    using steady_facts(4) [OF assms(1)] by (simp_all add: link_tidy_def)
  have "unat (mss (lk_a l)) < 2 ^ 24"
    using steady_facts(6) [OF assms(1)] steady_ready(1) [OF assms(1)] by (simp add: wnd_cfg_def cfg_ok_def)
  then have s: "\<forall>x \<in> set (lk_log l). length (snd x) < 2 ^ 24" using t(3) by fastforce
  have p: "0 \<le> ikcp_peeksize ?b" by (rule readable_peek [OF R(1) t(1) assms(2) t(2) s])
  obtain r data b' where rd: "ikcp_recv ?b (ikcp_peeksize ?b) = Some (r, data, b')"
    using recv_total [of ?b "ikcp_peeksize ?b"] by (cases "ikcp_recv ?b (ikcp_peeksize ?b)") auto
  have nn: "0 \<le> r"
    using rd p assms(2) by (auto simp: ikcp_recv_def Let_def readable_def split: if_splits)
  let ?l' = "l\<lparr>lk_b := b', lk_out := lk_out l @ data\<rparr>"
  have st: "link_step l ?l'" by (rule link_step.app_read [OF rd p])
  have i: "rcv_inv ?b" "rcv_coherent (nth (lk_log l)) R ?b" using R(1) by (auto simp: receiver_def)
  obtain n where n: "0 < n" "n = msg_segs (rcv_queue ?b)" "rcv_coherent (nth (lk_log l)) (R + n) b'"
    using recv_coherent_n [OF i rd p nn] by blast
  have nq: "n \<le> length (rcv_queue ?b)" using msg_segs_le n(2) by simp
  have q: "length (rcv_queue ?b) - n \<le> length (rcv_queue b')"
    using rd
  proof (cases rule: recv_cases)
    case fail
    with nn show ?thesis by simp
  next
    case ok
    have "length (rcv_queue (recv_take False ?b)) = length (rcv_queue ?b) - n"
      by (simp add: recv_take_def merge_eq n(2))
    then show ?thesis using ok(6) rcv_queue_grows(1) [of "recv_take False ?b"] p by simp
  qed
  have iv: "rcv_inv b'" by (rule recv_inv [OF i(1) rd])
  have w: "rcv_wnd b' = rcv_wnd ?b" using recv_snd(1) [OF rd] by (simp add: sender_of_def cfg_view_def)
  then have "length (rcv_queue b') < 2 ^ 16"
    using iv steady_facts(6) [OF assms(1)] by (simp add: rcv_inv_def wnd_cfg_def)
  moreover have "R + n < 2 ^ 31" using nq R(3) steady_ready(7) [OF assms(1)] by simp
  ultimately have u: "unat (rcv_nxt b') = R + n + length (rcv_queue b')"
    using n(3) unat_of_nat_u32 [of "R + n + length (rcv_queue b')"]
    by (simp add: rcv_coherent_def rcv_pos_def)
  have d: "taken l < taken ?l'" "arrived l \<le> arrived ?l'"
    using u q n(1) nq R by (simp_all add: taken_def)
  have "goes l ?l'"
    by (rule goes_step [OF assms(1) st])
      (use steady_facts(6) [OF assms(1)] d in \<open>simp_all add: wnd_cfg_def w link_total_def\<close>)
  with d(1) show ?thesis by (auto simp: progress_def)
qed

end
