(* ===== verification/Kcp_Liveness.thy ===== *)
theory Kcp_Liveness
  imports Kcp_Progress
begin

text \<open>
  The schedule that finishes a transfer from any reachable state within the bounds of \<open>steady\<close>,
  one move at a time.
\<close>

section \<open>One datagram to the receiver\<close>

definition told :: "ikcpcb \<Rightarrow> bool" where
  "told k \<longleftrightarrow> probe k AND IKCP_ASK_TELL \<noteq> 0"

lemma probe_frame:
  "probe (ikcp_update_ack k r) = probe k" "probe (ikcp_parse_ack k sn) = probe k"
  "probe (ikcp_shrink_buf k) = probe k" "probe (ikcp_parse_una k sn) = probe k"
  "probe (ikcp_ack_push k sn ts) = probe k" "probe (rcv_move k) = probe k"
  "probe (ikcp_parse_data k s) = probe k"
proof -
  show m: "probe (rcv_move k) = probe k" for k
    by (rule rcv_move_rule) (simp_all add: rcv_step_def)
  show "probe (ikcp_parse_data k s) = probe k"
    by (simp add: ikcp_parse_data_def m split: option.split)
qed (simp_all add: ikcp_update_ack_def ikcp_parse_ack_def ikcp_shrink_buf_def ikcp_parse_una_def
      ikcp_ack_push_def Let_def split: list.split)

lemma told_cmd: "told k \<or> ucast (hd_cmd h) = IKCP_CMD_WASK \<Longrightarrow> told (fst (input_cmd h d (k, a)))"
proof -
  have u: "probe (input_una h k) = probe k" by (simp add: input_una_def probe_frame)
  have p: "probe (input_push h d k') = probe k'" for k'
    by (simp add: input_push_def Let_def probe_frame)
  have ak: "probe (fst (input_ack h (k', a))) = probe k'" for k'
    by (simp add: input_ack_def Let_def probe_frame)
  have o: "(v OR IKCP_ASK_TELL) AND IKCP_ASK_TELL \<noteq> 0" for v :: u32
    by (simp add: bit.conj_disj_distrib2 ikcp_consts)
  show "told k \<or> ucast (hd_cmd h) = IKCP_CMD_WASK \<Longrightarrow> told (fst (input_cmd h d (k, a)))"
    by (auto simp: input_cmd_cases Let_def told_def p ak u o) (auto simp: ikcp_consts)
qed

lemma told_all:
  "told k \<or> (\<exists>(h, d) \<in> set ss. ucast (hd_cmd h) = IKCP_CMD_WASK) \<Longrightarrow> told (fst (input_all ss (k, a)))"
proof (induction ss arbitrary: k a)
  case (Cons s ss)
  obtain h d where s: "s = (h, d)" by (cases s)
  obtain k1 a1 where k1: "input_cmd h d (k, a) = (k1, a1)" by fastforce
  have "told k1 \<or> (\<exists>(h, d) \<in> set ss. ucast (hd_cmd h) = IKCP_CMD_WASK)"
    using Cons.prems told_cmd [of k h d a] by (auto simp: s k1)
  from Cons.IH [OF this, of a1] show ?case by (simp add: input_all_def s k1)
qed (simp add: input_all_def)

abbreviation window :: "link \<Rightarrow> nat" where
  "window l \<equiv> arrived l + unat (rcv_wnd (lk_b l))"

lemma steady_answering:
  assumes "steady l"
  obtains R where "answering (lk_log l) R (window l) (lk_b l)"
proof -
  obtain R where "receiver (lk_log l) R (lk_b l)" by (rule steady_receiver [OF assms])
  moreover have "acks_held (lk_log l) (lk_b l)"
    using steady_facts(3) [OF assms] by (simp add: link_safe_def)
  moreover have "length (lk_log l) + unat (rcv_wnd (lk_b l)) < 2 ^ 31"
    using steady_facts(7) [OF assms] by simp
  ultimately show thesis by (intro that) (auto simp: answering_def)
qed

text \<open>\<open>a\<close> flushes, and of its datagrams only the one with the segment \<open>h\<close> arrives.\<close>

lemma deliver:
  assumes "steady l" "ikcp_flush (lk_a l) now = (w, a1, ds)" "(h, p) \<in> set (flush_segs (lk_a l) now)"
  shows "\<exists>l'. goes l l' \<and> lk_a l' = a1 \<and> lk_log l' = lk_log l @ link_numbered (lk_a l) a1 \<and>
    answers (window l) (lk_b l') h \<and>
    (ucast (hd_cmd h) = IKCP_CMD_WASK \<longrightarrow> told (lk_b l'))"
proof -
  obtain w0 b0 es where f0: "ikcp_flush (lk_b l) 0 = (w0, b0, es)" by (metis prod_cases3)
  define l0 where "l0 = l\<lparr>lk_b := b0, lk_ba := lk_ba l @ es\<rparr>"
  have g0: "goes l l0" using goes_flush_b [OF assms(1) f0] by (simp_all add: l0_def)
  have s0: "steady l0" by (rule goes_steady [OF g0])
  have b0: "rcv_nxt b0 = rcv_nxt (lk_b l)" "rcv_wnd b0 = rcv_wnd (lk_b l)" "ackcount b0 = 0"
    using flush_frame(1,3) [OF f0] by (simp_all add: rcv_view_def)
  have f1: "ikcp_flush (lk_a l0) now = (w, a1, ds)" using assms(2) by (simp add: l0_def)
  define l1 where "l1 = l0\<lparr>lk_a := a1, lk_ab := lk_ab l0 @ ds, lk_log := lk_log l0 @ link_numbered (lk_a l0) a1\<rparr>"
  have g1: "goes l0 l1" using goes_flush_a [OF s0 f1] by (simp_all add: l1_def)
  have s1: "steady l1" by (rule goes_steady [OF g1])
  have b1: "lk_b l1 = b0" "window l1 = window l" by (simp_all add: l1_def l0_def b0)
  have n: "length (lk_log l0) + length (snd_queue (lk_a l0)) < 2 ^ 31"
    using s0 by (simp add: steady_def link_total_def)
  note r = steady_ready(1-3) [OF s0]
  have cv: "conv (lk_b l1) = conv (lk_a l0)" using steady_ready(6) [OF s0] by (simp add: l1_def)
  obtain segss where sg: "ds = map wire_bytes segss" "concat segss = flush_segs (lk_a l0) now"
    "\<forall>ss \<in> set segss. cut_for (lk_b l1) (genuine (lk_log l0 @ link_numbered (lk_a l0) a1)) ss"
    by (rule flush_cut [OF r f1 sender_flush(5) [OF steady_ready(4) [OF s0] f1 n] cv])
  have "(h, p) \<in> set (concat segss)" using assms(3) sg(2) by (simp add: l0_def)
  then obtain ss where ss: "ss \<in> set segss" "(h, p) \<in> set ss" by auto
  then have d: "wire_bytes ss \<in> set ds" using sg(1) by simp
  have cut: "cut_for (lk_b l1) (genuine (lk_log l1)) ss" using sg(3) ss(1) by (simp add: l1_def)
  have "unat (head_room (lk_a l0)) + length (wire_bytes ss) \<le> unat (mtu (lk_a l0))"
    by (rule flush_datagram [OF r f1 d])
  then have c: "unat (ackcount (lk_b l1)) + length (wire_bytes ss) < 2 ^ 30"
    using steady_facts(6) [OF s0] by (simp add: b1 b0 wnd_cfg_def)
  have m: "0 < mss (lk_b l1)" by (rule steady_ready(10) [OF s1])
  obtain R where an: "answering (lk_log l1) R (window l1) (lk_b l1)" by (rule steady_answering [OF s1])
  obtain b' where b': "ikcp_input (lk_b l1) (wire_bytes ss) = Some (0, b')"
    "\<forall>(h, d) \<in> set ss. answers (window l1) b' h"
    by (rule answering_datagram [OF an cut m c])
  obtain k2 k' where k': "ikcp_input (lk_b l1) (wire_bytes ss) = Some (0, k')"
    "k2 = fst (input_all ss (lk_b l1, \<lparr>ia_flag = False, ia_maxack = 0, ia_latest_ts = 0\<rparr>))" "probe k' = probe k2"
    by (rule cut_input [OF cut m])
  have "told b'" if "ucast (hd_cmd h) = IKCP_CMD_WASK"
  proof -
    have "told k2" unfolding k'(2) using that ss(2) by (intro told_all) auto
    moreover have "b' = k'" using b'(1) k'(1) by simp
    ultimately show ?thesis using k'(3) by (simp add: told_def)
  qed
  moreover have "answers (window l) b' h" using b'(2) ss(2) unfolding b1(2) by blast
  moreover have "wire_bytes ss \<in> set (lk_ab l1)" using d by (simp add: l1_def)
  note g2 = goes_to_b [OF s1 this b'(1) c]
  have "goes l (l1\<lparr>lk_b := b'\<rparr>)" using goes_trans [OF goes_trans [OF g0 g1] g2] .
  moreover have "lk_a (l1\<lparr>lk_b := b'\<rparr>) = a1" "lk_log (l1\<lparr>lk_b := b'\<rparr>) = lk_log l @ link_numbered (lk_a l) a1"
    by (simp_all add: l1_def l0_def)
  ultimately show ?thesis by (intro exI [of _ "l1\<lparr>lk_b := b'\<rparr>"]) simp
qed

text \<open>A receiver without a complete message has room, and waits for its next segment.\<close>

lemma waits:
  assumes "steady l" "\<not> readable (lk_b l)"
  shows "nrcv_que (lk_b l) < rcv_wnd (lk_b l)" "\<not> held (lk_b l) (arrived l)"
proof -
  let ?b = "lk_b l"
  obtain R where R: "receiver (lk_log l) R ?b" by (rule steady_receiver [OF assms(1)])
  then have i: "rcv_inv ?b" by (simp add: receiver_def)
  have q: "length (rcv_queue ?b) < unat (rcv_wnd ?b)"
  proof (rule ccontr)
    assume "\<not> ?thesis"
    then have l: "128 \<le> length (rcv_queue ?b)" using steady_facts(6) [OF assms(1)] by (simp add: wnd_cfg_def)
    then have 0: "0 < length (rcv_queue ?b)" by linarith
    from queue_frg [OF R 0] have "unat (seg_frg (rcv_queue ?b ! 0)) = (log_frgs (lk_log l) @ frgs (snd_queue (lk_a l))) ! R"
      "R < length (log_frgs (lk_log l) @ frgs (snd_queue (lk_a l)))"
      by (simp_all add: nth_append log_frgs_def)
    moreover have "frgs_ok (log_frgs (lk_log l) @ frgs (snd_queue (lk_a l)))"
      using steady_facts(4) [OF assms(1)] by (simp add: link_tidy_def)
    ultimately have "unat (seg_frg (rcv_queue ?b ! 0)) < 128" by (simp add: frgs_ok_def)
    with l assms(2) 0 show False by (auto simp: readable_def hd_conv_nth)
  qed
  moreover have "unat (nrcv_que ?b) = length (rcv_queue ?b)"
    using i by (auto simp: rcv_inv_def unat_of_nat_u32)
  ultimately show r: "nrcv_que ?b < rcv_wnd ?b" by (simp add: word_less_nat_alt)
  have t: "rcv_tidy ?b" using steady_facts(4) [OF assms(1)] by (simp add: link_tidy_def)
  have "rcv_nxt ?b \<notin> seg_sn ` set (rcv_buf ?b)"
  proof
    assume "rcv_nxt ?b \<in> seg_sn ` set (rcv_buf ?b)"
    then obtain s where s: "s \<in> set (rcv_buf ?b)" "seg_sn s = rcv_nxt ?b" by auto
    then obtain u us where u: "rcv_buf ?b = u # us" by (cases "rcv_buf ?b") auto
    have "seg_sn u \<noteq> rcv_nxt ?b" using t r u by (auto simp: rcv_tidy_def)
    then have "s \<in> set us" using s u by auto
    then have "off (rcv_nxt ?b) (seg_sn u) < off (rcv_nxt ?b) (seg_sn s)"
      using i u by (simp add: rcv_inv_def rcv_order_def)
    with s(2) show False by (simp add: off_self)
  qed
  then show "\<not> held ?b (arrived l)" by (simp add: held_def)
qed

section \<open>The second move: the segment the receiver waits for\<close>

lemma push_progress:
  assumes "steady l" "ikcp_flush (lk_a l) now = (w, a1, ds)" "(h, p) \<in> set (flush_segs (lk_a l) now)"
    and "ucast (hd_cmd h) = IKCP_CMD_PUSH" "hd_sn h = rcv_nxt (lk_b l)"
  shows "progress l"
proof -
  obtain l' where l': "goes l l'" "answers (window l) (lk_b l') h"
    using deliver [OF assms(1-3)] by blast
  have s: "steady l'" by (rule goes_steady [OF l'(1)])
  have "0 < unat (rcv_wnd (lk_b l))" using steady_facts(6) [OF assms(1)] by (simp add: wnd_cfg_def)
  then have "rcv_nxt (lk_b l) \<in> fst ` set (acks (lk_b l'))"
    using l'(2) assms(4,5) by (simp add: answers_def)
  moreover have "acks_held (lk_log l') (lk_b l')" using steady_facts(3) [OF s] by (simp add: link_safe_def)
  ultimately obtain i where i: "i < length (lk_log l')" "rcv_nxt (lk_b l) = of_nat i" "held (lk_b l') i"
    by (auto simp: acks_held_def)
  have "i < 2 ^ 31" using i(1) steady_ready(7) [OF s] by simp
  then have h: "held (lk_b l') (arrived l)" using i(2,3) by (simp add: unat_small)
  show ?thesis
  proof (cases "arrived l < arrived l'")
    case True
    with l'(1) show ?thesis by (auto simp: progress_def)
  next
    case False
    then have "arrived l' = arrived l" using l'(1) by (simp add: goes_def)
    then have "readable (lk_b l')" using waits(2) [OF s] h by auto
    from goes_progress [OF l'(1) read_progress [OF s this]] show ?thesis .
  qed
qed

lemma missing_progress:
  assumes "steady l" "arrived l < length (lk_log l)"
  shows "progress l"
proof (cases "readable (lk_b l)")
  case True
  with assms(1) show ?thesis by (rule read_progress)
next
  case False
  have "of_nat (arrived l) \<in> seg_sn ` set (snd_buf (lk_a l)) \<or> held (lk_b l) (arrived l)"
    using steady_facts(3) [OF assms(1)] assms(2) unfolding link_safe_def by blast
  with waits(2) [OF assms(1) False] obtain s where
    s: "s \<in> set (snd_buf (lk_a l))" "seg_sn s = rcv_nxt (lk_b l)" by auto
  define now where "now = seg_resendts s"
  obtain w a1 ds where f: "ikcp_flush (lk_a l) now = (w, a1, ds)" by (metis prod_cases3)
  have due: "seg_xmit s = 0 \<or> 0 \<le> itimediff now (seg_resendts s)" by (simp add: now_def itimediff_def)
  have "s \<in> set (snd_buf (flush_mid (lk_a l) now))"
  proof -
    obtain n where "flush_mid (lk_a l) now =
        move_n (ikcp_wnd_unused (lk_a l)) n (flush_ctl_state ((lk_a l)\<lparr>current := now\<rparr>))"
      by (rule flush_mid_n)
    with s(1) show ?thesis by (simp add: move_n_def)
  qed
  then obtain h p where
    "(h, p) \<in> set (flush_segs (lk_a l) now)" "hd_sn h = seg_sn s" "ucast (hd_cmd h) = IKCP_CMD_PUSH"
    by (rule flush_sends [OF steady_ready(3) [OF assms(1)] _ due])
  with push_progress [OF assms(1) f] s(2) show ?thesis by simp
qed

section \<open>The third move: an announcement of the receiver's window\<close>

text \<open>All numbered segments have arrived, no message can be read, and more waits to be sent.\<close>

definition dry :: "link \<Rightarrow> bool" where
  "dry l \<longleftrightarrow> steady l \<and> \<not> readable (lk_b l) \<and> arrived l = length (lk_log l) \<and> snd_queue (lk_a l) \<noteq> []"

lemma dry_or_progress:
  assumes "dry l" "goes l l'"
  shows "progress l \<or> dry l'"
proof (cases "progress l' \<or> arrived l < arrived l'")
  case True
  with assms(2) goes_progress [OF assms(2)] show ?thesis by (auto simp: progress_def)
next
  case False
  have s: "steady l'" by (rule goes_steady [OF assms(2)])
  have e: "arrived l' = arrived l" using False assms(2) by (simp add: goes_def)
  have r: "\<not> readable (lk_b l')" "\<not> arrived l' < length (lk_log l')"
    using False read_progress [OF s] missing_progress [OF s] by auto
  have "arrived l' \<le> length (lk_log l')" by (rule steady_receiver [OF s]) simp
  then have "length (lk_log l') = length (lk_log l)" using r(2) e assms(1) by (simp add: dry_def)
  moreover have "link_total l' = link_total l" using assms(2) by (simp add: goes_def)
  ultimately have "snd_queue (lk_a l') \<noteq> []" using assms(1) by (auto simp: dry_def link_total_def)
  with s r e \<open>length (lk_log l') = length (lk_log l)\<close> assms(1) have "dry l'" by (simp add: dry_def)
  then show ?thesis ..
qed

lemma flush_state:
  assumes "ikcp_flush k now = (w, k', ds)"
  shows "rmt_wnd k' = rmt_wnd k" "nocwnd k' = nocwnd k" "cwnd k' \<noteq> 0"
    "probe_wait k' = probe_wait (flush_probe_wait (k\<lparr>current := now\<rparr>))"
    "ts_probe k' = ts_probe (flush_probe_wait (k\<lparr>current := now\<rparr>))"
proof -
  obtain k1 seg b where c: "flush_control (k\<lparr>current := now\<rparr>) = (k1, seg, b)" by (metis prod_cases3)
  note k1 = flush_control_state [OF c]
  let ?view = "\<lambda>k. (rmt_wnd k, nocwnd k, probe_wait k, ts_probe k)"
  have mv: "?view (flush_move v cw k1) = ?view k1" for v cw
    using flush_move_n [of k1 v cw] by (auto simp: move_n_def)
  have th: "?view (flush_ssthresh c' l cw rs m) = ?view m" "cwnd (flush_ssthresh c' l cw rs m) \<noteq> 0"
    for c' l cw rs m
    by (simp_all add: flush_ssthresh_def Let_def)
  obtain l c' cw rs m x y z v cw'
    where e: "k' = flush_ssthresh c' l cw rs (m\<lparr>snd_buf := x, xmit := y, state := z\<rparr>)" "m = flush_move v cw' k1"
    using assms unfolding ikcp_flush_def Let_def c by (auto split: prod.splits)
  show "cwnd k' \<noteq> 0" unfolding e by (rule th(2))
  have "?view k' = ?view k1" using mv th(1) by (simp add: e)
  then show "rmt_wnd k' = rmt_wnd k" "nocwnd k' = nocwnd k"
    "probe_wait k' = probe_wait (flush_probe_wait (k\<lparr>current := now\<rparr>))"
    "ts_probe k' = ts_probe (flush_probe_wait (k\<lparr>current := now\<rparr>))"
    by (simp_all add: k1 flush_ctl_state_def) (simp_all add: flush_probe_wait_def Let_def)
qed

text \<open>One segment of the answer empties the sender's buffer and opens its window.\<close>

definition open_wnd :: "ikcpcb \<Rightarrow> bool" where
  "open_wnd k \<longleftrightarrow> snd_buf k = [] \<and> snd_una k = snd_nxt k \<and> rmt_wnd k \<noteq> 0"

definition opens :: "u32 \<Rightarrow> ikcpcb \<Rightarrow> bool" where
  "opens U k \<longleftrightarrow> snd_nxt k = U \<and> (\<forall>s \<in> set (snd_buf k). 0 < itimediff U (seg_sn s))"

lemma una_drop_all: "\<forall>s \<in> set ss. 0 < itimediff U (seg_sn s) \<Longrightarrow> una_drop U ss = []"
  by (induction ss) auto

lemma opens_cmd:
  assumes "opens U k" "hd_una h = U" "hd_wnd h \<noteq> 0" "ucast (hd_cmd h) \<noteq> IKCP_CMD_PUSH"
  shows "opens U (fst (input_cmd h d (k, a)))" "open_wnd (fst (input_cmd h d (k, a)))"
proof -
  let ?u = "input_una h k"
  have w: "(ucast (hd_wnd h) :: u32) \<noteq> 0"
  proof -
    have "unat (ucast (hd_wnd h) :: u32) = unat (hd_wnd h)"
      using unsigned_less [where ?'a = nat, of "hd_wnd h"] by (simp add: unsigned_ucast_eq take_bit_nat_eq_self_iff)
    then show ?thesis using assms(3) by (metis unsigned_0 unsigned_eq_0_iff)
  qed
  have "una_drop U (snd_buf k) = []" using assms(1) by (intro una_drop_all) (simp add: opens_def)
  then have u: "snd_buf ?u = []" "snd_una ?u = snd_nxt ?u" "rmt_wnd ?u = ucast (hd_wnd h)" "snd_nxt ?u = U"
    using assms(1,2) by (simp_all add: input_una_def ikcp_parse_una_def ikcp_shrink_buf_def Let_def opens_def)
  have v: "snd_view (ikcp_update_ack ?u r) = snd_view ?u" "rmt_wnd (ikcp_update_ack ?u r) = rmt_wnd ?u" for r
    by (simp_all add: frame) (simp add: ikcp_update_ack_def Let_def)
  have p: "snd_buf (ikcp_shrink_buf (ikcp_parse_ack k' sn)) = [] \<and>
      snd_una (ikcp_shrink_buf (ikcp_parse_ack k' sn)) = U \<and> snd_nxt (ikcp_shrink_buf (ikcp_parse_ack k' sn)) = U \<and>
      rmt_wnd (ikcp_shrink_buf (ikcp_parse_ack k' sn)) = rmt_wnd k'"
    if "snd_buf k' = []" "snd_nxt k' = U" for k' sn
    using that by (simp add: ikcp_parse_ack_def ikcp_shrink_buf_def Let_def)
  have "snd_buf (fst (input_ack h (?u, a))) = [] \<and> snd_una (fst (input_ack h (?u, a))) = U \<and>
      snd_nxt (fst (input_ack h (?u, a))) = U \<and> rmt_wnd (fst (input_ack h (?u, a))) = ucast (hd_wnd h)"
    using v p [of ?u] p [of "ikcp_update_ack ?u (current ?u - hd_ts h)"] u
    by (simp add: input_ack_def Let_def snd_view_def)
  with u w assms(4) show "opens U (fst (input_cmd h d (k, a)))" "open_wnd (fst (input_cmd h d (k, a)))"
    by (simp_all add: input_cmd_cases Let_def opens_def open_wnd_def)
qed

lemma opens_all:
  assumes "opens U k" "\<forall>(h, d) \<in> set ss. hd_una h = U \<and> hd_wnd h \<noteq> 0 \<and> ucast (hd_cmd h) \<noteq> IKCP_CMD_PUSH"
    and "ss \<noteq> [] \<or> open_wnd k"
  shows "opens U (fst (input_all ss (k, a))) \<and> open_wnd (fst (input_all ss (k, a)))"
  using assms
proof (induction ss arbitrary: k a)
  case (Cons s ss)
  obtain h d where s: "s = (h, d)" by (cases s)
  obtain k1 a1 where k1: "input_cmd h d (k, a) = (k1, a1)" by fastforce
  have "opens U k1" "open_wnd k1"
    using opens_cmd [OF Cons.prems(1), of h d a] Cons.prems(2) by (simp_all add: s k1)
  with Cons.IH [of k1 a1] Cons.prems(2)
  have "opens U (fst (input_all ss (k1, a1))) \<and> open_wnd (fst (input_all ss (k1, a1)))" by auto
  then show ?case
    by (simp_all add: input_all_def s k1)
qed (simp_all add: input_all_def)

lemma told_asks: "told k \<Longrightarrow> probe (flush_probe_wait (k\<lparr>current := c\<rparr>)) AND IKCP_ASK_TELL \<noteq> 0"
proof -
  have "(v OR IKCP_ASK_SEND) AND IKCP_ASK_TELL = v AND IKCP_ASK_TELL" for v :: u32
    by (simp add: bit.conj_disj_distrib2 ikcp_consts)
  then show "told k \<Longrightarrow> probe (flush_probe_wait (k\<lparr>current := c\<rparr>)) AND IKCP_ASK_TELL \<noteq> 0"
    by (simp add: told_def flush_probe_wait_def Let_def)
qed

lemma ctl_hdrs:
  assumes "(h, p) \<in> set (ctl_segs k)"
  shows "hd_una h = rcv_nxt k \<and> hd_wnd h = ucast (ikcp_wnd_unused k) \<and> ucast (hd_cmd h) \<noteq> IKCP_CMD_PUSH"
proof -
  have "\<exists>c st. h = ctl_hdr k c st"
    using assms by (auto simp: ctl_segs_def Let_def simp del: split_paired_Ex split: if_splits)
  then obtain c st where "h = ctl_hdr k c st" by blast
  with ctl_segs_good(3) [OF assms] show ?thesis by (simp add: ctl_hdr_def seg_hdr_of_def flush_seg_def)
qed

lemma dry_opens: "dry l \<Longrightarrow> opens (rcv_nxt (lk_b l)) (lk_a l)"
proof -
  assume d: "dry l"
  then have s: "steady l" and n: "arrived l = length (lk_log l)" by (simp_all add: dry_def)
  have x: "rcv_nxt (lk_b l) = of_nat (length (lk_log l))" by (simp flip: n)
  have "0 < itimediff (of_nat (length (lk_log l))) (seg_sn t)" if t: "t \<in> set (snd_buf (lk_a l))" for t
  proof -
    obtain i where i: "i < length (lk_log l)" "seg_sn t = of_nat i"
      using steady_ready(4) [OF s] t by (auto simp: sender_def logged_def seg_entry_def)
    then have "itimediff (of_nat (length (lk_log l))) (of_nat i) = int (length (lk_log l)) - int i"
      using itimediff_off [of 0 "of_nat (length (lk_log l))" "of_nat i"] steady_ready(7) [OF s]
      by (simp add: off_def unat_small del: of_nat_unat)
    with i show ?thesis by simp
  qed
  then show ?thesis using steady_ready(8) [OF s] by (simp add: opens_def x)
qed

lemma answer_opens:
  assumes "dry l" "told (lk_b l) \<or> acks (lk_b l) \<noteq> []"
  shows "progress l \<or> (\<exists>l'. goes l l' \<and> dry l' \<and> open_wnd (lk_a l'))"
proof -
  let ?b = "lk_b l" and ?bc = "(lk_b l)\<lparr>current := 0\<rparr>"
  have s: "steady l" using assms(1) by (simp add: dry_def)
  obtain w b' es where f: "ikcp_flush ?b 0 = (w, b', es)" by (metis prod_cases3)
  have q: "quiet ?b" by (rule steady_ready(5) [OF s])
  have r: "cfg_ok ?b" "unat (ackcount ?b) < 2 ^ 31" "snd_ready ?b"
    using q quiet_ready [OF q] by (auto simp: quiet_def)
  have wu: "(ucast (ikcp_wnd_unused ?b) :: 16 word) \<noteq> 0"
  proof -
    have lt: "nrcv_que ?b < rcv_wnd ?b" using waits(1) [OF s] assms(1) by (simp add: dry_def)
    then have u: "unat (ikcp_wnd_unused ?b) = unat (rcv_wnd ?b) - unat (nrcv_que ?b)"
      by (simp add: ikcp_wnd_unused_def unat_sub)
    then have "0 < unat (ikcp_wnd_unused ?b)" "unat (ikcp_wnd_unused ?b) < 2 ^ 16"
      using lt steady_facts(6) [OF s] by (auto simp: word_less_nat_alt wnd_cfg_def)
    moreover from this have "unat (ucast (ikcp_wnd_unused ?b) :: 16 word) = unat (ikcp_wnd_unused ?b)"
      by (simp add: unsigned_ucast_eq take_bit_nat_eq_self_iff)
    ultimately have "unat (ucast (ikcp_wnd_unused ?b) :: 16 word) \<noteq> 0" by simp
    then show ?thesis by (metis unsigned_0)
  qed
  have wc: "ikcp_wnd_unused ?bc = ikcp_wnd_unused ?b" by (simp add: ikcp_wnd_unused_def)
  let ?Q = "\<lambda>h p. hd_una h = rcv_nxt ?b \<and> hd_wnd h \<noteq> 0 \<and> ucast (hd_cmd h) \<noteq> IKCP_CMD_PUSH"
  have Q: "?Q h p" if "(h, p) \<in> set (flush_segs ?b 0)" for h p
    using ctl_hdrs [of h p ?bc] that wu by (simp add: quiet_segs [OF q] wc)
  have "acks ?bc = acks ?b" by (simp add: acks_def ikcp_ack_get_def)
  then have ne: "flush_segs ?b 0 \<noteq> []"
    using assms(2) told_asks [of ?b 0] by (auto simp: quiet_segs [OF q] ctl_segs_def Let_def)
  obtain segss where sg: "es = map wire_bytes segss" "concat segss = flush_segs ?b 0"
    "\<forall>ss \<in> set segss. cut_for (lk_a l) ?Q ss"
    by (rule flush_cut [OF r f Q steady_ready(6) [OF s]])
  then obtain ss where ss: "ss \<in> set segss" "ss \<noteq> []" using ne by (metis concat_eq_Nil_conv)
  let ?l1 = "l\<lparr>lk_b := b', lk_ba := lk_ba l @ es\<rparr>"
  have g1: "goes l ?l1" by (rule goes_flush_b [OF s f])
  have s1: "steady ?l1" by (rule goes_steady [OF g1])
  have cut: "cut_for (lk_a ?l1) ?Q ss" using sg(3) ss(1) by simp
  obtain k2 a' where a': "ikcp_input (lk_a ?l1) (wire_bytes ss) = Some (0, a')"
    "k2 = fst (input_all ss (lk_a ?l1, \<lparr>ia_flag = False, ia_maxack = 0, ia_latest_ts = 0\<rparr>))"
    "rcv_view a' = rcv_view k2" "ack_view a' = ack_view k2"
    "seg_sn ` set (snd_buf a') = seg_sn ` set (snd_buf k2)"
    "snd_una a' = snd_una k2" "snd_nxt a' = snd_nxt k2" "probe a' = probe k2" "rmt_wnd a' = rmt_wnd k2"
    by (rule cut_input [OF cut steady_ready(9) [OF s1]])
  have "\<forall>(h, d) \<in> set ss. ?Q h d" using cut by (auto simp: cut_for_def)
  then have "open_wnd k2"
    using opens_all [OF dry_opens [OF assms(1)], of ss] ss(2) a'(2) by simp
  then have o: "open_wnd a'" using a'(5-7,9) by (simp add: open_wnd_def)
  have d: "wire_bytes ss \<in> set (lk_ba ?l1)" using sg(1) ss(1) by simp
  have g: "goes l (?l1\<lparr>lk_a := a'\<rparr>)" by (rule goes_trans [OF g1 goes_to_a [OF s1 d a'(1)]])
  from dry_or_progress [OF assms(1) g] show ?thesis
  proof
    assume "dry (?l1\<lparr>lk_a := a'\<rparr>)"
    with g o show ?thesis by (intro disjI2 exI [of _ "?l1\<lparr>lk_a := a'\<rparr>"]) simp
  qed simp
qed

text \<open>How the sender gets an answer: it repeats a segment, or it probes a closed window.\<close>

lemma probe_asks:
  assumes "dry l" "rmt_wnd (lk_a l) = 0" "probe_wait (lk_a l) \<noteq> 0"
  shows "progress l \<or> (\<exists>l'. goes l l' \<and> dry l' \<and> told (lk_b l'))"
proof -
  have s: "steady l" using assms(1) by (simp add: dry_def)
  define now where "now = ts_probe (lk_a l)"
  let ?k = "(lk_a l)\<lparr>current := now\<rparr>"
  obtain w a1 ds where f: "ikcp_flush (lk_a l) now = (w, a1, ds)" by (metis prod_cases3)
  have "(v OR IKCP_ASK_SEND) AND IKCP_ASK_SEND \<noteq> 0" for v :: u32
    by (simp add: bit.conj_disj_distrib2 ikcp_consts)
  then have "probe (flush_probe_wait ?k) AND IKCP_ASK_SEND \<noteq> 0"
    using assms(2,3) by (simp add: flush_probe_wait_def Let_def now_def itimediff_def)
  moreover define st where "st = (if acks ?k = [] then (0, 0) else last (acks ?k))"
  ultimately have "(ctl_hdr ?k IKCP_CMD_WASK st, []) \<in> set (ctl_segs ?k)"
    by (simp add: ctl_segs_def Let_def)
  then have h: "(ctl_hdr ?k IKCP_CMD_WASK st, []) \<in> set (flush_segs (lk_a l) now)"
    by (simp add: flush_segs_def)
  have "ucast (hd_cmd (ctl_hdr ?k IKCP_CMD_WASK st)) = IKCP_CMD_WASK"
    using valid_cmd_ucast [of IKCP_CMD_WASK] by (simp add: ctl_hdr_def seg_hdr_of_def)
  then obtain l' where "goes l l'" "told (lk_b l')" using deliver [OF s f h] by blast
  with dry_or_progress [OF assms(1)] show ?thesis by blast
qed

lemma dry_asks:
  assumes "dry l"
  shows "progress l \<or> (\<exists>l'. goes l l' \<and> dry l' \<and> (open_wnd (lk_a l') \<or> told (lk_b l') \<or> acks (lk_b l') \<noteq> []))"
proof -
  have s: "steady l" using assms by (simp add: dry_def)
  consider (some) t where "t \<in> set (snd_buf (lk_a l))" | (opn) "open_wnd (lk_a l)"
    | (probing) "snd_buf (lk_a l) = []" "rmt_wnd (lk_a l) = 0"
    using steady_facts(4) [OF s] by (cases "snd_buf (lk_a l)") (auto simp: link_tidy_def open_wnd_def)
  then show ?thesis
  proof cases
    case (some t)
    define now where "now = seg_resendts t"
    obtain w a1 ds where f: "ikcp_flush (lk_a l) now = (w, a1, ds)" by (metis prod_cases3)
    have due: "seg_xmit t = 0 \<or> 0 \<le> itimediff now (seg_resendts t)" by (simp add: now_def itimediff_def)
    obtain n where "flush_mid (lk_a l) now =
        move_n (ikcp_wnd_unused (lk_a l)) n (flush_ctl_state ((lk_a l)\<lparr>current := now\<rparr>))"
      by (rule flush_mid_n)
    then have "t \<in> set (snd_buf (flush_mid (lk_a l) now))" using some by (simp add: move_n_def)
    then obtain h p where h: "(h, p) \<in> set (flush_segs (lk_a l) now)" "hd_sn h = seg_sn t"
      "ucast (hd_cmd h) = IKCP_CMD_PUSH"
      by (rule flush_sends [OF steady_ready(3) [OF s] _ due])
    obtain l' where l': "goes l l'" "answers (window l) (lk_b l') h" using deliver [OF s f h(1)] by blast
    obtain i where i: "i < length (lk_log l)" "seg_sn t = of_nat i"
      using steady_ready(4) [OF s] some by (auto simp: sender_def logged_def seg_entry_def)
    then have "unat (hd_sn h) < window l"
      using steady_ready(7) [OF s] assms h(2) by (simp add: dry_def unat_small)
    then have "acks (lk_b l') \<noteq> []" using l'(2) h(3) by (auto simp: answers_def)
    with dry_or_progress [OF assms l'(1)] l'(1) show ?thesis by blast
  next
    case opn
    with assms goes_refl [OF s] show ?thesis by blast
  next
    case probing
    show ?thesis
    proof (cases "probe_wait (lk_a l) = 0")
      case False
      with probe_asks [OF assms probing(2)] show ?thesis by blast
    next
      case True
      obtain w a1 ds where f: "ikcp_flush (lk_a l) 0 = (w, a1, ds)" by (metis prod_cases3)
      define l1 where "l1 = l\<lparr>lk_a := a1, lk_ab := lk_ab l @ ds, lk_log := lk_log l @ link_numbered (lk_a l) a1\<rparr>"
      have g1: "goes l l1" unfolding l1_def by (rule goes_flush_a [OF s f])
      have p: "rmt_wnd (lk_a l1) = 0" "probe_wait (lk_a l1) \<noteq> 0"
        using flush_state(1,4) [OF f] probing(2) True by (simp_all add: l1_def flush_probe_wait_def ikcp_consts)
      from dry_or_progress [OF assms g1] show ?thesis
      proof
        assume "dry l1"
        from probe_asks [OF this p] goes_progress [OF g1] goes_trans [OF g1] show ?thesis by blast
      qed simp
    qed
  qed
qed

text \<open>With an open window new segments are numbered, sent and received.\<close>

lemma open_flush:
  assumes "dry l" "open_wnd (lk_a l)"
  shows "flush_mid (lk_a l) now = move_n (ikcp_wnd_unused (lk_a l))
      (min (length (snd_queue (lk_a l))) (unat (ikcp_calc_wnd (lk_a l) 1)))
      (flush_ctl_state ((lk_a l)\<lparr>current := now\<rparr>))"
proof -
  have s: "steady l" using assms(1) by (simp add: dry_def)
  have i: "snd_inv (lk_a l)" "unat (snd_wnd (lk_a l)) < 2 ^ 31"
    using steady_facts(5,6) [OF s] by (simp_all add: below_def wnd_cfg_def)
  obtain n where "n = min (length (snd_queue (lk_a l)))
      (unat (ikcp_calc_wnd (lk_a l) 1) - off (snd_una (lk_a l)) (snd_nxt (lk_a l)))"
    "flush_mid (lk_a l) now = move_n (ikcp_wnd_unused (lk_a l)) n (flush_ctl_state ((lk_a l)\<lparr>current := now\<rparr>))"
    by (rule flush_wnd [OF i])
  then show ?thesis using assms(2) by (simp add: open_wnd_def off_self)
qed

lemma open_sends:
  assumes "dry l" "open_wnd (lk_a l)" "ikcp_calc_wnd (lk_a l) 1 \<noteq> 0"
  shows "progress l"
proof -
  let ?a = "lk_a l" and ?k = "flush_ctl_state ((lk_a l)\<lparr>current := 0\<rparr>)"
  let ?n = "min (length (snd_queue ?a)) (unat (ikcp_calc_wnd ?a 1))"
  have s: "steady l" and nx: "arrived l = length (lk_log l)" and q: "snd_queue ?a \<noteq> []"
    using assms(1) by (simp_all add: dry_def)
  obtain w a1 ds where f: "ikcp_flush ?a 0 = (w, a1, ds)" by (metis prod_cases3)
  let ?s = "flush_newseg (?k\<lparr>snd_nxt := snd_nxt ?k + of_nat 0\<rparr>) (ikcp_wnd_unused ?a) (snd_queue ?k ! 0)"
  have "0 < ?n" using q assms(3) by (simp add: unat_gt_0)
  then have "?s \<in> set (flush_taken (ikcp_wnd_unused ?a) ?k ?n)"
    unfolding flush_taken_def set_map set_upt by (intro image_eqI [where x = 0]) auto
  then have m: "?s \<in> set (snd_buf (flush_mid ?a 0))"
    by (simp add: open_flush [OF assms(1,2)] move_n_def)
  have x: "seg_xmit ?s = 0 \<or> 0 \<le> itimediff 0 (seg_resendts ?s)" by (simp add: flush_newseg_def)
  obtain h p where h: "(h, p) \<in> set (flush_segs ?a 0)" "hd_sn h = seg_sn ?s" "ucast (hd_cmd h) = IKCP_CMD_PUSH"
    by (rule flush_sends [OF steady_ready(3) [OF s] m x])
  have "seg_sn ?s = rcv_nxt (lk_b l)"
    using steady_ready(8) [OF s] by (simp add: flush_newseg_def flip: nx)
  with push_progress [OF s f h(1,3)] h(2) show ?thesis by simp
qed

lemma open_progress:
  assumes "dry l" "open_wnd (lk_a l)"
  shows "progress l"
proof (cases "ikcp_calc_wnd (lk_a l) 1 = 0")
  case False
  with assms show ?thesis by (rule open_sends)
next
  case True
  let ?a = "lk_a l"
  have s: "steady l" using assms(1) by (simp add: dry_def)
  obtain w a1 ds where f: "ikcp_flush ?a 0 = (w, a1, ds)" by (metis prod_cases3)
  define l1 where "l1 = l\<lparr>lk_a := a1, lk_ab := lk_ab l @ ds, lk_log := lk_log l @ link_numbered ?a a1\<rparr>"
  have g1: "goes l l1" unfolding l1_def by (rule goes_flush_a [OF s f])
  have m: "flush_mid ?a 0 = flush_ctl_state (?a\<lparr>current := 0\<rparr>)"
    by (simp add: open_flush [OF assms] True)
  note sp = flush_spec [OF steady_ready(1-3) [OF s] f]
  have o: "open_wnd a1"
    using assms(2) sp(1,3,4) flush_state(1) [OF f] by (simp add: m open_wnd_def)
  have "snd_wnd a1 \<noteq> 0"
    using flush_frame(2) [OF f] steady_facts(6) [OF s] by (auto simp: wnd_cfg_def)
  then have c: "ikcp_calc_wnd a1 1 \<noteq> 0"
    using flush_state(3) [OF f] o by (auto simp: ikcp_calc_wnd_def Let_def imin_def open_wnd_def)
  from dry_or_progress [OF assms(1) g1] show ?thesis
  proof
    assume "dry l1"
    from open_sends [OF this] o c have "progress l1" by (simp add: l1_def)
    then show ?thesis by (rule goes_progress [OF g1])
  qed simp
qed

text \<open>Why the window has to fit 16 bits: a receiver with a window of \<open>65536\<close> segments, which
  \<open>ikcp_wndsize\<close> accepts, announces a closed window while its queue is empty.\<close>

lemma wide_window_is_closed:
  assumes "nrcv_que k = 0" "(h, p) \<in> set (ctl_segs (snd (ikcp_wndsize k 0 65536)))"
  shows "hd_wnd h = 0"
proof -
  have "rcv_wnd (snd (ikcp_wndsize k 0 65536)) = 65536" "nrcv_que (snd (ikcp_wndsize k 0 65536)) = 0"
    using assms(1) by (simp_all add: ikcp_wndsize_def imax_def ikcp_consts)
  then have "ikcp_wnd_unused (snd (ikcp_wndsize k 0 65536)) = 65536" by (simp add: ikcp_wnd_unused_def)
  moreover have "(ucast (65536 :: u32) :: 16 word) = 0" by simp
  ultimately show ?thesis using ctl_hdrs [OF assms(2)] by simp
qed

section \<open>From any state to the end\<close>

lemma unfinished_progress:
  assumes "steady l" "lk_out l \<noteq> lk_in l"
  shows "progress l"
proof (rule ccontr)
  assume no: "\<not> progress l"
  obtain R where R: "receiver (lk_log l) R (lk_b l)" "lk_out l = concat (map snd (take R (lk_log l)))"
    "arrived l = R + length (rcv_queue (lk_b l))" "R + length (rcv_queue (lk_b l)) \<le> length (lk_log l)"
    by (rule steady_receiver [OF assms(1)])
  have n: "\<not> readable (lk_b l)" "arrived l = length (lk_log l)"
    using no R(3,4) read_progress [OF assms(1)] missing_progress [OF assms(1)] le_neq_implies_less
    by fastforce+
  have "\<not> dry l"
    using no dry_asks [of l] answer_opens open_progress goes_progress by blast
  then have q: "snd_queue (lk_a l) = []" using n assms(1) by (simp add: dry_def)
  have "rcv_queue (lk_b l) = []"
  proof (rule ccontr)
    assume "rcv_queue (lk_b l) \<noteq> []"
    then have 0: "0 < length (rcv_queue (lk_b l))" by simp
    have "frgs_ok (log_frgs (lk_log l))"
      using steady_facts(4) [OF assms(1)] by (simp add: link_tidy_def q frgs_def)
    with queue_frg [OF R(1) 0] have "R + unat (seg_frg (rcv_queue (lk_b l) ! 0)) < length (lk_log l)"
      by (simp add: frgs_ok_def log_frgs_def)
    with n R(3) 0 show False by (auto simp: readable_def hd_conv_nth)
  qed
  then have "lk_out l = concat (map snd (lk_log l))" using R n(2) by simp
  moreover have "concat (map snd (lk_log l)) = lk_in l"
    using steady_ready(4) [OF assms(1)] by (simp add: sender_def q)
  ultimately show False using assms(2) by simp
qed

lemma finish: "steady l \<Longrightarrow> \<exists>l'. goes l l' \<and> lk_out l' = lk_in l'"
proof (induction "2 * link_total l - arrived l - taken l" arbitrary: l rule: less_induct)
  case less
  show ?case
  proof (cases "lk_out l = lk_in l")
    case True
    with goes_refl [OF less.prems] show ?thesis by blast
  next
    case False
    then obtain l1 where l1: "goes l l1" "arrived l < arrived l1 \<or> taken l < taken l1"
      using unfinished_progress [OF less.prems] by (auto simp: progress_def)
    have s: "steady l1" by (rule goes_steady [OF l1(1)])
    have "arrived l1 \<le> link_total l1" "taken l1 \<le> link_total l1"
      by (rule steady_receiver [OF s], simp add: link_total_def)+
    moreover have "link_total l1 = link_total l" "arrived l \<le> arrived l1" "taken l \<le> taken l1"
      using l1(1) by (simp_all add: goes_def)
    ultimately have "2 * link_total l1 - arrived l1 - taken l1 < 2 * link_total l - arrived l - taken l"
      using l1(2) by linarith
    from less.hyps [OF this s] goes_trans [OF l1(1)] show ?thesis by blast
  qed
qed

text \<open>C4: with a receive window of at least 128 (the least that \<open>ikcp_wndsize\<close> accepts) and
  less than \<open>2 ^ 16\<close> segments (the most that the window field can announce), a send window that
  is not zero and below \<open>2 ^ 31\<close>, an MTU below \<open>2 ^ 24\<close> and fewer than \<open>2 ^ 31 - 2 ^ 16\<close> segments in
  all, the protocol does not wedge: whatever writes, flushes, losses, duplicates and reads came
  before, a schedule of flushes, deliveries and reads exists that hands the reader all that was
  written. With a larger receive window it can wedge (\<open>wide_window_is_closed\<close>).\<close>

theorem kcp_can_finish:
  assumes "link_reach l" "length (lk_log l) + length (snd_queue (lk_a l)) + 2 ^ 16 < 2 ^ 31"
    and "128 \<le> unat (rcv_wnd (lk_b l))" "unat (rcv_wnd (lk_b l)) < 2 ^ 16"
    and "0 < unat (snd_wnd (lk_a l))" "unat (snd_wnd (lk_a l)) < 2 ^ 31" "unat (mtu (lk_a l)) < 2 ^ 24"
  shows "\<exists>l'. link_step\<^sup>*\<^sup>* l l' \<and> lk_in l' = lk_in l \<and> lk_out l' = lk_in l"
proof -
  have "steady l" using assms by (simp add: steady_def wnd_cfg_def link_total_def)
  then obtain l' where "goes l l'" "lk_out l' = lk_in l'" using finish by blast
  then show ?thesis by (auto simp: goes_def)
qed

theorem kcp_can_finish_witness:
  "\<exists>l'. link_step\<^sup>*\<^sup>* demo_lost l' \<and> lk_in l' = [10, 20, 30] \<and> lk_out l' = [10, 20, 30]"
proof -
  have i: "lk_in demo_lost = [10, 20, 30]" by (simp add: demo_lost_def)
  have n: "length (lk_log demo_lost) + length (snd_queue (lk_a demo_lost)) = 1"
    "unat (rcv_wnd (lk_b demo_lost)) = 128" "unat (snd_wnd (lk_a demo_lost)) = 32"
    "unat (mtu (lk_a demo_lost)) = 1400"
    by code_simp+
  show ?thesis by (rule kcp_can_finish [OF demo_lost_reach, unfolded i]) (simp_all add: n)
qed

end
