(* ===== verification/Kcp_Packets.thy ===== *)
theory Kcp_Packets
  imports Prelude
begin

text \<open>
  The datagram format around the KCP core (\<open>kcp/kcp_packets.h\<close>, \<open>kcp/kcp_packets.cc\<close>):
  the packet types, the public header of nine bytes, the bounds-checked reader
  \<open>KCPReceivedPacket\<close> and the writer \<open>KCPPendingSendPacket\<close>.

  Every integer travels with its least significant byte first: the code converts with
  \<open>htole32\<close> and \<open>le32toh\<close>, so the bytes do not depend on the host. The checksum
  \<open>adler32(1, ..)\<close> of zlib is the parameter \<open>adler\<close>; no law of it is used. Ownership of
  the buffers is not modelled. The locale \<open>packet_codec\<close> is the interface through which
  the server, the client and the sessions use the format.
\<close>

section \<open>Constants and packet types\<close>

definition kMaxPacketSize :: nat where "kMaxPacketSize = 1400"
definition kDefaultMTUSize :: int where "kDefaultMTUSize = 1400"

datatype KCPReceivedPacketType =
  SYN_PACKET | ACK_PACKET | RST_PACKET | PING_PACKET | PONG_PACKET | DATA_PACKET

text \<open>The enumeration has the underlying type \<open>uint8_t\<close> and counts from zero.\<close>

primrec packet_code :: "KCPReceivedPacketType \<Rightarrow> u8" where
  "packet_code SYN_PACKET = 0"
| "packet_code ACK_PACKET = 1"
| "packet_code RST_PACKET = 2"
| "packet_code PING_PACKET = 3"
| "packet_code PONG_PACKET = 4"
| "packet_code DATA_PACKET = 5"

text \<open>The label a \<open>switch\<close> over a type byte selects; \<open>None\<close> is its \<open>default\<close>.\<close>

definition packet_label :: "u8 \<Rightarrow> KCPReceivedPacketType option" where
  "packet_label t =
     (if t = 0 then Some SYN_PACKET else if t = 1 then Some ACK_PACKET
      else if t = 2 then Some RST_PACKET else if t = 3 then Some PING_PACKET
      else if t = 4 then Some PONG_PACKET else if t = 5 then Some DATA_PACKET else None)"

lemma packet_label_code [simp]: "packet_label (packet_code t) = Some t"
  by (cases t) (simp_all add: packet_label_def)

lemma packet_label_Some: "packet_label b = Some t \<longleftrightarrow> b = packet_code t"
  by (cases t) (auto simp: packet_label_def split: if_splits)

definition PacketTypeToString :: "u8 \<Rightarrow> string" where
  "PacketTypeToString t = (case packet_label t of
       Some SYN_PACKET \<Rightarrow> ''SYN_PACKET''
     | Some ACK_PACKET \<Rightarrow> ''ACK_PACKET''
     | Some RST_PACKET \<Rightarrow> ''RST_PACKET''
     | Some PING_PACKET \<Rightarrow> ''PING_PACKET''
     | Some DATA_PACKET \<Rightarrow> ''DATA_PACKET''
     | _ \<Rightarrow> ''UNKNOW'')"

section \<open>The public header\<close>

record KCPPublicHeader =
  checksum :: u32
  packet_type :: u8
  session_id :: u32

definition default_header :: KCPPublicHeader where
  "default_header = \<lparr>checksum = 0, packet_type = 0, session_id = 0\<rparr>"

definition kPublicHeaderLength :: nat where
  "kPublicHeaderLength = 4 + 1 + 4"

text \<open>\<open>memcpy\<close> of \<open>xs\<close> to \<open>buf + offset\<close>, within the buffer.\<close>

definition write_at :: "bytes \<Rightarrow> nat \<Rightarrow> bytes \<Rightarrow> bytes" where
  "write_at buf offset xs = take offset buf @ xs @ drop (offset + length xs) buf"

lemma length_write_at [simp]:
  "offset + length xs \<le> length buf \<Longrightarrow> length (write_at buf offset xs) = length buf"
  by (simp add: write_at_def)

text \<open>The integer that \<open>memcpy\<close> and \<open>le32toh\<close> read at an offset.\<close>

definition le32_at :: "bytes \<Rightarrow> nat \<Rightarrow> u32" where
  "le32_at buf i = of_le32 (buf ! i) (buf ! (i + 1)) (buf ! (i + 2)) (buf ! (i + 3))"

definition ReadFrom :: "bytes \<Rightarrow> KCPPublicHeader option" where
  "ReadFrom buf =
     (if length buf < kPublicHeaderLength then None
      else Some \<lparr>checksum = le32_at buf 0, packet_type = buf ! 4, session_id = le32_at buf 5\<rparr>)"

definition WriteTo :: "KCPPublicHeader \<Rightarrow> bytes \<Rightarrow> bytes option" where
  "WriteTo h buf =
     (if length buf < kPublicHeaderLength then None
      else let buf = write_at buf 0 (le32 (checksum h));
               buf = write_at buf 4 [packet_type h];
               buf = write_at buf 5 (le32 (session_id h))
           in Some buf)"

definition WriteChecksum :: "KCPPublicHeader \<Rightarrow> bytes \<Rightarrow> bytes option" where
  "WriteChecksum h buf =
     (if length buf < 4 then None else Some (write_at buf 0 (le32 (checksum h))))"

section \<open>Received packets\<close>

record KCPReceivedPacket =
  rp_data :: bytes
  rp_pos :: nat

definition received :: "bytes \<Rightarrow> KCPReceivedPacket" where
  "received d = \<lparr>rp_data = d, rp_pos = 0\<rparr>"

definition RemainingBytes :: "KCPReceivedPacket \<Rightarrow> nat" where
  "RemainingBytes p = length (rp_data p) - rp_pos p"

definition RemainingData :: "KCPReceivedPacket \<Rightarrow> bytes" where
  "RemainingData p = drop (rp_pos p) (rp_data p)"

definition Clone :: "KCPReceivedPacket \<Rightarrow> KCPReceivedPacket" where
  "Clone p = received (rp_data p)"

definition CloneFromRemainingData :: "KCPReceivedPacket \<Rightarrow> KCPReceivedPacket" where
  "CloneFromRemainingData p = received (RemainingData p)"

definition CanRead :: "nat \<Rightarrow> KCPReceivedPacket \<Rightarrow> bool" where
  "CanRead n p \<longleftrightarrow> n \<le> length (rp_data p) - rp_pos p"

definition CanPeek :: "nat \<Rightarrow> KCPReceivedPacket \<Rightarrow> bool" where
  "CanPeek n p \<longleftrightarrow> n \<le> length (rp_data p) - rp_pos p"

text \<open>A read returns the value and moves the position, or leaves the packet alone.\<close>

definition PeekBytes :: "nat \<Rightarrow> KCPReceivedPacket \<Rightarrow> bytes option" where
  "PeekBytes n p = (if \<not> CanPeek n p then None else Some (take n (drop (rp_pos p) (rp_data p))))"

definition ReadBytes :: "nat \<Rightarrow> KCPReceivedPacket \<Rightarrow> bytes option \<times> KCPReceivedPacket" where
  "ReadBytes n p =
     (if \<not> CanRead n p then (None, p)
      else (Some (take n (drop (rp_pos p) (rp_data p))), p\<lparr>rp_pos := rp_pos p + n\<rparr>))"

definition get16 :: "bytes \<Rightarrow> u16" where "get16 b = of_le16 (b ! 0) (b ! 1)"
definition get32 :: "bytes \<Rightarrow> u32" where "get32 b = le32_at b 0"
definition get64 :: "bytes \<Rightarrow> u64" where "get64 b = of_le64 (le32_at b 0) (le32_at b 4)"

definition ReadUInt8 :: "KCPReceivedPacket \<Rightarrow> u8 option \<times> KCPReceivedPacket" where
  "ReadUInt8 p = (case ReadBytes 1 p of (r, p) \<Rightarrow> (map_option (\<lambda>b. b ! 0) r, p))"

definition ReadUInt16 :: "KCPReceivedPacket \<Rightarrow> u16 option \<times> KCPReceivedPacket" where
  "ReadUInt16 p = (case ReadBytes 2 p of (r, p) \<Rightarrow> (map_option get16 r, p))"

definition ReadUInt32 :: "KCPReceivedPacket \<Rightarrow> u32 option \<times> KCPReceivedPacket" where
  "ReadUInt32 p = (case ReadBytes 4 p of (r, p) \<Rightarrow> (map_option get32 r, p))"

definition ReadUInt64 :: "KCPReceivedPacket \<Rightarrow> u64 option \<times> KCPReceivedPacket" where
  "ReadUInt64 p = (case ReadBytes 8 p of (r, p) \<Rightarrow> (map_option get64 r, p))"

definition PeekUInt8 :: "KCPReceivedPacket \<Rightarrow> u8 option" where
  "PeekUInt8 p = map_option (\<lambda>b. b ! 0) (PeekBytes 1 p)"

definition PeekUInt16 :: "KCPReceivedPacket \<Rightarrow> u16 option" where
  "PeekUInt16 p = map_option get16 (PeekBytes 2 p)"

definition PeekUInt32 :: "KCPReceivedPacket \<Rightarrow> u32 option" where
  "PeekUInt32 p = map_option get32 (PeekBytes 4 p)"

definition PeekUInt64 :: "KCPReceivedPacket \<Rightarrow> u64 option" where
  "PeekUInt64 p = map_option get64 (PeekBytes 8 p)"

datatype ReadError =
  SUCCESS | INVALID_LENGTH | UNABLE_READ_CHECKSUM | UNABLE_READ_PACKET_TYPE
| UNABLE_READ_SESSION_ID | INVALID_CHECKSUM

text \<open>The header is filled in on success only; the position moves with the reads.\<close>

definition ReadPublicHeader ::
  "(bytes \<Rightarrow> u32) \<Rightarrow> KCPReceivedPacket \<Rightarrow> ReadError \<times> KCPPublicHeader option \<times> KCPReceivedPacket" where
  "ReadPublicHeader adler p =
     (if \<not> CanRead kPublicHeaderLength p then (INVALID_LENGTH, None, p)
      else case ReadUInt32 p of
        (None, p) \<Rightarrow> (UNABLE_READ_CHECKSUM, None, p)
      | (Some cks, p) \<Rightarrow> (case ReadUInt8 p of
          (None, p) \<Rightarrow> (UNABLE_READ_PACKET_TYPE, None, p)
        | (Some t, p) \<Rightarrow> (case ReadUInt32 p of
            (None, p) \<Rightarrow> (UNABLE_READ_SESSION_ID, None, p)
          | (Some sid, p) \<Rightarrow>
              if cks \<noteq> adler (drop 4 (rp_data p)) then (INVALID_CHECKSUM, None, p)
              else (SUCCESS, Some \<lparr>checksum = cks, packet_type = t, session_id = sid\<rparr>, p))))"

definition ReadErrorToString :: "nat \<Rightarrow> string" where
  "ReadErrorToString code =
     (if code = 0 then ''SUCCESS'' else if code = 1 then ''INVALID_LENGTH''
      else if code = 2 then ''UNABLE_READ_CHECKSUM'' else if code = 3 then ''UNABLE_READ_PACKET_TYPE''
      else if code = 4 then ''UNABLE_READ_SESSION_ID'' else if code = 5 then ''INVALID_CHECKSUM''
      else ''UNKNOW'')"

section \<open>Packets to send\<close>

text \<open>\<open>KCPClonedPacket\<close> copies its bytes; the copy is the list itself.\<close>

definition KCPClonedPacket :: "bytes \<Rightarrow> bytes" where
  "KCPClonedPacket d = d"

datatype WriteError =
  W_SUCCESS | W_INVALID_LENGTH | UNABLE_WRITE_PUBLIC_HEADER | UNABLE_WRITE_CHECKSUM

definition WritePublicHeader :: "(bytes \<Rightarrow> u32) \<Rightarrow> bytes \<Rightarrow> u8 \<Rightarrow> u32 \<Rightarrow> WriteError \<times> bytes" where
  "WritePublicHeader adler buf t sid =
     (let h = default_header\<lparr>packet_type := t, session_id := sid\<rparr>
      in case WriteTo h buf of
           None \<Rightarrow> (UNABLE_WRITE_PUBLIC_HEADER, buf)
         | Some buf \<Rightarrow>
             (let h = h\<lparr>checksum := adler (drop 4 buf)\<rparr>
              in case WriteChecksum h buf of
                   None \<Rightarrow> (UNABLE_WRITE_CHECKSUM, buf)
                 | Some buf \<Rightarrow> (W_SUCCESS, buf)))"

definition WriteErrorToString :: "nat \<Rightarrow> string" where
  "WriteErrorToString code =
     (if code = 0 then ''SUCCESS'' else if code = 1 then ''INVALID_LENGTH''
      else if code = 2 then ''UNABLE_WRITE_PUBLIC_HEADER'' else if code = 3 then ''UNABLE_WRITE_CHECKSUM''
      else ''UNKNOW'')"

section \<open>The bytes of a header\<close>

definition hdr_bytes :: "KCPPublicHeader \<Rightarrow> bytes" where
  "hdr_bytes h = le32 (checksum h) @ packet_type h # le32 (session_id h)"

lemma length_hdr_bytes [simp]: "length (hdr_bytes h) = kPublicHeaderLength"
  by (simp add: hdr_bytes_def kPublicHeaderLength_def)

lemma le32_at_le32 [wire]:
  "le32_at (le32 w @ r) 0 = w" "le32_at (le32 w) 0 = w"
  by (simp_all add: le32_at_def le32_def of_le32_le32)

lemma split_header:
  assumes "kPublicHeaderLength \<le> length buf"
  obtains h where "buf = hdr_bytes h @ drop kPublicHeaderLength buf"
proof -
  let ?h = "\<lparr>checksum = le32_at buf 0, packet_type = buf ! 4, session_id = le32_at buf 5\<rparr>"
  have "hdr_bytes ?h = map (nth buf) [0..<9]"
    by (simp add: hdr_bytes_def le32_at_def le32_of_le32 upt_conv_Cons eval_nat_numeral)
  also have "\<dots> = take 9 buf"
    using assms by (intro nth_equalityI) (auto simp: kPublicHeaderLength_def)
  finally show ?thesis using that [of ?h] by (simp add: kPublicHeaderLength_def)
qed

lemma write_to:
  assumes "kPublicHeaderLength \<le> length buf"
  shows "WriteTo h buf = Some (hdr_bytes h @ drop kPublicHeaderLength buf)"
  using assms
  by (simp add: WriteTo_def Let_def write_at_def hdr_bytes_def kPublicHeaderLength_def le32_def)

lemma write_checksum:
  "WriteChecksum h (hdr_bytes g @ r) = Some (hdr_bytes (g\<lparr>checksum := checksum h\<rparr>) @ r)"
  by (simp add: WriteChecksum_def write_at_def hdr_bytes_def)

lemma read_from: "ReadFrom (hdr_bytes h @ r) = Some h"
  by (simp add: ReadFrom_def hdr_bytes_def kPublicHeaderLength_def nth_append le32_at_def
      le32_def of_le32_le32)

lemma write_public_header:
  assumes "kPublicHeaderLength \<le> length buf"
  shows "WritePublicHeader adler buf t sid =
    (W_SUCCESS, hdr_bytes \<lparr>checksum = adler (t # le32 sid @ drop kPublicHeaderLength buf),
       packet_type = t, session_id = sid\<rparr> @ drop kPublicHeaderLength buf)"
  using assms
  by (simp add: WritePublicHeader_def write_to default_header_def write_checksum)
     (simp add: hdr_bytes_def kPublicHeaderLength_def)

lemma write_public_header_short:
  "length buf < kPublicHeaderLength \<Longrightarrow>
   WritePublicHeader adler buf t sid = (UNABLE_WRITE_PUBLIC_HEADER, buf)"
  by (simp add: WritePublicHeader_def WriteTo_def Let_def)

lemma read_bytes_received:
  "rp_pos p = length a \<Longrightarrow> rp_data p = a @ b @ c \<Longrightarrow> n = length b \<Longrightarrow>
   ReadBytes n p = (Some b, p\<lparr>rp_pos := length a + n\<rparr>)"
  by (simp add: ReadBytes_def CanRead_def)

lemma read_public_header:
  "ReadPublicHeader adler (received (hdr_bytes h @ r)) =
     (if checksum h = adler (packet_type h # le32 (session_id h) @ r)
      then (SUCCESS, Some h, \<lparr>rp_data = hdr_bytes h @ r, rp_pos = kPublicHeaderLength\<rparr>)
      else (INVALID_CHECKSUM, None, \<lparr>rp_data = hdr_bytes h @ r, rp_pos = kPublicHeaderLength\<rparr>))"
  by (simp add: ReadPublicHeader_def received_def CanRead_def ReadUInt32_def ReadUInt8_def
      ReadBytes_def hdr_bytes_def kPublicHeaderLength_def get32_def wire)

lemma read_public_header_short:
  "length d < kPublicHeaderLength \<Longrightarrow>
   ReadPublicHeader adler (received d) = (INVALID_LENGTH, None, received d)"
  by (simp add: ReadPublicHeader_def received_def CanRead_def)

text \<open>The five values a read of the header can have; the codes for a failing read after the
  length check never occur.\<close>

lemma read_public_header_cases:
  obtains (short) "length d < kPublicHeaderLength"
      "ReadPublicHeader adler (received d) = (INVALID_LENGTH, None, received d)"
  | (forged) "kPublicHeaderLength \<le> length d" "le32_at d 0 \<noteq> adler (drop 4 d)"
      "ReadPublicHeader adler (received d) =
         (INVALID_CHECKSUM, None, \<lparr>rp_data = d, rp_pos = kPublicHeaderLength\<rparr>)"
  | (good) h where "d = hdr_bytes h @ drop kPublicHeaderLength d" "checksum h = adler (drop 4 d)"
      "ReadPublicHeader adler (received d) =
         (SUCCESS, Some h, \<lparr>rp_data = d, rp_pos = kPublicHeaderLength\<rparr>)"
proof (cases "length d < kPublicHeaderLength")
  case True
  then show ?thesis using read_public_header_short by (intro short) auto
next
  case False
  then obtain h where h: "d = hdr_bytes h @ drop kPublicHeaderLength d"
    using split_header [of d] by auto
  let ?r = "drop kPublicHeaderLength d"
  have d4: "drop 4 d = packet_type h # le32 (session_id h) @ ?r" and d0: "le32_at d 0 = checksum h"
    by (subst h, simp add: hdr_bytes_def wire)+
  have r: "ReadPublicHeader adler (received d) = (if checksum h = adler (drop 4 d)
      then (SUCCESS, Some h, \<lparr>rp_data = d, rp_pos = kPublicHeaderLength\<rparr>)
      else (INVALID_CHECKSUM, None, \<lparr>rp_data = d, rp_pos = kPublicHeaderLength\<rparr>))"
    using read_public_header [of adler h ?r] by (simp only: d4 flip: h)
  show ?thesis
  proof (cases "checksum h = adler (drop 4 d)")
    case True
    show ?thesis by (rule good [OF h True]) (simp only: r True refl if_True)
  next
    case c: False
    show ?thesis
      by (rule forged) (use False c in \<open>simp_all only: r d0 not_less if_False not_False_eq_True\<close>)
  qed
qed

section \<open>The interface of the format\<close>

text \<open>
  What the layers above need of a packet format: a writer that fills the header of a buffer
  in place and a reader that returns what was written and leaves the payload. Everything
  they conclude about their packets follows from the two laws.
\<close>

locale packet_codec =
  fixes header_len :: nat
    and put :: "u8 \<Rightarrow> u32 \<Rightarrow> bytes \<Rightarrow> bytes"
    and get :: "bytes \<Rightarrow> (u8 \<times> u32 \<times> bytes) option"
  assumes get_put: "header_len \<le> length buf \<Longrightarrow> get (put t sid buf) = Some (t, sid, drop header_len buf)"
    and get_enough: "get d = Some (t, sid, r) \<Longrightarrow> header_len + length r = length d"
begin

lemma length_put:
  assumes "header_len \<le> length buf"
  shows "length (put t sid buf) = length buf"
  using get_enough [OF get_put [OF assms, of t sid]] assms by simp

lemma put_inject:
  assumes "header_len \<le> length buf" "header_len \<le> length buf'" "put t sid buf = put t' sid' buf'"
  shows "t = t' \<and> sid = sid' \<and> drop header_len buf = drop header_len buf'"
  using get_put [OF assms(1), of t sid] get_put [OF assms(2), of t' sid'] assms(3) by simp

lemma get_short: "length d < header_len \<Longrightarrow> get d = None"
  using get_enough [of d] by (cases "get d") auto

lemma get_control: "get (put t sid (replicate header_len 0)) = Some (t, sid, [])"
  by (simp add: get_put)

end

definition put_header :: "(bytes \<Rightarrow> u32) \<Rightarrow> u8 \<Rightarrow> u32 \<Rightarrow> bytes \<Rightarrow> bytes" where
  "put_header adler t sid buf = snd (WritePublicHeader adler buf t sid)"

definition get_header :: "(bytes \<Rightarrow> u32) \<Rightarrow> bytes \<Rightarrow> (u8 \<times> u32 \<times> bytes) option" where
  "get_header adler d = (case ReadPublicHeader adler (received d) of
       (SUCCESS, Some h, p) \<Rightarrow> Some (packet_type h, session_id h, RemainingData p)
     | _ \<Rightarrow> None)"

lemma get_header_cases:
  assumes "get_header adler d = Some (t, sid, r)"
  shows "ReadPublicHeader adler (received d) =
      (SUCCESS, Some \<lparr>checksum = adler (drop 4 d), packet_type = t, session_id = sid\<rparr>,
       \<lparr>rp_data = d, rp_pos = kPublicHeaderLength\<rparr>) \<and> r = drop kPublicHeaderLength d \<and>
      kPublicHeaderLength \<le> length d"
proof (cases rule: read_public_header_cases [of d adler])
  case (good h)
  have "kPublicHeaderLength \<le> length d"
    by (subst good(1)) simp
  with assms good show ?thesis
    by (cases h) (simp add: get_header_def RemainingData_def)
qed (use assms in \<open>simp_all add: get_header_def\<close>)

interpretation hdr: packet_codec kPublicHeaderLength "put_header adler" "get_header adler" for adler
proof unfold_locales
  fix buf :: bytes and t sid
  assume "kPublicHeaderLength \<le> length buf"
  then show "get_header adler (put_header adler t sid buf) =
      Some (t, sid, drop kPublicHeaderLength buf)"
    by (simp add: get_header_def put_header_def write_public_header read_public_header
        RemainingData_def)
next
  fix d t sid r
  assume "get_header adler d = Some (t, sid, r)"
  then show "kPublicHeaderLength + length r = length d"
    using get_header_cases by fastforce
qed

text \<open>A packet of nothing but a header, as the handshake sends it.\<close>

definition control_packet :: "(bytes \<Rightarrow> u32) \<Rightarrow> KCPReceivedPacketType \<Rightarrow> u32 \<Rightarrow> bytes" where
  "control_packet adler t sid =
     put_header adler (packet_code t) sid (replicate kPublicHeaderLength 0)"

lemma get_control_packet [wire]:
  "get_header adler (control_packet adler t sid) = Some (packet_code t, sid, [])"
  unfolding control_packet_def by (rule hdr.get_control)

lemma length_control_packet [simp]: "length (control_packet adler t sid) = kPublicHeaderLength"
  by (simp add: control_packet_def hdr.length_put)

section \<open>Sequences of reads\<close>

text \<open>The position never passes the end, a peek is a read that does not move, and a failed
  read leaves the packet alone.\<close>

definition rp_ok :: "KCPReceivedPacket \<Rightarrow> bool" where
  "rp_ok p \<longleftrightarrow> rp_pos p \<le> length (rp_data p)"

lemma received_ok: "rp_ok (received d)"
  by (simp add: rp_ok_def received_def)

lemma read_bytes_spec:
  assumes "rp_ok p" "ReadBytes n p = (r, q)"
  shows "rp_ok q \<and> rp_data q = rp_data p \<and>
    (case r of None \<Rightarrow> q = p \<and> RemainingBytes p < n
     | Some b \<Rightarrow> RemainingData p = b @ RemainingData q \<and> length b = n)"
  using assms
  by (auto simp: ReadBytes_def CanRead_def rp_ok_def RemainingData_def RemainingBytes_def
      add.commute simp flip: drop_drop split: if_splits)

text \<open>The bytes returned by a sequence of reads of the given sizes.\<close>

fun read_all :: "nat list \<Rightarrow> KCPReceivedPacket \<Rightarrow> bytes list option \<times> KCPReceivedPacket" where
  "read_all [] p = (Some [], p)"
| "read_all (n # ns) p = (case ReadBytes n p of
     (None, q) \<Rightarrow> (None, q)
   | (Some b, q) \<Rightarrow> (case read_all ns q of (r, q) \<Rightarrow> (map_option (Cons b) r, q)))"

lemma read_all_spec:
  assumes "rp_ok p"
  shows "case read_all ns p of
      (Some bs, q) \<Rightarrow> map length bs = ns \<and> RemainingData p = concat bs @ RemainingData q \<and> rp_ok q
    | (None, q) \<Rightarrow> RemainingBytes p < sum_list ns \<and> rp_ok q"
  using assms
proof (induction ns arbitrary: p)
  case (Cons n ns)
  show ?case
  proof (cases "ReadBytes n p")
    case (Pair r q)
    note rb = read_bytes_spec [OF Cons.prems Pair]
    show ?thesis
    proof (cases r)
      case None
      then show ?thesis using rb Pair by auto
    next
      case (Some b)
      with rb have q: "rp_ok q" "RemainingData p = b @ RemainingData q" "length b = n" by auto
      then have "RemainingBytes p = n + RemainingBytes q"
        by (metis RemainingBytes_def RemainingData_def length_append length_drop)
      then show ?thesis
        using Cons.IH [OF q(1)] q Pair Some by (auto split: prod.splits option.splits)
    qed
  qed
qed simp

end
