(* ===== verification/Kcp_Session.thy ===== *)
theory Kcp_Session
  imports Ikcp_Contract Kcp_Packets
begin

text \<open>
  A session (\<open>kcp/kcp_session.h\<close>, \<open>kcp/kcp_session.cc\<close>): one control block of the KCP core,
  the callbacks of its user and its event loop. \<open>session\<close> is the state of the object
  together with what is waiting in its loop: the functors given to \<open>queueInLoop\<close> and
  \<open>runInLoop\<close> of another thread in order, the armed timer that updates the connection and
  the timers of \<open>CloseAfterMs\<close>. \<open>se_log\<close> records the calls that leave the session.

  The callbacks are the user's code: \<open>handlers\<close> holds for each one that is set the calls on
  the session that it makes, as a function of the session it sees (its log is the whole
  history), each with the reading of the clock at the call. An operation is \<open>None\<close> where
  the program aborts: a failed assertion (the repository builds with assertions) or an
  access through the null \<open>kcp_\<close>. Reading the clock is an argument. \<open>'a\<close> is the
  type of socket addresses, \<open>InetAddress\<close> of the muduo library.
\<close>

section \<open>State\<close>

record Params =
  p_snd_wnd :: int
  p_rcv_wnd :: int
  p_snd_hghwat :: int
  p_nodelay :: int
  p_interval :: int
  p_resend :: int
  p_nocongestion :: int
  p_mtu :: int
  p_head_room :: int
  p_stream_mode :: int

definition kNormalModeKCPParams :: Params where
  "kNormalModeKCPParams = \<lparr>p_snd_wnd = 64, p_rcv_wnd = 64, p_snd_hghwat = 8, p_nodelay = 0,
     p_interval = 100, p_resend = 3, p_nocongestion = 0, p_mtu = kDefaultMTUSize,
     p_head_room = 0, p_stream_mode = 0\<rparr>"

definition kFastModeKCPParams :: Params where
  "kFastModeKCPParams = \<lparr>p_snd_wnd = 128, p_rcv_wnd = 128, p_snd_hghwat = 16, p_nodelay = 1,
     p_interval = 50, p_resend = 3, p_nocongestion = 1, p_mtu = kDefaultMTUSize,
     p_head_room = 0, p_stream_mode = 0\<rparr>"

text \<open>The functors that the code queues in the loop of a session, with what they capture.\<close>

datatype 'a task =
  Connection_up
| Update_state
| Write_complete
| High_water u32
| Process_packet KCPReceivedPacket 'a
| Write_data bytes
| Close_session bool
| Set_error u8 u8

text \<open>What the world outside of the session sees of it.\<close>

datatype 'a event =
  Ev_connection bool
| Ev_message bytes
| Ev_write_complete
| Ev_high_water u32
| Ev_output bytes u32 'a
| Ev_flush_tx

record 'a session =
  se_kcp :: "ikcpcb option"
  se_id :: u32
  se_peer :: "'a option"
  se_base :: int
  se_timer :: "u32 option"
  se_input :: bytes
  se_error :: "u8 \<times> u8"
  se_closed :: bool
  se_queue :: "'a task list"
  se_delayed :: "(u32 \<times> bool) list"
  se_log :: "'a event list"

definition new_session :: "'a session" where
  "new_session = \<lparr>se_kcp = None, se_id = 0, se_peer = None, se_base = 0, se_timer = None,
     se_input = [], se_error = (0, 0), se_closed = False, se_queue = [], se_delayed = [],
     se_log = []\<rparr>"

text \<open>The calls a callback can make on its session.\<close>

datatype call =
  Call_write int bytes
| Call_close int bool
| Call_close_after u32 bool

record 'a handlers =
  on_connection :: "('a session \<Rightarrow> bool \<Rightarrow> call list) option"
  on_message :: "('a session \<Rightarrow> call list \<times> nat) option"
  on_write_complete :: "('a session \<Rightarrow> call list) option"
  on_high_water :: "('a session \<Rightarrow> u32 \<Rightarrow> call list) option"
  flush_tx_set :: bool

abbreviation emit :: "'a event list \<Rightarrow> 'a session \<Rightarrow> 'a session" where
  "emit es s \<equiv> s\<lparr>se_log := se_log s @ es\<rparr>"

abbreviation enqueue :: "'a task \<Rightarrow> 'a session \<Rightarrow> 'a session" where
  "enqueue t s \<equiv> s\<lparr>se_queue := se_queue s @ [t]\<rparr>"

section \<open>Time and output\<close>

text \<open>C++ division truncates towards zero; the low 32 bits of the difference are kept. Times are
  microseconds since the epoch.\<close>

definition CurrentMs :: "int \<Rightarrow> 'a session \<Rightarrow> u32" where
  "CurrentMs now s =
     (let d = now - se_base s; ms = (if d < 0 then - ((- d) div 1000) else d div 1000)
      in word_of_int ms)"

text \<open>The buffer that \<open>ikcp_flush\<close> hands out starts with the \<open>head_room\<close> bytes that belong to
  the callback; what they hold is overwritten by it (here zeros).\<close>

definition OnKCPOutput :: "ikcpcb \<Rightarrow> 'a session \<Rightarrow> bytes \<Rightarrow> 'a event" where
  "OnKCPOutput k s d =
     Ev_output (replicate (unat (head_room k)) 0 @ d) (se_id s) (the (se_peer s))"

definition FlushTxQueue :: "'a handlers \<Rightarrow> 'a session \<Rightarrow> 'a session" where
  "FlushTxQueue h s = (if flush_tx_set h then emit [Ev_flush_tx] s else s)"

text \<open>\<open>ikcp_flush(kcp_.get(), CurrentMs())\<close> followed by \<open>FlushTxQueue()\<close>, as every caller has it.\<close>

definition flush_session :: "'a handlers \<Rightarrow> int \<Rightarrow> 'a session \<Rightarrow> (u32 \<times> 'a session) option" where
  "flush_session h now s = (case se_kcp s of
       None \<Rightarrow> None
     | Some k \<Rightarrow> (case ikcp_flush k (CurrentMs now s) of (w, k', ds) \<Rightarrow>
         Some (w, FlushTxQueue h (emit (map (OnKCPOutput k s) ds) (s\<lparr>se_kcp := Some k'\<rparr>)))))"

section \<open>Closing\<close>

definition CloseAfterMs :: "u32 \<Rightarrow> bool \<Rightarrow> 'a session \<Rightarrow> 'a session" where
  "CloseAfterMs ms last_flush s = s\<lparr>se_delayed := se_delayed s @ [(ms, last_flush)]\<rparr>"

text \<open>The connection callback for a lost connection runs on a closed session: of its calls only
  \<open>CloseAfterMs\<close> does anything, \<open>Write\<close> and \<open>Close\<close> return at once (lemma \<open>closed_ignores\<close>).\<close>

fun down_call :: "call \<Rightarrow> 'a session \<Rightarrow> 'a session" where
  "down_call (Call_close_after ms fl) s = CloseAfterMs ms fl s"
| "down_call _ s = s"

definition connection_down :: "'a handlers \<Rightarrow> 'a session \<Rightarrow> 'a session" where
  "connection_down h s = (case on_connection h of
       None \<Rightarrow> s
     | Some f \<Rightarrow> fold down_call (f (emit [Ev_connection False] s) False) (emit [Ev_connection False] s))"

definition Close :: "'a handlers \<Rightarrow> int \<Rightarrow> bool \<Rightarrow> 'a session \<Rightarrow> 'a session option" where
  "Close h now last_flush s =
     (if se_closed s then Some s
      else
        let s = s\<lparr>se_closed := True, se_timer := None\<rparr>;
            r = (if last_flush then map_option snd (flush_session h now s) else Some s)
        in map_option (connection_down h) r)"

section \<open>Writing\<close>

text \<open>A \<open>size_t\<close> converted to \<open>int\<close>.\<close>

definition int_of_size :: "nat \<Rightarrow> int" where
  "int_of_size n = sint (of_nat n :: u32)"

text \<open>The first half of \<open>WriteInLoopThread\<close>: what fits the window is sent as a message and
  flushed; the result holds the number of bytes taken.\<close>

definition write_direct :: "'a handlers \<Rightarrow> int \<Rightarrow> bytes \<Rightarrow> ikcpcb \<Rightarrow> 'a session \<Rightarrow> (nat \<times> 'a session) option" where
  "write_direct h now data k s =
     (if ikcp_need_drain k then Some (0, s)
      else
        let n = min (unat (ikcp_available_wnd_in_bytes k)) (length data) in
        if n = 0 then Some (0, s)
        else
          let to_wire = ikcp_available_sndwnd_in_bytes k in
          case ikcp_send k (take n data) (int_of_size n) of
            None \<Rightarrow> None
          | Some (result, k') \<Rightarrow>
              if result \<noteq> 0 then None
              else
                let s = s\<lparr>se_kcp := Some k'\<rparr>;
                    r = (if to_wire > 0 then map_option snd (flush_session h now s) else Some s)
                in map_option (\<lambda>s. (n,
                     if length data - n = 0 \<and> on_write_complete h \<noteq> None
                     then enqueue Write_complete s else s)) r)"

text \<open>The second half: the bytes left are appended to the queue; crossing the high water mark
  queues its callback.\<close>

definition write_rest :: "'a handlers \<Rightarrow> bool \<Rightarrow> bytes \<Rightarrow> 'a session \<Rightarrow> 'a session option" where
  "write_rest h reached_before rest s =
     (if rest = [] then Some s
      else case se_kcp s of
        None \<Rightarrow> None
      | Some k \<Rightarrow> (case ikcp_append k rest (int_of_size (length rest)) of
          None \<Rightarrow> None
        | Some (result, k') \<Rightarrow>
            if result \<noteq> 0 then None
            else
              let s = s\<lparr>se_kcp := Some k'\<rparr> in
              Some (if \<not> reached_before \<and> ikcp_reach_snd_hghwat k' \<and> on_high_water h \<noteq> None
                    then enqueue (High_water (ikcp_waitsnd k')) s else s)))"

definition WriteInLoopThread :: "'a handlers \<Rightarrow> int \<Rightarrow> bytes \<Rightarrow> 'a session \<Rightarrow> 'a session option" where
  "WriteInLoopThread h now data s =
     (if se_closed s then Some s
      else case se_kcp s of
        None \<Rightarrow> None
      | Some k \<Rightarrow>
          let reached = ikcp_reach_snd_hghwat k in
          case write_direct h now data k s of
            None \<Rightarrow> None
          | Some (n, s) \<Rightarrow> write_rest h reached (drop n data) s)"

text \<open>A write from another thread copies the data and queues the rest of the work. \<open>Write\<close> with a
  buffer also empties the caller's buffer.\<close>

definition Write :: "'a handlers \<Rightarrow> bool \<Rightarrow> int \<Rightarrow> bytes \<Rightarrow> 'a session \<Rightarrow> 'a session option" where
  "Write h in_loop now data s =
     (if in_loop then WriteInLoopThread h now data s
      else Some (enqueue (Write_data (KCPClonedPacket data)) s))"

definition Write_buffer :: "'a handlers \<Rightarrow> bool \<Rightarrow> int \<Rightarrow> bytes \<Rightarrow> 'a session \<Rightarrow> (bytes \<times> 'a session) option" where
  "Write_buffer h in_loop now buf s = map_option (Pair []) (Write h in_loop now buf s)"

section \<open>Callbacks\<close>

fun perform :: "'a handlers \<Rightarrow> call list \<Rightarrow> 'a session \<Rightarrow> 'a session option" where
  "perform h [] s = Some s"
| "perform h (Call_write now data # cs) s = Option.bind (WriteInLoopThread h now data s) (perform h cs)"
| "perform h (Call_close now fl # cs) s = Option.bind (Close h now fl s) (perform h cs)"
| "perform h (Call_close_after ms fl # cs) s = perform h cs (CloseAfterMs ms fl s)"

definition connection_up :: "'a handlers \<Rightarrow> 'a session \<Rightarrow> 'a session option" where
  "connection_up h s = (case on_connection h of
       None \<Rightarrow> Some s
     | Some f \<Rightarrow> (let s = emit [Ev_connection True] s in perform h (f s True) s))"

section \<open>Reading\<close>

text \<open>The message callback gets the buffer with all data not yet retrieved from it, and says how
  many bytes it takes. Without a callback the received bytes are dropped.\<close>

definition OnReadEvent :: "'a handlers \<Rightarrow> int \<Rightarrow> 'a session \<Rightarrow> 'a session option" where
  "OnReadEvent h bytes_can_read s = (case se_kcp s of
       None \<Rightarrow> None
     | Some k \<Rightarrow> (case ikcp_recv k bytes_can_read of
         None \<Rightarrow> None
       | Some (len, data, k') \<Rightarrow>
           (let s = s\<lparr>se_kcp := Some k'\<rparr> in
            if len > 0 then
              (case on_message h of
                 None \<Rightarrow> Some s
               | Some f \<Rightarrow>
                   let s = s\<lparr>se_input := se_input s @ data\<rparr>;
                       s = emit [Ev_message (se_input s)] s;
                       (calls, taken) = f s
                   in perform h calls (s\<lparr>se_input := drop taken (se_input s)\<rparr>))
            else None)))"

section \<open>The session evolves\<close>

text \<open>
  What the calls of a callback can do to their session: they emit datagrams, queue
  notifications and may close it; they never touch what was received. \<open>evolves\<close> is
  reflexive and transitive and holds for every call.
\<close>

fun wire_event :: "'a event \<Rightarrow> bool" where
  "wire_event (Ev_output _ _ _) = True"
| "wire_event Ev_flush_tx = True"
| "wire_event _ = False"

fun notify_task :: "'a task \<Rightarrow> bool" where
  "notify_task Write_complete = True"
| "notify_task (High_water _) = True"
| "notify_task _ = False"

definition down_events :: "'a handlers \<Rightarrow> 'a event list" where
  "down_events h = (if on_connection h = None then [] else [Ev_connection False])"

definition kcp_calm :: "ikcpcb \<Rightarrow> ikcpcb \<Rightarrow> bool" where
  "kcp_calm k k' \<longleftrightarrow> rcv_view k' = rcv_view k \<and> ackcount k' \<le> ackcount k"

lemma kcp_calm_refl: "kcp_calm k k" and kcp_calm_trans: "kcp_calm a b \<Longrightarrow> kcp_calm b c \<Longrightarrow> kcp_calm a c"
  by (auto simp: kcp_calm_def)

lemma kcp_calm_opt [simp]: "rel_option kcp_calm x x"
  by (cases x) (simp_all add: kcp_calm_refl)

lemma kcp_calm_opt_trans: "rel_option kcp_calm a b \<Longrightarrow> rel_option kcp_calm b c \<Longrightarrow> rel_option kcp_calm a c"
  by (cases a; cases b; cases c) (auto intro: kcp_calm_trans)

lemma kcp_calm_write: "ikcp_write k buf len always = Some (r, k') \<Longrightarrow> kcp_calm k k'"
  unfolding kcp_calm_def by (subst (1 2) write_frame, assumption+) (simp add: rcv_view_def)

lemma kcp_calm_flush: "ikcp_flush k now = (w, k', ds) \<Longrightarrow> kcp_calm k k'"
  using flush_frame by (simp add: kcp_calm_def)

definition same_identity :: "'a session \<Rightarrow> 'a session \<Rightarrow> bool" where
  "same_identity s s' \<longleftrightarrow> se_input s' = se_input s \<and> se_id s' = se_id s \<and> se_peer s' = se_peer s \<and>
     se_base s' = se_base s \<and> se_error s' = se_error s \<and>
     rel_option kcp_calm (se_kcp s) (se_kcp s')"

definition evolves :: "'a handlers \<Rightarrow> 'a session \<Rightarrow> 'a session \<Rightarrow> bool" where
  "evolves h s s' \<longleftrightarrow> same_identity s s' \<and>
     (if se_closed s
      then se_closed s' \<and> se_log s' = se_log s \<and> se_queue s' = se_queue s \<and> se_kcp s' = se_kcp s \<and>
        se_timer s' = se_timer s
      else se_timer s' = (if se_closed s' then None else se_timer s) \<and>
        (\<exists>es ts. list_all wire_event es \<and> list_all notify_task ts \<and> se_queue s' = se_queue s @ ts \<and>
           se_log s' = se_log s @ es @ (if se_closed s' then down_events h else [])))"

lemma evolves_refl: "evolves h s s"
  by (auto simp: evolves_def same_identity_def intro!: exI [of _ "[]"])

lemma evolves_trans:
  assumes "evolves h s1 s2" "evolves h s2 s3"
  shows "evolves h s1 s3"
proof -
  have i: "same_identity s1 s3"
    using assms kcp_calm_opt_trans [of "se_kcp s1" "se_kcp s2" "se_kcp s3"]
    by (simp add: evolves_def same_identity_def)
  show ?thesis
  proof (cases "se_closed s1 \<or> se_closed s2")
    case True
    with assms i show ?thesis by (auto simp: evolves_def)
  next
    case False
    with assms obtain es1 ts1 es2 ts2 where
      "list_all wire_event (es1 @ es2)" "list_all notify_task (ts1 @ ts2)"
      "se_queue s3 = se_queue s1 @ ts1 @ ts2"
      "se_log s3 = se_log s1 @ (es1 @ es2) @ (if se_closed s3 then down_events h else [])"
      by (auto simp: evolves_def)
    moreover have "se_timer s3 = (if se_closed s3 then None else se_timer s1)"
      using assms False by (simp add: evolves_def)
    ultimately show ?thesis using False i unfolding evolves_def by auto
  qed
qed

lemma evolves_kcp:
  assumes "\<not> se_closed s" "se_kcp s = Some k" "kcp_calm k k'"
  shows "evolves h s (s\<lparr>se_kcp := Some k'\<rparr>)"
  using assms by (auto simp: evolves_def same_identity_def intro!: exI [of _ "[]"])

lemma evolves_notify: "\<not> se_closed s \<Longrightarrow> notify_task t \<Longrightarrow> evolves h s (enqueue t s)"
  by (auto simp: evolves_def same_identity_def intro!: exI [of _ "[]"] exI [of _ "[t]"])

lemma flush_session_cases:
  assumes "flush_session h now s = Some (w, s')"
  obtains k k' ds where "se_kcp s = Some k" "ikcp_flush k (CurrentMs now s) = (w, k', ds)"
    "s' = s\<lparr>se_kcp := Some k', se_log := se_log s @ map (OnKCPOutput k s) ds @
       (if flush_tx_set h then [Ev_flush_tx] else [])\<rparr>"
  using assms
  by (auto simp: flush_session_def FlushTxQueue_def split: option.splits prod.splits if_splits)

lemma list_all_output: "list_all wire_event (map (OnKCPOutput k s) ds)"
  by (induction ds) (auto simp: OnKCPOutput_def)

lemma evolves_flush:
  assumes "flush_session h now s = Some (w, s')" "\<not> se_closed s"
  shows "evolves h s s'"
  using assms(1)
proof (cases rule: flush_session_cases)
  case (1 k k' ds)
  then show ?thesis
    using assms(2) kcp_calm_flush [OF 1(2)]
    by (auto simp: evolves_def same_identity_def list_all_output
        intro!: exI [of _ "map (OnKCPOutput k s) ds @ (if flush_tx_set h then [Ev_flush_tx] else [])"])
qed

lemma down_calls_frame:
  "\<exists>d. fold down_call cs s = s\<lparr>se_delayed := d\<rparr>"
proof (induction cs arbitrary: s)
  case Nil
  show ?case by (simp add: exI [of _ "se_delayed s"])
next
  case (Cons c cs)
  have "\<exists>d. down_call c s = s\<lparr>se_delayed := d\<rparr>"
    by (cases c) (auto simp: CloseAfterMs_def intro: exI [of _ "se_delayed s"])
  then obtain d where d: "down_call c s = s\<lparr>se_delayed := d\<rparr>" ..
  show ?case using Cons.IH [of "s\<lparr>se_delayed := d\<rparr>"] by (simp add: d)
qed

lemma connection_down_frame:
  "\<exists>d. connection_down h s = s\<lparr>se_log := se_log s @ down_events h, se_delayed := d\<rparr>"
proof (cases "on_connection h")
  case None
  then show ?thesis by (auto simp: connection_down_def down_events_def intro: exI [of _ "se_delayed s"])
next
  case (Some f)
  obtain d where "fold down_call (f (emit [Ev_connection False] s) False) (emit [Ev_connection False] s) =
      (emit [Ev_connection False] s)\<lparr>se_delayed := d\<rparr>"
    using down_calls_frame by blast
  then show ?thesis by (intro exI [of _ d]) (simp add: Some connection_down_def down_events_def)
qed

lemma evolves_close:
  assumes "Close h now fl s = Some s'"
  shows "evolves h s s'" "se_closed s'"
proof -
  have "evolves h s s' \<and> se_closed s'"
  proof (cases "se_closed s")
    case True
    with assms show ?thesis by (simp add: Close_def evolves_refl)
  next
    case False
    let ?s = "s\<lparr>se_closed := True, se_timer := None\<rparr>"
    obtain s1 where s1: "(if fl then map_option snd (flush_session h now ?s) else Some ?s) = Some s1"
      "s' = connection_down h s1"
      using assms False by (auto simp: Close_def Let_def split: if_splits)
    obtain d where d: "s' = s1\<lparr>se_log := se_log s1 @ down_events h, se_delayed := d\<rparr>"
      using connection_down_frame s1(2) by metis
    obtain es k' where e: "list_all wire_event es" "s1 = ?s\<lparr>se_kcp := k', se_log := se_log s @ es\<rparr>"
      "rel_option kcp_calm (se_kcp s) k'"
    proof (cases fl)
      case True
      then obtain w where "flush_session h now ?s = Some (w, s1)" using s1(1) by auto
      then show ?thesis
      proof (cases rule: flush_session_cases)
        case (1 k k' ds)
        then show ?thesis
          using kcp_calm_flush [OF 1(2)]
          by (intro that [of "map (OnKCPOutput k ?s) ds @ (if flush_tx_set h then [Ev_flush_tx] else [])" "Some k'"])
            (auto simp: list_all_output)
      qed
    next
      case fl: False
      then show ?thesis using s1(1) by (intro that [of "[]" "se_kcp s"]) auto
    qed
    show ?thesis
      using False e by (auto simp: d evolves_def same_identity_def intro!: exI [of _ es] exI [of _ "[]"])
  qed
  then show "evolves h s s'" "se_closed s'" by auto
qed

text \<open>The two halves of a write.\<close>

lemma write_direct_cases:
  assumes "write_direct h now data k s = Some (n, s')"
  obtains (skip) "n = 0" "s' = s"
  | (sent) k' s1 where "0 < n" "n \<le> length data" "ikcp_send k (take n data) (int_of_size n) = Some (0, k')"
      "s1 = s\<lparr>se_kcp := Some k'\<rparr> \<or> (\<exists>w. flush_session h now (s\<lparr>se_kcp := Some k'\<rparr>) = Some (w, s1))"
      "s' = s1 \<or> s' = enqueue Write_complete s1"
proof (cases "ikcp_need_drain k \<or> min (unat (ikcp_available_wnd_in_bytes k)) (length data) = 0")
  case True
  then have "Some (n, s') = Some (0, s)"
    using assms unfolding write_direct_def Let_def by (metis (no_types))
  then show ?thesis by (intro skip) auto
next
  case False
  let ?n = "min (unat (ikcp_available_wnd_in_bytes k)) (length data)"
  have 1: "\<not> ikcp_need_drain k" "?n \<noteq> 0" using False by auto
  with assms obtain k' where k': "ikcp_send k (take ?n data) (int_of_size ?n) = Some (0, k')"
    by (auto simp: write_direct_def Let_def split: if_splits option.splits prod.splits)
  let ?r = "if ikcp_available_sndwnd_in_bytes k > 0
    then map_option snd (flush_session h now (s\<lparr>se_kcp := Some k'\<rparr>)) else Some (s\<lparr>se_kcp := Some k'\<rparr>)"
  have "map_option (\<lambda>s. (?n, if length data - ?n = 0 \<and> on_write_complete h \<noteq> None
      then enqueue Write_complete s else s)) ?r = Some (n, s')"
    using assms 1 k' by (simp add: write_direct_def Let_def)
  then obtain s1 where s1: "?r = Some s1" "n = ?n" "s' = s1 \<or> s' = enqueue Write_complete s1"
    by (auto split: if_splits)
  then have "s1 = s\<lparr>se_kcp := Some k'\<rparr> \<or> (\<exists>w. flush_session h now (s\<lparr>se_kcp := Some k'\<rparr>) = Some (w, s1))"
    by (auto split: if_splits)
  then show ?thesis using 1 k' s1 by (intro sent [of k' s1]) auto
qed

lemma write_rest_cases:
  assumes "write_rest h r rest s = Some s'"
  obtains (skip) "rest = []" "s' = s"
  | (appended) k k' where "rest \<noteq> []" "se_kcp s = Some k"
      "ikcp_append k rest (int_of_size (length rest)) = Some (0, k')"
      "s' = s\<lparr>se_kcp := Some k'\<rparr> \<or> s' = enqueue (High_water (ikcp_waitsnd k')) (s\<lparr>se_kcp := Some k'\<rparr>)"
  using assms
  by (auto simp: write_rest_def Let_def split: if_splits option.splits prod.splits)

lemma evolves_write_direct:
  assumes "write_direct h now data k s = Some (n, s')" "\<not> se_closed s" "se_kcp s = Some k"
  shows "evolves h s s'" "\<not> se_closed s'"
proof -
  have "evolves h s s' \<and> \<not> se_closed s'"
    using assms(1)
  proof (cases rule: write_direct_cases)
    case skip
    then show ?thesis using assms(2) by (simp add: evolves_refl)
  next
    case (sent k' s1)
    let ?s = "s\<lparr>se_kcp := Some k'\<rparr>"
    have 1: "evolves h s ?s"
      using evolves_kcp [OF assms(2,3)] kcp_calm_write sent(3) unfolding ikcp_send_def by blast
    have 2: "evolves h s s1 \<and> \<not> se_closed s1"
    proof (cases "s1 = ?s")
      case True
      then show ?thesis using 1 assms(2) by simp
    next
      case False
      then obtain w where w: "flush_session h now ?s = Some (w, s1)" using sent(4) by blast
      moreover have "se_closed s1 = se_closed ?s"
        using w by (rule flush_session_cases) simp
      ultimately show ?thesis using evolves_flush [OF w] 1 assms(2) evolves_trans by auto
    qed
    then show ?thesis
      using sent(5) evolves_trans [OF _ evolves_notify, of h s s1 Write_complete] by auto
  qed
  then show "evolves h s s'" "\<not> se_closed s'" by auto
qed

lemma evolves_write_rest:
  assumes "write_rest h r rest s = Some s'" "\<not> se_closed s"
  shows "evolves h s s'"
  using assms(1)
proof (cases rule: write_rest_cases)
  case skip
  then show ?thesis by (simp add: evolves_refl)
next
  case (appended k k')
  have 1: "evolves h s (s\<lparr>se_kcp := Some k'\<rparr>)"
    using evolves_kcp [OF assms(2) appended(2)] kcp_calm_write appended(3) unfolding ikcp_append_def by blast
  then show ?thesis
    using appended(4) assms(2)
      evolves_trans [OF 1 evolves_notify, of "High_water (ikcp_waitsnd k')"] by auto
qed

lemma evolves_write:
  assumes "WriteInLoopThread h now data s = Some s'"
  shows "evolves h s s'"
proof (cases "se_closed s")
  case True
  with assms show ?thesis by (simp add: WriteInLoopThread_def evolves_refl)
next
  case False
  then obtain k n s1 where "se_kcp s = Some k" "write_direct h now data k s = Some (n, s1)"
    "write_rest h (ikcp_reach_snd_hghwat k) (drop n data) s1 = Some s'"
    using assms by (auto simp: WriteInLoopThread_def Let_def split: option.splits)
  then show ?thesis
    using evolves_write_direct [of h now data k s n s1] evolves_write_rest False evolves_trans by blast
qed

lemma evolves_close_after: "evolves h s (CloseAfterMs ms fl s)"
  by (auto simp: evolves_def same_identity_def CloseAfterMs_def intro!: exI [of _ "[]"])

lemma evolves_perform: "perform h cs s = Some s' \<Longrightarrow> evolves h s s'"
proof (induction h cs s rule: perform.induct)
  case (2 h now data cs s)
  then obtain s1 where "WriteInLoopThread h now data s = Some s1" "perform h cs s1 = Some s'"
    by (auto simp: bind_eq_Some_conv)
  then show ?case using evolves_write "2.IH" evolves_trans by blast
next
  case (3 h now fl cs s)
  then obtain s1 where "Close h now fl s = Some s1" "perform h cs s1 = Some s'"
    by (auto simp: bind_eq_Some_conv)
  then show ?case using evolves_close(1) "3.IH" evolves_trans by blast
next
  case (4 h ms fl cs s)
  then have "evolves h (CloseAfterMs ms fl s) s'" by simp
  then show ?case by (rule evolves_trans [OF evolves_close_after])
qed (simp add: evolves_refl)

text \<open>A closed session ignores writes and closes, in a callback and elsewhere.\<close>

lemma closed_ignores:
  assumes "se_closed s"
  shows "WriteInLoopThread h now data s = Some s" "Close h now fl s = Some s"
    "perform h cs s = Some (fold down_call cs s)"
proof -
  show "WriteInLoopThread h now data s = Some s" "Close h now fl s = Some s"
    using assms by (simp_all add: WriteInLoopThread_def Close_def)
  show "perform h cs s = Some (fold down_call cs s)"
    using assms
    by (induction h cs s rule: perform.induct)
      (auto simp: WriteInLoopThread_def Close_def CloseAfterMs_def)
qed

section \<open>Receiving\<close>

definition sess_load :: "'a session \<Rightarrow> nat" where
  "sess_load s = (case se_kcp s of None \<Rightarrow> 0 | Some k \<Rightarrow> rcv_load k)"

lemma rcv_view_load: "rcv_view k = rcv_view k' \<Longrightarrow> rcv_load k = rcv_load k'"
  by (simp add: rcv_view_def rcv_load_def)

lemma evolves_load: "evolves h s s' \<Longrightarrow> sess_load s' = sess_load s"
  by (cases "se_kcp s"; cases "se_kcp s'")
    (auto simp: evolves_def same_identity_def sess_load_def kcp_calm_def dest: rcv_view_load)

lemma read_event_cases:
  assumes "OnReadEvent h n s = Some s'"
  obtains k len data k' where "se_kcp s = Some k" "ikcp_recv k n = Some (len, data, k')" "0 < len"
    "on_message h = None \<and> s' = s\<lparr>se_kcp := Some k'\<rparr> \<or>
     (\<exists>f taken calls b. on_message h = Some f \<and> b = se_input s @ data \<and>
        f (s\<lparr>se_kcp := Some k', se_input := b, se_log := se_log s @ [Ev_message b]\<rparr>) = (calls, taken) \<and>
        perform h calls (s\<lparr>se_kcp := Some k', se_log := se_log s @ [Ev_message b], se_input := drop taken b\<rparr>) = Some s')"
  using assms
  by (auto simp: OnReadEvent_def Let_def split: option.splits prod.splits if_splits)

text \<open>Every round of the reading loop takes at least one segment off the receive queue: the loop
  ends, whatever the callbacks do.\<close>

lemma read_event_load:
  assumes "OnReadEvent h n s = Some s'" "0 \<le> n"
  shows "sess_load s' < sess_load s"
  using assms(1)
proof (cases rule: read_event_cases)
  case (1 k len data k')
  have l: "rcv_load k' < rcv_load k" using recv_load [OF 1(2)] 1(3) assms(2) by simp
  from 1(4) show ?thesis
  proof
    assume "on_message h = None \<and> s' = s\<lparr>se_kcp := Some k'\<rparr>"
    then show ?thesis using l 1(1) by (simp add: sess_load_def)
  next
    assume "\<exists>f taken calls b. on_message h = Some f \<and> b = se_input s @ data \<and>
        f (s\<lparr>se_kcp := Some k', se_input := b, se_log := se_log s @ [Ev_message b]\<rparr>) = (calls, taken) \<and>
        perform h calls (s\<lparr>se_kcp := Some k', se_log := se_log s @ [Ev_message b], se_input := drop taken b\<rparr>) = Some s'"
    then obtain calls i l' where
      "perform h calls (s\<lparr>se_kcp := Some k', se_log := l', se_input := i\<rparr>) = Some s'" by blast
    from evolves_load [OF evolves_perform [OF this]] show ?thesis using l 1(1) by (simp add: sess_load_def)
  qed
qed

function read_loop :: "'a handlers \<Rightarrow> 'a session \<Rightarrow> 'a session option" where
  "read_loop h s =
     (if se_closed s then Some s
      else case se_kcp s of
        None \<Rightarrow> None
      | Some k \<Rightarrow>
          if ikcp_peeksize k < 0 then Some s
          else case OnReadEvent h (ikcp_peeksize k) s of
            None \<Rightarrow> None
          | Some s' \<Rightarrow> read_loop h s')"
  by pat_completeness auto
termination
  by (relation "measure (\<lambda>(h, s). sess_load s)") (auto intro: read_event_load)

declare read_loop.simps [simp del]

definition ProcessPacketInLoopThread ::
  "'a handlers \<Rightarrow> KCPReceivedPacket \<Rightarrow> 'a \<Rightarrow> 'a session \<Rightarrow> 'a session option" where
  "ProcessPacketInLoopThread h packet peer s =
     (if se_closed s then Some s
      else case se_kcp s of
        None \<Rightarrow> None
      | Some k \<Rightarrow>
          let drain_before = ikcp_need_drain k in
          case ikcp_input k (RemainingData packet) of
            None \<Rightarrow> None
          | Some (result, k') \<Rightarrow>
              let s = s\<lparr>se_kcp := Some k'\<rparr> in
              if result < 0 then Some s
              else map_option (\<lambda>s.
                     if \<not> se_closed s \<and> drain_before \<and> \<not> ikcp_need_drain (the (se_kcp s)) \<and>
                        on_write_complete h \<noteq> None
                     then enqueue Write_complete s else s)
                   (read_loop h (s\<lparr>se_peer := Some peer\<rparr>)))"

definition ProcessPacket ::
  "'a handlers \<Rightarrow> bool \<Rightarrow> KCPReceivedPacket \<Rightarrow> 'a \<Rightarrow> 'a session \<Rightarrow> 'a session option" where
  "ProcessPacket h in_loop packet peer s =
     (if in_loop then ProcessPacketInLoopThread h packet peer s
      else Some (enqueue (Process_packet (CloneFromRemainingData packet) peer) s))"

section \<open>The life of a session\<close>

definition UpdateConnectionState :: "'a handlers \<Rightarrow> int \<Rightarrow> 'a session \<Rightarrow> 'a session option" where
  "UpdateConnectionState h now s =
     (if se_closed s then Some s
      else case se_kcp s of
        None \<Rightarrow> None
      | Some k \<Rightarrow>
          if \<not> ikcp_is_alive k then Close h now False s
          else map_option (\<lambda>(wait_ms, s). s\<lparr>se_timer := Some wait_ms\<rparr>) (flush_session h now s))"

text \<open>The configuration of the control block, up to the first setting that is refused. The high
  water mark is set from \<open>snd_wnd\<close>, as in the source.\<close>

definition configure :: "u32 \<Rightarrow> Params \<Rightarrow> ikcpcb option" where
  "configure sid p =
     (let k = ikcp_stream (ikcp_create sid) (p_stream_mode p);
          (rv, k) = ikcp_wndsize k (p_snd_wnd p) (p_rcv_wnd p)
      in if rv < 0 then None
         else let (rv, k) = ikcp_setmtu k (p_mtu p)
      in if rv < 0 then None
         else let (rv, k) = ikcp_set_head_room k (word_of_int (p_head_room p))
      in if rv < 0 then None
         else let (rv, k) = ikcp_set_snd_hghwat k (word_of_int (p_snd_wnd p))
      in if rv < 0 then None
         else let (rv, k) = ikcp_nodelay k (p_nodelay p) (p_interval p) (p_resend p) (p_nocongestion p)
      in if rv < 0 then None else Some k)"

text \<open>The first component is the C++ result. \<open>in_loop\<close>: whether the caller runs in the loop of the
  session, so that \<open>runInLoop\<close> runs the callback at once.\<close>

definition Initialize ::
  "'a handlers \<Rightarrow> bool \<Rightarrow> int \<Rightarrow> u32 \<Rightarrow> 'a \<Rightarrow> Params \<Rightarrow> 'a session \<Rightarrow> (bool \<times> 'a session) option" where
  "Initialize h in_loop now sid peer p s =
     (if se_kcp s \<noteq> None then None
      else case configure sid p of
        None \<Rightarrow> Some (False, s)
      | Some k \<Rightarrow>
          let s = s\<lparr>se_kcp := Some k, se_peer := Some peer, se_id := sid, se_base := now\<rparr>;
              r = (if in_loop then connection_up h s else Some (enqueue Connection_up s))
          in map_option (\<lambda>s. (True, enqueue Update_state s)) r)"

text \<open>What the loop does with a functor. Calling a callback that is not set throws.\<close>

definition run_task :: "'a handlers \<Rightarrow> int \<Rightarrow> 'a task \<Rightarrow> 'a session \<Rightarrow> 'a session option" where
  "run_task h now t s = (case t of
       Connection_up \<Rightarrow> connection_up h s
     | Update_state \<Rightarrow> UpdateConnectionState h now s
     | Write_complete \<Rightarrow> (case on_write_complete h of
         None \<Rightarrow> None
       | Some f \<Rightarrow> (let s = emit [Ev_write_complete] s in perform h (f s) s))
     | High_water w \<Rightarrow> (case on_high_water h of
         None \<Rightarrow> None
       | Some f \<Rightarrow> (let s = emit [Ev_high_water w] s in perform h (f s w) s))
     | Process_packet p a \<Rightarrow> ProcessPacketInLoopThread h p a s
     | Write_data d \<Rightarrow> WriteInLoopThread h now d s
     | Close_session fl \<Rightarrow> Close h now fl s
     | Set_error ty c \<Rightarrow> Some (s\<lparr>se_error := (ty, c)\<rparr>))"

end
