(* ===== verification/Kcp_Session_Life.thy ===== *)
theory Kcp_Session_Life
  imports Kcp_Session
begin

text \<open>
  Sessions as state machines: everything that can happen to a session once it is initialized
  (the functors and timers of its loop, calls of its user in the loop and from other threads,
  packets) is a step of \<open>session_step\<close>. The theory proves what every session keeps in every
  reachable state: the invariant of its control block, and the protocol of its callbacks.
\<close>

section \<open>Accounting of a write\<close>

lemma int_of_size_small: "n < 2 ^ 31 \<Longrightarrow> int_of_size n = int n"
  by (simp add: int_of_size_def sint_u32 unat_of_nat_u32 del: of_nat_unat)

lemma flush_session_kcp:
  assumes "flush_session h now s = Some (w, s')"
  obtains k k' where "se_kcp s = Some k" "se_kcp s' = Some k'" "flushes k k'" "se_closed s' = se_closed s"
  using assms
proof (cases rule: flush_session_cases)
  case (1 k k' ds)
  then have "flushes k k'" by (auto simp: flushes_def intro!: exI [of _ "CurrentMs now s"])
  with 1 show ?thesis by (intro that) auto
qed

lemma write_direct_core:
  assumes "write_direct h now data k s = Some (n, s')" "se_kcp s = Some k"
  obtains k1 k2 where "k1 = k \<and> take n data = [] \<or> accepts k (take n data) k1"
    "k2 = k1 \<or> flushes k1 k2" "se_kcp s' = Some k2"
  using assms(1)
proof (cases rule: write_direct_cases)
  case skip
  then show ?thesis using assms(2) that [of k k] by simp
next
  case (sent k' s1)
  have a: "accepts k (take n data) k'"
    using sent(3) by (auto simp: accepts_def ikcp_send_def)
  obtain k2 where "se_kcp s1 = Some k2" "k2 = k' \<or> flushes k' k2"
    using sent(4)
  proof
    assume "\<exists>w. flush_session h now (s\<lparr>se_kcp := Some k'\<rparr>) = Some (w, s1)"
    then obtain w where "flush_session h now (s\<lparr>se_kcp := Some k'\<rparr>) = Some (w, s1)" ..
    then show ?thesis by (rule flush_session_kcp) (auto intro: that)
  qed (auto intro: that)
  then show ?thesis using a sent(5) that [of k' k2] by auto
qed

lemma write_rest_core:
  assumes "write_rest h r rest s = Some s'" "se_kcp s = Some k"
  obtains k' where "k' = k \<and> rest = [] \<or> accepts k rest k'" "se_kcp s' = Some k'"
  using assms(1)
proof (cases rule: write_rest_cases)
  case skip
  then show ?thesis using assms(2) that [of k] by simp
next
  case (appended k0 k')
  then have "accepts k rest k'" using assms(2) by (auto simp: accepts_def ikcp_append_def)
  then show ?thesis using appended(4) that [of k'] by auto
qed

text \<open>A write that returns has queued every byte exactly once, whatever the windows were.\<close>

lemma write_accounts:
  assumes "WriteInLoopThread h now data s = Some s'" "\<not> se_closed s" "se_kcp s = Some k" "kcp_inv k"
  obtains k' where "se_kcp s' = Some k'" "kcp_inv k'" "unacked k' = unacked k @ data"
proof -
  obtain n s1 where 1: "write_direct h now data k s = Some (n, s1)"
    "write_rest h (ikcp_reach_snd_hghwat k) (drop n data) s1 = Some s'"
    using assms by (auto simp: WriteInLoopThread_def Let_def split: option.splits)
  obtain k1 k2 where k2: "k1 = k \<and> take n data = [] \<or> accepts k (take n data) k1"
    "k2 = k1 \<or> flushes k1 k2" "se_kcp s1 = Some k2"
    by (rule write_direct_core [OF 1(1) assms(3)])
  obtain k' where k': "k' = k2 \<and> drop n data = [] \<or> accepts k2 (drop n data) k'" "se_kcp s' = Some k'"
    by (rule write_rest_core [OF 1(2) k2(3)])
  from core.accept_split [OF assms(4) k2(1,2) k'(1)] that [OF k'(2)] show thesis by simp
qed

lemma append_accepts: "mss_ok k \<Longrightarrow> 0 \<le> len \<Longrightarrow> \<exists>k'. ikcp_append k buf len = Some (0, k')"
  by (simp add: ikcp_append_def ikcp_write_def mss_ok_sint Let_def)

lemma send_result:
  assumes "kcp_inv k" "0 \<le> len"
  shows "\<exists>r k'. ikcp_send k buf len = Some (r, k') \<and>
    (r \<noteq> 0 \<longleftrightarrow> stream k = 0 \<and> 127 * unat (mss k) < length buf)"
  using assms write_count_large [OF kcp_inv_mss [OF assms(1)], of "length buf"]
  by (auto simp: ikcp_send_def ikcp_write_def Let_def IKCP_WND_RCV_unat not_le
      kcp_inv_mss [OF assms(1), unfolded mss_ok_sint])

text \<open>When a write of less than two gigabytes aborts: the part that fits the window is sent as
  one message, and needs more than 127 fragments.\<close>

lemma write_aborts:
  assumes "\<not> se_closed s" "se_kcp s = Some k" "kcp_inv k" "length data < 2 ^ 31"
  shows "WriteInLoopThread h now data s = None \<longleftrightarrow> stream k = 0 \<and> \<not> ikcp_need_drain k \<and>
    127 * unat (mss k) < min (unat (ikcp_available_wnd_in_bytes k)) (length data)"
proof -
  let ?n = "min (unat (ikcp_available_wnd_in_bytes k)) (length data)"
  let ?long = "stream k = 0 \<and> \<not> ikcp_need_drain k \<and> 127 * unat (mss k) < ?n"
  have d: "write_direct h now data k s = None \<longleftrightarrow> ?long"
  proof (cases "ikcp_need_drain k \<or> ?n = 0")
    case True
    then have "write_direct h now data k s = Some (0, s)"
      unfolding write_direct_def Let_def by (metis (no_types))
    then show ?thesis using True by auto
  next
    case False
    obtain r k' where r: "ikcp_send k (take ?n data) (int_of_size ?n) = Some (r, k')"
      "r \<noteq> 0 \<longleftrightarrow> stream k = 0 \<and> 127 * unat (mss k) < ?n"
      using send_result [OF assms(3), of "int_of_size ?n" "take ?n data"] int_of_size_small [of ?n] assms(4)
      by auto
    have "flush_session h now (s\<lparr>se_kcp := Some k'\<rparr>) \<noteq> None"
      by (simp add: flush_session_def split: prod.splits)
    then show ?thesis using False r by (auto simp: write_direct_def Let_def)
  qed
  have w: "write_rest h r rest s1 \<noteq> None"
    if "se_kcp s1 = Some k1" "kcp_inv k1" "length rest < 2 ^ 31" for r rest s1 k1
    using append_accepts [OF kcp_inv_mss [OF that(2)], of "int_of_size (length rest)" rest]
      int_of_size_small [OF that(3)] that(1) by (auto simp: write_rest_def Let_def)
  show ?thesis
  proof (cases "write_direct h now data k s")
    case None
    with d show ?thesis using assms by (simp add: WriteInLoopThread_def Let_def)
  next
    case (Some ns)
    obtain n s1 where ns: "ns = (n, s1)" by (cases ns)
    obtain k1 k2 where k2: "k1 = k \<and> take n data = [] \<or> accepts k (take n data) k1"
      "k2 = k1 \<or> flushes k1 k2" "se_kcp s1 = Some k2"
      by (rule write_direct_core [OF _ assms(2)]) (use Some ns in auto)
    have "kcp_inv k2"
      using core.accept_split [OF assms(3) k2(1,2), of k2 "[]"] by simp
    then have "WriteInLoopThread h now data s \<noteq> None"
      using w [OF k2(3)] Some ns assms by (simp add: WriteInLoopThread_def Let_def)
    moreover have "\<not> ?long" using d Some by simp
    ultimately show ?thesis by blast
  qed
qed

section \<open>Configuration\<close>

text \<open>The parameters that the server and the client give every session.\<close>

definition session_params :: Params where
  "session_params = kFastModeKCPParams\<lparr>p_head_room := int kPublicHeaderLength\<rparr>"

lemma create_fields:
  "stream k = 0 \<Longrightarrow> snd_queue k = [] \<Longrightarrow> snd_buf k = [] \<Longrightarrow> rcv_queue k = [] \<Longrightarrow> rcv_buf k = [] \<Longrightarrow>
   snd_nxt k = 0 \<Longrightarrow> snd_una k = 0 \<Longrightarrow> nrcv_que k = 0 \<Longrightarrow> nrcv_buf k = 0 \<Longrightarrow>
   nsnd_buf k = 0 \<Longrightarrow> ackcount k = 0 \<Longrightarrow> cfg_ok k \<Longrightarrow> unat (snd_wnd k) < 2 ^ 31 \<Longrightarrow>
   unat (rcv_wnd k) < 2 ^ 31 \<Longrightarrow> kcp_inv k"
  by (simp add: kcp_inv_def snd_ready_def rcv_inv_def snd_inv_def rcv_order_def snd_order_def off_def)

definition fresh_kcp :: "u32 \<Rightarrow> ikcpcb" where
  "fresh_kcp sid = (ikcp_create sid)\<lparr>stream := 0, snd_wnd := 128, rcv_wnd := 128, mtu := 1400, mss := 1367,
     buffer_size := 4272, head_room := 9, snd_hghwat := 128, nodelay := 1, rx_minrto := 30,
     interval := 50, fastresend := 3, nocwnd := 1\<rparr>"

lemma configure_value: "configure sid session_params = Some (fresh_kcp sid)"
  by (simp add: fresh_kcp_def configure_def session_params_def kFastModeKCPParams_def kPublicHeaderLength_def
      kDefaultMTUSize_def ikcp_stream_def ikcp_wndsize_def ikcp_setmtu_def ikcp_set_head_room_def
      ikcp_set_snd_hghwat_def ikcp_nodelay_def ikcp_interval_def ikcp_create_def ikcp_consts imax_def)

lemma configure_session:
  obtains k where "configure sid session_params = Some k" "kcp_inv k" "conv k = sid" "mtu k = 1400"
    "mss k = 1367" "head_room k = 9" "snd_wnd k = 128" "rcv_wnd k = 128" "snd_hghwat k = 128"
    "stream k = 0" "snd_queue k = []" "snd_buf k = []" "rcv_queue k = []" "rcv_buf k = []"
    "rmt_wnd k = 128" "nsnd_que k = 0" "nsnd_buf k = 0" "nocwnd k = 1" "state k = 0" "ackcount k = 0"
  by (rule that [OF configure_value])
    (simp_all add: fresh_kcp_def ikcp_create_def ikcp_consts create_fields cfg_ok_def)

section \<open>Steps\<close>

text \<open>What other threads may put into the loop of a session.\<close>

fun foreign_task :: "'a task \<Rightarrow> bool" where
  "foreign_task (Process_packet _ _) = True"
| "foreign_task (Write_data _) = True"
| "foreign_task (Close_session _) = True"
| "foreign_task (Set_error _ _) = True"
| "foreign_task _ = False"

fun task_size :: "'a task \<Rightarrow> nat" where
  "task_size (Process_packet p _) = length (RemainingData p)"
| "task_size _ = 0"

definition acks_room :: "nat \<Rightarrow> 'a session \<Rightarrow> bool" where
  "acks_room n s \<longleftrightarrow> (case se_kcp s of None \<Rightarrow> True | Some k \<Rightarrow> unat (ackcount k) + n < 2 ^ 30)"

lemma acks_room_update [simp]:
  "acks_room n (s\<lparr>se_queue := q\<rparr>) = acks_room n s" "acks_room n (s\<lparr>se_timer := t\<rparr>) = acks_room n s"
  "acks_room n (s\<lparr>se_delayed := d\<rparr>) = acks_room n s"
  by (simp_all add: acks_room_def)

text \<open>
  Code in the loop of the session can call it once it knows it, which is after the connection
  callback: the rules \<open>app_write\<close>, \<open>app_packet\<close> and \<open>app_close\<close> ask that the callback is not
  waiting. The bound on the acknowledgements waiting to be sent (\<open>2 ^ 30\<close> of them take
  eight gigabytes) keeps their counter from wrapping.
\<close>

inductive session_step :: "'a handlers \<Rightarrow> 'a session \<Rightarrow> 'a session \<Rightarrow> bool" for h where
  task: "se_queue s = t # ts \<Longrightarrow> acks_room (task_size t) s \<Longrightarrow>
    run_task h now t (s\<lparr>se_queue := ts\<rparr>) = Some s' \<Longrightarrow> session_step h s s'"
| timer_fires: "se_timer s = Some w \<Longrightarrow> UpdateConnectionState h now (s\<lparr>se_timer := None\<rparr>) = Some s' \<Longrightarrow>
    session_step h s s'"
| delayed: "(ms, fl) \<in> set (se_delayed s) \<Longrightarrow> Connection_up \<notin> set (se_queue s) \<Longrightarrow>
    Close h now fl (s\<lparr>se_delayed := remove1 (ms, fl) (se_delayed s)\<rparr>) = Some s' \<Longrightarrow> session_step h s s'"
| posted: "foreign_task t \<Longrightarrow> session_step h s (enqueue t s)"
| app_write: "Connection_up \<notin> set (se_queue s) \<Longrightarrow> WriteInLoopThread h now data s = Some s' \<Longrightarrow>
    session_step h s s'"
| app_packet: "Connection_up \<notin> set (se_queue s) \<Longrightarrow> acks_room (length (RemainingData p)) s \<Longrightarrow>
    ProcessPacketInLoopThread h p a s = Some s' \<Longrightarrow> session_step h s s'"
| app_error: "Connection_up \<notin> set (se_queue s) \<Longrightarrow> session_step h s (s\<lparr>se_error := (ty, c)\<rparr>)"
| app_close: "Connection_up \<notin> set (se_queue s) \<Longrightarrow> Close h now fl s = Some s' \<Longrightarrow> session_step h s s'"

inductive session_reach :: "'a handlers \<Rightarrow> 'a session \<Rightarrow> bool" for h where
  init: "Initialize h in_loop now sid peer session_params new_session = Some (True, s) \<Longrightarrow>
    session_reach h s"
| step: "session_reach h s \<Longrightarrow> session_step h s s' \<Longrightarrow> session_reach h s'"

inductive_cases session_step_cases: "session_step h s s'"

lemma init_cases:
  assumes "Initialize h in_loop now sid peer session_params new_session = Some (True, s)"
  obtains k s0 s1 where "configure sid session_params = Some k" "kcp_inv k" "ackcount k = 0"
    "s0 = new_session\<lparr>se_kcp := Some k, se_peer := Some peer, se_id := sid, se_base := now\<rparr>"
    "in_loop \<and> connection_up h s0 = Some s1 \<or> \<not> in_loop \<and> s1 = enqueue Connection_up s0"
    "s = enqueue Update_state s1"
proof -
  obtain k where k: "configure sid session_params = Some k" "kcp_inv k" "ackcount k = 0"
    by (rule configure_session)
  let ?s0 = "new_session\<lparr>se_kcp := Some k, se_peer := Some peer, se_id := sid, se_base := now\<rparr>"
  have "map_option (\<lambda>s. (True, enqueue Update_state s))
      (if in_loop then connection_up h ?s0 else Some (enqueue Connection_up ?s0)) = Some (True, s)"
    using assms k(1) by (cases in_loop) (simp_all add: Initialize_def new_session_def Let_def)
  then obtain s1 where "in_loop \<and> connection_up h ?s0 = Some s1 \<or> \<not> in_loop \<and> s1 = enqueue Connection_up ?s0"
    "s = enqueue Update_state s1" by (auto split: if_splits)
  then show thesis by (rule that [OF k refl])
qed

section \<open>Case distinctions\<close>

lemma read_loop_cases:
  assumes "read_loop h s = Some s'"
  obtains (stop) "s' = s"
  | (more) k s1 where "\<not> se_closed s" "se_kcp s = Some k" "\<not> ikcp_peeksize k < 0"
      "OnReadEvent h (ikcp_peeksize k) s = Some s1" "read_loop h s1 = Some s'"
proof (cases "se_closed s \<or> (\<exists>k. se_kcp s = Some k \<and> ikcp_peeksize k < 0)")
  case True
  then have "read_loop h s = Some s" by (subst read_loop.simps) auto
  then show ?thesis using assms stop by simp
next
  case False
  then obtain k where k: "se_kcp s = Some k" "\<not> ikcp_peeksize k < 0"
    using assms by (subst (asm) read_loop.simps) (auto split: option.splits)
  then obtain s1 where "OnReadEvent h (ikcp_peeksize k) s = Some s1" "read_loop h s1 = Some s'"
    using assms False by (subst (asm) read_loop.simps) (auto split: option.splits)
  then show ?thesis using False k by (intro more) auto
qed

lemma process_packet_cases:
  assumes "ProcessPacketInLoopThread h p a s = Some s'"
  obtains (closed) "se_closed s" "s' = s"
  | (bad) k k' where "\<not> se_closed s" "se_kcp s = Some k" "s' = s\<lparr>se_kcp := Some k'\<rparr>"
      "\<exists>r. ikcp_input k (RemainingData p) = Some (r, k')"
  | (good) k k' s1 where "\<not> se_closed s" "se_kcp s = Some k"
      "\<exists>r. ikcp_input k (RemainingData p) = Some (r, k')"
      "read_loop h (s\<lparr>se_kcp := Some k', se_peer := Some a\<rparr>) = Some s1"
      "s' = s1 \<or> s' = enqueue Write_complete s1 \<and> \<not> se_closed s1"
proof (cases "se_closed s")
  case True
  then have "s' = s" using assms by (simp add: ProcessPacketInLoopThread_def)
  with True show ?thesis by (rule closed)
next
  case False
  then obtain k r k' where k: "se_kcp s = Some k" "ikcp_input k (RemainingData p) = Some (r, k')"
    using assms by (auto simp: ProcessPacketInLoopThread_def Let_def split: option.splits)
  show ?thesis
  proof (cases "r < 0")
    case True
    then have "s' = s\<lparr>se_kcp := Some k'\<rparr>"
      using assms False k by (simp add: ProcessPacketInLoopThread_def Let_def)
    then show ?thesis using k by (intro bad [OF False]) auto
  next
    case r: False
    then have "map_option (\<lambda>s. if \<not> se_closed s \<and> ikcp_need_drain k \<and>
        \<not> ikcp_need_drain (the (se_kcp s)) \<and> on_write_complete h \<noteq> None
        then enqueue Write_complete s else s)
        (read_loop h (s\<lparr>se_kcp := Some k', se_peer := Some a\<rparr>)) = Some s'"
      using assms False k by (simp add: ProcessPacketInLoopThread_def Let_def)
    then obtain s1 where "read_loop h (s\<lparr>se_kcp := Some k', se_peer := Some a\<rparr>) = Some s1"
      "s' = s1 \<or> s' = enqueue Write_complete s1 \<and> \<not> se_closed s1"
      by (auto split: if_splits)
    then show ?thesis using k by (intro good [OF False]) auto
  qed
qed

section \<open>Invariants of the control block\<close>

text \<open>
  \<open>sess_holds h P Q s\<close>: the control block exists, it satisfies \<open>P\<close>, every buffer that was handed to
  the output callback satisfies \<open>Q\<close>, and the transmit queue was flushed after the last of
  them where its callback is set. Whatever the operations of the core preserve holds in
  every reachable state of a session: the locale states the preservation laws, and its
  lemmas lift them through the callbacks, the loops and the steps.
\<close>

fun unflushed :: "bool \<Rightarrow> 'a event list \<Rightarrow> bool" where
  "unflushed w [] = w"
| "unflushed w (Ev_output _ _ _ # es) = unflushed True es"
| "unflushed w (Ev_flush_tx # es) = unflushed False es"
| "unflushed w (_ # es) = unflushed w es"

lemma unflushed_append [simp]: "unflushed w (xs @ ys) = unflushed (unflushed w xs) ys"
  by (induction w xs rule: unflushed.induct) simp_all

definition sess_holds :: "'a handlers \<Rightarrow> (ikcpcb \<Rightarrow> bool) \<Rightarrow> (bytes \<Rightarrow> bool) \<Rightarrow> 'a session \<Rightarrow> bool" where
  "sess_holds h P Q s \<longleftrightarrow> (case se_kcp s of None \<Rightarrow> False | Some k \<Rightarrow> P k) \<and>
     (\<forall>ev \<in> set (se_log s). case ev of Ev_output buf _ _ \<Rightarrow> Q buf | _ \<Rightarrow> True) \<and>
     (flush_tx_set h \<longrightarrow> \<not> unflushed False (se_log s))"

lemma sess_holds_update [simp]:
  "sess_holds h P Q (s\<lparr>se_delayed := d\<rparr>) = sess_holds h P Q s"
  "sess_holds h P Q (s\<lparr>se_queue := q\<rparr>) = sess_holds h P Q s" "sess_holds h P Q (s\<lparr>se_timer := t\<rparr>) = sess_holds h P Q s"
  "sess_holds h P Q (s\<lparr>se_input := i\<rparr>) = sess_holds h P Q s" "sess_holds h P Q (s\<lparr>se_error := x\<rparr>) = sess_holds h P Q s"
  "sess_holds h P Q (s\<lparr>se_closed := c\<rparr>) = sess_holds h P Q s" "sess_holds h P Q (s\<lparr>se_peer := p\<rparr>) = sess_holds h P Q s"
  by (simp_all add: sess_holds_def)

fun silent_event :: "'a event \<Rightarrow> bool" where
  "silent_event (Ev_output _ _ _) = False"
| "silent_event Ev_flush_tx = False"
| "silent_event _ = True"

lemma sess_holds_event [simp]:
  "silent_event ev \<Longrightarrow> sess_holds h P Q (emit [ev] s) = sess_holds h P Q s"
  by (cases ev) (auto simp: sess_holds_def)

locale session_invariant =
  fixes P :: "ikcpcb \<Rightarrow> bool" and Q :: "bytes \<Rightarrow> bool"
  assumes P_write: "P k \<Longrightarrow> ikcp_write k b len always = Some (r, k') \<Longrightarrow> P k'"
    and P_flush: "P k \<Longrightarrow> ikcp_flush k now = (w, k', ds) \<Longrightarrow> P k'"
    and Q_flush: "P k \<Longrightarrow> ikcp_flush k now = (w, k', ds) \<Longrightarrow> d \<in> set ds \<Longrightarrow>
      Q (replicate (unat (head_room k)) 0 @ d)"
    and P_input: "P k \<Longrightarrow> ikcp_input k d = Some (r, k') \<Longrightarrow> unat (ackcount k) + length d < 2 ^ 30 \<Longrightarrow> P k'"
    and P_recv: "P k \<Longrightarrow> ikcp_recv k len = Some (r, data, k') \<Longrightarrow> P k'"
    and P_configure: "configure sid session_params = Some k \<Longrightarrow> P k"
begin

lemma holds_kcp: "sess_holds h P Q s \<Longrightarrow> se_kcp s = Some k \<Longrightarrow> P k"
  by (simp add: sess_holds_def)

lemma holds_set: "sess_holds h P Q s \<Longrightarrow> P k \<Longrightarrow> sess_holds h P Q (s\<lparr>se_kcp := Some k\<rparr>)"
  by (simp add: sess_holds_def)

lemma flush_holds:
  assumes "flush_session h now s = Some (w, s')" "sess_holds h P Q s"
  shows "sess_holds h P Q s'"
  using assms(1)
proof (cases rule: flush_session_cases)
  case (1 k k' ds)
  note p = holds_kcp [OF assms(2) 1(1)]
  show ?thesis
    using assms(2) P_flush [OF p 1(2)] Q_flush [OF p 1(2)]
    by (auto simp: sess_holds_def 1(3) OnKCPOutput_def)
qed

lemma write_holds:
  assumes "WriteInLoopThread h now data s = Some s'" "sess_holds h P Q s"
  shows "sess_holds h P Q s'"
proof (cases "se_closed s \<or> se_kcp s = None")
  case True
  with assms show ?thesis by (auto simp: WriteInLoopThread_def split: if_splits)
next
  case False
  then obtain k n s1 where 1: "se_kcp s = Some k" "write_direct h now data k s = Some (n, s1)"
    "write_rest h (ikcp_reach_snd_hghwat k) (drop n data) s1 = Some s'"
    using assms(1) by (auto simp: WriteInLoopThread_def Let_def split: option.splits)
  have s1: "sess_holds h P Q s1"
    using 1(2)
  proof (cases rule: write_direct_cases)
    case (sent k' s2)
    have "P k'" using P_write [OF holds_kcp [OF assms(2) 1(1)]] sent(3) unfolding ikcp_send_def by blast
    note k' = holds_set [OF assms(2) this]
    have "sess_holds h P Q s2" using sent(4)
    proof
      assume "\<exists>w. flush_session h now (s\<lparr>se_kcp := Some k'\<rparr>) = Some (w, s2)"
      then show ?thesis using flush_holds k' by blast
    qed (use k' in auto)
    then show ?thesis using sent(5) by auto
  qed (use assms(2) in simp)
  show ?thesis
    using 1(3)
  proof (cases rule: write_rest_cases)
    case (appended k1 k')
    have "P k'" using P_write [OF holds_kcp [OF s1 appended(2)]] appended(3) unfolding ikcp_append_def by blast
    then show ?thesis using appended(4) holds_set [OF s1] by auto
  qed (use s1 in simp)
qed

lemma close_holds:
  assumes "Close h now fl s = Some s'" "sess_holds h P Q s"
  shows "sess_holds h P Q s'"
proof (cases "se_closed s")
  case False
  obtain s1 where "(if fl then map_option snd (flush_session h now (s\<lparr>se_closed := True, se_timer := None\<rparr>))
      else Some (s\<lparr>se_closed := True, se_timer := None\<rparr>)) = Some s1" "s' = connection_down h s1"
    using assms(1) False by (auto simp: Close_def Let_def split: if_splits)
  moreover from this(1) have "sess_holds h P Q s1"
    using assms(2) flush_holds [of h now "s\<lparr>se_closed := True, se_timer := None\<rparr>"]
    by (auto split: if_splits)
  ultimately show ?thesis
    using connection_down_frame [of h s1] by (auto simp: sess_holds_def down_events_def split: if_splits)
qed (use assms in \<open>simp add: Close_def\<close>)

lemma perform_holds: "perform h cs s = Some s' \<Longrightarrow> sess_holds h P Q s \<Longrightarrow> sess_holds h P Q s'"
  by (induction h cs s rule: perform.induct)
    (auto simp: bind_eq_Some_conv CloseAfterMs_def intro: write_holds close_holds)

lemma read_event_holds:
  assumes "OnReadEvent h n s = Some s'" "sess_holds h P Q s"
  shows "sess_holds h P Q s'"
  using assms(1)
proof (cases rule: read_event_cases)
  case (1 k len data k')
  have k': "P k'" using P_recv [OF holds_kcp [OF assms(2) 1(1)] 1(2)] .
  then have "sess_holds h P Q (s\<lparr>se_kcp := Some k'\<rparr>)"
    "sess_holds h P Q (s\<lparr>se_kcp := Some k', se_log := se_log s @ [Ev_message b], se_input := i\<rparr>)" for b i
    using assms(2) by (auto simp: sess_holds_def)
  then show ?thesis using 1(4) perform_holds by blast
qed

lemma read_loop_holds: "read_loop h s = Some s' \<Longrightarrow> sess_holds h P Q s \<Longrightarrow> sess_holds h P Q s'"
proof (induction h s rule: read_loop.induct)
  case (1 h s)
  show ?case
    using "1.prems"(1)
  proof (cases rule: read_loop_cases)
    case (more k s1)
    then show ?thesis
      using "1.IH" [of k s1] read_event_holds [OF more(4) "1.prems"(2)] by simp
  qed (use "1.prems" in simp)
qed

lemma process_holds:
  assumes "ProcessPacketInLoopThread h p a s = Some s'" "sess_holds h P Q s" "acks_room (length (RemainingData p)) s"
  shows "sess_holds h P Q s'"
  using assms(1)
proof (cases rule: process_packet_cases)
  case closed
  with assms(2) show ?thesis by simp
next
  case (bad k k')
  then have "P k'" using P_input assms holds_kcp by (fastforce simp: acks_room_def)
  with bad(3) show ?thesis using holds_set [OF assms(2)] by simp
next
  case (good k k' s1)
  then have "P k'" using P_input assms holds_kcp by (fastforce simp: acks_room_def)
  then have "sess_holds h P Q (s\<lparr>se_kcp := Some k', se_peer := Some a\<rparr>)"
    using holds_set [OF assms(2)] by simp
  then have "sess_holds h P Q s1" by (rule read_loop_holds [OF good(4)])
  with good(5) show ?thesis by auto
qed

lemma up_holds:
  assumes "connection_up h s = Some s'" "sess_holds h P Q s"
  shows "sess_holds h P Q s'"
proof (cases "on_connection h")
  case (Some f)
  then have "perform h (f (emit [Ev_connection True] s) True) (emit [Ev_connection True] s) = Some s'"
    using assms(1) by (simp add: connection_up_def Let_def)
  then show ?thesis using perform_holds assms(2) by fastforce
qed (use assms in \<open>simp add: connection_up_def\<close>)

lemma update_holds:
  assumes "UpdateConnectionState h now s = Some s'" "sess_holds h P Q s"
  shows "sess_holds h P Q s'"
  using assms flush_holds close_holds
  by (auto simp: UpdateConnectionState_def split: if_splits option.splits)

lemma run_task_holds:
  assumes "run_task h now t s = Some s'" "sess_holds h P Q s" "acks_room (task_size t) s"
  shows "sess_holds h P Q s'"
proof (cases t)
  case Write_complete
  then obtain cs where "perform h cs (emit [Ev_write_complete] s) = Some s'"
    using assms(1) by (auto simp: run_task_def Let_def split: option.splits)
  then show ?thesis using perform_holds assms(2) by fastforce
next
  case (High_water w)
  then obtain cs where "perform h cs (emit [Ev_high_water w] s) = Some s'"
    using assms(1) by (auto simp: run_task_def Let_def split: option.splits)
  then show ?thesis using perform_holds assms(2) by fastforce
next
  case (Process_packet p a)
  then show ?thesis using assms process_holds [of h p a s s'] by (simp add: run_task_def)
next
  case (Set_error ty c)
  then show ?thesis using assms by (auto simp: run_task_def)
qed (use assms up_holds update_holds write_holds close_holds in \<open>simp_all add: run_task_def\<close>)

lemma step_holds:
  assumes "session_step h s s'" "sess_holds h P Q s"
  shows "sess_holds h P Q s'"
  using assms(1)
proof cases
  case (task t ts now)
  then show ?thesis using run_task_holds [OF task(3)] assms(2) by simp
next
  case (timer_fires w now)
  then show ?thesis using update_holds [OF timer_fires(2)] assms(2) by simp
next
  case (delayed ms fl now)
  then show ?thesis using close_holds [OF delayed(3)] assms(2) by simp
next
  case (app_packet p a)
  then show ?thesis using process_holds [OF app_packet(3) assms(2)] by simp
qed (use assms(2) write_holds close_holds in auto)

lemma reach_holds:
  assumes "session_reach h s"
  shows "sess_holds h P Q s"
  using assms
proof induction
  case (init in_loop now sid peer s)
  from init show ?case
  proof (cases rule: init_cases)
    case (1 k s0 s1)
    then have "sess_holds h P Q s0" using P_configure by (simp add: sess_holds_def new_session_def)
    then have "sess_holds h P Q s1" using 1(5) up_holds by auto
    then show ?thesis using 1(6) by simp
  qed
next
  case (step s s')
  then show ?case using step_holds by blast
qed

end

text \<open>The invariant of the core, and the room for the header: with the parameters of the server
  and the client every buffer handed to the output callback starts with the nine bytes of the
  public header and is at most \<open>kMaxPacketSize\<close> long.\<close>

definition framed_inv :: "ikcpcb \<Rightarrow> bool" where
  "framed_inv k \<longleftrightarrow> kcp_inv k \<and> head_room k = 9 \<and> mtu k = 1400"

definition frame_fits :: "bytes \<Rightarrow> bool" where
  "frame_fits buf \<longleftrightarrow> kPublicHeaderLength < length buf \<and> length buf \<le> kMaxPacketSize"

interpretation framed: session_invariant framed_inv frame_fits
proof unfold_locales
  fix k b len always r k' assume a: "framed_inv k" "ikcp_write k b len always = Some (r, k')"
  have "head_room k' = head_room k" "mtu k' = mtu k" by (subst write_frame [OF a(2)], simp)+
  with a show "framed_inv k'" using kcp_inv_write by (auto simp: framed_inv_def)
next
  fix k now w k' ds d assume a: "framed_inv k" "ikcp_flush k now = (w, k', ds)"
  have i: "cfg_ok k" "unat (ackcount k) < 2 ^ 31" "snd_ready k"
    using a(1) kcp_inv_cfg kcp_inv_acks kcp_inv_ready by (auto simp: framed_inv_def)
  note sp = flush_spec [OF i a(2)]
  show "framed_inv k'" using a sp(9) kcp_inv_flush by (auto simp: framed_inv_def)
  assume "d \<in> set ds"
  then obtain ss where "d = wire_bytes ss" "ss \<noteq> []" "fits k ss" using sp(10) by auto
  then show "frame_fits (replicate (unat (head_room k)) 0 @ d)"
    using a(1) wire_bytes_empty [of ss]
    by (auto simp: framed_inv_def fits_def frame_fits_def kPublicHeaderLength_def kMaxPacketSize_def)
next
  fix k d r k' assume a: "framed_inv k" "ikcp_input k d = Some (r, k')" "unat (ackcount k) + length d < 2 ^ 30"
  have "cfg_view k' = cfg_view k" using sender_of_input [OF a(2)] by (simp add: sender_of_def)
  with a show "framed_inv k'" using kcp_inv_input by (auto simp: framed_inv_def cfg_view_def)
next
  fix k len r data k' assume a: "framed_inv k" "ikcp_recv k len = Some (r, data, k')"
  have "cfg_view k' = cfg_view k" using recv_snd(1) [OF a(2)] by (simp add: sender_of_def)
  with a show "framed_inv k'" using kcp_inv_recv by (auto simp: framed_inv_def cfg_view_def)
next
  fix sid k assume "configure sid session_params = Some k"
  then show "framed_inv k"
    using configure_session [of sid] by (metis framed_inv_def option.inject)
qed

lemma reach_kcp:
  assumes "session_reach h s"
  obtains k where "se_kcp s = Some k" "kcp_inv k"
  using framed.reach_holds [OF assms] that
  by (auto simp: sess_holds_def framed_inv_def split: option.splits)

section \<open>The protocol of the callbacks\<close>

text \<open>
  The events of a session in the order its user sees them: the connection comes up, data is
  read, sent and reported, the connection goes down once, and after that only notifications
  that were already queued arrive.
\<close>

datatype phase = Before | Up | Down

fun life_step :: "phase \<Rightarrow> 'a event \<Rightarrow> phase option" where
  "life_step Before (Ev_connection b) = (if b then Some Up else None)"
| "life_step Before _ = None"
| "life_step Up (Ev_connection b) = (if b then None else Some Down)"
| "life_step Up _ = Some Up"
| "life_step Down Ev_write_complete = Some Down"
| "life_step Down (Ev_high_water _) = Some Down"
| "life_step Down _ = None"

fun life :: "phase \<Rightarrow> 'a event list \<Rightarrow> phase option" where
  "life ph [] = Some ph"
| "life ph (e # es) = (case life_step ph e of None \<Rightarrow> None | Some ph' \<Rightarrow> life ph' es)"

lemma life_append: "life ph (xs @ ys) = Option.bind (life ph xs) (\<lambda>ph. life ph ys)"
  by (induction xs arbitrary: ph) (auto split: option.split)

fun active_event :: "'a event \<Rightarrow> bool" where
  "active_event (Ev_connection _) = False"
| "active_event _ = True"

fun late_event :: "'a event \<Rightarrow> bool" where
  "late_event Ev_write_complete = True"
| "late_event (Ev_high_water _) = True"
| "late_event _ = False"

lemma life_active: "list_all active_event es \<Longrightarrow> life Up es = Some Up"
proof (induction es)
  case (Cons e es)
  then show ?case by (cases e) auto
qed simp

lemma life_late: "list_all late_event es \<Longrightarrow> life Down es = Some Down"
proof (induction es)
  case (Cons e es)
  then show ?case by (cases e) auto
qed simp

lemma wire_active: "list_all wire_event es \<Longrightarrow> list_all active_event es"
proof (induction es)
  case (Cons e es)
  then show ?case by (cases e) auto
qed simp

lemma notify_not_up: "list_all notify_task ts \<Longrightarrow> Connection_up \<notin> set ts"
  by (induction ts) auto

text \<open>What one operation adds to the history, as far as the callbacks' protocol goes.\<close>

definition proceeds :: "'a handlers \<Rightarrow> 'a session \<Rightarrow> 'a session \<Rightarrow> bool" where
  "proceeds h s s' \<longleftrightarrow> se_id s' = se_id s \<and>
     (\<exists>ts. se_queue s' = se_queue s @ ts \<and> Connection_up \<notin> set ts) \<and>
     (if se_closed s then se_closed s' \<and> (\<exists>es. list_all late_event es \<and> se_log s' = se_log s @ es)
      else \<exists>es. list_all active_event es \<and>
        se_log s' = se_log s @ es @ (if se_closed s' then down_events h else []))"

lemma proceeds_refl: "proceeds h s s"
  by (auto simp: proceeds_def intro!: exI [of _ "[]"])

lemma proceeds_evolves:
  assumes "evolves h s s'"
  shows "proceeds h s s'"
proof (cases "se_closed s")
  case True
  with assms show ?thesis
    by (auto simp: evolves_def proceeds_def same_identity_def intro!: exI [of _ "[]"])
next
  case False
  with assms obtain es ts where "list_all wire_event es" "list_all notify_task ts"
    "se_queue s' = se_queue s @ ts"
    "se_log s' = se_log s @ es @ (if se_closed s' then down_events h else [])"
    by (auto simp: evolves_def)
  moreover have "se_id s' = se_id s" using assms by (simp add: evolves_def same_identity_def)
  ultimately show ?thesis
    using False notify_not_up wire_active by (auto simp: proceeds_def simp del: append_assoc)
qed

lemma proceeds_trans:
  assumes "proceeds h s1 s2" "proceeds h s2 s3" "se_closed s1 \<or> \<not> se_closed s2 \<or> se_log s3 = se_log s2"
  shows "proceeds h s1 s3"
proof -
  have q: "se_id s3 = se_id s1" "\<exists>ts. se_queue s3 = se_queue s1 @ ts \<and> Connection_up \<notin> set ts"
    using assms(1,2) by (auto simp: proceeds_def)
  show ?thesis
  proof (cases "se_closed s1 \<or> se_closed s2")
    case True
    then show ?thesis
      using q assms by (auto simp: proceeds_def split: if_splits)
  next
    case False
    with assms obtain es1 es2 where "list_all active_event (es1 @ es2)"
      "se_log s3 = se_log s1 @ (es1 @ es2) @ (if se_closed s3 then down_events h else [])"
      by (auto simp: proceeds_def)
    then show ?thesis using q False unfolding proceeds_def by auto
  qed
qed

lemma proceeds_then_evolves: "proceeds h s1 s2 \<Longrightarrow> evolves h s2 s3 \<Longrightarrow> proceeds h s1 s3"
  by (rule proceeds_trans [OF _ proceeds_evolves]) (auto simp: evolves_def)

lemma proceeds_silent:
  "se_queue s' = se_queue s \<Longrightarrow> se_log s' = se_log s \<Longrightarrow> se_closed s' = se_closed s \<Longrightarrow>
   se_id s' = se_id s \<Longrightarrow> proceeds h s s'"
  by (auto simp: proceeds_def intro!: exI [of _ "[]"])

lemma proceeds_read_event:
  assumes "OnReadEvent h n s = Some s'" "\<not> se_closed s"
  shows "proceeds h s s'"
  using assms(1)
proof (cases rule: read_event_cases)
  case (1 k len data k')
  from 1(4) show ?thesis
  proof
    assume "on_message h = None \<and> s' = s\<lparr>se_kcp := Some k'\<rparr>"
    then show ?thesis by (simp add: proceeds_silent)
  next
    assume "\<exists>f taken calls b. on_message h = Some f \<and> b = se_input s @ data \<and>
        f (s\<lparr>se_kcp := Some k', se_input := b, se_log := se_log s @ [Ev_message b]\<rparr>) = (calls, taken) \<and>
        perform h calls (s\<lparr>se_kcp := Some k', se_log := se_log s @ [Ev_message b], se_input := drop taken b\<rparr>) = Some s'"
    then obtain calls b i where p:
      "perform h calls (s\<lparr>se_kcp := Some k', se_log := se_log s @ [Ev_message b], se_input := i\<rparr>) = Some s'"
      by blast
    have "proceeds h s (s\<lparr>se_kcp := Some k', se_log := se_log s @ [Ev_message b], se_input := i\<rparr>)"
      using assms(2) by (auto simp: proceeds_def intro!: exI [of _ "[Ev_message b]"])
    then show ?thesis by (rule proceeds_then_evolves [OF _ evolves_perform [OF p]])
  qed
qed

lemma proceeds_read_loop: "read_loop h s = Some s' \<Longrightarrow> proceeds h s s'"
proof (induction h s rule: read_loop.induct)
  case (1 h s)
  from "1.prems" show ?case
  proof (cases rule: read_loop_cases)
    case stop
    then show ?thesis by (simp add: proceeds_refl)
  next
    case (more k s1)
    have 1: "proceeds h s s1" by (rule proceeds_read_event [OF more(4,1)])
    have 2: "proceeds h s1 s'" using "1.IH" [of k s1] more by simp
    show ?thesis
    proof (cases "se_closed s1")
      case True
      then have "s' = s1" using more(5) by (simp add: read_loop.simps [of h s1])
      with 1 show ?thesis by simp
    qed (use 1 2 proceeds_trans in blast)
  qed
qed

lemma proceeds_process:
  assumes "ProcessPacketInLoopThread h p a s = Some s'"
  shows "proceeds h s s'"
  using assms
proof (cases rule: process_packet_cases)
  case (good k k' s1)
  have "proceeds h s (s\<lparr>se_kcp := Some k', se_peer := Some a\<rparr>)" by (simp add: proceeds_silent)
  then have 1: "proceeds h s s1"
    using proceeds_read_loop [OF good(4)] by (rule proceeds_trans) (simp add: good(1))
  show ?thesis
  proof (cases "s' = s1")
    case False
    then have "evolves h s1 s'" using good(5) by (auto intro: evolves_notify)
    with 1 show ?thesis by (rule proceeds_then_evolves)
  qed (use 1 in simp)
qed (simp_all add: proceeds_refl proceeds_silent)

lemma proceeds_update:
  assumes "UpdateConnectionState h now s = Some s'"
  shows "proceeds h s s'"
proof (cases "se_closed s \<or> (\<exists>k. se_kcp s = Some k \<and> \<not> ikcp_is_alive k)")
  case True
  with assms evolves_close(1) [of h now False s s'] show ?thesis
    by (auto simp: UpdateConnectionState_def intro: proceeds_refl proceeds_evolves split: if_splits option.splits)
next
  case False
  then obtain w s1 where s1: "flush_session h now s = Some (w, s1)" "s' = s1\<lparr>se_timer := Some w\<rparr>"
    using assms by (auto simp: UpdateConnectionState_def split: if_splits option.splits)
  have "proceeds h s s1" using proceeds_evolves [OF evolves_flush [OF s1(1)]] False by simp
  moreover have "proceeds h s1 s'" using s1(2) by (simp add: proceeds_silent)
  ultimately show ?thesis by (rule proceeds_trans) (simp add: s1(2))
qed

text \<open>The invariant: either the connection callback still waits as the first functor and nothing
  happened, or the events follow the protocol and the session is closed exactly in its last
  phase.\<close>

definition life_inv :: "'a session \<Rightarrow> bool" where
  "life_inv s \<longleftrightarrow>
     (\<exists>ts. se_queue s = Connection_up # ts \<and> Connection_up \<notin> set ts \<and> se_log s = [] \<and>
        \<not> se_closed s \<and> se_timer s = None) \<or>
     Connection_up \<notin> set (se_queue s) \<and> life Before (se_log s) = Some (if se_closed s then Down else Up)"

lemma life_inv_proceeds:
  assumes "life_inv s" "Connection_up \<notin> set (se_queue s)" "proceeds h s s'" "on_connection h \<noteq> None"
  shows "life_inv s' \<and> Connection_up \<notin> set (se_queue s')"
proof -
  have l: "life Before (se_log s) = Some (if se_closed s then Down else Up)"
    using assms(1,2) by (auto simp: life_inv_def)
  have q: "Connection_up \<notin> set (se_queue s')" using assms(2,3) by (auto simp: proceeds_def)
  have "life Before (se_log s') = Some (if se_closed s' then Down else Up)"
  proof (cases "se_closed s")
    case True
    then obtain es where "list_all late_event es" "se_log s' = se_log s @ es" "se_closed s'"
      using assms(3) by (auto simp: proceeds_def)
    then show ?thesis using l True life_late by (simp add: life_append)
  next
    case False
    then obtain es where "list_all active_event es"
      "se_log s' = se_log s @ es @ (if se_closed s' then down_events h else [])"
      using assms(3) by (auto simp: proceeds_def)
    then show ?thesis using l False life_active assms(4) by (auto simp: life_append down_events_def)
  qed
  then show ?thesis using q by (simp add: life_inv_def)
qed

lemma up_life:
  assumes "connection_up h s = Some s'" "on_connection h \<noteq> None" "se_log s = []" "\<not> se_closed s"
    and "Connection_up \<notin> set (se_queue s)"
  shows "life_inv s' \<and> Connection_up \<notin> set (se_queue s')"
proof -
  let ?s = "emit [Ev_connection True] s"
  obtain cs where "perform h cs ?s = Some s'"
    using assms(1,2) by (auto simp: connection_up_def Let_def)
  then have "proceeds h ?s s'" using proceeds_evolves evolves_perform by blast
  moreover have "life_inv ?s" using assms by (simp add: life_inv_def)
  ultimately show ?thesis using life_inv_proceeds [of ?s h s'] assms by simp
qed

lemma proceeds_task:
  assumes "run_task h now t s = Some s'" "t \<noteq> Connection_up"
  shows "\<exists>s1. proceeds h s s1 \<and> proceeds h s1 s'"
proof -
  have note1: "\<exists>s1. proceeds h s s1 \<and> proceeds h s1 s'"
    if a: "late_event e" "perform h cs (emit [e] s) = Some s'" for e cs
  proof (intro exI conjI)
    have "active_event e" using a(1) by (cases e) auto
    with a(1) show "proceeds h s (emit [e] s)"
      by (auto simp: proceeds_def intro!: exI [of _ "[e]"])
    show "proceeds h (emit [e] s) s'" using proceeds_evolves evolves_perform a(2) by blast
  qed
  show ?thesis
  proof (cases t)
    case Write_complete
    then obtain cs where "perform h cs (emit [Ev_write_complete] s) = Some s'"
      using assms(1) by (auto simp: run_task_def Let_def split: option.splits)
    then show ?thesis by (rule note1 [rotated]) simp
  next
    case (High_water w)
    then obtain cs where "perform h cs (emit [Ev_high_water w] s) = Some s'"
      using assms(1) by (auto simp: run_task_def Let_def split: option.splits)
    then show ?thesis by (rule note1 [rotated]) simp
  next
    case (Set_error ty c)
    then have "proceeds h s s'" using assms(1) by (auto simp: run_task_def intro: proceeds_silent)
    then show ?thesis using proceeds_refl by blast
  next
    case (Close_session fl)
    then have "proceeds h s s'" using assms(1) proceeds_evolves evolves_close(1) by (simp add: run_task_def) blast
    then show ?thesis using proceeds_refl by blast
  next
    case (Write_data d)
    then have "proceeds h s s'" using assms(1) proceeds_evolves evolves_write by (simp add: run_task_def) blast
    then show ?thesis using proceeds_refl by blast
  next
    case (Process_packet p a)
    then have "proceeds h s s'" using assms(1) proceeds_process [of h p a s s'] by (simp add: run_task_def)
    then show ?thesis using proceeds_refl by blast
  next
    case Update_state
    then have "proceeds h s s'" using assms(1) proceeds_update by (simp add: run_task_def) blast
    then show ?thesis using proceeds_refl by blast
  qed (use assms(2) in simp)
qed

text \<open>A step keeps the identifier, and the connection callback never waits a second time.\<close>

lemma up_evolves:
  assumes "connection_up h s = Some s'"
  shows "\<exists>l. evolves h (s\<lparr>se_log := l\<rparr>) s'"
proof (cases "on_connection h")
  case None
  then have "s' = s\<lparr>se_log := se_log s\<rparr>" using assms by (simp add: connection_up_def)
  then show ?thesis using evolves_refl by metis
next
  case (Some f)
  then have "perform h (f (emit [Ev_connection True] s) True) (emit [Ev_connection True] s) = Some s'"
    using assms by (simp add: connection_up_def Let_def)
  then show ?thesis by (intro exI) (rule evolves_perform)
qed

lemma evolves_id: "evolves h s s' \<Longrightarrow> se_id s' = se_id s"
  by (simp add: evolves_def same_identity_def)

lemma step_identity:
  assumes "session_step h s s'"
  shows "se_id s' = se_id s \<and> (Connection_up \<notin> set (se_queue s) \<longrightarrow> Connection_up \<notin> set (se_queue s')) \<and>
    (se_closed s \<longrightarrow> se_closed s')"
proof -
  have p: "se_id s2 = se_id s1 \<and> (Connection_up \<notin> set (se_queue s1) \<longrightarrow> Connection_up \<notin> set (se_queue s2)) \<and>
    (se_closed s1 \<longrightarrow> se_closed s2)"
    if "proceeds h s1 s2" for s1 s2
    using that by (auto simp: proceeds_def)
  from assms show ?thesis
  proof cases
    case (task t ts now)
    let ?s = "s\<lparr>se_queue := ts\<rparr>"
    show ?thesis
    proof (cases "t = Connection_up")
      case True
      then have "connection_up h ?s = Some s'" using task(3) by (simp add: run_task_def)
      from up_evolves [OF this] obtain l where "evolves h (?s\<lparr>se_log := l\<rparr>) s'" ..
      then have "se_id s' = se_id s \<and> (se_closed s \<longrightarrow> se_closed s')"
        by (auto simp: evolves_def same_identity_def split: if_splits)
      then show ?thesis using True task(1) by simp
    next
      case False
      then show ?thesis using proceeds_task [OF task(3)] p task(1) by fastforce
    qed
  next
    case (timer_fires w now)
    then show ?thesis using p [OF proceeds_update [OF timer_fires(2)]] by simp
  next
    case (delayed ms fl now)
    then show ?thesis using p [OF proceeds_evolves [OF evolves_close(1) [OF delayed(3)]]] by simp
  next
    case (posted t)
    then show ?thesis by auto
  next
    case (app_write now data)
    then show ?thesis using p [OF proceeds_evolves [OF evolves_write]] by blast
  next
    case (app_packet q a)
    then show ?thesis using p [OF proceeds_process [OF app_packet(3)]] by simp
  next
    case (app_error ty c)
    then show ?thesis by simp
  next
    case (app_close now fl)
    then show ?thesis using p [OF proceeds_evolves [OF evolves_close(1)]] by blast
  qed
qed

lemma life_inv_update [simp]:
  "life_inv (s\<lparr>se_delayed := d\<rparr>) = life_inv s"
  by (simp add: life_inv_def)

lemma life_step_inv:
  assumes "session_step h s s'" "life_inv s" "on_connection h \<noteq> None"
  shows "life_inv s'"
  using assms(1)
proof cases
  case (task t ts now)
  let ?s = "s\<lparr>se_queue := ts\<rparr>"
  show ?thesis
  proof (cases "t = Connection_up")
    case True
    then have "connection_up h ?s = Some s'" "Connection_up \<notin> set ts" "se_log s = []" "\<not> se_closed s"
      using task assms(2) by (auto simp: run_task_def life_inv_def)
    then show ?thesis using up_life [of h ?s s'] assms(3) by simp
  next
    case False
    then have n: "Connection_up \<notin> set ts" "life_inv ?s"
      using task(1) assms(2) by (auto simp: life_inv_def)
    obtain s1 where "proceeds h ?s s1" "proceeds h s1 s'"
      using proceeds_task [OF task(3) False] by blast
    then show ?thesis using life_inv_proceeds [of ?s h s1] life_inv_proceeds [of s1 h s'] n assms(3) by simp
  qed
next
  case (timer_fires w now)
  then have "Connection_up \<notin> set (se_queue s)" using assms(2) by (auto simp: life_inv_def)
  moreover from this have "life_inv (s\<lparr>se_timer := None\<rparr>)" using assms(2) by (auto simp: life_inv_def)
  ultimately show ?thesis
    using life_inv_proceeds [OF _ _ proceeds_update [OF timer_fires(2)]] assms(3) by simp
next
  case (delayed ms fl now)
  then show ?thesis
    using life_inv_proceeds [OF _ _ proceeds_evolves [OF evolves_close(1) [OF delayed(3)]]] assms(2,3) by simp
next
  case (posted t)
  have "t \<noteq> Connection_up" using posted(2) by auto
  then show ?thesis using posted(1) assms(2) by (auto simp: life_inv_def)
next
  case (app_write now data)
  then show ?thesis
    using life_inv_proceeds [OF assms(2) _ proceeds_evolves [OF evolves_write]] assms(3) by blast
next
  case (app_packet p a)
  then show ?thesis using life_inv_proceeds [OF assms(2) _ proceeds_process [OF app_packet(3)]] assms(3) by simp
next
  case (app_error ty c)
  then show ?thesis using assms(2) by (simp add: life_inv_def)
next
  case (app_close now fl)
  then show ?thesis
    using life_inv_proceeds [OF assms(2) _ proceeds_evolves [OF evolves_close(1)]] assms(3) by blast
qed

lemma reach_life:
  assumes "session_reach h s" "on_connection h \<noteq> None"
  shows "life_inv s"
  using assms(1)
proof induction
  case (init in_loop now sid peer s)
  from init show ?case
  proof (cases rule: init_cases)
    case (1 k s0 s1)
    have s0: "se_log s0 = []" "\<not> se_closed s0" "se_queue s0 = []" "se_timer s0 = None"
      using 1(4) by (simp_all add: new_session_def)
    show ?thesis
    proof (cases in_loop)
      case True
      then have "life_inv s1 \<and> Connection_up \<notin> set (se_queue s1)"
        using up_life [of h s0 s1] 1(5) assms(2) s0 by simp
      then show ?thesis using 1(6) by (auto simp: life_inv_def)
    next
      case False
      then show ?thesis using 1(5,6) s0 by (simp add: life_inv_def)
    qed
  qed
next
  case (step s s')
  then show ?case using life_step_inv assms(2) by blast
qed

text \<open>A session as it comes out of \<open>Initialize\<close>.\<close>

lemma fresh_session:
  assumes "Initialize h in_loop now sid peer session_params new_session = Some (True, s)"
  shows "se_id s = sid" "n < 2 ^ 30 \<Longrightarrow> acks_room n s"
    "in_loop \<Longrightarrow> Connection_up \<notin> set (se_queue s)" "se_kcp s \<noteq> None"
proof -
  from assms have "se_id s = sid \<and> (n < 2 ^ 30 \<longrightarrow> acks_room n s) \<and>
    (in_loop \<longrightarrow> Connection_up \<notin> set (se_queue s)) \<and> se_kcp s \<noteq> None"
  proof (cases rule: init_cases)
    case (1 k s0 s1)
    have s0: "se_kcp s0 = Some k" "se_id s0 = sid" "se_queue s0 = []" "\<not> se_closed s0"
      by (simp_all add: 1(4) new_session_def)
    show ?thesis
    proof (cases in_loop)
      case True
      then obtain l where l: "evolves h (s0\<lparr>se_log := l\<rparr>) s1" using up_evolves 1(5) by blast
      then obtain k1 where k1: "se_kcp s1 = Some k1" "ackcount k1 \<le> ackcount k"
        by (cases "se_kcp s1") (auto simp: evolves_def same_identity_def s0 kcp_calm_def)
      moreover have "Connection_up \<notin> set (se_queue s1)"
        using proceeds_evolves [OF l] by (auto simp: proceeds_def s0)
      ultimately show ?thesis
        using evolves_id [OF l] 1(3,6) s0 by (simp add: acks_room_def)
    next
      case False
      then show ?thesis using 1(3,5,6) s0 by (simp add: acks_room_def)
    qed
  qed
  then show "se_id s = sid" "n < 2 ^ 30 \<Longrightarrow> acks_room n s"
    "in_loop \<Longrightarrow> Connection_up \<notin> set (se_queue s)" "se_kcp s \<noteq> None" by auto
qed

end
