(* ===== verification/Kcp_Match.thy ===== *)
theory Kcp_Match
  imports Kcp_Session_Life
begin

text \<open>
  The session as an implementation of one end of the protocol. The core is described by a
  relation \<open>R k ds w r\<close>: the control block \<open>k\<close> has sent the datagrams \<open>ds\<close>, has been given the
  bytes \<open>w\<close> to send and has delivered the bytes \<open>r\<close>. The locale states how the operations of the
  core move along \<open>R\<close>, and lifts that to the session: to writes, callbacks, timers, the reading
  loop and every step, with the datagrams and messages read off the log of the session.
\<close>

section \<open>What the log says\<close>

text \<open>The datagrams of the core: what was handed to the output callback, without the room for the
  public header, which the peer reads off again.\<close>

fun frames :: "'a event list \<Rightarrow> bytes list" where
  "frames [] = []"
| "frames (Ev_output buf _ _ # es) = drop kPublicHeaderLength buf # frames es"
| "frames (_ # es) = frames es"

fun messages :: "'a event list \<Rightarrow> bytes" where
  "messages [] = []"
| "messages (Ev_message buf # es) = buf @ messages es"
| "messages (_ # es) = messages es"

lemma frames_append [simp]: "frames (xs @ ys) = frames xs @ frames ys"
  by (induction xs rule: frames.induct) simp_all

lemma messages_append [simp]: "messages (xs @ ys) = messages xs @ messages ys"
  by (induction xs rule: messages.induct) simp_all

lemma frames_output:
  "head_room k = 9 \<Longrightarrow> frames (map (OnKCPOutput k s) ds) = ds" "messages (map (OnKCPOutput k s) ds) = []"
  by (induction ds) (simp_all add: OnKCPOutput_def kPublicHeaderLength_def)

lemma down_events_empty [simp]: "frames (down_events h) = []" "messages (down_events h) = []"
  by (simp_all add: down_events_def)

section \<open>What is written\<close>

text \<open>The bytes that the calls of a callback give to an open session: what they write before they
  close it.\<close>

fun calls_bytes :: "bool \<Rightarrow> call list \<Rightarrow> bytes" where
  "calls_bytes closed [] = []"
| "calls_bytes closed (Call_write _ data # cs) = (if closed then [] else data) @ calls_bytes closed cs"
| "calls_bytes closed (Call_close _ _ # cs) = calls_bytes True cs"
| "calls_bytes closed (Call_close_after _ _ # cs) = calls_bytes closed cs"

definition up_bytes :: "'a handlers \<Rightarrow> 'a session \<Rightarrow> bytes" where
  "up_bytes h s = (case on_connection h of None \<Rightarrow> []
     | Some f \<Rightarrow> calls_bytes (se_closed s) (f (emit [Ev_connection True] s) True))"

definition task_bytes :: "'a handlers \<Rightarrow> 'a task \<Rightarrow> 'a session \<Rightarrow> bytes" where
  "task_bytes h t s = (case t of
       Connection_up \<Rightarrow> up_bytes h s
     | Write_complete \<Rightarrow> (case on_write_complete h of None \<Rightarrow> []
         | Some f \<Rightarrow> calls_bytes (se_closed s) (f (emit [Ev_write_complete] s)))
     | High_water w \<Rightarrow> (case on_high_water h of None \<Rightarrow> []
         | Some f \<Rightarrow> calls_bytes (se_closed s) (f (emit [Ev_high_water w] s) w))
     | Write_data d \<Rightarrow> (if se_closed s then [] else d)
     | _ \<Rightarrow> [])"

text \<open>What the connection callback writes when \<open>Initialize\<close> runs it at once.\<close>

definition open_bytes :: "'a handlers \<Rightarrow> bool \<Rightarrow> int \<Rightarrow> u32 \<Rightarrow> 'a \<Rightarrow> bytes" where
  "open_bytes h in_loop now sid peer = (if in_loop then up_bytes h (new_session\<lparr>
     se_kcp := Some (fresh_kcp sid), se_peer := Some peer, se_id := sid, se_base := now\<rparr>) else [])"

lemma calls_bytes_closed [simp]: "calls_bytes True cs = []"
  by (induction "True" cs rule: calls_bytes.induct) simp_all

text \<open>A reader whose message callback takes all it is given and writes nothing.\<close>

definition takes_all :: "'a handlers \<Rightarrow> bool" where
  "takes_all h \<longleftrightarrow> (\<exists>f. on_message h = Some f \<and>
     (\<forall>s. calls_bytes False (fst (f s)) = [] \<and> length (se_input s) \<le> snd (f s)))"

section \<open>Steps with labels\<close>

fun task_packets :: "'a task \<Rightarrow> bytes set" where
  "task_packets (Process_packet p _) = {RemainingData p}"
| "task_packets _ = {}"

text \<open>\<open>session_act h D w s s'\<close>: a step of \<open>session_step\<close> in which the session is given the bytes \<open>w\<close>,
  and takes no datagram that is not in \<open>D\<close>.\<close>

inductive session_act :: "'a handlers \<Rightarrow> bytes set \<Rightarrow> bytes \<Rightarrow> 'a session \<Rightarrow> 'a session \<Rightarrow> bool" for h D where
  task: "se_queue s = t # ts \<Longrightarrow> acks_room (task_size t) s \<Longrightarrow> task_packets t \<subseteq> D \<Longrightarrow>
    run_task h now t (s\<lparr>se_queue := ts\<rparr>) = Some s' \<Longrightarrow>
    session_act h D (task_bytes h t (s\<lparr>se_queue := ts\<rparr>)) s s'"
| timer_fires: "se_timer s = Some w \<Longrightarrow> UpdateConnectionState h now (s\<lparr>se_timer := None\<rparr>) = Some s' \<Longrightarrow>
    session_act h D [] s s'"
| delayed: "(ms, fl) \<in> set (se_delayed s) \<Longrightarrow> Connection_up \<notin> set (se_queue s) \<Longrightarrow>
    Close h now fl (s\<lparr>se_delayed := remove1 (ms, fl) (se_delayed s)\<rparr>) = Some s' \<Longrightarrow> session_act h D [] s s'"
| posted: "foreign_task t \<Longrightarrow> session_act h D [] s (enqueue t s)"
| app_write: "Connection_up \<notin> set (se_queue s) \<Longrightarrow> WriteInLoopThread h now data s = Some s' \<Longrightarrow>
    session_act h D (if se_closed s then [] else data) s s'"
| app_packet: "Connection_up \<notin> set (se_queue s) \<Longrightarrow> acks_room (length (RemainingData p)) s \<Longrightarrow>
    RemainingData p \<in> D \<Longrightarrow> ProcessPacketInLoopThread h p a s = Some s' \<Longrightarrow> session_act h D [] s s'"
| app_error: "Connection_up \<notin> set (se_queue s) \<Longrightarrow> session_act h D [] s (s\<lparr>se_error := (ty, c)\<rparr>)"
| app_close: "Connection_up \<notin> set (se_queue s) \<Longrightarrow> Close h now fl s = Some s' \<Longrightarrow> session_act h D [] s s'"

lemma act_step: "session_act h D w s s' \<Longrightarrow> session_step h s s'"
  by (induction rule: session_act.induct) (rule session_step.intros; assumption)+

lemma write_closed: "WriteInLoopThread h now data s = Some s' \<Longrightarrow> se_closed s' = se_closed s"
proof (cases "se_closed s")
  case False
  assume "WriteInLoopThread h now data s = Some s'"
  then obtain k n s1 where 1: "se_kcp s = Some k" "write_direct h now data k s = Some (n, s1)"
    "write_rest h (ikcp_reach_snd_hghwat k) (drop n data) s1 = Some s'"
    using False by (auto simp: WriteInLoopThread_def Let_def split: option.splits)
  have "\<not> se_closed s1" using evolves_write_direct(2) [OF 1(2) False 1(1)] .
  with 1(3) False show ?thesis by (cases rule: write_rest_cases) auto
qed (simp add: closed_ignores)

section \<open>Lifting\<close>

locale session_match =
  fixes h :: "'a handlers" and D :: "bytes set"
    and R :: "ikcpcb \<Rightarrow> bytes list \<Rightarrow> bytes \<Rightarrow> bytes \<Rightarrow> bool" and ok :: "bytes \<Rightarrow> bool"
  assumes ok_prefix: "ok (w @ x) \<Longrightarrow> ok w"
    and R_room: "R k ds w r \<Longrightarrow> head_room k = 9"
    and R_write: "R k ds w r \<Longrightarrow> ikcp_write k b len always = Some (0, k') \<Longrightarrow> b \<noteq> [] \<Longrightarrow> ok (w @ b) \<Longrightarrow>
      R k' ds (w @ b) r"
    and R_flush: "R k ds w r \<Longrightarrow> ok w \<Longrightarrow> ikcp_flush k now = (ms, k', ds') \<Longrightarrow> R k' (ds @ ds') w r"
    and R_input: "R k ds w r \<Longrightarrow> d \<in> D \<Longrightarrow> ikcp_input k d = Some (res, k') \<Longrightarrow>
      unat (ackcount k) + length d < 2 ^ 30 \<Longrightarrow> R k' ds w r"
    and R_recv: "R k ds w r \<Longrightarrow> ikcp_recv k len = Some (n, data, k') \<Longrightarrow> 0 < n \<Longrightarrow> 0 \<le> len \<Longrightarrow>
      R k' ds w (r @ data) \<and> takes_all h"
begin

definition matches :: "'a session \<Rightarrow> bytes \<Rightarrow> bool" where
  "matches s w \<longleftrightarrow> se_input s = [] \<and>
     (\<exists>k. se_kcp s = Some k \<and> R k (frames (se_log s)) w (messages (se_log s)))"

lemma matches_update [simp]:
  "matches (s\<lparr>se_delayed := d\<rparr>) w = matches s w" "matches (s\<lparr>se_queue := q\<rparr>) w = matches s w"
  "matches (s\<lparr>se_timer := t\<rparr>) w = matches s w" "matches (s\<lparr>se_error := x\<rparr>) w = matches s w"
  "matches (s\<lparr>se_closed := c\<rparr>) w = matches s w" "matches (s\<lparr>se_peer := p\<rparr>) w = matches s w"
  by (simp_all add: matches_def)

lemma matches_event [simp]:
  "frames [ev] = [] \<Longrightarrow> messages [ev] = [] \<Longrightarrow> matches (emit [ev] s) w = matches s w"
  by (simp add: matches_def)

lemma matches_kcp: "matches s w \<Longrightarrow> se_kcp s = Some k \<Longrightarrow> R k (frames (se_log s)) w (messages (se_log s))"
  by (simp add: matches_def)

lemma matches_set:
  "matches s w \<Longrightarrow> R k (frames (se_log s)) w' (messages (se_log s)) \<Longrightarrow> matches (s\<lparr>se_kcp := Some k\<rparr>) w'"
  by (simp add: matches_def)

lemma flush_matches:
  assumes "flush_session h now s = Some (ms, s')" "matches s w" "ok w"
  shows "matches s' w"
  using assms(1)
proof (cases rule: flush_session_cases)
  case (1 k k' ds)
  note p = matches_kcp [OF assms(2) 1(1)]
  show ?thesis
    using assms(2) R_flush [OF p assms(3) 1(2)]
    by (simp add: matches_def 1(3) frames_output(1) [OF R_room [OF p]] frames_output(2))
qed

lemma write_matches:
  assumes "WriteInLoopThread h now data s = Some s'" "matches s w" "ok (w @ data)" "\<not> se_closed s"
  shows "matches s' (w @ data)"
proof -
  obtain k n s1 where 1: "se_kcp s = Some k" "write_direct h now data k s = Some (n, s1)"
    "write_rest h (ikcp_reach_snd_hghwat k) (drop n data) s1 = Some s'"
    using assms(1,4) by (auto simp: WriteInLoopThread_def Let_def split: option.splits)
  have o: "ok (w @ take n data)" using ok_prefix [of "w @ take n data" "drop n data"] assms(3) by simp
  have s1: "matches s1 (w @ take n data)"
    using 1(2)
  proof (cases rule: write_direct_cases)
    case (sent k' s2)
    have "R k' (frames (se_log s)) (w @ take n data) (messages (se_log s))"
      using R_write [OF matches_kcp [OF assms(2) 1(1)]] sent(1-3) o unfolding ikcp_send_def by fastforce
    note k' = matches_set [OF assms(2) this]
    have "matches s2 (w @ take n data)" using sent(4)
    proof
      assume "\<exists>ms. flush_session h now (s\<lparr>se_kcp := Some k'\<rparr>) = Some (ms, s2)"
      then show ?thesis using flush_matches k' o by blast
    qed (use k' in simp)
    then show ?thesis using sent(5) by auto
  qed (use assms(2) in simp)
  show ?thesis
    using 1(3)
  proof (cases rule: write_rest_cases)
    case skip
    then have "take n data = data" by simp
    then show ?thesis using s1 skip(2) by simp
  next
    case (appended k1 k')
    have "ok ((w @ take n data) @ drop n data)" using assms(3) by simp
    then have "R k' (frames (se_log s1)) ((w @ take n data) @ drop n data) (messages (se_log s1))"
      using R_write [OF matches_kcp [OF s1 appended(2)] _ appended(1)] appended(3) unfolding ikcp_append_def by blast
    from matches_set [OF s1 this] show ?thesis using appended(4) by auto
  qed
qed

lemma close_matches:
  assumes "Close h now fl s = Some s'" "matches s w" "ok w"
  shows "matches s' w"
proof (cases "se_closed s")
  case False
  obtain s1 where s1: "(if fl then map_option snd (flush_session h now (s\<lparr>se_closed := True, se_timer := None\<rparr>))
      else Some (s\<lparr>se_closed := True, se_timer := None\<rparr>)) = Some s1" "s' = connection_down h s1"
    using assms(1) False by (auto simp: Close_def Let_def split: if_splits)
  from s1(1) have "matches s1 w"
    using assms(2,3) flush_matches [of now "s\<lparr>se_closed := True, se_timer := None\<rparr>"]
    by (auto split: if_splits)
  then show ?thesis
    using connection_down_frame [of h s1] s1(2) by (auto simp: matches_def)
qed (use assms in \<open>simp add: Close_def\<close>)

lemma perform_matches:
  "perform h cs s = Some s' \<Longrightarrow> matches s w \<Longrightarrow> ok (w @ calls_bytes (se_closed s) cs) \<Longrightarrow>
   matches s' (w @ calls_bytes (se_closed s) cs)"
proof (induction cs arbitrary: s w)
  case (Cons c cs)
  show ?case
  proof (cases c)
    case (Call_write now data)
    then obtain s1 where s1: "WriteInLoopThread h now data s = Some s1" "perform h cs s1 = Some s'"
      using Cons.prems(1) by (auto simp: bind_eq_Some_conv)
    let ?w = "w @ (if se_closed s then [] else data)"
    have c: "se_closed s1 = se_closed s" by (rule write_closed [OF s1(1)])
    have o: "ok (?w @ calls_bytes (se_closed s) cs)" using Cons.prems(3) Call_write by simp
    have "matches s1 ?w"
    proof (cases "se_closed s")
      case True
      then show ?thesis using s1(1) Cons.prems(2) by (simp add: closed_ignores)
    next
      case False
      then show ?thesis using write_matches [OF s1(1) Cons.prems(2)] ok_prefix [OF o] by simp
    qed
    from Cons.IH [OF s1(2) this] show ?thesis using o c Call_write by (cases "se_closed s") simp_all
  next
    case (Call_close now fl)
    then obtain s1 where s1: "Close h now fl s = Some s1" "perform h cs s1 = Some s'"
      using Cons.prems(1) by (auto simp: bind_eq_Some_conv)
    have "ok w" using Cons.prems(3) Call_close by simp
    then show ?thesis
      using Cons.IH [OF s1(2) close_matches [OF s1(1) Cons.prems(2)]] evolves_close(2) [OF s1(1)] Call_close
      by simp
  next
    case (Call_close_after ms fl)
    then show ?thesis
      using Cons.IH [of "CloseAfterMs ms fl s" w] Cons.prems by (simp add: CloseAfterMs_def)
  qed
qed simp

lemma up_matches:
  assumes "connection_up h s = Some s'" "matches s w" "ok (w @ up_bytes h s)"
  shows "matches s' (w @ up_bytes h s)"
proof (cases "on_connection h")
  case (Some f)
  then have "perform h (f (emit [Ev_connection True] s) True) (emit [Ev_connection True] s) = Some s'"
    using assms(1) by (simp add: connection_up_def Let_def)
  from perform_matches [OF this, of w] show ?thesis using assms(2,3) Some by (simp add: up_bytes_def)
qed (use assms in \<open>simp add: connection_up_def up_bytes_def\<close>)

text \<open>A round of the reading loop delivers what the core delivers: the message callback takes it all.\<close>

lemma read_event_matches:
  assumes "OnReadEvent h n s = Some s'" "matches s w" "ok w" "0 \<le> n" "\<not> se_closed s"
  shows "matches s' w"
  using assms(1)
proof (cases rule: read_event_cases)
  case (1 k len data k')
  have r: "R k' (frames (se_log s)) w (messages (se_log s) @ data)" "takes_all h"
    using R_recv [OF matches_kcp [OF assms(2) 1(1)] 1(2,3) assms(4)] by auto
  then obtain f where f: "on_message h = Some f"
    "\<And>s. calls_bytes False (fst (f s)) = []" "\<And>s. length (se_input s) \<le> snd (f s)"
    by (auto simp: takes_all_def)
  have i: "se_input s = []" using assms(2) by (simp add: matches_def)
  let ?s = "s\<lparr>se_kcp := Some k', se_input := data, se_log := se_log s @ [Ev_message data]\<rparr>"
  obtain calls taken where c: "f ?s = (calls, taken)"
    "perform h calls (s\<lparr>se_kcp := Some k', se_log := se_log s @ [Ev_message data], se_input := drop taken data\<rparr>) = Some s'"
    using 1(4) f(1) i by auto
  have q: "calls_bytes False calls = []" "drop taken data = []" using f(2,3) [of ?s] c(1) by auto
  have "matches (s\<lparr>se_kcp := Some k', se_log := se_log s @ [Ev_message data], se_input := drop taken data\<rparr>) w"
    using r(1) q(2) by (simp add: matches_def)
  from perform_matches [OF c(2) this] show ?thesis using q assms(3,5) by simp
qed

lemma read_loop_matches: "read_loop h s = Some s' \<Longrightarrow> matches s w \<Longrightarrow> ok w \<Longrightarrow> matches s' w"
proof (induction s rule: measure_induct_rule [where f = sess_load])
  case (less s)
  show ?case
    using less.prems(1)
  proof (cases rule: read_loop_cases)
    case (more k s1)
    then have n: "0 \<le> ikcp_peeksize k" by simp
    show ?thesis
      using less.IH [OF read_event_load [OF more(4) n] more(5)]
        read_event_matches [OF more(4) less.prems(2,3) n more(1)] less.prems(3) by blast
  qed (use less.prems in simp)
qed

lemma process_matches:
  assumes "ProcessPacketInLoopThread h p a s = Some s'" "matches s w" "ok w"
    and "acks_room (length (RemainingData p)) s" "RemainingData p \<in> D"
  shows "matches s' w"
  using assms(1)
proof (cases rule: process_packet_cases)
  case closed
  with assms(2) show ?thesis by simp
next
  case (bad k k')
  then obtain res where "ikcp_input k (RemainingData p) = Some (res, k')" by blast
  from R_input [OF matches_kcp [OF assms(2) bad(2)] assms(5) this] show ?thesis
    using assms(2,4) bad(2,3) by (simp add: matches_set acks_room_def)
next
  case (good k k' s1)
  then obtain res where "ikcp_input k (RemainingData p) = Some (res, k')" by blast
  from R_input [OF matches_kcp [OF assms(2) good(2)] assms(5) this]
  have "matches (s\<lparr>se_kcp := Some k', se_peer := Some a\<rparr>) w"
    using assms(2,4) good(2) by (simp add: matches_set acks_room_def)
  from read_loop_matches [OF good(4) this assms(3)] show ?thesis using good(5) by auto
qed

lemma update_matches:
  assumes "UpdateConnectionState h now s = Some s'" "matches s w" "ok w"
  shows "matches s' w"
  using assms flush_matches close_matches
  by (auto simp: UpdateConnectionState_def split: if_splits option.splits)

lemma task_matches:
  assumes "run_task h now t s = Some s'" "matches s w" "ok (w @ task_bytes h t s)"
    and "acks_room (task_size t) s" "task_packets t \<subseteq> D"
  shows "matches s' (w @ task_bytes h t s)"
proof (cases t)
  case Write_complete
  then obtain f where f: "on_write_complete h = Some f" "perform h (f (emit [Ev_write_complete] s)) (emit [Ev_write_complete] s) = Some s'"
    using assms(1) by (auto simp: run_task_def Let_def split: option.splits)
  show ?thesis using perform_matches [OF f(2), of w] assms(2,3) f(1) Write_complete by (simp add: task_bytes_def)
next
  case (High_water x)
  then obtain f where f: "on_high_water h = Some f" "perform h (f (emit [Ev_high_water x] s) x) (emit [Ev_high_water x] s) = Some s'"
    using assms(1) by (auto simp: run_task_def Let_def split: option.splits)
  show ?thesis using perform_matches [OF f(2), of w] assms(2,3) f(1) High_water by (simp add: task_bytes_def)
next
  case (Write_data d)
  then show ?thesis
    using assms write_matches [of now d s s' w]
    by (cases "se_closed s") (auto simp: run_task_def task_bytes_def closed_ignores)
next
  case (Process_packet p a)
  then show ?thesis using assms process_matches [of p a s s' w] by (simp add: run_task_def task_bytes_def)
next
  case Connection_up
  then show ?thesis using assms(1-3) up_matches [of s s' w] by (simp add: run_task_def task_bytes_def)
next
  case (Set_error ty c)
  then show ?thesis using assms(1,2) by (auto simp: run_task_def task_bytes_def)
qed (use assms update_matches close_matches in \<open>simp_all add: run_task_def task_bytes_def\<close>)

theorem act_matches:
  assumes "session_act h D x s s'" "matches s w" "ok (w @ x)"
  shows "matches s' (w @ x)"
  using assms(1)
proof cases
  case (task t ts now)
  then show ?thesis using task_matches [OF task(5), of w] assms(2,3) by simp
next
  case (timer_fires ms now)
  then show ?thesis using update_matches [OF timer_fires(3)] assms(2,3) by simp
next
  case (delayed ms fl now)
  then show ?thesis using close_matches [OF delayed(4)] assms(2,3) by simp
next
  case (app_write now data)
  then show ?thesis
    using assms(2,3) write_matches [OF app_write(3) assms(2)] by (cases "se_closed s") (auto simp: closed_ignores)
next
  case (app_packet p a)
  then show ?thesis using process_matches [OF app_packet(5) assms(2) _ app_packet(3,4)] assms(3) by simp
next
  case (app_close now fl)
  then show ?thesis using close_matches [OF app_close(3) assms(2)] assms(3) by simp
qed (use assms(2) in auto)

text \<open>A session starts to match when its control block is configured.\<close>

lemma init_matches:
  assumes "Initialize h in_loop now sid peer session_params new_session = Some (True, s)"
    and "R (fresh_kcp sid) [] [] []" "ok (open_bytes h in_loop now sid peer)"
  shows "matches s (open_bytes h in_loop now sid peer)"
  using assms(1)
proof (cases rule: init_cases)
  case (1 k s0 s1)
  have k: "k = fresh_kcp sid" using 1(1) by (simp add: configure_value)
  have m: "matches s0 []" using assms(2) by (simp add: matches_def 1(4) k new_session_def)
  have w: "open_bytes h in_loop now sid peer = (if in_loop then up_bytes h s0 else [])"
    by (simp add: open_bytes_def 1(4) k)
  have "matches s1 (open_bytes h in_loop now sid peer)"
    using 1(5) up_matches [of s0 s1 "[]"] m assms(3) by (auto simp: w)
  then show ?thesis using 1(6) by simp
qed

end

end
