(* ===== verification/Kcp_Session_Props.thy ===== *)
theory Kcp_Session_Props
  imports Kcp_Session_Life
begin

text \<open>
  The properties of the packet format and of sessions. The witnesses use a session of a user
  who sends back what it receives.
\<close>

section \<open>A concrete session\<close>

definition demo_h :: "nat handlers" where
  "demo_h = \<lparr>on_connection = Some (\<lambda>_ _. []),
     on_message = Some (\<lambda>s. ([Call_write 0 (se_input s)], length (se_input s))),
     on_write_complete = Some (\<lambda>_. []), on_high_water = None, flush_tx_set = True\<rparr>"

definition demo_s :: "nat session" where
  "demo_s = snd (the (Initialize demo_h True 0 7 1 session_params new_session))"

lemma demo_init: "Initialize demo_h True 0 7 1 session_params new_session = Some (True, demo_s)"
  by (simp add: demo_s_def Initialize_def new_session_def configure_value connection_up_def demo_h_def)

lemma demo_fields: "se_log demo_s = [Ev_connection True]" "se_kcp demo_s = Some (fresh_kcp 7)"
  "\<not> se_closed demo_s" "se_id demo_s = 7" "se_queue demo_s = [Update_state]"
  by (simp_all add: demo_s_def Initialize_def new_session_def configure_value connection_up_def demo_h_def)

lemma demo_session_reach: "session_reach demo_h demo_s"
  by (rule session_reach.init [OF demo_init])

lemma fresh_kcp_inv: "kcp_inv (fresh_kcp sid)"
  by (rule configure_session [of sid]) (simp add: configure_value)

lemma reach_kcp_inv: "session_reach h s \<Longrightarrow> se_kcp s = Some k \<Longrightarrow> kcp_inv k"
  by (rule reach_kcp) auto

text \<open>It writes three bytes, which go out at once.\<close>

definition demo_kcp :: ikcpcb where
  "demo_kcp = snd (the (ikcp_send (fresh_kcp 7) [1, 2, 3] 3))"

definition demo_wire :: "u32 \<times> ikcpcb \<times> bytes list" where
  "demo_wire = ikcp_flush demo_kcp 0"

definition demo_t :: "nat session" where
  "demo_t = the (WriteInLoopThread demo_h 0 [1, 2, 3] demo_s)"

lemma demo_core: "ikcp_send (fresh_kcp 7) [1, 2, 3] 3 = Some (0, demo_kcp)"
  "ikcp_need_drain (fresh_kcp 7) = False" "ikcp_available_wnd_in_bytes (fresh_kcp 7) = 174976"
  "0 < ikcp_available_sndwnd_in_bytes (fresh_kcp 7)" "unacked (fresh_kcp 7) = []"
  "stream (fresh_kcp 7) = 0" "mss (fresh_kcp 7) = 1367"
  "map length (snd (snd demo_wire)) = [27]"
  by code_simp+

lemma demo_session_write: "WriteInLoopThread demo_h 0 [1, 2, 3] demo_s = Some demo_t"
  "\<exists>d. Ev_output (replicate 9 0 @ d) 7 1 \<in> set (se_log demo_t)"
  "\<exists>d. snd (snd demo_wire) = [d] \<and>
     se_log demo_t = [Ev_connection True, Ev_output (replicate 9 0 @ d) 7 1, Ev_flush_tx]"
proof -
  obtain w k ds where w: "demo_wire = (w, k, ds)" by (cases demo_wire)
  from demo_core(8) have "map length ds = [27]" unfolding w snd_conv .
  then obtain d where d: "ds = [d]" by auto
  have b: "se_base demo_s = 0" "se_peer demo_s = Some 1"
    by (simp_all add: demo_s_def Initialize_def new_session_def configure_value connection_up_def demo_h_def)
  have head: "head_room demo_kcp = 9" by code_simp
  have "WriteInLoopThread demo_h 0 [1, 2, 3] demo_s = Some (enqueue Write_complete
      (demo_s\<lparr>se_kcp := Some k, se_log := [Ev_connection True, Ev_output (replicate 9 0 @ d) 7 1, Ev_flush_tx]\<rparr>))"
    using demo_core w d b head demo_fields
    by (simp add: WriteInLoopThread_def write_direct_def write_rest_def flush_session_def demo_wire_def
      CurrentMs_def OnKCPOutput_def FlushTxQueue_def int_of_size_def demo_h_def)
  then show "WriteInLoopThread demo_h 0 [1, 2, 3] demo_s = Some demo_t"
    "\<exists>d. Ev_output (replicate 9 0 @ d) 7 1 \<in> set (se_log demo_t)"
    "\<exists>d. snd (snd demo_wire) = [d] \<and>
       se_log demo_t = [Ev_connection True, Ev_output (replicate 9 0 @ d) 7 1, Ev_flush_tx]"
    by (auto simp: demo_t_def w d)
qed

lemma demo_reach_t: "session_reach demo_h demo_t"
proof (rule session_reach.step [OF demo_session_reach])
  show "session_step demo_h demo_s demo_t"
    using app_write [of demo_s demo_h 0 "[1, 2, 3]" demo_t] demo_session_write(1) by (simp add: demo_fields)
qed

section \<open>The packet format\<close>

text \<open>C14: A header written into a buffer of at least nine bytes is read back with
  the same packet type and session identifier; the rest of the buffer is the payload the reader
  sees, and the length does not change.\<close>

theorem header_roundtrip:
  assumes "kPublicHeaderLength \<le> length buf"
  shows "\<exists>out hdr p. WritePublicHeader adler buf t sid = (W_SUCCESS, out) \<and> length out = length buf \<and>
    ReadPublicHeader adler (received out) = (SUCCESS, Some hdr, p) \<and>
    packet_type hdr = t \<and> session_id hdr = sid \<and> RemainingData p = drop kPublicHeaderLength buf"
proof -
  let ?out = "put_header adler t sid buf"
  have w: "WritePublicHeader adler buf t sid = (W_SUCCESS, ?out)"
    using write_public_header [OF assms] by (simp add: put_header_def)
  have "get_header adler ?out = Some (t, sid, drop kPublicHeaderLength buf)"
    by (rule hdr.get_put [OF assms])
  from get_header_cases [OF this] show ?thesis
    using w hdr.length_put [OF assms] by (auto simp: RemainingData_def)
qed

theorem header_roundtrip_witness:
  "\<exists>out hdr p. WritePublicHeader (\<lambda>b. of_nat (length b)) [0, 0, 0, 0, 0, 0, 0, 0, 0, 42] 5 7 = (W_SUCCESS, out) \<and>
    length out = 10 \<and> ReadPublicHeader (\<lambda>b. of_nat (length b)) (received out) = (SUCCESS, Some hdr, p) \<and>
    packet_type hdr = 5 \<and> session_id hdr = 7 \<and> RemainingData p = [42]"
  using header_roundtrip [of "[0, 0, 0, 0, 0, 0, 0, 0, 0, 42]" "\<lambda>b. of_nat (length b)" 5 7]
  by (simp add: kPublicHeaderLength_def numeral_eq_Suc)

text \<open>C15: Reading a header from a datagram of any bytes: nine bytes are required, the
  checksum over everything behind it must match, and then the fields are the little-endian
  integers at their offsets. The error codes for a read that fails after the length check are
  never returned, and the header is set on success only.\<close>

theorem read_header_total:
  "ReadPublicHeader adler (received d) =
     (if length d < kPublicHeaderLength then (INVALID_LENGTH, None, received d)
      else if le32_at d 0 \<noteq> adler (drop 4 d)
      then (INVALID_CHECKSUM, None, \<lparr>rp_data = d, rp_pos = kPublicHeaderLength\<rparr>)
      else (SUCCESS, Some \<lparr>checksum = le32_at d 0, packet_type = d ! 4, session_id = le32_at d 5\<rparr>,
            \<lparr>rp_data = d, rp_pos = kPublicHeaderLength\<rparr>))"
proof (cases rule: read_public_header_cases [of d adler])
  case (good h)
  have l: "\<not> length d < kPublicHeaderLength" by (subst good(1)) simp
  have "ReadFrom d = Some h" by (subst good(1)) (rule read_from)
  then have "h = \<lparr>checksum = le32_at d 0, packet_type = d ! 4, session_id = le32_at d 5\<rparr>"
    using l by (simp add: ReadFrom_def)
  then show ?thesis using l good(2,3) by simp
qed simp_all

text \<open>Any sequence of reads on a datagram returns consecutive pieces of the requested
  sizes from its front, or fails because the datagram is shorter than their sum; the position
  never passes the end.\<close>

theorem reads_consume:
  "case read_all sizes (received d) of
     (Some pieces, q) \<Rightarrow> map length pieces = sizes \<and> d = concat pieces @ RemainingData q \<and> rp_ok q
   | (None, q) \<Rightarrow> length d < sum_list sizes \<and> rp_ok q"
proof -
  have "RemainingData (received d) = d" "RemainingBytes (received d) = length d"
    by (simp_all add: RemainingData_def RemainingBytes_def received_def)
  with read_all_spec [OF received_ok [of d], of sizes] show ?thesis by (simp only:)
qed

section \<open>Sessions\<close>

text \<open>C16: In every reachable state of a session with a connection callback the events
  its user saw follow the protocol: connected first, then data and notifications, one
  disconnect exactly when the session is closed, and only late notifications after it.\<close>

theorem session_lifecycle:
  assumes "session_reach h s" "on_connection h \<noteq> None"
  shows "se_log s = [] \<and> \<not> se_closed s \<or>
    life Before (se_log s) = Some (if se_closed s then Down else Up)"
  using reach_life [OF assms] by (auto simp: life_inv_def)

theorem session_lifecycle_witness:
  "life Before (se_log demo_s) = Some Up"
  using session_lifecycle [OF demo_session_reach] by (simp add: demo_fields demo_h_def)

text \<open>A write that returns has handed every byte to the core exactly once and
  in order, whatever was sent at once and whatever waits for the window.\<close>

theorem session_write_queues_all:
  assumes "session_reach h s" "se_kcp s = Some k" "\<not> se_closed s"
    and "WriteInLoopThread h now data s = Some s'"
  shows "\<exists>k'. se_kcp s' = Some k' \<and> unacked k' = unacked k @ data"
  using write_accounts [OF assms(4,3,2) reach_kcp_inv [OF assms(1,2)]] by metis

theorem session_write_queues_all_witness:
  "\<exists>k. se_kcp demo_t = Some k \<and> unacked k = [1, 2, 3]"
  using session_write_queues_all [OF demo_session_reach demo_fields(2,3) demo_session_write(1)] by (simp add: demo_core)

text \<open>C17: A write of less than two gigabytes on an open session fails its assertion in
  exactly one case: nothing else is queued beyond the window, and the part that fits the
  window needs more than the 127 fragments the core accepts for one message.\<close>

theorem session_write_aborts:
  assumes "session_reach h s" "se_kcp s = Some k" "\<not> se_closed s" "length data < 2 ^ 31"
  shows "WriteInLoopThread h now data s = None \<longleftrightarrow> stream k = 0 \<and> \<not> ikcp_need_drain k \<and>
    127 * unat (mss k) < min (unat (ikcp_available_wnd_in_bytes k)) (length data)"
  by (rule write_aborts [OF assms(3,2) reach_kcp_inv [OF assms(1,2)] assms(4)])

theorem session_write_aborts_witness:
  "WriteInLoopThread demo_h 0 (replicate 175000 0) demo_s = None"
  using session_write_aborts [OF demo_session_reach demo_fields(2,3), of "replicate 175000 0" 0]
  by (simp add: demo_core)

text \<open>Every buffer that a reachable session handed to its output callback has the
  nine bytes for the public header, a payload, and at most \<open>kMaxPacketSize\<close> bytes, so the
  server and the client never drop one for its length.\<close>

theorem session_frames_fit:
  assumes "session_reach h s" "Ev_output buf sid peer \<in> set (se_log s)"
  shows "kPublicHeaderLength < length buf \<and> length buf \<le> kMaxPacketSize"
  using framed.reach_holds [OF assms(1)] assms(2) by (fastforce simp: sess_holds_def frame_fits_def)

theorem session_frames_fit_witness:
  "\<exists>buf. Ev_output buf 7 1 \<in> set (se_log demo_t) \<and> 9 < length buf \<and> length buf \<le> 1400"
  using demo_session_write(2) session_frames_fit [OF demo_reach_t]
  by (fastforce simp: kPublicHeaderLength_def kMaxPacketSize_def)

definition empty_push :: "u32 \<Rightarrow> bytes" where
  "empty_push sid = header_bytes \<lparr>hd_conv = sid, hd_cmd = 81, hd_frg = 0, hd_wnd = 0, hd_ts = 0,
     hd_sn = 0, hd_una = 0, hd_len = 0\<rparr>"

lemma input_loop_single:
  "conv k = hd_conv h \<Longrightarrow> hd_len h = 0 \<Longrightarrow> valid_cmd (hd_cmd h) \<Longrightarrow>
   input_loop (header_bytes h) (k, a) = (0, input_cmd h [] (k, a))"
  using decode_header_bytes [of h "[]"]
  by (subst input_loop.simps) (simp add: IKCP_OVERHEAD_def input_loop.simps [of "[]"])

lemma empty_push_input:
  "\<exists>k. ikcp_input (fresh_kcp sid) (empty_push sid) = Some (0, k) \<and> ikcp_peeksize k = 0"
proof -
  let ?h = "\<lparr>hd_conv = sid, hd_cmd = 81, hd_frg = 0, hd_wnd = 0, hd_ts = 0, hd_sn = 0, hd_una = 0, hd_len = 0\<rparr>"
  let ?a = "\<lparr>ia_flag = False, ia_maxack = 0, ia_latest_ts = 0\<rparr>"
  have "input_loop (empty_push sid) (fresh_kcp sid, ?a) = (0, input_cmd ?h [] (fresh_kcp sid, ?a))"
    unfolding empty_push_def
    by (rule input_loop_single) (simp_all add: fresh_kcp_def ikcp_create_def valid_cmd_def ikcp_consts)
  then show ?thesis
    by (simp add: ikcp_input_def empty_push_def fresh_kcp_def ikcp_create_def ikcp_consts
        input_cmd_def input_cwnd_def ikcp_shrink_buf_def ikcp_parse_una_def Let_def itimediff_def
        input_push_def ikcp_ack_push_def ikcp_parse_data_def rcv_move.simps input_segment_def
        seg_new_def ikcp_peeksize_def)
qed

text \<open>A datagram whose only segment is a push without data makes a fresh session
  abort: the message of length zero passes \<open>ikcp_input\<close>, and \<open>OnReadEvent\<close> asserts that it
  reads at least one byte.\<close>

theorem session_empty_message:
  assumes "se_kcp s = Some (fresh_kcp sid)" "\<not> se_closed s"
  shows "ProcessPacketInLoopThread h (received (empty_push sid)) peer s = None"
proof -
  obtain k where k: "ikcp_input (fresh_kcp sid) (empty_push sid) = Some (0, k)" "ikcp_peeksize k = 0"
    using empty_push_input by blast
  let ?s = "s\<lparr>se_kcp := Some k, se_peer := Some peer\<rparr>"
  have "OnReadEvent h 0 ?s = None"
  proof (cases "ikcp_recv k 0")
    case (Some r)
    obtain len data k' where "r = (len, data, k')" by (cases r)
    with Some have r: "ikcp_recv k 0 = Some (len, data, k')" by simp
    then have "len \<le> 0" using k(2) by (auto simp: ikcp_recv_def Let_def split: if_splits prod.splits)
    then show ?thesis by (simp add: OnReadEvent_def r)
  qed (simp add: OnReadEvent_def)
  then have "read_loop h ?s = None" using assms(2) k(2) by (subst read_loop.simps) simp
  then show ?thesis
    using assms k(1) by (simp add: ProcessPacketInLoopThread_def RemainingData_def received_def)
qed

theorem session_empty_message_witness:
  "ProcessPacketInLoopThread demo_h (received (empty_push 7)) 1 demo_s = None"
  by (rule session_empty_message [OF demo_fields(2,3)])

end
