(* ===== verification/Kcp_Pair.thy ===== *)
theory Kcp_Pair
  imports Kcp_Match Kcp_Session_Props Kcp_Progress
begin

text \<open>
  Two sessions over a network that loses, duplicates, delays and reorders datagrams: one writes,
  one reads, with the complete code of \<open>kcp_session.cc\<close> on both sides (callbacks, queues, timers,
  closing, writes from other threads). Both ends of the core's link satisfy the laws of
  \<open>session_match\<close>, so every state of the two sessions is a state of the link, and what holds of
  the link holds of them.
\<close>

section \<open>The ends of a link\<close>

text \<open>What sessions add to the invariant of the link: no segment is empty, since no write is, so
  the bytes written bound the number of segments; the writing end receives no data; both
  leave nine bytes for the public header.\<close>

definition ends :: "link \<Rightarrow> bool" where
  "ends l \<longleftrightarrow> link_reach l \<and> head_room (lk_a l) = 9 \<and> head_room (lk_b l) = 9 \<and> rcv_queue (lk_a l) = [] \<and>
     (\<forall>x \<in> set (lk_log l). snd x \<noteq> []) \<and> (\<forall>s \<in> set (snd_queue (lk_a l)). snd (payload s) \<noteq> [])"

lemma concat_long: "(\<And>x. x \<in> set xs \<Longrightarrow> f x \<noteq> []) \<Longrightarrow> length xs \<le> length (concat (map f xs))"
proof (induction xs)
  case (Cons a xs)
  have "f a \<noteq> []" "length xs \<le> length (concat (map f xs))"
    using Cons.prems Cons.IH by (meson list.set_intros)+
  then show ?case by (cases "f a") auto
qed simp

lemma queue_bytes_payload: "queue_bytes q = concat (map (\<lambda>s. snd (payload s)) q)"
  by (simp add: queue_bytes_def payload_def)

lemma ends_inv:
  assumes "ends l"
  shows "link_inv l" "sender (lk_log l) (lk_in l) (lk_a l)"
proof -
  show "link_inv l" using assms link_reach_inv by (simp add: ends_def)
  then show "sender (lk_log l) (lk_in l) (lk_a l)" by (simp add: link_inv_def)
qed

lemma ends_length:
  assumes "ends l"
  shows "length (lk_in l) = length (concat (map snd (lk_log l))) + length (queue_bytes (snd_queue (lk_a l)))"
proof -
  have "lk_in l = concat (map snd (lk_log l)) @ queue_bytes (snd_queue (lk_a l))"
    using ends_inv(2) [OF assms] by (simp add: sender_def)
  then show ?thesis by (simp only: length_append)
qed

lemma ends_short:
  assumes "ends l" "length (lk_in l) < 2 ^ 31"
  shows "length (lk_log l) + length (snd_queue (lk_a l)) < 2 ^ 31"
proof -
  note ends_length [OF assms(1)]
  moreover have "length (lk_log l) \<le> length (concat (map snd (lk_log l)))"
    "length (snd_queue (lk_a l)) \<le> length (queue_bytes (snd_queue (lk_a l)))"
    unfolding queue_bytes_payload using assms(1) by (auto simp: ends_def intro: concat_long)
  ultimately show ?thesis using assms(2) by linarith
qed

text \<open>A write of some bytes makes no empty segment.\<close>

lemma frag_segs_full:
  assumes "0 < m" "m < 2 ^ 32" "n = 0 \<or> (n - 1) * m < length buf" "s \<in> set (frag_segs m mode count i n buf)"
  shows "snd (payload s) \<noteq> []"
  using assms(3,4)
proof (induction n arbitrary: i buf)
  case (Suc n)
  have "unat (of_nat (min m (length buf)) :: u32) = min m (length buf)"
    by (rule unat_of_nat_u32) (use assms(2) in simp)
  moreover have "0 < length buf" using Suc.prems(1) by (metis diff_Suc_1 gr_zeroI not_less_zero nat.distinct(1))
  moreover have "n = 0 \<or> (n - 1) * m < length (drop m buf)"
    using Suc.prems(1) by (cases n) auto
  ultimately show ?case
    using Suc.prems(2) Suc.IH [of "drop m buf" "i + 1"] assms(1) by (auto simp: seg_new_def payload_def)
qed simp

lemma write_full:
  assumes "mss_ok k" "snd_sizes k" "ikcp_write k buf len always = Some (0, k')" "buf \<noteq> []"
    and "\<forall>s \<in> set (snd_queue k). snd (payload s) \<noteq> []"
  shows "\<forall>s \<in> set (snd_queue k'). snd (payload s) \<noteq> []"
proof -
  let ?mode = "stream k \<noteq> 0 \<or> always"
  obtain buf1 k1 where e: "(if ?mode then write_extend buf k else (buf, k)) = (buf1, k1)"
    by fastforce
  have e1: "mss k1 = mss k" "\<forall>s \<in> set (snd_queue k1). snd (payload s) \<noteq> []"
  proof -
    have "mss k1 = mss k \<and> (\<forall>s \<in> set (snd_queue k1). snd (payload s) \<noteq> [])"
      if w: "write_extend buf k = (buf1, k1)"
      using assms(1,2)
    proof (cases rule: extend_cases [where buf = buf])
      case same
      with w assms(5) show ?thesis by simp
    next
      case (filled old x seg)
      have old: "old \<in> set (snd_queue k)" using filled(1,2) by simp
      then have "seg_ok old" "0 < unat (seg_len old)" "seg_data old \<noteq> []"
        using assms(2,5) by (auto simp: snd_sizes_def payload_def)
      then have "snd (payload seg) \<noteq> []" using filled(6,7) by (simp add: payload_def)
      moreover have "k1 = k\<lparr>snd_queue := butlast (snd_queue k) @ [seg]\<rparr>" using w filled(9) by simp
      ultimately show ?thesis using assms(5) in_set_butlastD by fastforce
    qed
    with e assms(5) show "mss k1 = mss k" "\<forall>s \<in> set (snd_queue k1). snd (payload s) \<noteq> []"
      by (auto split: if_splits)
  qed
  show ?thesis
  proof (cases "?mode \<and> buf1 = []")
    case True
    then have "k' = k1" using assms(3) e by (auto simp: ikcp_write_def Let_def split: if_splits)
    with e1 show ?thesis by simp
  next
    case False
    have m1: "mss_ok k1" using assms(1) e1(1) by (simp add: mss_ok_def)
    let ?c = "write_count k1 (length buf1)"
    note wc = write_count_bounds [OF m1, of "length buf1"]
    have k': "k' = write_fragments ?mode ?c 0 ?c buf1 k1"
      using assms(3) e wc(1) False by (auto simp: ikcp_write_def Let_def split: if_splits)
    have "0 < length buf1" using False e assms(4) by (auto split: if_splits)
    then have "\<forall>s \<in> set (frag_segs (unat (mss k1)) ?mode ?c 0 ?c buf1). snd (payload s) \<noteq> []"
      using frag_segs_full [of "unat (mss k1)" ?c buf1 _ ?mode ?c 0] wc(3) m1 by (auto simp: mss_ok_def)
    with e1 show ?thesis by (auto simp: k' write_fragments_eq)
  qed
qed

text \<open>Acknowledgements and probes leave the receiving half alone.\<close>

lemma ctl_rcv_view:
  assumes "datagram (\<lambda>h p. good_seg (conv k) h p \<and> ctl_only h p) d" "ikcp_input k d = Some (r, k')"
  shows "rcv_view k' = rcv_view k"
proof -
  obtain ss where ss: "d = wire_bytes ss" "ss \<noteq> []" "length (wire_bytes ss) < 2 ^ 31"
    "\<forall>(h, p) \<in> set ss. good_seg (conv k) h p" "\<forall>(h, p) \<in> set ss. ctl_only h p"
    using assms(1) by (auto simp: datagram_def)
  let ?a = "\<lparr>ia_flag = False, ia_maxack = 0, ia_latest_ts = 0\<rparr>"
  have cmd: "rcv_view (fst (input_cmd h p (k0, a))) = rcv_view k0" if "ctl_only h p" for h p k0 a
    using that by (simp add: input_cmd_cases Let_def ctl_only_def frame)
  have all: "rcv_view (fst (input_all ss (k, a))) = rcv_view k" for a
    using ss(5)
  proof (induction ss arbitrary: k a)
    case (Cons s ss)
    obtain h p where s: "s = (h, p)" by (cases s)
    obtain k1 a1 where k1: "input_cmd h p (k, a) = (k1, a1)" by fastforce
    show ?case
      using Cons.IH [of k1 a1] Cons.prems cmd [of h p k a] by (simp add: input_all_def s k1)
  qed (simp add: input_all_def)
  obtain k1 a1 where k1: "input_all ss (k, ?a) = (k1, a1)" by fastforce
  from ss(4,2,3) assms(2) [unfolded ss(1)] k1 obtain k2 where
    k2: "k2 = k1 \<or> k2 = ikcp_parse_fastack k1 (ia_maxack a1)" "input_cwnd (snd_una k) k2 = Some k'"
    by (rule input_wire_cases)
  show ?thesis
    using input_cwnd_frame(1) [OF k2(2)] parse_fastack_frame(1) k2(1) all [of ?a] k1 by auto
qed

text \<open>Each operation of the core is a step of the link that keeps \<open>ends\<close>.\<close>

lemma ends_write:
  assumes "ends l" "ikcp_write (lk_a l) b len always = Some (0, k')" "b \<noteq> []"
  shows "ends (l\<lparr>lk_a := k', lk_in := lk_in l @ b\<rparr>)"
proof -
  note f = write_frame [OF assms(2)]
  have e: "head_room k' = head_room (lk_a l)" "rcv_queue k' = rcv_queue (lk_a l)" by (subst f, simp)+
  have c: "cfg_ok (lk_a l)" "snd_ready (lk_a l)" using ends_inv(2) [OF assms(1)] by (auto simp: sender_def)
  have "snd_sizes (lk_a l)" using c(2) by (auto simp: snd_ready_def snd_sizes_def data_fit_def)
  from write_full [OF cfg_mss_ok [OF c(1)] this assms(2,3)] show ?thesis
    using assms(1) e link_reach.step [OF _ link_step.app_write [OF assms(2)]] by (simp add: ends_def)
qed

lemma ends_flush_a:
  assumes "ends l" "length (lk_in l) < 2 ^ 31" "ikcp_flush (lk_a l) now = (w, k', ds)"
  shows "ends (l\<lparr>lk_a := k', lk_ab := lk_ab l @ ds, lk_log := lk_log l @ link_numbered (lk_a l) k'\<rparr>)"
proof -
  have n: "length (lk_log l) + length (snd_queue (lk_a l)) < 2 ^ 31" by (rule ends_short [OF assms(1,2)])
  have r: "cfg_ok (lk_a l)" "unat (ackcount (lk_a l)) < 2 ^ 31" "snd_ready (lk_a l)"
    using ends_inv(2) [OF assms(1)] by (auto simp: sender_def)
  obtain m where m: "snd_queue k' = drop m (snd_queue (lk_a l))"
    "link_numbered (lk_a l) k' = map payload (take m (snd_queue (lk_a l)))"
    by (rule flush_numbered [OF r assms(3)])
  have "head_room k' = head_room (lk_a l)" "rcv_queue k' = rcv_queue (lk_a l)"
    using flush_frame(1,5) [OF assms(3)] by (simp_all add: rcv_view_def)
  then show ?thesis
    using assms(1) link_reach.step [OF _ link_step.flush_a [OF assms(3) n]] m
    by (auto simp: ends_def dest: in_set_takeD in_set_dropD)
qed

lemma ends_to_a:
  assumes "ends l" "d \<in> set (lk_ba l)" "ikcp_input (lk_a l) d = Some (r, k')"
  shows "ends (l\<lparr>lk_a := k'\<rparr>)"
proof -
  have "cfg_view k' = cfg_view (lk_a l)" using sender_of_input [OF assms(3)] by (simp add: sender_of_def)
  moreover have "rcv_view k' = rcv_view (lk_a l)"
    using ctl_rcv_view [OF _ assms(3)] ends_inv(1) [OF assms(1)] assms(2) by (auto simp: link_inv_def)
  ultimately show ?thesis
    using assms(1) link_reach.step [OF _ link_step.to_a [OF assms(2,3)]]
    by (simp add: ends_def cfg_view_def rcv_view_def)
qed

lemma ends_flush_b:
  assumes "ends l" "ikcp_flush (lk_b l) now = (w, k', ds)"
  shows "ends (l\<lparr>lk_b := k', lk_ba := lk_ba l @ ds\<rparr>)"
  using assms(1) link_reach.step [OF _ link_step.flush_b [OF assms(2)]] flush_frame(5) [OF assms(2)]
  by (simp add: ends_def)

lemma ends_to_b:
  assumes "ends l" "d \<in> set (lk_ab l)" "ikcp_input (lk_b l) d = Some (r, k')"
    and "unat (ackcount (lk_b l)) + length d < 2 ^ 30"
  shows "ends (l\<lparr>lk_b := k'\<rparr>)"
proof -
  have "cfg_view k' = cfg_view (lk_b l)" using sender_of_input [OF assms(3)] by (simp add: sender_of_def)
  then show ?thesis
    using assms(1) link_reach.step [OF _ link_step.to_b [OF assms(2-4)]] by (simp add: ends_def cfg_view_def)
qed

lemma ends_recv:
  assumes "ends l" "ikcp_recv (lk_b l) len = Some (n, data, k')" "0 \<le> len"
  shows "ends (l\<lparr>lk_b := k', lk_out := lk_out l @ data\<rparr>)"
proof -
  have "cfg_view k' = cfg_view (lk_b l)" using recv_snd(1) [OF assms(2)] by (simp add: sender_of_def)
  then show ?thesis
    using assms(1) link_reach.step [OF _ link_step.app_read [OF assms(2,3)]] by (simp add: ends_def cfg_view_def)
qed

section \<open>Both roles match\<close>

definition writer_end :: "ikcpcb \<Rightarrow> bytes list \<Rightarrow> bytes \<Rightarrow> ikcpcb \<Rightarrow> bytes list \<Rightarrow> bytes \<Rightarrow> bytes \<Rightarrow> bool" where
  "writer_end b es out k ds w r \<longleftrightarrow> r = [] \<and> (\<exists>l. ends l \<and> lk_a l = k \<and> lk_ab l = ds \<and> lk_in l = w \<and>
     lk_b l = b \<and> lk_ba l = es \<and> lk_out l = out)"

definition reader_end :: "'a handlers \<Rightarrow> ikcpcb \<Rightarrow> bytes list \<Rightarrow> bytes \<Rightarrow> ikcpcb \<Rightarrow> bytes list \<Rightarrow> bytes \<Rightarrow> bytes \<Rightarrow> bool" where
  "reader_end h a ds inp k es w r \<longleftrightarrow> w = [] \<and> takes_all h \<and> (\<exists>l. ends l \<and> lk_b l = k \<and> lk_ba l = es \<and>
     lk_out l = r \<and> lk_a l = a \<and> lk_ab l = ds \<and> lk_in l = inp)"

lemma writer_endI:
  "ends l \<Longrightarrow> lk_a l = k \<Longrightarrow> lk_ab l = ds \<Longrightarrow> lk_in l = w \<Longrightarrow> writer_end (lk_b l) (lk_ba l) (lk_out l) k ds w []"
  by (auto simp: writer_end_def)

lemma reader_endI:
  "ends l \<Longrightarrow> takes_all h \<Longrightarrow> lk_b l = k \<Longrightarrow> lk_ba l = es \<Longrightarrow> lk_out l = r \<Longrightarrow>
   reader_end h (lk_a l) (lk_ab l) (lk_in l) k es [] r"
  by (auto simp: reader_end_def)

interpretation writer: session_match h "set es" "writer_end b es out" "\<lambda>w. length w < 2 ^ 31" for h b es out
proof unfold_locales
  fix k ds w r b' len always k'
  assume "writer_end b es out k ds w r" and s: "ikcp_write k b' len always = Some (0, k')" "b' \<noteq> []"
  then obtain l where l: "ends l" "k = lk_a l" "ds = lk_ab l" "w = lk_in l" "b = lk_b l" "es = lk_ba l" "out = lk_out l" "r = []"
    by (auto simp: writer_end_def)
  show "writer_end b es out k' ds (w @ b') r"
    using writer_endI [OF ends_write [OF l(1) s [unfolded l(2)]]] l by simp
next
  fix k ds w r now ms k' ds'
  assume "writer_end b es out k ds w r" and s: "length w < 2 ^ 31" "ikcp_flush k now = (ms, k', ds')"
  then obtain l where l: "ends l" "k = lk_a l" "ds = lk_ab l" "w = lk_in l" "b = lk_b l" "es = lk_ba l" "out = lk_out l" "r = []"
    by (auto simp: writer_end_def)
  show "writer_end b es out k' (ds @ ds') w r"
    using writer_endI [OF ends_flush_a [OF l(1) s(1) [unfolded l(4)] s(2) [unfolded l(2)]]] l by simp
next
  fix k ds w r d res k'
  assume "writer_end b es out k ds w r" and s: "d \<in> set es" "ikcp_input k d = Some (res, k')"
  then obtain l where l: "ends l" "k = lk_a l" "ds = lk_ab l" "w = lk_in l" "b = lk_b l" "es = lk_ba l" "out = lk_out l" "r = []"
    by (auto simp: writer_end_def)
  show "writer_end b es out k' ds w r"
    using writer_endI [OF ends_to_a [OF l(1) s(1) [unfolded l(6)] s(2) [unfolded l(2)]]] l by simp
next
  fix k ds w r len n data k'
  assume "writer_end b es out k ds w r" and s: "ikcp_recv k len = Some (n, data, k')" "0 < n"
  then have "rcv_queue k = []" by (auto simp: writer_end_def ends_def)
  with s show "writer_end b es out k' ds w (r @ data) \<and> takes_all h"
    by (auto elim: recv_cases)
qed (auto simp: writer_end_def ends_def)

interpretation reader: session_match h "set ds" "reader_end h a ds inp" "\<lambda>w. w = []" for h a ds inp
proof unfold_locales
  fix k es w r now ms k' ds'
  assume "reader_end h a ds inp k es w r" and s: "ikcp_flush k now = (ms, k', ds')"
  then obtain l where l: "ends l" "takes_all h" "k = lk_b l" "es = lk_ba l" "w = []" "a = lk_a l" "ds = lk_ab l" "inp = lk_in l" "r = lk_out l"
    by (auto simp: reader_end_def)
  show "reader_end h a ds inp k' (es @ ds') w r"
    using reader_endI [OF ends_flush_b [OF l(1) s [unfolded l(3)]] l(2)] l by simp
next
  fix k es w r d res k'
  assume "reader_end h a ds inp k es w r" and s: "d \<in> set ds" "ikcp_input k d = Some (res, k')"
    "unat (ackcount k) + length d < 2 ^ 30"
  then obtain l where l: "ends l" "takes_all h" "k = lk_b l" "es = lk_ba l" "w = []" "a = lk_a l" "ds = lk_ab l" "inp = lk_in l" "r = lk_out l"
    by (auto simp: reader_end_def)
  show "reader_end h a ds inp k' es w r"
    using reader_endI [OF ends_to_b [OF l(1) s [unfolded l(3,7)]] l(2)] l by simp
next
  fix k es w r len n data k'
  assume "reader_end h a ds inp k es w r" and s: "ikcp_recv k len = Some (n, data, k')" "0 \<le> len"
  then obtain l where l: "ends l" "takes_all h" "k = lk_b l" "es = lk_ba l" "w = []" "a = lk_a l" "ds = lk_ab l" "inp = lk_in l" "r = lk_out l"
    by (auto simp: reader_end_def)
  show "reader_end h a ds inp k' es w (r @ data) \<and> takes_all h"
    using reader_endI [OF ends_recv [OF l(1) s [unfolded l(3)]] l(2)] l by simp
qed (auto simp: reader_end_def ends_def)

section \<open>Two sessions\<close>

text \<open>\<open>pair_reach ha hb sa sb given\<close>: a session that writes and one that reads, set up with one
  conversation, after any number of steps of either in any order. Each takes datagrams only
  from the other, but any of those it ever sent, in any order and any number of times.
  \<open>given\<close> is what the writer was given while it was open, in the order in which the
  writes ran. The reader is given nothing.\<close>

inductive pair_reach :: "'a handlers \<Rightarrow> 'a handlers \<Rightarrow> 'a session \<Rightarrow> 'a session \<Rightarrow> bytes \<Rightarrow> bool" for ha hb where
  init: "Initialize ha la ta sid pa session_params new_session = Some (True, sa) \<Longrightarrow>
    Initialize hb lb tb sid pb session_params new_session = Some (True, sb) \<Longrightarrow>
    length (open_bytes ha la ta sid pa) < 2 ^ 31 \<Longrightarrow> open_bytes hb lb tb sid pb = [] \<Longrightarrow>
    pair_reach ha hb sa sb (open_bytes ha la ta sid pa)"
| writer: "pair_reach ha hb sa sb given \<Longrightarrow> session_act ha (set (frames (se_log sb))) w sa sa' \<Longrightarrow>
    length (given @ w) < 2 ^ 31 \<Longrightarrow> pair_reach ha hb sa' sb (given @ w)"
| reader: "pair_reach ha hb sa sb given \<Longrightarrow> session_act hb (set (frames (se_log sa))) [] sb sb' \<Longrightarrow>
    pair_reach ha hb sa sb' given"

definition pair_link :: "'a session \<Rightarrow> 'a session \<Rightarrow> bytes \<Rightarrow> link \<Rightarrow> bool" where
  "pair_link sa sb given l \<longleftrightarrow> se_kcp sa = Some (lk_a l) \<and> se_kcp sb = Some (lk_b l) \<and>
     frames (se_log sa) = lk_ab l \<and> frames (se_log sb) = lk_ba l \<and>
     lk_in l = given \<and> lk_out l = messages (se_log sb)"

definition pair_inv :: "'a handlers \<Rightarrow> 'a session \<Rightarrow> 'a session \<Rightarrow> bytes \<Rightarrow> bool" where
  "pair_inv hb sa sb given \<longleftrightarrow> takes_all hb \<and> se_input sa = [] \<and> se_input sb = [] \<and> messages (se_log sa) = [] \<and>
     length given < 2 ^ 31 \<and> (\<exists>l. ends l \<and> pair_link sa sb given l)"

lemma pair_inv_writer:
  assumes "pair_inv hb sa sb given" "session_act ha (set (frames (se_log sb))) w sa sa'" "length (given @ w) < 2 ^ 31"
  shows "pair_inv hb sa' sb (given @ w)"
proof -
  obtain l where l: "ends l" "pair_link sa sb given l" using assms(1) by (auto simp: pair_inv_def)
  have "writer.matches (lk_b l) (frames (se_log sb)) (lk_out l) sa given"
    using assms(1) l writer_endI [OF l(1)] by (simp add: writer.matches_def pair_inv_def pair_link_def)
  from writer.act_matches [OF assms(2) this assms(3)] show ?thesis
    using assms(1,3) l(2)
    by (fastforce simp: writer.matches_def writer_end_def pair_inv_def pair_link_def)
qed

lemma pair_reader_matches:
  assumes "pair_inv hb sa sb given" "ends l" "pair_link sa sb given l"
  shows "reader.matches hb (lk_a l) (frames (se_log sa)) given sb []"
  using assms(1,3) reader_endI [OF assms(2) _ refl refl refl, of hb]
  by (simp add: reader.matches_def pair_inv_def pair_link_def)

lemma pair_inv_reader:
  assumes "pair_inv hb sa sb given" "session_act hb (set (frames (se_log sa))) [] sb sb'"
  shows "pair_inv hb sa sb' given"
proof -
  obtain l where l: "ends l" "pair_link sa sb given l" using assms(1) by (auto simp: pair_inv_def)
  have "reader.matches hb (lk_a l) (frames (se_log sa)) given sb []"
    using assms(1) l by (rule pair_reader_matches)
  from reader.act_matches [OF assms(2) this] show ?thesis
    using assms(1) l(2)
    by (fastforce simp: reader.matches_def reader_end_def pair_inv_def pair_link_def)
qed

lemma fresh_ends: "ends (link_init (fresh_kcp sid) (fresh_kcp sid))"
proof -
  have "fresh_pair (fresh_kcp sid) (fresh_kcp sid)"
    by (simp add: fresh_pair_def fresh_kcp_def ikcp_create_def ikcp_consts cfg_ok_def)
  then have "link_reach (link_init (fresh_kcp sid) (fresh_kcp sid))" by (rule link_reach.init)
  then show ?thesis by (simp add: ends_def link_init_def) (simp add: fresh_kcp_def ikcp_create_def)
qed

lemma pair_inv_init:
  assumes "Initialize ha la ta sid pa session_params new_session = Some (True, sa)"
    "Initialize hb lb tb sid pb session_params new_session = Some (True, sb)"
    "length (open_bytes ha la ta sid pa) < 2 ^ 31" "open_bytes hb lb tb sid pb = []" "takes_all hb"
  shows "pair_inv hb sa sb (open_bytes ha la ta sid pa)"
proof -
  let ?k = "fresh_kcp sid"
  let ?g = "open_bytes ha la ta sid pa"
  have "writer_end ?k [] [] ?k [] [] []"
    using writer_endI [OF fresh_ends [of sid]] by (simp add: link_init_def)
  from writer.init_matches [OF assms(1) this assms(3)]
  obtain l where l: "ends l" "se_input sa = []" "messages (se_log sa) = []" "se_kcp sa = Some (lk_a l)"
    "frames (se_log sa) = lk_ab l" "lk_in l = ?g" "lk_b l = ?k" "lk_ba l = []" "lk_out l = []"
    by (auto simp: writer.matches_def writer_end_def)
  have "reader_end hb (lk_a l) (lk_ab l) ?g ?k [] [] []"
    using reader_endI [OF l(1) assms(5)] l by simp
  from reader.init_matches [OF assms(2) this assms(4)] show ?thesis
    using l assms(3,5) by (fastforce simp: reader.matches_def reader_end_def pair_inv_def pair_link_def)
qed

lemma pair_reach_inv: "pair_reach ha hb sa sb given \<Longrightarrow> takes_all hb \<Longrightarrow> pair_inv hb sa sb given"
  by (induction rule: pair_reach.induct) (auto intro: pair_inv_init pair_inv_writer pair_inv_reader)

section \<open>The reader never aborts\<close>

text \<open>A complete message of the writer is not empty and shorter than \<open>2 ^ 31\<close>, so the assertion
  of \<open>OnReadEvent\<close> holds.\<close>

lemma peek_len_grows:
  assumes "unat len + length (queue_bytes q) < 2 ^ 31" "q \<noteq> []"
    and "\<forall>s \<in> set q. seg_ok s \<and> snd (payload s) \<noteq> []"
  shows "unat len < unat (peek_len len q) \<and> unat (peek_len len q) < 2 ^ 31"
  using assms
proof (induction q arbitrary: len)
  case (Cons s q)
  have s: "length (take (unat (seg_len s)) (seg_data s)) = unat (seg_len s)" "0 < unat (seg_len s)"
    using Cons.prems(3) by (auto simp: seg_ok_def payload_def)
  have sum: "unat len + unat (seg_len s) + length (queue_bytes q) < 2 ^ 31"
    using Cons.prems(1) s(1) by simp
  then have u: "unat (len + seg_len s) = unat len + unat (seg_len s)" by (intro unat_add_u32) simp
  show ?case
  proof (cases "seg_frg s = 0 \<or> q = []")
    case True
    then have "peek_len len (s # q) = len + seg_len s" by (auto simp: Let_def)
    then show ?thesis using u sum s(2) by simp
  next
    case False
    then have "unat (len + seg_len s) < unat (peek_len (len + seg_len s) q) \<and>
        unat (peek_len (len + seg_len s) q) < 2 ^ 31"
      using sum u Cons.prems(3) by (intro Cons.IH) auto
    then show ?thesis using False u by (simp add: Let_def)
  qed
qed simp

lemma concat_part: "xs = as @ bs @ cs \<Longrightarrow> length (concat (map f bs)) \<le> length (concat (map f xs))"
  by simp

lemma queue_in_log:
  assumes "ends l" "length (lk_in l) < 2 ^ 31"
  shows "length (queue_bytes (rcv_queue (lk_b l))) < 2 ^ 31"
    "\<forall>s \<in> set (rcv_queue (lk_b l)). seg_ok s \<and> snd (payload s) \<noteq> []"
proof -
  let ?b = "lk_b l"
  let ?log = "lk_log l"
  obtain R where R: "receiver ?log R ?b" using ends_inv(1) [OF assms(1)] by (auto simp: link_inv_def)
  let ?n = "rcv_pos R ?b"
  have n: "?n \<le> length ?log" "R \<le> ?n" using R by (simp_all add: receiver_def rcv_pos_def)
  have q: "map payload (rcv_queue ?b) = take (?n - R) (drop R ?log)"
  proof -
    have "map payload (rcv_queue ?b) = map (nth ?log) [R ..< ?n]"
      using R by (simp add: receiver_def rcv_coherent_def)
    also have "\<dots> = take (?n - R) (drop R ?log)"
      using n by (intro nth_equalityI) auto
    finally show ?thesis .
  qed
  have "?log = take R ?log @ take (?n - R) (drop R ?log) @ drop (?n - R) (drop R ?log)"
    by (simp only: append_take_drop_id)
  then have "length (concat (map snd (take (?n - R) (drop R ?log)))) \<le> length (concat (map snd ?log))"
    by (rule concat_part)
  moreover have "length (concat (map snd ?log)) \<le> length (lk_in l)"
    using ends_length [OF assms(1)] by simp
  moreover have "queue_bytes (rcv_queue ?b) = concat (map snd (map payload (rcv_queue ?b)))"
    by (simp add: queue_bytes_payload o_def)
  ultimately show "length (queue_bytes (rcv_queue ?b)) < 2 ^ 31" using assms(2) q by simp
  have "set (map payload (rcv_queue ?b)) \<subseteq> set ?log"
    unfolding q by (auto dest: in_set_takeD in_set_dropD)
  moreover have "rcv_tidy ?b" using link_reach_tidy assms(1) by (simp add: ends_def link_tidy_def)
  ultimately show "\<forall>s \<in> set (rcv_queue ?b). seg_ok s \<and> snd (payload s) \<noteq> []"
    using assms(1) by (auto simp: ends_def rcv_tidy_def)
qed

lemma ends_message:
  assumes "ends l" "length (lk_in l) < 2 ^ 31" "0 \<le> ikcp_peeksize (lk_b l)"
  obtains n data k' where "ikcp_recv (lk_b l) (ikcp_peeksize (lk_b l)) = Some (n, data, k')" "0 < n"
proof -
  let ?b = "lk_b l"
  have q: "rcv_queue ?b \<noteq> []" using assms(3) by (auto simp: ikcp_peeksize_def)
  have "0 < unat (peek_len 0 (rcv_queue ?b)) \<and> unat (peek_len 0 (rcv_queue ?b)) < 2 ^ 31"
    using peek_len_grows [of 0 "rcv_queue ?b"] queue_in_log [OF assms(1,2)] q by simp
  then have p: "0 < ikcp_peeksize ?b"
    using peeksize_eq [OF assms(3)] by (simp add: sint_u32 del: of_nat_unat add: uint_nat)
  obtain n data k' where r: "ikcp_recv ?b (ikcp_peeksize ?b) = Some (n, data, k')"
    using recv_total [of ?b "ikcp_peeksize ?b"] by (cases "ikcp_recv ?b (ikcp_peeksize ?b)") auto
  moreover have "n = ikcp_peeksize ?b"
    using r p q by (auto simp: ikcp_recv_def Let_def split: if_splits)
  ultimately show thesis using p that by simp
qed

lemma evolves_kcp_some: "evolves h s s' \<Longrightarrow> se_kcp s \<noteq> None \<Longrightarrow> se_kcp s' \<noteq> None"
  by (cases "se_kcp s'"; cases "se_kcp s") (auto simp: evolves_def same_identity_def)

lemma close_total: "se_kcp s \<noteq> None \<Longrightarrow> Close h now fl s \<noteq> None"
  by (auto simp: Close_def Let_def flush_session_def split: prod.splits)

text \<open>Callbacks that write nothing do not fail.\<close>

lemma perform_total:
  "se_kcp s \<noteq> None \<Longrightarrow> calls_bytes (se_closed s) cs = [] \<Longrightarrow> perform h cs s \<noteq> None"
proof (induction cs arbitrary: s)
  case (Cons c cs)
  show ?case
  proof (cases c)
    case (Call_write now data)
    have "WriteInLoopThread h now data s = Some s"
    proof (cases "se_closed s")
      case True
      then show ?thesis by (simp add: closed_ignores)
    next
      case False
      then have "data = []" using Cons.prems(2) Call_write by simp
      then show ?thesis
        using Cons.prems(1) False by (auto simp: WriteInLoopThread_def write_direct_def write_rest_def Let_def)
    qed
    then show ?thesis using Cons Call_write by simp
  next
    case (Call_close now fl)
    obtain s1 where s1: "Close h now fl s = Some s1" using close_total [OF Cons.prems(1)] by blast
    have "se_kcp s1 \<noteq> None" by (rule evolves_kcp_some [OF evolves_close(1) [OF s1] Cons.prems(1)])
    then show ?thesis using Cons.IH [of s1] evolves_close(2) [OF s1] Call_close s1 by simp
  next
    case (Call_close_after ms fl)
    then show ?thesis using Cons by (simp add: CloseAfterMs_def)
  qed
qed simp

lemma reader_matchesD:
  assumes "reader.matches h a ds inp s w"
  obtains l where "ends l" "takes_all h" "se_kcp s = Some (lk_b l)" "lk_in l = inp" "lk_ab l = ds" "se_input s = []" "w = []"
  using assms by (auto simp: reader.matches_def reader_end_def)

lemma read_loop_total:
  "reader.matches h a ds inp s [] \<Longrightarrow> length inp < 2 ^ 31 \<Longrightarrow> read_loop h s \<noteq> None"
proof (induction s rule: measure_induct_rule [where f = sess_load])
  case (less s)
  obtain l where l: "ends l" "takes_all h" "se_kcp s = Some (lk_b l)" "lk_in l = inp" "se_input s = []"
    using less.prems(1) by (rule reader_matchesD)
  let ?n = "ikcp_peeksize (lk_b l)"
  show ?case
  proof (cases "se_closed s \<or> ?n < 0")
    case True
    then show ?thesis using l(3) by (subst read_loop.simps) auto
  next
    case False
    then have n: "0 \<le> ?n" "\<not> se_closed s" by auto
    obtain m data k' where r: "ikcp_recv (lk_b l) ?n = Some (m, data, k')" "0 < m"
      by (rule ends_message [OF l(1) _ n(1)]) (use l(4) less.prems(2) in simp)
    obtain f where f: "on_message h = Some f" "\<And>s. calls_bytes False (fst (f s)) = []"
      using l(2) by (auto simp: takes_all_def)
    let ?s = "s\<lparr>se_kcp := Some k', se_input := data, se_log := se_log s @ [Ev_message data]\<rparr>"
    obtain calls taken where c: "f ?s = (calls, taken)" by fastforce
    have "perform h calls (?s\<lparr>se_input := drop taken data\<rparr>) \<noteq> None"
      using f(2) [of ?s] c n(2) by (intro perform_total) simp_all
    then obtain s1 where s1: "OnReadEvent h ?n s = Some s1"
      using l(3,5) r f(1) c by (auto simp: OnReadEvent_def Let_def)
    have "reader.matches h a ds inp s1 []"
      by (rule reader.read_event_matches [OF s1 less.prems(1) refl n])
    then have "read_loop h s1 \<noteq> None"
      by (rule less.IH [OF read_event_load [OF s1 n(1)] _ less.prems(2)])
    then show ?thesis using s1 l(3) n by (subst read_loop.simps) simp
  qed
qed

lemma process_total:
  assumes "reader.matches h a ds inp s []" "length inp < 2 ^ 31"
    and "acks_room (length (RemainingData p)) s" "RemainingData p \<in> set ds"
  shows "ProcessPacketInLoopThread h p peer s \<noteq> None"
proof (cases "se_closed s")
  case False
  obtain l where l: "ends l" "takes_all h" "se_kcp s = Some (lk_b l)" "lk_in l = inp" "lk_ab l = ds"
    using assms(1) by (rule reader_matchesD)
  have "quiet (lk_b l)" using ends_inv(1) [OF l(1)] by (simp add: link_inv_def)
  then have "0 < mss (lk_b l)" by (auto simp: quiet_def cfg_ok_def word_less_nat_alt)
  then obtain res k' where k': "ikcp_input (lk_b l) (RemainingData p) = Some (res, k')"
    using input_total [of "lk_b l" "RemainingData p"] by fastforce
  show ?thesis
  proof (cases "res < 0")
    case True
    then show ?thesis using k' l(3) False by (simp add: ProcessPacketInLoopThread_def)
  next
    case res: False
    have "reader_end h a ds inp k' (frames (se_log s)) [] (messages (se_log s))"
      using reader.R_input [OF reader.matches_kcp [OF assms(1) l(3)] assms(4) k'] assms(3) l(3)
      by (simp add: acks_room_def)
    then have "reader.matches h a ds inp (s\<lparr>se_kcp := Some k', se_peer := Some peer\<rparr>) []"
      using reader.matches_set [OF assms(1)] by simp
    from read_loop_total [OF this assms(2)] show ?thesis
      using k' l(3) False res by (auto simp: ProcessPacketInLoopThread_def Let_def)
  qed
qed (simp add: ProcessPacketInLoopThread_def)

lemma pair_reader:
  assumes "pair_reach ha hb sa sb given" "takes_all hb"
  obtains a where "reader.matches hb a (frames (se_log sa)) given sb []" "length given < 2 ^ 31"
proof -
  have i: "pair_inv hb sa sb given" by (rule pair_reach_inv [OF assms])
  then obtain l where l: "ends l" "pair_link sa sb given l" by (auto simp: pair_inv_def)
  from i l have "reader.matches hb (lk_a l) (frames (se_log sa)) given sb []"
    by (rule pair_reader_matches)
  then show thesis using i that by (auto simp: pair_inv_def)
qed

section \<open>A concrete pair\<close>

text \<open>The writer of \<open>demo_t\<close> and a reader of the same conversation, which has received the one
  datagram sent.\<close>

definition demo_reader :: "nat handlers" where
  "demo_reader = \<lparr>on_connection = None, on_message = Some (\<lambda>s. ([Call_close_after 5 True], length (se_input s))),
     on_write_complete = None, on_high_water = None, flush_tx_set = False\<rparr>"

definition demo_rs :: "nat session" where
  "demo_rs = snd (the (Initialize demo_reader True 0 7 2 session_params new_session))"

definition demo_packet :: KCPReceivedPacket where
  "demo_packet = received (hd (snd (snd demo_wire)))"

definition demo_read :: "nat session" where
  "demo_read = the (ProcessPacketInLoopThread demo_reader demo_packet 1 demo_rs)"

lemma demo_takes: "takes_all demo_reader"
  by (simp add: takes_all_def demo_reader_def)

lemma demo_reader_init: "Initialize demo_reader True 0 7 2 session_params new_session = Some (True, demo_rs)"
  by (simp add: demo_rs_def Initialize_def new_session_def configure_value connection_up_def demo_reader_def)

lemma demo_rs_fields: "se_kcp demo_rs = Some (fresh_kcp 7)" "\<not> se_closed demo_rs" "se_queue demo_rs = [Update_state]"
  by (simp_all add: demo_rs_def Initialize_def new_session_def configure_value connection_up_def demo_reader_def)

lemma demo_receive:
  "map_option (\<lambda>(r, k). (r, ikcp_need_drain k, ikcp_peeksize k, map_option (\<lambda>(n, d, k'). (n, d, ikcp_peeksize k'))
     (ikcp_recv k 3))) (ikcp_input (fresh_kcp 7) (RemainingData demo_packet)) = Some (0, False, 3, Some (3, [1, 2, 3], - 1))"
  by code_simp

lemma demo_read_value:
  "ProcessPacketInLoopThread demo_reader demo_packet 1 demo_rs = Some demo_read"
  "messages (se_log demo_read) = [1, 2, 3]" "se_queue demo_read = [Update_state]"
proof -
  obtain r k where k: "ikcp_input (fresh_kcp 7) (RemainingData demo_packet) = Some (r, k)"
    using demo_receive by (cases "ikcp_input (fresh_kcp 7) (RemainingData demo_packet)") auto
  with demo_receive obtain n d k' where f: "r = 0" "ikcp_peeksize k = 3" "ikcp_recv k 3 = Some (n, d, k')"
    "n = 3" "d = [1, 2, 3]" "ikcp_peeksize k' = - 1" by auto
  let ?s = "demo_rs\<lparr>se_kcp := Some k, se_peer := Some 1\<rparr>"
  let ?t = "demo_rs\<lparr>se_kcp := Some k', se_peer := Some 1, se_delayed := [(5, True)], se_log := [Ev_message [1, 2, 3]]\<rparr>"
  have i: "se_input demo_rs = []" "se_log demo_rs = []" "se_delayed demo_rs = []"
    by (simp_all add: demo_rs_def Initialize_def new_session_def configure_value connection_up_def demo_reader_def)
  have t: "read_loop demo_reader ?t = Some ?t"
    using demo_rs_fields f(6) by (subst read_loop.simps) simp
  have "OnReadEvent demo_reader 3 ?s = Some ?t"
    using f(3-5) i by (simp add: OnReadEvent_def demo_reader_def CloseAfterMs_def)
  then have "read_loop demo_reader ?s = Some ?t"
    using demo_rs_fields f(2) t by (subst read_loop.simps) simp
  then have "ProcessPacketInLoopThread demo_reader demo_packet 1 demo_rs = Some ?t"
    using demo_rs_fields k f(1) by (simp add: ProcessPacketInLoopThread_def demo_reader_def)
  then show "ProcessPacketInLoopThread demo_reader demo_packet 1 demo_rs = Some demo_read"
    "messages (se_log demo_read) = [1, 2, 3]" "se_queue demo_read = [Update_state]"
    using demo_rs_fields by (simp_all add: demo_read_def)
qed

lemma demo_packet_sent: "frames (se_log demo_t) = [RemainingData demo_packet]"
  using demo_session_write(3) by (auto simp: demo_packet_def RemainingData_def received_def kPublicHeaderLength_def)

lemma demo_room: "acks_room (length (RemainingData demo_packet)) demo_rs"
proof -
  have "length (RemainingData demo_packet) = 27" "ackcount (fresh_kcp 7) = 0" by code_simp+
  then show ?thesis by (simp add: acks_room_def demo_rs_fields)
qed

lemma demo_pair_reach: "pair_reach demo_h demo_reader demo_t demo_rs [1, 2, 3]"
  "pair_reach demo_h demo_reader demo_t demo_read [1, 2, 3]"
proof -
  have o: "open_bytes demo_h True 0 7 1 = []" "open_bytes demo_reader True 0 7 2 = []"
    by (simp_all add: open_bytes_def up_bytes_def demo_h_def demo_reader_def)
  have 1: "pair_reach demo_h demo_reader demo_s demo_rs []"
    using pair_reach.init [OF demo_init demo_reader_init] o by simp
  have "session_act demo_h (set (frames (se_log demo_rs))) [1, 2, 3] demo_s demo_t"
    using session_act.app_write [OF _ demo_session_write(1)] demo_fields by simp
  from pair_reach.writer [OF 1 this] show 2: "pair_reach demo_h demo_reader demo_t demo_rs [1, 2, 3]" by simp
  have "session_act demo_reader (set (frames (se_log demo_t))) [] demo_rs demo_read"
    using session_act.app_packet [OF _ demo_room _ demo_read_value(1)] demo_packet_sent demo_rs_fields by simp
  from pair_reach.reader [OF 2 this] show "pair_reach demo_h demo_reader demo_t demo_read [1, 2, 3]" .
qed

section \<open>The properties\<close>

text \<open>C5: Two sessions over a network that loses, duplicates, delays and reorders
  datagrams, one that writes and one that reads, are, with all their callbacks, queues, timers
  and closing, an implementation of the link of the core. The reader's message callback takes
  all it is given and the reader writes nothing (\<open>takes_all\<close>); the writer's callbacks may write. Every state they reach is a state the link reaches, with the same control
  blocks and the same datagrams, and the messages the reader's user has seen are a prefix of
  what the writer's user wrote.\<close>

theorem sessions_refine_link:
  assumes "pair_reach ha hb sa sb given" "takes_all hb"
  shows "\<exists>l. link_reach l \<and> pair_link sa sb given l \<and> prefix (messages (se_log sb)) given"
proof -
  obtain l where l: "ends l" "pair_link sa sb given l"
    using pair_reach_inv [OF assms] by (auto simp: pair_inv_def)
  then show ?thesis using link_prefix [OF ends_inv(1) [OF l(1)]] by (auto simp: ends_def pair_link_def)
qed

theorem sessions_refine_link_witness:
  "\<exists>l. link_reach l \<and> lk_in l = [1, 2, 3] \<and> lk_out l = [1, 2, 3] \<and> lk_ab l = [RemainingData demo_packet]"
  using sessions_refine_link [OF demo_pair_reach(2) demo_takes]
  by (auto simp: pair_link_def demo_read_value demo_packet_sent)

text \<open>C6: Whatever the network does to the datagrams of a writer, none of them makes
  the reader of \<open>pair_reach\<close> abort, whose message callback takes all and writes nothing: no
  message of the writer is empty, and the reading loop ends. (A forged datagram
  can: \<open>session_empty_message\<close>.)\<close>

theorem reader_never_aborts:
  assumes "pair_reach ha hb sa sb given" "takes_all hb"
    and "RemainingData p \<in> set (frames (se_log sa))" "acks_room (length (RemainingData p)) sb"
  shows "\<exists>sb'. ProcessPacketInLoopThread hb p peer sb = Some sb'"
  by (rule pair_reader [OF assms(1,2)]) (use process_total [OF _ _ assms(4,3)] in blast)

theorem reader_never_aborts_witness:
  "\<exists>s. ProcessPacketInLoopThread demo_reader demo_packet 9 demo_rs = Some s"
  using reader_never_aborts [OF demo_pair_reach(1) demo_takes _ demo_room] demo_packet_sent by simp

end
