(* ===== verification/Hash_Tables.thy ===== *)
theory Hash_Tables
  imports Prelude
begin

text \<open>
  \<open>std::unordered_map\<close> as the code uses it: \<open>find\<close>, \<open>insert\<close> (which keeps an existing
  entry), assignment through an iterator, \<open>erase\<close> by key and loops that erase while they
  iterate. A table is the list of its entries in the order an iteration visits them; the
  standard leaves that order open, and an insertion may put the entry anywhere (here: in
  front). The locale \<open>hash_table\<close> holds the laws that the server relies on.
\<close>

type_synonym ('k, 'v) table = "('k \<times> 'v) list"

definition tb_find :: "('k, 'v) table \<Rightarrow> 'k \<Rightarrow> 'v option" where
  "tb_find t k = map_of t k"

definition tb_insert :: "'k \<Rightarrow> 'v \<Rightarrow> ('k, 'v) table \<Rightarrow> ('k, 'v) table" where
  "tb_insert k v t = (if tb_find t k = None then (k, v) # t else t)"

definition tb_assign :: "'k \<Rightarrow> 'v \<Rightarrow> ('k, 'v) table \<Rightarrow> ('k, 'v) table" where
  "tb_assign k v t = map (\<lambda>(k', v'). (k', if k' = k then v else v')) t"

definition tb_erase :: "'k \<Rightarrow> ('k, 'v) table \<Rightarrow> ('k, 'v) table" where
  "tb_erase k t = filter (\<lambda>(k', _). k' \<noteq> k) t"

definition tb_ok :: "('k, 'v) table \<Rightarrow> bool" where
  "tb_ok t \<longleftrightarrow> distinct (map fst t)"

abbreviation tb_keys :: "('k, 'v) table \<Rightarrow> 'k set" where
  "tb_keys t \<equiv> fst ` set t"

locale hash_table =
  fixes find :: "'t \<Rightarrow> 'k \<Rightarrow> 'v option"
    and insert_new :: "'k \<Rightarrow> 'v \<Rightarrow> 't \<Rightarrow> 't"
    and erase :: "'k \<Rightarrow> 't \<Rightarrow> 't"
    and ok :: "'t \<Rightarrow> bool"
  assumes find_insert: "ok t \<Longrightarrow> find (insert_new k v t) k' =
      (if k' = k \<and> find t k = None then Some v else find t k')"
    and find_erase: "ok t \<Longrightarrow> find (erase k t) k' = (if k' = k then None else find t k')"
    and insert_ok: "ok t \<Longrightarrow> ok (insert_new k v t)"
    and erase_ok: "ok t \<Longrightarrow> ok (erase k t)"
begin

text \<open>Moving an entry from one table to another, as the server does with a session that
  completes its handshake or ends.\<close>

lemma insert_erase_dom:
  assumes "ok t"
  shows "dom (find (insert_new k v t)) = insert k (dom (find t))"
    "dom (find (erase k t)) = dom (find t) - {k}"
  using find_insert [OF assms] find_erase [OF assms] by (auto simp: dom_def)

lemma insert_erase:
  assumes "ok t" "find t k = None"
  shows "find (erase k (insert_new k v t)) = find t"
  using assms find_insert find_erase insert_ok by (auto simp: fun_eq_iff)

lemma moved_disjoint:
  assumes "ok t" "ok u" "dom (find t) \<inter> dom (find u) = {}"
  shows "dom (find (erase k t)) \<inter> dom (find (insert_new k v u)) = {}"
  using assms insert_erase_dom by auto

end

lemma tb_keys_dom: "tb_keys t = dom (tb_find t)"
  unfolding tb_find_def by (metis dom_map_of_conv_image_fst)

lemma tb_find_assign:
  "tb_find (tb_assign k v t) k' = (if k' = k \<and> tb_find t k \<noteq> None then Some v else tb_find t k')"
  by (induction t) (auto simp: tb_find_def tb_assign_def)

lemma tb_find_erase: "tb_find (tb_erase k t) k' = (if k' = k then None else tb_find t k')"
  by (induction t) (auto simp: tb_find_def tb_erase_def)

lemma tb_find_insert:
  "tb_find (tb_insert k v t) k' = (if k' = k \<and> tb_find t k = None then Some v else tb_find t k')"
  by (auto simp: tb_find_def tb_insert_def)

lemma tb_find_set: "tb_find t k = Some v \<Longrightarrow> (k, v) \<in> set t"
  by (auto simp: tb_find_def dest: map_of_SomeD)

lemma tb_find_iff: "tb_ok t \<Longrightarrow> tb_find t k = Some v \<longleftrightarrow> (k, v) \<in> set t"
  by (auto simp: tb_find_def tb_ok_def)

lemma tb_ok_ops [inv_intro]:
  "tb_ok t \<Longrightarrow> tb_ok (tb_insert k v t)" "tb_ok t \<Longrightarrow> tb_ok (tb_erase k t)"
  "tb_ok t \<Longrightarrow> tb_ok (tb_assign k v t)" "tb_ok t \<Longrightarrow> tb_ok (filter P t)" "tb_ok []"
proof -
  show "tb_ok t \<Longrightarrow> tb_ok (filter P t)" for t :: "('k \<times> 'v) list" and P
    by (simp add: tb_ok_def distinct_map_filter)
  then show "tb_ok t \<Longrightarrow> tb_ok (tb_erase k t)" by (simp add: tb_erase_def)
  show "tb_ok t \<Longrightarrow> tb_ok (tb_insert k v t)"
    by (auto simp: tb_ok_def tb_insert_def tb_find_def map_of_eq_None_iff)
  have "map fst (tb_assign k v t) = map fst t" by (auto simp: tb_assign_def)
  then show "tb_ok t \<Longrightarrow> tb_ok (tb_assign k v t)" by (simp add: tb_ok_def)
  show "tb_ok []" by (simp add: tb_ok_def)
qed

interpretation tb: hash_table tb_find tb_insert tb_erase tb_ok
  by unfold_locales (simp_all add: tb_find_insert tb_find_erase tb_ok_ops)

lemma tb_keys_ops [simp]:
  "tb_keys (tb_insert k v t) = insert k (tb_keys t)" "tb_keys (tb_erase k t) = tb_keys t - {k}"
  "tb_keys (tb_assign k v t) = tb_keys t"
  unfolding tb_keys_dom by (auto simp: dom_def tb_find_insert tb_find_erase tb_find_assign split: if_splits)

end
