(* ===== verification/Kcp_Server.thy ===== *)
theory Kcp_Server
  imports Kcp_Session_Life Hash_Tables
begin

text \<open>
  The server (\<open>kcp/kcp_server.h\<close>, \<open>kcp/kcp_server.cc\<close>): the handshake with its tables of
  pending, connected, idle and closed sessions, the dispatch of datagrams, the periodic task
  and the error queue. Session objects live in \<open>sv_heap\<close>; \<open>session_map_\<close> holds references,
  so that an object outlives its entry while its loop still has work for it.

  Parameters are what is not in the repository: the checksum of zlib, the printed form of a
  socket address (the key of \<open>pending_session_map_\<close>), the callbacks of the user, the random
  numbers that \<open>URandom\<close> yields and what the socket calls return. With no extra threads
  the sessions share the loop of the server and \<open>runInLoop\<close> runs its functor at once. An
  operation is \<open>None\<close> where an assertion fails. A handler reads the clock once.
\<close>

section \<open>State\<close>

definition kServerMaxSynRetryTimes :: nat where "kServerMaxSynRetryTimes = 10"
definition kServerMaxGenSessionIdTryTimes :: nat where "kServerMaxGenSessionIdTryTimes = 20"
definition kNumPacketsPerRead :: nat where "kNumPacketsPerRead = 16"

text \<open>Times are microseconds; the constants of the source are seconds.\<close>

definition kServerSynSentTimeout :: int where "kServerSynSentTimeout = 2 * 1000000"
definition kServerSessionIdleSeconds :: int where "kServerSessionIdleSeconds = 120 * 1000000"
definition kServerSessionTimeWaitSeconds :: int where "kServerSessionTimeWaitSeconds = 120 * 1000000"

lemmas server_consts = kServerMaxSynRetryTimes_def kServerMaxGenSessionIdTryTimes_def
  kNumPacketsPerRead_def kServerSynSentTimeout_def kServerSessionIdleSeconds_def
  kServerSessionTimeWaitSeconds_def kMaxPacketSize_def

record 'a KCPPendingSession =
  pe_id :: u32
  pe_retry :: nat
  pe_received :: int
  pe_sent :: int
  pe_peer :: 'a

record 'a env =
  adler :: "bytes \<Rightarrow> u32"
  ip_port :: "'a \<Rightarrow> string"
  callbacks :: "'a handlers"

record 'a KCPServer =
  sv_threads :: nat
  sv_pending :: "(string, 'a KCPPendingSession) table"
  sv_sessions :: "(u32, nat) table"
  sv_idle :: "(u32, int) table"
  sv_time_wait :: "(u32, int) table"
  sv_heap :: "'a session list"
  sv_sent :: "('a \<times> bytes) list"

definition new_server :: "nat \<Rightarrow> 'a KCPServer" where
  "new_server n = \<lparr>sv_threads = n, sv_pending = [], sv_sessions = [], sv_idle = [],
     sv_time_wait = [], sv_heap = [], sv_sent = []\<rparr>"

abbreviation in_loop :: "'a KCPServer \<Rightarrow> bool" where
  "in_loop s \<equiv> sv_threads s = 0"

section \<open>Sending and identifiers\<close>

definition SendPacket ::
  "'a env \<Rightarrow> KCPReceivedPacketType \<Rightarrow> u32 \<Rightarrow> 'a \<Rightarrow> 'a KCPServer \<Rightarrow> 'a KCPServer" where
  "SendPacket e t sid addr s =
     (case WritePublicHeader (adler e) (replicate kPublicHeaderLength 0) (packet_code t) sid of
        (W_SUCCESS, buf) \<Rightarrow> s\<lparr>sv_sent := sv_sent s @ [(addr, buf)]\<rparr>
      | _ \<Rightarrow> s)"

text \<open>The random numbers drawn, \<open>None\<close> for a failed draw; the first that no connected or
  recently closed session has is taken.\<close>

fun gen_session_id :: "nat \<Rightarrow> u32 option list \<Rightarrow> 'a KCPServer \<Rightarrow> u32 option" where
  "gen_session_id 0 draws s = None"
| "gen_session_id (Suc n) [] s = None"
| "gen_session_id (Suc n) (None # draws) s = gen_session_id n draws s"
| "gen_session_id (Suc n) (Some rand_id # draws) s =
     (if tb_find (sv_sessions s) rand_id \<noteq> None then gen_session_id n draws s
      else if tb_find (sv_time_wait s) rand_id \<noteq> None then gen_session_id n draws s
      else Some rand_id)"

definition GenerateSessionId :: "u32 option list \<Rightarrow> 'a KCPServer \<Rightarrow> u32 option" where
  "GenerateSessionId draws s = gen_session_id kServerMaxGenSessionIdTryTimes draws s"

section \<open>Session objects\<close>

text \<open>\<open>session->loop()->runInLoop\<close> of \<open>Close()\<close>.\<close>

definition run_close :: "'a env \<Rightarrow> int \<Rightarrow> bool \<Rightarrow> nat \<Rightarrow> 'a KCPServer \<Rightarrow> 'a KCPServer option" where
  "run_close e now last_flush r s =
     (if in_loop s
      then map_option (\<lambda>x. s\<lparr>sv_heap := (sv_heap s)[r := x]\<rparr>)
             (Close (callbacks e) now last_flush (sv_heap s ! r))
      else Some (s\<lparr>sv_heap := (sv_heap s)[r := enqueue (Close_session last_flush) (sv_heap s ! r)]\<rparr>))"

text \<open>\<open>make_shared<KCPSession>\<close> and \<open>InitializeSession\<close>.\<close>

definition InitializeSession ::
  "'a env \<Rightarrow> int \<Rightarrow> u32 \<Rightarrow> 'a \<Rightarrow> 'a KCPServer \<Rightarrow> (bool \<times> 'a session) option" where
  "InitializeSession e now sid addr s =
     Initialize (callbacks e) (in_loop s) now sid addr session_params new_session"

text \<open>The three updates that connect a session once it is initialized.\<close>

definition connect_session ::
  "u32 \<Rightarrow> string \<Rightarrow> int \<Rightarrow> 'a session \<Rightarrow> 'a KCPServer \<Rightarrow> 'a KCPServer" where
  "connect_session sid key now x s =
     s\<lparr>sv_heap := sv_heap s @ [x],
       sv_sessions := tb_insert sid (length (sv_heap s)) (sv_sessions s),
       sv_pending := tb_erase key (sv_pending s),
       sv_idle := tb_insert sid now (sv_idle s)\<rparr>"

definition start_session ::
  "'a env \<Rightarrow> int \<Rightarrow> u32 \<Rightarrow> 'a \<Rightarrow> 'a KCPServer \<Rightarrow> (bool \<times> 'a KCPServer) option" where
  "start_session e now sid addr s =
     (case InitializeSession e now sid addr s of
        None \<Rightarrow> None
      | Some (ok, x) \<Rightarrow>
          if \<not> ok then Some (False, s)
          else if tb_find (sv_sessions s) sid \<noteq> None then Some (False, s\<lparr>sv_heap := sv_heap s @ [x]\<rparr>)
          else Some (True, connect_session sid (ip_port e addr) now x s))"

section \<open>The handlers\<close>

definition ProcessSynPacket ::
  "'a env \<Rightarrow> u32 option list \<Rightarrow> int \<Rightarrow> KCPPublicHeader \<Rightarrow> KCPReceivedPacket \<Rightarrow> 'a \<Rightarrow>
   'a KCPServer \<Rightarrow> 'a KCPServer option" where
  "ProcessSynPacket e draws now hdr packet addr s =
     (if RemainingBytes packet \<noteq> 0 then None
      else if packet_type hdr \<noteq> packet_code SYN_PACKET then None
      else if session_id hdr \<noteq> 0 then None
      else
        let key = ip_port e addr in
        case tb_find (sv_pending s) key of
          Some pe \<Rightarrow>
            if pe_retry pe \<ge> kServerMaxSynRetryTimes then
              let s = SendPacket e RST_PACKET 0 addr s
              in Some (s\<lparr>sv_pending := tb_erase key (sv_pending s)\<rparr>)
            else
              let pe = pe\<lparr>pe_retry := pe_retry pe + 1, pe_sent := now\<rparr>;
                  s = s\<lparr>sv_pending := tb_assign key pe (sv_pending s)\<rparr>
              in Some (SendPacket e SYN_PACKET (pe_id pe) addr s)
        | None \<Rightarrow> (case GenerateSessionId draws s of
            None \<Rightarrow> Some (SendPacket e RST_PACKET 0 addr s)
          | Some sid \<Rightarrow>
              let pe = \<lparr>pe_id = sid, pe_retry = 0, pe_received = now, pe_sent = now, pe_peer = addr\<rparr>;
                  s = s\<lparr>sv_pending := tb_insert key pe (sv_pending s)\<rparr>
              in Some (SendPacket e SYN_PACKET sid addr s)))"

definition ProcessPingPacket ::
  "'a env \<Rightarrow> int \<Rightarrow> KCPPublicHeader \<Rightarrow> KCPReceivedPacket \<Rightarrow> 'a \<Rightarrow> 'a KCPServer \<Rightarrow> 'a KCPServer option" where
  "ProcessPingPacket e now hdr packet addr s =
     (if RemainingBytes packet \<noteq> 0 then None
      else if packet_type hdr \<noteq> packet_code PING_PACKET then None
      else if \<not> session_id hdr > 0 then None
      else
        let sid = session_id hdr in
        case tb_find (sv_sessions s) sid of
          None \<Rightarrow> Some (SendPacket e RST_PACKET sid addr s)
        | Some r \<Rightarrow>
            let s = (if tb_find (sv_idle s) sid \<noteq> None
                     then s\<lparr>sv_idle := tb_assign sid now (sv_idle s)\<rparr>
                     else s\<lparr>sv_idle := tb_insert sid now (sv_idle s)\<rparr>)
            in Some (SendPacket e PONG_PACKET sid addr s))"

definition ProcessAckPacket ::
  "'a env \<Rightarrow> int \<Rightarrow> KCPPublicHeader \<Rightarrow> KCPReceivedPacket \<Rightarrow> 'a \<Rightarrow> 'a KCPServer \<Rightarrow> 'a KCPServer option" where
  "ProcessAckPacket e now hdr packet addr s =
     (if RemainingBytes packet \<noteq> 0 then None
      else if packet_type hdr \<noteq> packet_code ACK_PACKET then None
      else
        let sid = session_id hdr in
        case tb_find (sv_pending s) (ip_port e addr) of
          None \<Rightarrow>
            if tb_find (sv_sessions s) sid = None then Some (SendPacket e RST_PACKET 0 addr s) else Some s
        | Some pe \<Rightarrow>
            if sid \<noteq> pe_id pe then Some (SendPacket e RST_PACKET 0 addr s)
            else if tb_find (sv_sessions s) sid \<noteq> None then Some s
            else map_option snd (start_session e now sid addr s))"

definition ProcessRstPacket ::
  "'a env \<Rightarrow> int \<Rightarrow> KCPPublicHeader \<Rightarrow> KCPReceivedPacket \<Rightarrow> 'a \<Rightarrow> 'a KCPServer \<Rightarrow> 'a KCPServer option" where
  "ProcessRstPacket e now hdr packet addr s =
     (if RemainingBytes packet \<noteq> 0 then None
      else if packet_type hdr \<noteq> packet_code RST_PACKET then None
      else
        let sid = session_id hdr;
            s = s\<lparr>sv_pending := tb_erase (ip_port e addr) (sv_pending s)\<rparr>;
            r = (case tb_find (sv_sessions s) sid of
                   None \<Rightarrow> Some s
                 | Some r \<Rightarrow> map_option (\<lambda>s.
                     s\<lparr>sv_sessions := tb_erase sid (sv_sessions s),
                       sv_time_wait := tb_insert sid now (sv_time_wait s)\<rparr>)
                     (run_close e now False r s))
        in map_option (\<lambda>s. s\<lparr>sv_idle := tb_erase sid (sv_idle s)\<rparr>) r)"

text \<open>The last line of \<open>ProcessDataPacket\<close>: the session of the map processes the packet.\<close>

definition deliver ::
  "'a env \<Rightarrow> u32 \<Rightarrow> KCPReceivedPacket \<Rightarrow> 'a \<Rightarrow> 'a KCPServer \<Rightarrow> 'a KCPServer option" where
  "deliver e sid packet addr s =
     (case tb_find (sv_sessions s) sid of
        None \<Rightarrow> None
      | Some r \<Rightarrow> map_option (\<lambda>x. s\<lparr>sv_heap := (sv_heap s)[r := x]\<rparr>)
          (ProcessPacket (callbacks e) (in_loop s) packet addr (sv_heap s ! r)))"

definition ProcessDataPacket ::
  "'a env \<Rightarrow> int \<Rightarrow> KCPPublicHeader \<Rightarrow> KCPReceivedPacket \<Rightarrow> 'a \<Rightarrow> 'a KCPServer \<Rightarrow> 'a KCPServer option" where
  "ProcessDataPacket e now hdr packet addr s =
     (let sid = session_id hdr in
      case tb_find (sv_sessions s) sid of
        Some r \<Rightarrow> deliver e sid packet addr s
      | None \<Rightarrow> (case tb_find (sv_pending s) (ip_port e addr) of
          None \<Rightarrow> Some (SendPacket e RST_PACKET 0 addr s)
        | Some pe \<Rightarrow> (case start_session e now sid addr s of
            None \<Rightarrow> None
          | Some (False, s) \<Rightarrow> Some s
          | Some (True, s) \<Rightarrow> deliver e sid packet addr s)))"

definition ProcessPacket_server ::
  "'a env \<Rightarrow> u32 option list \<Rightarrow> int \<Rightarrow> bytes \<Rightarrow> 'a \<Rightarrow> 'a KCPServer \<Rightarrow> 'a KCPServer option" where
  "ProcessPacket_server e draws now data addr s =
     (if length data > kMaxPacketSize then Some s
      else case ReadPublicHeader (adler e) (received data) of
        (SUCCESS, Some hdr, packet) \<Rightarrow> (case packet_label (packet_type hdr) of
            Some SYN_PACKET \<Rightarrow> ProcessSynPacket e draws now hdr packet addr s
          | Some ACK_PACKET \<Rightarrow> ProcessAckPacket e now hdr packet addr s
          | Some RST_PACKET \<Rightarrow> ProcessRstPacket e now hdr packet addr s
          | Some PING_PACKET \<Rightarrow> ProcessPingPacket e now hdr packet addr s
          | Some DATA_PACKET \<Rightarrow> ProcessDataPacket e now hdr packet addr s
          | _ \<Rightarrow> Some s)
      | _ \<Rightarrow> Some s)"

section \<open>The periodic task\<close>

definition pending_round :: "'a env \<Rightarrow> int \<Rightarrow> string \<times> 'a KCPPendingSession \<Rightarrow>
    (string, 'a KCPPendingSession) table \<times> 'a KCPServer \<Rightarrow>
    (string, 'a KCPPendingSession) table \<times> 'a KCPServer" where
  "pending_round e now = (\<lambda>(key, pe) (kept, s).
     if pe_retry pe \<ge> kServerMaxSynRetryTimes then (kept, s)
     else if now - pe_sent pe \<ge> kServerSynSentTimeout then
       (kept @ [(key, pe\<lparr>pe_retry := pe_retry pe + 1, pe_sent := now\<rparr>)],
        SendPacket e SYN_PACKET (pe_id pe) (pe_peer pe) s)
     else (kept @ [(key, pe)], s))"

text \<open>\<open>it = session_map_.erase(it)\<close> and the move to the closed sessions.\<close>

definition retire :: "int \<Rightarrow> u32 \<Rightarrow> 'a KCPServer \<Rightarrow> 'a KCPServer" where
  "retire now sid s = s\<lparr>sv_sessions := tb_erase sid (sv_sessions s),
     sv_idle := tb_erase sid (sv_idle s), sv_time_wait := tb_insert sid now (sv_time_wait s)\<rparr>"

definition session_round :: "'a env \<Rightarrow> int \<Rightarrow> u32 \<times> nat \<Rightarrow> 'a KCPServer \<Rightarrow> 'a KCPServer option" where
  "session_round e now = (\<lambda>(sid, r) s.
     case tb_find (sv_idle s) sid of
       None \<Rightarrow> map_option (retire now sid) (run_close e now False r s)
     | Some last_received \<Rightarrow>
         if now - last_received \<ge> kServerSessionIdleSeconds
         then map_option (retire now sid) (run_close e now False r s)
         else if se_closed (sv_heap s ! r) then Some (retire now sid s)
         else Some s)"

fun session_rounds :: "'a env \<Rightarrow> int \<Rightarrow> (u32 \<times> nat) list \<Rightarrow> 'a KCPServer \<Rightarrow> 'a KCPServer option" where
  "session_rounds e now [] s = Some s"
| "session_rounds e now (x # xs) s = Option.bind (session_round e now x s) (session_rounds e now xs)"

definition RunPeriodicTask :: "'a env \<Rightarrow> int \<Rightarrow> 'a KCPServer \<Rightarrow> 'a KCPServer option" where
  "RunPeriodicTask e now s =
     (let (kept, s) = fold (pending_round e now) (sv_pending s) ([], s);
          s = s\<lparr>sv_pending := kept\<rparr>
      in map_option (\<lambda>s. s\<lparr>sv_time_wait :=
             filter (\<lambda>(_, start). \<not> now - start \<ge> kServerSessionTimeWaitSeconds) (sv_time_wait s)\<rparr>)
           (session_rounds e now (sv_sessions s) s))"

section \<open>The socket events\<close>

text \<open>One result of \<open>recvmmsg\<close>: an error, or the datagrams read with the sender where the
  address could be converted. A datagram longer than the buffer arrives cut off at
  \<open>kMaxPacketSize + 1\<close> bytes. Every packet makes its own random draws: \<open>draws i\<close> are those of the
  \<open>i\<close>-th datagram read.\<close>

datatype 'a recv_result = Recv_error | Recv_batch "(bytes \<times> 'a option) list"

fun read_batch :: "'a env \<Rightarrow> (nat \<Rightarrow> u32 option list) \<Rightarrow> nat \<Rightarrow> int \<Rightarrow> (bytes \<times> 'a option) list \<Rightarrow> 'a KCPServer \<Rightarrow> 'a KCPServer option" where
  "read_batch e draws i now [] s = Some s"
| "read_batch e draws i now ((d, a) # xs) s =
     (if length d = 0 then read_batch e draws (i + 1) now xs s
      else if length d > kMaxPacketSize then read_batch e draws (i + 1) now xs s
      else case a of
        None \<Rightarrow> read_batch e draws (i + 1) now xs s
      | Some addr \<Rightarrow> Option.bind (ProcessPacket_server e (draws i) now d addr s) (read_batch e draws (i + 1) now xs))"

text \<open>The loop ends with an error (such as nothing left to read) or a batch that is not full.\<close>

fun HandleRead :: "'a env \<Rightarrow> (nat \<Rightarrow> u32 option list) \<Rightarrow> nat \<Rightarrow> int \<Rightarrow> 'a recv_result list \<Rightarrow> 'a KCPServer \<Rightarrow> 'a KCPServer option" where
  "HandleRead e draws i now [] s = Some s"
| "HandleRead e draws i now (Recv_error # rs) s = Some s"
| "HandleRead e draws i now (Recv_batch xs # rs) s =
     Option.bind (read_batch e draws i now xs s) (\<lambda>s.
       if length xs \<noteq> kNumPacketsPerRead then Some s else HandleRead e draws (i + length xs) now rs s)"

text \<open>A message of the error queue: whether its control data was cut off, the bytes of the
  datagram that caused it and its extended errors (an ICMP origin, type and code).\<close>

record error_message =
  em_truncated :: bool
  em_data :: bytes
  em_errors :: "(bool \<times> u8 \<times> u8) list"

definition report_error :: "'a env \<Rightarrow> bytes \<Rightarrow> bool \<times> u8 \<times> u8 \<Rightarrow> 'a KCPServer \<Rightarrow> 'a KCPServer" where
  "report_error e data = (\<lambda>(icmp, ty, code) s.
     if \<not> icmp then s
     else case ReadFrom data of
       None \<Rightarrow> s
     | Some hdr \<Rightarrow> (case tb_find (sv_sessions s) (session_id hdr) of
         None \<Rightarrow> s
       | Some r \<Rightarrow>
           let x = sv_heap s ! r;
               x = (if in_loop s then x\<lparr>se_error := (ty, code)\<rparr> else enqueue (Set_error ty code) x)
           in s\<lparr>sv_heap := (sv_heap s)[r := x]\<rparr>))"

definition HandleError :: "'a env \<Rightarrow> error_message list \<Rightarrow> 'a KCPServer \<Rightarrow> 'a KCPServer" where
  "HandleError e ms s =
     fold (\<lambda>m s. if em_truncated m then s else fold (report_error e (em_data m)) (em_errors m) s) ms s"

text \<open>The destructor closes every session of the map, with a last flush.\<close>

definition close_all :: "'a env \<Rightarrow> int \<Rightarrow> 'a KCPServer \<Rightarrow> 'a KCPServer option" where
  "close_all e now s =
     fold (\<lambda>(sid, r) acc. Option.bind acc (run_close e now True r)) (sv_sessions s) (Some s)"

end
