(* ===== verification/Kcp_Server_Inv.thy ===== *)
theory Kcp_Server_Inv
  imports Kcp_Server
begin

text \<open>
  The server as a state machine and the invariant of all its reachable states: the tables
  agree with each other, every entry of \<open>session_map_\<close> refers to an object of its own with
  the right identifier, retransmissions are bounded, and every session object, in the map or
  not, is in a state that \<open>session_reach\<close> describes. So all that theory \<open>Kcp_Session_Life\<close>
  proves of sessions holds for every session of a server.
\<close>

section \<open>The invariant\<close>

definition heap_ok :: "'a env \<Rightarrow> bool \<Rightarrow> 'a session list \<Rightarrow> bool" where
  "heap_ok e loop xs \<longleftrightarrow>
     (\<forall>x \<in> set xs. session_reach (callbacks e) x \<and> (loop \<longrightarrow> Connection_up \<notin> set (se_queue x)))"

definition refs_ok :: "(u32, nat) table \<Rightarrow> 'a session list \<Rightarrow> bool" where
  "refs_ok t xs \<longleftrightarrow> distinct (map snd t) \<and> (\<forall>(sid, r) \<in> set t. r < length xs \<and> se_id (xs ! r) = sid)"

definition pending_ok :: "'a env \<Rightarrow> (string, 'a KCPPendingSession) table \<Rightarrow> bool" where
  "pending_ok e t \<longleftrightarrow> tb_ok t \<and>
     (\<forall>(key, pe) \<in> set t. pe_retry pe \<le> kServerMaxSynRetryTimes \<and> ip_port e (pe_peer pe) = key)"

definition server_inv :: "'a env \<Rightarrow> 'a KCPServer \<Rightarrow> bool" where
  "server_inv e s \<longleftrightarrow> pending_ok e (sv_pending s) \<and> tb_ok (sv_sessions s) \<and> tb_ok (sv_idle s) \<and>
     tb_ok (sv_time_wait s) \<and> tb_keys (sv_idle s) = tb_keys (sv_sessions s) \<and>
     refs_ok (sv_sessions s) (sv_heap s) \<and> heap_ok e (in_loop s) (sv_heap s)"

lemma server_inv_new: "server_inv e (new_server n)"
  by (simp add: server_inv_def new_server_def pending_ok_def tb_ok_def refs_ok_def heap_ok_def)

lemma server_inv_sent [simp]: "server_inv e (s\<lparr>sv_sent := x\<rparr>) = server_inv e s"
  by (simp add: server_inv_def)

lemma send_packet:
  "SendPacket e t sid addr s = s\<lparr>sv_sent := sv_sent s @ [(addr, control_packet (adler e) t sid)]\<rparr>"
  by (simp add: SendPacket_def write_public_header control_packet_def put_header_def)

lemma server_inv_send [inv_intro, simp]: "server_inv e (SendPacket e t sid addr s) = server_inv e s"
  by (simp add: send_packet)

section \<open>Session objects\<close>

lemma refs_update:
  assumes "refs_ok t xs" "se_id x = se_id (xs ! r)"
  shows "refs_ok t (xs[r := x])"
proof -
  have "se_id (xs[r := x] ! i) = se_id (xs ! i)" if "i < length xs" for i
    using that assms(2) by (cases "i = r") simp_all
  with assms(1) show ?thesis by (auto simp: refs_ok_def)
qed

lemma heap_step:
  assumes "server_inv e s" "r < length (sv_heap s)" "session_step (callbacks e) (sv_heap s ! r) x"
  shows "server_inv e (s\<lparr>sv_heap := (sv_heap s)[r := x]\<rparr>)"
proof -
  have m: "sv_heap s ! r \<in> set (sv_heap s)" using assms(2) by simp
  note i = step_identity [OF assms(3)]
  have "session_reach (callbacks e) (sv_heap s ! r)"
    using assms(1) m by (simp add: server_inv_def heap_ok_def)
  then have "session_reach (callbacks e) x" by (rule session_reach.step) (rule assms(3))
  then have "heap_ok e (in_loop s) ((sv_heap s)[r := x])"
    using assms(1) m i set_update_subset_insert [of "sv_heap s" r x]
    by (auto simp: server_inv_def heap_ok_def)
  then show ?thesis using assms(1) i by (simp add: server_inv_def refs_update)
qed

lemma found_ref:
  "server_inv e s \<Longrightarrow> tb_find (sv_sessions s) sid = Some r \<Longrightarrow> r < length (sv_heap s) \<and> se_id (sv_heap s ! r) = sid"
  by (auto simp: server_inv_def refs_ok_def dest!: tb_find_set)

lemma close_step:
  assumes "server_inv e s" "r < length (sv_heap s)" "run_close e now fl r s = Some s'"
  obtains x where "s' = s\<lparr>sv_heap := (sv_heap s)[r := x]\<rparr>" "session_step (callbacks e) (sv_heap s ! r) x"
proof (cases "in_loop s")
  case True
  then obtain x where x: "Close (callbacks e) now fl (sv_heap s ! r) = Some x"
    "s' = s\<lparr>sv_heap := (sv_heap s)[r := x]\<rparr>"
    using assms(3) by (auto simp: run_close_def)
  have "sv_heap s ! r \<in> set (sv_heap s)" using assms(2) by simp
  then have "Connection_up \<notin> set (se_queue (sv_heap s ! r))"
    using True assms(1) by (auto simp: server_inv_def heap_ok_def)
  from app_close [OF this x(1)] x(2) show ?thesis by (intro that)
next
  case False
  have "session_step (callbacks e) (sv_heap s ! r) (enqueue (Close_session fl) (sv_heap s ! r))"
    by (rule posted) simp
  then show ?thesis using False assms(3) by (intro that) (auto simp: run_close_def)
qed

lemma close_inv [inv_intro]:
  assumes "server_inv e s" "r < length (sv_heap s)" "run_close e now fl r s = Some s'"
  shows "server_inv e s'"
  using close_step [OF assms] heap_step [OF assms(1,2)] by metis

lemma close_frame:
  "run_close e now fl r s = Some s' \<Longrightarrow> \<exists>h. s' = s\<lparr>sv_heap := h\<rparr> \<and> length h = length (sv_heap s)"
  by (auto simp: run_close_def split: if_splits)

definition rooms :: "nat \<Rightarrow> 'a KCPServer \<Rightarrow> bool" where
  "rooms n s \<longleftrightarrow> n < 2 ^ 30 \<and> (\<forall>x \<in> set (sv_heap s). acks_room n x)"

lemma deliver_inv [inv_intro]:
  assumes "server_inv e s" "deliver e sid p addr s = Some s'" "rooms n s" "length (RemainingData p) \<le> n"
  shows "server_inv e s'"
proof -
  let ?h = "callbacks e"
  obtain r x where r: "tb_find (sv_sessions s) sid = Some r"
    "ProcessPacket ?h (in_loop s) p addr (sv_heap s ! r) = Some x" "s' = s\<lparr>sv_heap := (sv_heap s)[r := x]\<rparr>"
    using assms(2) by (auto simp: deliver_def split: option.splits)
  note f = found_ref [OF assms(1) r(1)]
  then have m: "sv_heap s ! r \<in> set (sv_heap s)" by simp
  have "session_step ?h (sv_heap s ! r) x"
  proof (cases "in_loop s")
    case True
    then have "Connection_up \<notin> set (se_queue (sv_heap s ! r))"
      using m assms(1) by (auto simp: server_inv_def heap_ok_def)
    moreover have "acks_room (length (RemainingData p)) (sv_heap s ! r)"
      using m assms(3,4) by (fastforce simp: rooms_def acks_room_def split: option.splits)
    ultimately show ?thesis using app_packet True r(2) by (fastforce simp: ProcessPacket_def)
  next
    case False
    have "session_step ?h (sv_heap s ! r)
        (enqueue (Process_packet (CloneFromRemainingData p) addr) (sv_heap s ! r))"
      by (rule posted) simp
    then show ?thesis using False r(2) by (auto simp: ProcessPacket_def)
  qed
  then show ?thesis using heap_step [OF assms(1)] f r(3) by simp
qed

section \<open>Connecting\<close>

lemma start_cases:
  assumes "start_session e now sid addr s = Some (b, s')" "tb_find (sv_sessions s) sid = None"
  obtains x where "b" "s' = connect_session sid (ip_port e addr) now x s"
    "Initialize (callbacks e) (in_loop s) now sid addr session_params new_session = Some (True, x)"
proof -
  obtain ok x where x: "Initialize (callbacks e) (in_loop s) now sid addr session_params new_session = Some (ok, x)"
    using assms(1) by (auto simp: start_session_def InitializeSession_def split: option.splits)
  obtain k where "configure sid session_params = Some k" by (rule configure_session)
  then have "ok" using x by (auto simp: Initialize_def new_session_def Let_def split: if_splits)
  then show ?thesis
    using assms x by (intro that [of x]) (auto simp: start_session_def InitializeSession_def)
qed

lemma connect_inv [inv_intro]:
  assumes "server_inv e s" "tb_find (sv_sessions s) sid = None"
    and "Initialize (callbacks e) (in_loop s) now sid addr session_params new_session = Some (True, x)"
  shows "server_inv e (connect_session sid key now x s)"
proof -
  note fr = fresh_session [OF assms(3)]
  have "session_reach (callbacks e) x" by (rule session_reach.init [OF assms(3)])
  then have h: "heap_ok e (in_loop s) (sv_heap s @ [x])"
    using assms(1) fr(3) by (auto simp: server_inv_def heap_ok_def)
  have ins: "tb_insert sid (length (sv_heap s)) (sv_sessions s) = (sid, length (sv_heap s)) # sv_sessions s"
    using assms(2) by (simp add: tb_insert_def)
  have lt: "\<forall>(i, r) \<in> set (sv_sessions s). r < length (sv_heap s) \<and> se_id (sv_heap s ! r) = i"
    "distinct (map snd (sv_sessions s))"
    using assms(1) by (auto simp: server_inv_def refs_ok_def)
  then have r: "refs_ok (tb_insert sid (length (sv_heap s)) (sv_sessions s)) (sv_heap s @ [x])"
    unfolding ins refs_ok_def using fr(1) by (fastforce simp: nth_append)
  have p: "pending_ok e (tb_erase key (sv_pending s))"
    using assms(1) by (auto simp: server_inv_def pending_ok_def tb_ok_ops) (auto simp: tb_erase_def)
  show ?thesis
    using assms(1) h r p by (simp add: server_inv_def connect_session_def tb_ok_ops)
qed

lemma connect_rooms:
  assumes "rooms n s"
    and "Initialize (callbacks e) (in_loop s) now sid addr session_params new_session = Some (True, x)"
  shows "rooms n (connect_session sid key now x s)"
  using assms fresh_session(2) [OF assms(2), of n] by (auto simp: rooms_def connect_session_def)

lemma start_inv [inv_intro]:
  assumes "server_inv e s" "tb_find (sv_sessions s) sid = None"
    and "start_session e now sid addr s = Some (b, s')"
  shows "server_inv e s'" "rooms n s \<Longrightarrow> rooms n s'"
  using start_cases [OF assms(3,2)] connect_inv [OF assms(1,2)] connect_rooms by metis+

section \<open>The handlers\<close>

lemma pending_update:
  "pending_ok e t \<Longrightarrow> pending_ok e (tb_erase key t)"
  "pending_ok e t \<Longrightarrow> pe_retry pe \<le> kServerMaxSynRetryTimes \<Longrightarrow> ip_port e (pe_peer pe) = key \<Longrightarrow>
   pending_ok e (tb_insert key pe t)"
  "pending_ok e t \<Longrightarrow> pe_retry pe \<le> kServerMaxSynRetryTimes \<Longrightarrow> ip_port e (pe_peer pe) = key \<Longrightarrow>
   pending_ok e (tb_assign key pe t)"
  unfolding pending_ok_def
  by (auto simp: tb_ok_ops) (auto simp: tb_erase_def tb_insert_def tb_assign_def split: if_splits)

lemma server_inv_pending:
  "server_inv e s \<Longrightarrow> pending_ok e t \<Longrightarrow> server_inv e (s\<lparr>sv_pending := t\<rparr>)"
  by (simp add: server_inv_def)

lemma server_inv_pending_sent:
  "server_inv e s \<Longrightarrow> pending_ok e t \<Longrightarrow> server_inv e (s\<lparr>sv_sent := x, sv_pending := t\<rparr>)"
  by (simp add: server_inv_def)

lemma pending_found:
  "server_inv e s \<Longrightarrow> tb_find (sv_pending s) key = Some pe \<Longrightarrow>
   pe_retry pe \<le> kServerMaxSynRetryTimes \<and> ip_port e (pe_peer pe) = key"
  by (auto simp: server_inv_def pending_ok_def dest!: tb_find_set)

lemma syn_inv [inv_intro]:
  assumes "server_inv e s" "ProcessSynPacket e draws now hdr p addr s = Some s'"
  shows "server_inv e s'"
proof -
  note up = server_inv_pending [OF assms(1)] server_inv_pending_sent [OF assms(1)] pending_update
  have p: "pending_ok e (sv_pending s)" using assms(1) by (simp add: server_inv_def)
  show ?thesis
  proof (cases "tb_find (sv_pending s) (ip_port e addr)")
    case None
    with assms p show ?thesis
      by (auto simp: ProcessSynPacket_def Let_def intro!: up split: if_splits option.splits)
  next
    case (Some pe)
    show ?thesis
      using assms p Some pending_found [OF assms(1) Some]
      by (auto simp: ProcessSynPacket_def Let_def send_packet not_le intro!: up split: if_splits)
  qed
qed

lemma idle_assign:
  assumes "server_inv e s" "tb_find (sv_sessions s) sid \<noteq> None"
  shows "server_inv e (s\<lparr>sv_idle := tb_assign sid now (sv_idle s)\<rparr>)"
    "tb_find (sv_idle s) sid \<noteq> None"
proof -
  show "server_inv e (s\<lparr>sv_idle := tb_assign sid now (sv_idle s)\<rparr>)"
    using assms(1) by (simp add: server_inv_def tb_ok_ops)
  show "tb_find (sv_idle s) sid \<noteq> None"
    using assms by (simp add: server_inv_def tb_keys_dom dom_def set_eq_iff)
qed

lemma ping_inv [inv_intro]:
  assumes "server_inv e s" "ProcessPingPacket e now hdr p addr s = Some s'"
  shows "server_inv e s'"
  using assms idle_assign(1) [OF assms(1), of "session_id hdr" now]
    idle_assign(2) [OF assms(1), of "session_id hdr"]
  by (auto simp: ProcessPingPacket_def Let_def split: if_splits option.splits)

lemma ack_inv [inv_intro]:
  assumes "server_inv e s" "ProcessAckPacket e now hdr p addr s = Some s'"
  shows "server_inv e s'"
  using assms start_inv(1) [OF assms(1)]
  by (auto simp: ProcessAckPacket_def Let_def split: if_splits option.splits)

lemma retire_inv [inv_intro]:
  assumes "server_inv e s"
  shows "server_inv e (retire now sid s)"
proof -
  have "refs_ok (tb_erase sid (sv_sessions s)) (sv_heap s)"
    using assms by (auto simp: server_inv_def refs_ok_def tb_erase_def distinct_map_filter)
  then show ?thesis using assms by (simp add: server_inv_def retire_def tb_ok_ops)
qed

lemma rst_inv [inv_intro]:
  assumes "server_inv e s" "ProcessRstPacket e now hdr p addr s = Some s'"
  shows "server_inv e s'"
proof -
  let ?sid = "session_id hdr"
  let ?s = "s\<lparr>sv_pending := tb_erase (ip_port e addr) (sv_pending s)\<rparr>"
  have i: "server_inv e ?s"
    using assms(1) pending_update(1) by (intro server_inv_pending) (auto simp: server_inv_def)
  show ?thesis
  proof (cases "tb_find (sv_sessions s) ?sid")
    case None
    then have "?sid \<notin> tb_keys (sv_idle s)"
      using assms(1) by (simp add: server_inv_def tb_keys_dom dom_def)
    then have "tb_erase ?sid (sv_idle s) = sv_idle s"
      by (auto simp: tb_erase_def filter_id_conv image_iff)
    moreover have "s' = ?s\<lparr>sv_idle := tb_erase ?sid (sv_idle s)\<rparr>"
      using assms(2) None by (auto simp: ProcessRstPacket_def Let_def split: if_splits)
    ultimately have "s' = ?s" by simp
    with i show ?thesis by simp
  next
    case (Some r)
    obtain s1 where s1: "run_close e now False r ?s = Some s1"
      "s' = s1\<lparr>sv_sessions := tb_erase ?sid (sv_sessions s1),
               sv_time_wait := tb_insert ?sid now (sv_time_wait s1),
               sv_idle := tb_erase ?sid (sv_idle s1)\<rparr>"
      using assms(2) Some by (auto simp: ProcessRstPacket_def Let_def split: if_splits)
    have "s' = retire now ?sid s1" using s1(2) by (simp add: retire_def)
    moreover have "server_inv e s1"
      using close_inv [OF i _ s1(1)] found_ref [OF assms(1) Some] by simp
    ultimately show ?thesis using retire_inv by simp
  qed
qed

lemma data_inv [inv_intro]:
  assumes "server_inv e s" "ProcessDataPacket e now hdr p addr s = Some s'" "rooms n s"
    and "length (RemainingData p) \<le> n"
  shows "server_inv e s'"
proof (cases "tb_find (sv_sessions s) (session_id hdr)")
  case (Some r)
  then show ?thesis using assms deliver_inv [OF assms(1) _ assms(3,4)] by (simp add: ProcessDataPacket_def Let_def)
next
  case None
  note st = start_inv [OF assms(1) None]
  show ?thesis
    using assms None st deliver_inv [OF st(1) _ st(2) assms(4)]
    by (auto simp: ProcessDataPacket_def Let_def split: option.splits bool.splits)
qed

lemma process_inv [inv_intro]:
  assumes "server_inv e s" "ProcessPacket_server e draws now d addr s = Some s'" "rooms (length d) s"
  shows "server_inv e s'"
proof (cases "\<exists>hdr p. ReadPublicHeader (adler e) (received d) = (SUCCESS, Some hdr, p) \<and> length d \<le> kMaxPacketSize")
  case False
  then have "s' = s"
    using assms(2) by (auto simp: ProcessPacket_server_def not_le split: if_splits prod.splits ReadError.splits option.splits)
  with assms(1) show ?thesis by simp
next
  case True
  then obtain hdr p where h: "ReadPublicHeader (adler e) (received d) = (SUCCESS, Some hdr, p)"
    "length d \<le> kMaxPacketSize" by blast
  have len: "length (RemainingData p) \<le> length d"
    using h(1) by (cases rule: read_public_header_cases [of d "adler e"]) (auto simp: RemainingData_def)
  show ?thesis
    using assms(2) h
      syn_inv [OF assms(1), of draws now hdr p addr s'] ack_inv [OF assms(1), of now hdr p addr s']
      rst_inv [OF assms(1), of now hdr p addr s'] ping_inv [OF assms(1), of now hdr p addr s']
      data_inv [OF assms(1) _ assms(3) len, of now hdr addr s'] assms(1)
    by (auto simp: ProcessPacket_server_def split: if_splits option.splits KCPReceivedPacketType.splits)
qed

section \<open>The periodic task\<close>

text \<open>The first loop in one equation: entries that used up their retries are dropped, the ones
  that waited long enough are counted and sent again, in the order of the table.\<close>

definition syn_due :: "int \<Rightarrow> 'a KCPPendingSession \<Rightarrow> bool" where
  "syn_due now pe \<longleftrightarrow> now - pe_sent pe \<ge> kServerSynSentTimeout"

definition syn_retried :: "int \<Rightarrow> 'a KCPPendingSession \<Rightarrow> 'a KCPPendingSession" where
  "syn_retried now pe = (if syn_due now pe then pe\<lparr>pe_retry := pe_retry pe + 1, pe_sent := now\<rparr> else pe)"

lemma pending_rounds:
  "fold (pending_round e now) t (kept, s) =
     (let live = filter (\<lambda>(_, pe). pe_retry pe < kServerMaxSynRetryTimes) t in
      (kept @ map (\<lambda>(key, pe). (key, syn_retried now pe)) live,
       s\<lparr>sv_sent := sv_sent s @ map (\<lambda>(_, pe). (pe_peer pe, control_packet (adler e) SYN_PACKET (pe_id pe)))
            (filter (\<lambda>(_, pe). syn_due now pe) live)\<rparr>))"
  by (induction t arbitrary: kept s)
    (auto simp: pending_round_def syn_due_def syn_retried_def send_packet Let_def)

lemma pending_task_ok:
  assumes "pending_ok e t"
  shows "pending_ok e (map (\<lambda>(key, pe). (key, syn_retried now pe))
    (filter (\<lambda>(_, pe). pe_retry pe < kServerMaxSynRetryTimes) t))" (is "pending_ok e (map ?f ?t)")
proof -
  have "map fst (map ?f ?t) = map fst ?t" by auto
  moreover have "distinct (map fst ?t)" using assms by (simp add: pending_ok_def tb_ok_def distinct_map_filter)
  ultimately have "tb_ok (map ?f ?t)" by (simp only: tb_ok_def)
  then show ?thesis using assms by (auto simp: pending_ok_def syn_retried_def)
qed

lemma session_round_inv:
  assumes "session_round e now (sid, r) s = Some s'" "server_inv e s" "r < length (sv_heap s)"
  shows "server_inv e s'" "length (sv_heap s') = length (sv_heap s)"
proof -
  have "server_inv e s' \<and> length (sv_heap s') = length (sv_heap s)"
  proof (cases "\<exists>s1. run_close e now False r s = Some s1 \<and> s' = retire now sid s1")
    case True
    then obtain s1 where s1: "run_close e now False r s = Some s1" "s' = retire now sid s1" by blast
    then show ?thesis
      using retire_inv [OF close_inv [OF assms(2,3) s1(1)]] close_frame [OF s1(1)] by (auto simp: retire_def)
  next
    case False
    then have "s' = retire now sid s \<or> s' = s"
      using assms(1) by (auto simp: session_round_def split: if_splits option.splits)
    then show ?thesis using assms(2) retire_inv by (auto simp: retire_def)
  qed
  then show "server_inv e s'" "length (sv_heap s') = length (sv_heap s)" by auto
qed

lemma session_rounds_inv:
  "session_rounds e now xs s = Some s' \<Longrightarrow> server_inv e s \<Longrightarrow>
   \<forall>(sid, r) \<in> set xs. r < length (sv_heap s) \<Longrightarrow> server_inv e s'"
proof (induction e now xs s rule: session_rounds.induct)
  case (2 e now x xs s)
  obtain sid r where x: "x = (sid, r)" by (cases x)
  obtain s1 where s1: "session_round e now (sid, r) s = Some s1" "session_rounds e now xs s1 = Some s'"
    using "2.prems"(1) x by (auto simp: bind_eq_Some_conv)
  note i = session_round_inv [OF s1(1) "2.prems"(2)]
  show ?case by (rule "2.IH" [OF _ s1(2)]) (use "2.prems"(3) s1(1) x i in auto)
qed simp

lemma periodic_inv [inv_intro]:
  assumes "server_inv e s" "RunPeriodicTask e now s = Some s'"
  shows "server_inv e s'"
proof -
  obtain kept s1 where f: "fold (pending_round e now) (sv_pending s) ([], s) = (kept, s1)" by fastforce
  then obtain m where m: "s1 = s\<lparr>sv_sent := m\<rparr>" and "pending_ok e kept"
    using assms(1) pending_task_ok [of e "sv_pending s" now]
    by (simp add: pending_rounds Let_def server_inv_def) blast
  then have s1: "server_inv e (s1\<lparr>sv_pending := kept\<rparr>)" "sv_sessions s1 = sv_sessions s" "sv_heap s1 = sv_heap s"
    using assms(1) by (simp_all add: server_inv_pending_sent)
  obtain s2 where s2: "session_rounds e now (sv_sessions s) (s1\<lparr>sv_pending := kept\<rparr>) = Some s2"
    "s' = s2\<lparr>sv_time_wait := filter (\<lambda>(_, start). \<not> now - start \<ge> kServerSessionTimeWaitSeconds) (sv_time_wait s2)\<rparr>"
    using assms(2) f s1(2) by (auto simp: RunPeriodicTask_def Let_def)
  have "\<forall>(sid, r) \<in> set (sv_sessions s). r < length (sv_heap (s1\<lparr>sv_pending := kept\<rparr>))"
    using assms(1) s1(3) by (auto simp: server_inv_def refs_ok_def)
  then have "server_inv e s2" using session_rounds_inv [OF s2(1) s1(1)] by blast
  then show ?thesis by (simp add: s2(2) server_inv_def tb_ok_ops)
qed

section \<open>The error queue\<close>

lemma report_inv [inv_intro]:
  assumes "server_inv e s"
  shows "server_inv e (report_error e d x s)"
proof -
  obtain icmp ty code where x: "x = (icmp, ty, code)" by (cases x)
  show ?thesis
  proof (cases "\<exists>hdr r. icmp \<and> ReadFrom d = Some hdr \<and> tb_find (sv_sessions s) (session_id hdr) = Some r")
    case True
    then obtain hdr r where r: "icmp" "ReadFrom d = Some hdr" "tb_find (sv_sessions s) (session_id hdr) = Some r"
      by blast
    note f = found_ref [OF assms r(3)]
    let ?y = "if in_loop s then (sv_heap s ! r)\<lparr>se_error := (ty, code)\<rparr>
      else enqueue (Set_error ty code) (sv_heap s ! r)"
    have "session_step (callbacks e) (sv_heap s ! r) ?y"
    proof (cases "in_loop s")
      case True
      have "sv_heap s ! r \<in> set (sv_heap s)" using f by simp
      then have "Connection_up \<notin> set (se_queue (sv_heap s ! r))"
        using True assms by (auto simp: server_inv_def heap_ok_def)
      from app_error [OF this, where h = "callbacks e"] True show ?thesis by simp
    next
      case False
      then show ?thesis using posted [of "Set_error ty code"] by simp
    qed
    then have "server_inv e (s\<lparr>sv_heap := (sv_heap s)[r := ?y]\<rparr>)"
      using heap_step [OF assms] f by blast
    then show ?thesis using r by (simp add: x report_error_def Let_def)
  next
    case False
    then have "report_error e d x s = s"
      by (auto simp: x report_error_def split: option.splits)
    then show ?thesis using assms by simp
  qed
qed

lemma handle_error_inv [inv_intro]: "server_inv e s \<Longrightarrow> server_inv e (HandleError e ms s)"
proof -
  have f: "server_inv e (fold (report_error e d) xs s)" if "server_inv e s" for d xs s
    using that by (induction xs arbitrary: s) (auto intro: report_inv)
  show "server_inv e s \<Longrightarrow> server_inv e (HandleError e ms s)"
    unfolding HandleError_def by (induction ms arbitrary: s) (auto intro: f)
qed

section \<open>Reachable states\<close>

text \<open>Everything that can happen: datagrams, the timer, the error queue, and any step of any
  session in its loop.\<close>

inductive server_step :: "'a env \<Rightarrow> 'a KCPServer \<Rightarrow> 'a KCPServer \<Rightarrow> bool" for e where
  datagram: "ProcessPacket_server e draws now d addr s = Some s' \<Longrightarrow> rooms (length d) s \<Longrightarrow>
    server_step e s s'"
| periodic: "RunPeriodicTask e now s = Some s' \<Longrightarrow> server_step e s s'"
| errors: "server_step e s (HandleError e ms s)"
| session: "r < length (sv_heap s) \<Longrightarrow> session_step (callbacks e) (sv_heap s ! r) x \<Longrightarrow>
    server_step e s (s\<lparr>sv_heap := (sv_heap s)[r := x]\<rparr>)"

inductive server_reach :: "'a env \<Rightarrow> 'a KCPServer \<Rightarrow> bool" for e where
  start: "server_reach e (new_server n)"
| step: "server_reach e s \<Longrightarrow> server_step e s s' \<Longrightarrow> server_reach e s'"

inductive_cases server_step_cases: "server_step e s s'"

lemma server_step_inv: "server_step e s s' \<Longrightarrow> server_inv e s \<Longrightarrow> server_inv e s'"
  by (erule server_step_cases) (auto intro: process_inv periodic_inv handle_error_inv heap_step)

lemma reach_server_inv: "server_reach e s \<Longrightarrow> server_inv e s"
  by (induction rule: server_reach.induct) (auto intro: server_inv_new server_step_inv)

end
