(* ===== verification/Kcp_Client.thy ===== *)
theory Kcp_Client
  imports Kcp_Server_Inv
begin

text \<open>
  The client (\<open>kcp/kcp_client.h\<close>, \<open>kcp/kcp_client.cc\<close>): its states, the handshake, the
  reconnect timer and the periodic task. The socket object exists between a successful
  \<open>Connect\<close> and \<open>Disconnect\<close>, which is the only place that closes it; an access without it
  is an abort (\<open>None\<close>), as is a failed assertion. All sessions of a client run in its loop.
  \<open>cl_heap\<close> keeps the session objects, so that one that was reset can still be called by
  the functors that hold it.
\<close>

section \<open>State\<close>

definition kClientMaxSynRetryTimes :: nat where "kClientMaxSynRetryTimes = 30"
definition kClientSynSentTimeout :: int where "kClientSynSentTimeout = 2 * 1000000"
definition kClientSessionIdleSeconds :: int where "kClientSessionIdleSeconds = 120 * 1000000"
definition kClientPingInterval :: int where "kClientPingInterval = 5 * 1000000"

text \<open>Half a second and three seconds, in milliseconds.\<close>

definition reconnect_unit :: nat where "reconnect_unit = 500"
definition kClientMaxReconnectDelay :: nat where "kClientMaxReconnectDelay = 3000"

lemmas client_consts = kClientMaxSynRetryTimes_def kClientSynSentTimeout_def
  kClientSessionIdleSeconds_def kClientPingInterval_def reconnect_unit_def
  kClientMaxReconnectDelay_def kMaxPacketSize_def

datatype State = CLOSED | PENDING | CONNECTED

text \<open>The fields of \<open>KCPPendingSession\<close> that the client uses.\<close>

record pending_syn =
  ps_id :: u32
  ps_retry :: nat
  ps_sent :: int

record 'a KCPClient =
  cl_socket :: bool
  cl_server :: "'a option"
  cl_pending :: "pending_syn option"
  cl_session :: "nat option"
  cl_heap :: "'a session list"
  cl_periodic :: bool
  cl_last_received :: "int option"
  cl_last_ping :: "int option"
  cl_state :: State
  cl_reconnect_enabled :: bool
  cl_timer_registered :: bool
  cl_reconnect_times :: nat
  cl_reconnect_timer :: "nat option"
  cl_sent :: "bytes list"

definition new_client :: "bool \<Rightarrow> 'a KCPClient" where
  "new_client reconnect = \<lparr>cl_socket = False, cl_server = None, cl_pending = None,
     cl_session = None, cl_heap = [], cl_periodic = False, cl_last_received = None,
     cl_last_ping = None, cl_state = CLOSED, cl_reconnect_enabled = reconnect,
     cl_timer_registered = False, cl_reconnect_times = 0, cl_reconnect_timer = None,
     cl_sent = []\<rparr>"

section \<open>Sending and the life of the session\<close>

definition SendPacket_client ::
  "'a env \<Rightarrow> KCPReceivedPacketType \<Rightarrow> u32 \<Rightarrow> 'a KCPClient \<Rightarrow> 'a KCPClient option" where
  "SendPacket_client e t sid c =
     (if \<not> cl_socket c then None
      else case WritePublicHeader (adler e) (replicate kPublicHeaderLength 0) (packet_code t) sid of
        (W_SUCCESS, buf) \<Rightarrow> Some (c\<lparr>cl_sent := cl_sent c @ [buf]\<rparr>)
      | _ \<Rightarrow> Some c)"

definition BuildSession :: "'a env \<Rightarrow> int \<Rightarrow> 'a KCPClient \<Rightarrow> 'a KCPClient option" where
  "BuildSession e now c =
     (if \<not> cl_socket c then None
      else if cl_state c = CLOSED then
        map_option (\<lambda>c. c\<lparr>cl_pending := Some \<lparr>ps_id = 0, ps_retry = 0, ps_sent = now\<rparr>, cl_state := PENDING\<rparr>)
          (SendPacket_client e SYN_PACKET 0 c)
      else Some c)"

text \<open>\<open>session_->Close(..); session_.reset()\<close>, when there is a session.\<close>

definition drop_session :: "'a env \<Rightarrow> int \<Rightarrow> bool \<Rightarrow> 'a KCPClient \<Rightarrow> 'a KCPClient option" where
  "drop_session e now last_flush c =
     (case cl_session c of
        None \<Rightarrow> Some c
      | Some r \<Rightarrow> map_option (\<lambda>x. c\<lparr>cl_heap := (cl_heap c)[r := x], cl_session := None\<rparr>)
          (Close (callbacks e) now last_flush (cl_heap c ! r)))"

definition ResetSession :: "'a env \<Rightarrow> int \<Rightarrow> 'a KCPClient \<Rightarrow> 'a KCPClient option" where
  "ResetSession e now c =
     map_option (\<lambda>c.
       let c = c\<lparr>cl_state := CLOSED\<rparr> in
       if \<not> cl_reconnect_enabled c then c
       else if cl_timer_registered c then c
       else
         let n = cl_reconnect_times c + 1
         in c\<lparr>cl_reconnect_times := n, cl_timer_registered := True,
              cl_reconnect_timer := Some (min (n * reconnect_unit) kClientMaxReconnectDelay)\<rparr>)
     (if \<not> cl_socket c then None else drop_session e now False (c\<lparr>cl_pending := None\<rparr>))"

text \<open>The functor of the reconnect timer.\<close>

definition reconnect_fires :: "'a env \<Rightarrow> int \<Rightarrow> 'a KCPClient \<Rightarrow> 'a KCPClient option" where
  "reconnect_fires e now c =
     map_option (\<lambda>c. c\<lparr>cl_timer_registered := False\<rparr>)
       (BuildSession e now (c\<lparr>cl_reconnect_timer := None\<rparr>))"

text \<open>\<open>Connect\<close>: \<open>rc\<close> is the first negative result of the five calls that set up the socket,
  or 0.\<close>

definition Connect :: "'a env \<Rightarrow> int \<Rightarrow> int \<Rightarrow> 'a \<Rightarrow> 'a KCPClient \<Rightarrow> (int \<times> 'a KCPClient) option" where
  "Connect e rc now addr c =
     (if rc < 0 then Some (rc, c)
      else map_option (\<lambda>c. (0, c\<lparr>cl_periodic := True\<rparr>))
             (BuildSession e now (c\<lparr>cl_socket := True, cl_server := Some addr\<rparr>)))"

definition Disconnect :: "'a env \<Rightarrow> int \<Rightarrow> 'a KCPClient \<Rightarrow> 'a KCPClient option" where
  "Disconnect e now c =
     map_option (\<lambda>c. c\<lparr>cl_periodic := False, cl_reconnect_timer := None, cl_timer_registered := False,
                        cl_socket := False, cl_state := CLOSED\<rparr>)
     (case cl_state c of
        PENDING \<Rightarrow> if cl_pending c = None then None else Some (c\<lparr>cl_pending := None\<rparr>)
      | CONNECTED \<Rightarrow> (case cl_session c of
          None \<Rightarrow> None
        | Some r \<Rightarrow> Option.bind (Close (callbacks e) now True (cl_heap c ! r)) (\<lambda>x.
            map_option (\<lambda>c. c\<lparr>cl_session := None\<rparr>)
              (SendPacket_client e RST_PACKET (se_id x) (c\<lparr>cl_heap := (cl_heap c)[r := x]\<rparr>))))
      | CLOSED \<Rightarrow> Some c)"

section \<open>The periodic task\<close>

definition RunPeriodicTask_client :: "'a env \<Rightarrow> int \<Rightarrow> 'a KCPClient \<Rightarrow> 'a KCPClient option" where
  "RunPeriodicTask_client e now c =
     (case cl_state c of
        PENDING \<Rightarrow> (case cl_pending c of
          None \<Rightarrow> None
        | Some p \<Rightarrow>
            if ps_retry p \<ge> kClientMaxSynRetryTimes then ResetSession e now c
            else if now - ps_sent p \<ge> kClientSynSentTimeout then
              SendPacket_client e SYN_PACKET (ps_id p)
                (c\<lparr>cl_pending := Some (p\<lparr>ps_retry := ps_retry p + 1, ps_sent := now\<rparr>)\<rparr>)
            else Some c)
      | CONNECTED \<Rightarrow> (case cl_session c of
          None \<Rightarrow> None
        | Some r \<Rightarrow>
            if (case cl_last_received c of None \<Rightarrow> False | Some t \<Rightarrow> now - t \<ge> kClientSessionIdleSeconds)
            then ResetSession e now c
            else if se_closed (cl_heap c ! r) then ResetSession e now c
            else if (case cl_last_ping c of None \<Rightarrow> False | Some t \<Rightarrow> now - t \<ge> kClientPingInterval)
            then SendPacket_client e PING_PACKET (se_id (cl_heap c ! r)) c
            else Some c)
      | CLOSED \<Rightarrow> Some c)"

section \<open>Packets\<close>

definition InitializeSession_client ::
  "'a env \<Rightarrow> int \<Rightarrow> u32 \<Rightarrow> 'a KCPClient \<Rightarrow> (bool \<times> 'a session) option" where
  "InitializeSession_client e now sid c =
     (case cl_server c of
        None \<Rightarrow> None
      | Some addr \<Rightarrow> Initialize (callbacks e) True now sid addr session_params new_session)"

definition ProcessSynPacket_client ::
  "'a env \<Rightarrow> int \<Rightarrow> KCPPublicHeader \<Rightarrow> KCPReceivedPacket \<Rightarrow> 'a KCPClient \<Rightarrow> 'a KCPClient option" where
  "ProcessSynPacket_client e now hdr packet c =
     (if RemainingBytes packet \<noteq> 0 then None
      else if packet_type hdr \<noteq> packet_code SYN_PACKET then None
      else if \<not> session_id hdr > 0 then None
      else
        let sid = session_id hdr in
        case cl_session c of
          Some r \<Rightarrow>
            if se_id (cl_heap c ! r) \<noteq> sid then SendPacket_client e RST_PACKET sid c
            else SendPacket_client e ACK_PACKET sid c
        | None \<Rightarrow>
            if cl_pending c = None then SendPacket_client e RST_PACKET sid c
            else (case InitializeSession_client e now sid c of
              None \<Rightarrow> None
            | Some (ok, x) \<Rightarrow>
                if \<not> ok then Some c
                else SendPacket_client e ACK_PACKET sid
                  (c\<lparr>cl_heap := cl_heap c @ [x], cl_session := Some (length (cl_heap c)),
                     cl_pending := None, cl_last_ping := Some now, cl_state := CONNECTED\<rparr>)))"

definition ProcessRstPacket_client ::
  "'a env \<Rightarrow> int \<Rightarrow> KCPPublicHeader \<Rightarrow> KCPReceivedPacket \<Rightarrow> 'a KCPClient \<Rightarrow> 'a KCPClient option" where
  "ProcessRstPacket_client e now hdr packet c =
     (if RemainingBytes packet \<noteq> 0 then None
      else if packet_type hdr \<noteq> packet_code RST_PACKET then None
      else ResetSession e now c)"

definition ProcessPongPacket_client ::
  "'a env \<Rightarrow> int \<Rightarrow> KCPPublicHeader \<Rightarrow> KCPReceivedPacket \<Rightarrow> 'a KCPClient \<Rightarrow> 'a KCPClient option" where
  "ProcessPongPacket_client e now hdr packet c =
     (if RemainingBytes packet \<noteq> 0 then None
      else if packet_type hdr \<noteq> packet_code PONG_PACKET then None
      else if \<not> session_id hdr > 0 then None
      else if cl_session c = None then SendPacket_client e RST_PACKET (session_id hdr) c
      else Some (c\<lparr>cl_last_received := Some now\<rparr>))"

definition ProcessDataPacket_client ::
  "'a env \<Rightarrow> int \<Rightarrow> KCPPublicHeader \<Rightarrow> KCPReceivedPacket \<Rightarrow> 'a KCPClient \<Rightarrow> 'a KCPClient option" where
  "ProcessDataPacket_client e now hdr packet c =
     (if packet_type hdr \<noteq> packet_code DATA_PACKET then None
      else if \<not> session_id hdr > 0 then None
      else case cl_session c of
        None \<Rightarrow> SendPacket_client e RST_PACKET (session_id hdr) c
      | Some r \<Rightarrow>
          (let c = c\<lparr>cl_last_received := Some now\<rparr> in
           case cl_server c of
             None \<Rightarrow> None
           | Some addr \<Rightarrow> map_option (\<lambda>x. c\<lparr>cl_heap := (cl_heap c)[r := x]\<rparr>)
               (ProcessPacket (callbacks e) True packet addr (cl_heap c ! r))))"

definition ProcessPacket_client :: "'a env \<Rightarrow> int \<Rightarrow> bytes \<Rightarrow> 'a KCPClient \<Rightarrow> 'a KCPClient option" where
  "ProcessPacket_client e now data c =
     (if length data > kMaxPacketSize then None
      else case ReadPublicHeader (adler e) (received data) of
        (SUCCESS, Some hdr, packet) \<Rightarrow> (case packet_label (packet_type hdr) of
            Some SYN_PACKET \<Rightarrow> ProcessSynPacket_client e now hdr packet c
          | Some RST_PACKET \<Rightarrow> ProcessRstPacket_client e now hdr packet c
          | Some PONG_PACKET \<Rightarrow> ProcessPongPacket_client e now hdr packet c
          | Some DATA_PACKET \<Rightarrow> ProcessDataPacket_client e now hdr packet c
          | _ \<Rightarrow> Some c)
      | _ \<Rightarrow> Some c)"

text \<open>One read of at most \<open>kMaxPacketSize + 1\<close> bytes; \<open>None\<close> is an error of the call.\<close>

definition HandleRead_client :: "'a env \<Rightarrow> int \<Rightarrow> bytes option \<Rightarrow> 'a KCPClient \<Rightarrow> 'a KCPClient option" where
  "HandleRead_client e now rc c =
     (if \<not> cl_socket c then Some c
      else case rc of
        None \<Rightarrow> Some c
      | Some d \<Rightarrow> if length d > kMaxPacketSize then Some c else ProcessPacket_client e now d c)"

text \<open>With an error callback of the user (\<open>user_cb\<close>) the client leaves the error to it.\<close>

definition report_error_client :: "bool \<Rightarrow> bytes \<Rightarrow> bool \<times> u8 \<times> u8 \<Rightarrow> 'a KCPClient \<Rightarrow> 'a KCPClient" where
  "report_error_client user_cb data = (\<lambda>(icmp, ty, code) c.
     if user_cb then c
     else if icmp then (case (ReadFrom data, cl_session c) of
         (Some hdr, Some r) \<Rightarrow> c\<lparr>cl_heap := (cl_heap c)[r := (cl_heap c ! r)\<lparr>se_error := (ty, code)\<rparr>]\<rparr>
       | _ \<Rightarrow> c)
     else c)"

definition HandleError_client :: "bool \<Rightarrow> error_message list \<Rightarrow> 'a KCPClient \<Rightarrow> 'a KCPClient option" where
  "HandleError_client user_cb ms c =
     (if \<not> cl_socket c then None
      else Some (fold (\<lambda>m c. if em_truncated m then c
                             else fold (report_error_client user_cb (em_data m)) (em_errors m) c) ms c))"

end
