(* ===== verification/Kcp_Client_Inv.thy ===== *)
theory Kcp_Client_Inv
  imports Kcp_Client
begin

text \<open>
  The client as a state machine: \<open>cl_state\<close> says which of the two session pointers is set,
  so the assertions on them never fail, at most one session is open, and every session object
  is in a state of \<open>session_reach\<close>.
\<close>

section \<open>The invariant\<close>

fun state_ok :: "State \<Rightarrow> bool \<Rightarrow> bool \<Rightarrow> bool" where
  "state_ok CLOSED pending session = (\<not> pending \<and> \<not> session)"
| "state_ok PENDING pending session = (pending \<and> \<not> session)"
| "state_ok CONNECTED pending session = (\<not> pending \<and> session)"

definition client_inv :: "'a env \<Rightarrow> 'a KCPClient \<Rightarrow> bool" where
  "client_inv e c \<longleftrightarrow>
     state_ok (cl_state c) (cl_pending c \<noteq> None) (cl_session c \<noteq> None) \<and>
     (cl_state c \<noteq> CLOSED \<longrightarrow> cl_socket c) \<and> (cl_socket c \<longrightarrow> cl_server c \<noteq> None) \<and>
     (\<forall>p. cl_pending c = Some p \<longrightarrow> ps_retry p \<le> kClientMaxSynRetryTimes \<and> ps_id p = 0) \<and>
     (\<forall>r. cl_session c = Some r \<longrightarrow> r < length (cl_heap c)) \<and>
     (\<forall>i < length (cl_heap c). cl_session c \<noteq> Some i \<longrightarrow> se_closed (cl_heap c ! i)) \<and>
     heap_ok e True (cl_heap c) \<and>
     (cl_reconnect_timer c \<noteq> None \<longleftrightarrow> cl_timer_registered c) \<and> (cl_timer_registered c \<longrightarrow> cl_socket c) \<and>
     (\<forall>d. cl_reconnect_timer c = Some d \<longrightarrow> reconnect_unit \<le> d \<and> d \<le> kClientMaxReconnectDelay)"

lemma client_inv_new: "client_inv e (new_client b)"
  by (simp add: client_inv_def new_client_def heap_ok_def)

lemma client_inv_sent [simp]: "client_inv e (c\<lparr>cl_sent := x\<rparr>) = client_inv e c"
  "client_inv e (c\<lparr>cl_last_received := y\<rparr>) = client_inv e c"
  "client_inv e (c\<lparr>cl_last_ping := y\<rparr>) = client_inv e c"
  "client_inv e (c\<lparr>cl_periodic := z\<rparr>) = client_inv e c"
  by (simp_all add: client_inv_def)

lemma send_client:
  "SendPacket_client e t sid c =
     (if cl_socket c then Some (c\<lparr>cl_sent := cl_sent c @ [control_packet (adler e) t sid]\<rparr>) else None)"
  by (simp add: SendPacket_client_def write_public_header control_packet_def put_header_def)

section \<open>Session objects\<close>

lemma client_heap_step:
  assumes "client_inv e c" "r < length (cl_heap c)" "session_step (callbacks e) (cl_heap c ! r) x"
  shows "client_inv e (c\<lparr>cl_heap := (cl_heap c)[r := x]\<rparr>)"
proof -
  note i = step_identity [OF assms(3)]
  have m: "cl_heap c ! r \<in> set (cl_heap c)" using assms(2) by simp
  have "session_reach (callbacks e) (cl_heap c ! r)"
    using assms(1) m by (simp add: client_inv_def heap_ok_def)
  then have "session_reach (callbacks e) x" by (rule session_reach.step) (rule assms(3))
  then have "heap_ok e True ((cl_heap c)[r := x])"
    using assms(1) m i set_update_subset_insert [of "cl_heap c" r x]
    by (auto simp: client_inv_def heap_ok_def)
  then show ?thesis using assms(1,2) i by (auto simp: client_inv_def nth_list_update)
qed

lemma client_close:
  assumes "client_inv e c" "cl_session c = Some r" "Close (callbacks e) now fl (cl_heap c ! r) = Some x"
  shows "client_inv e (c\<lparr>cl_heap := (cl_heap c)[r := x]\<rparr>)" "se_closed x" "r < length (cl_heap c)"
proof -
  show r: "r < length (cl_heap c)" using assms(1,2) by (simp add: client_inv_def)
  then have "cl_heap c ! r \<in> set (cl_heap c)" by simp
  then have "Connection_up \<notin> set (se_queue (cl_heap c ! r))"
    using assms(1) by (auto simp: client_inv_def heap_ok_def)
  then have "session_step (callbacks e) (cl_heap c ! r) x" using assms(3) by (rule app_close)
  then show "client_inv e (c\<lparr>cl_heap := (cl_heap c)[r := x]\<rparr>)" by (rule client_heap_step [OF assms(1) r])
  show "se_closed x" using evolves_close(2) [OF assms(3)] .
qed

text \<open>Without pending handshake and session, in the state \<open>CLOSED\<close>.\<close>

lemma client_inv_closed:
  assumes "client_inv e c" "\<And>r. cl_session c = Some r \<Longrightarrow> se_closed (cl_heap c ! r)"
  shows "client_inv e (c\<lparr>cl_pending := None, cl_session := None, cl_state := CLOSED\<rparr>)"
proof -
  have "se_closed (cl_heap c ! i)" if "i < length (cl_heap c)" for i
    using assms that by (cases "cl_session c = Some i") (auto simp: client_inv_def)
  then show ?thesis using assms(1) by (simp add: client_inv_def)
qed

lemma reset_cases:
  assumes "ResetSession e now c = Some c'" "client_inv e c"
  obtains h where "client_inv e (c\<lparr>cl_heap := h, cl_pending := None, cl_session := None, cl_state := CLOSED\<rparr>)"
    "c' = (let c = c\<lparr>cl_heap := h, cl_pending := None, cl_session := None, cl_state := CLOSED\<rparr> in
       if \<not> cl_reconnect_enabled c then c
       else if cl_timer_registered c then c
       else c\<lparr>cl_reconnect_times := cl_reconnect_times c + 1, cl_timer_registered := True,
              cl_reconnect_timer := Some (min ((cl_reconnect_times c + 1) * reconnect_unit) kClientMaxReconnectDelay)\<rparr>)"
    "cl_socket c"
proof -
  have s: "cl_socket c" using assms(1) by (auto simp: ResetSession_def split: if_splits)
  obtain c1 where c1: "drop_session e now False (c\<lparr>cl_pending := None\<rparr>) = Some c1"
    "c' = (let c = c1\<lparr>cl_state := CLOSED\<rparr> in
       if \<not> cl_reconnect_enabled c then c
       else if cl_timer_registered c then c
       else c\<lparr>cl_reconnect_times := cl_reconnect_times c + 1, cl_timer_registered := True,
              cl_reconnect_timer := Some (min ((cl_reconnect_times c + 1) * reconnect_unit) kClientMaxReconnectDelay)\<rparr>)"
    using assms(1) s by (auto simp: ResetSession_def Let_def)
  show ?thesis
  proof (cases "cl_session c")
    case None
    have "client_inv e (c\<lparr>cl_pending := None, cl_session := None, cl_state := CLOSED\<rparr>)"
      using client_inv_closed [OF assms(2)] None by simp
    then show ?thesis
      using c1 None s by (intro that [of "cl_heap c"]) (auto simp: drop_session_def Let_def)
  next
    case (Some r)
    obtain x where x: "Close (callbacks e) now False (cl_heap c ! r) = Some x"
      "c1 = c\<lparr>cl_pending := None, cl_heap := (cl_heap c)[r := x], cl_session := None\<rparr>"
      using c1(1) Some by (auto simp: drop_session_def)
    note cc = client_close [OF assms(2) Some x(1)]
    have "client_inv e (c\<lparr>cl_heap := (cl_heap c)[r := x], cl_pending := None, cl_session := None, cl_state := CLOSED\<rparr>)"
      using client_inv_closed [OF cc(1)] cc(2,3) Some by simp
    then show ?thesis
      using c1(2) x(2) s by (intro that [of "(cl_heap c)[r := x]"]) (auto simp: Let_def)
  qed
qed

lemma reset_inv [inv_intro]:
  assumes "ResetSession e now c = Some c'" "client_inv e c"
  shows "client_inv e c'" "cl_state c' = CLOSED"
proof -
  obtain h where h: "client_inv e (c\<lparr>cl_heap := h, cl_pending := None, cl_session := None, cl_state := CLOSED\<rparr>)"
    "c' = (let c = c\<lparr>cl_heap := h, cl_pending := None, cl_session := None, cl_state := CLOSED\<rparr> in
       if \<not> cl_reconnect_enabled c then c
       else if cl_timer_registered c then c
       else c\<lparr>cl_reconnect_times := cl_reconnect_times c + 1, cl_timer_registered := True,
              cl_reconnect_timer := Some (min ((cl_reconnect_times c + 1) * reconnect_unit) kClientMaxReconnectDelay)\<rparr>)"
    "cl_socket c"
    by (rule reset_cases [OF assms])
  show "cl_state c' = CLOSED" by (simp add: h(2) Let_def)
  have "client_inv e (m\<lparr>cl_reconnect_times := n + 1, cl_timer_registered := True,
      cl_reconnect_timer := Some (min ((n + 1) * reconnect_unit) kClientMaxReconnectDelay)\<rparr>)"
    if "client_inv e m" "cl_socket m" for m n
    using that by (auto simp: client_inv_def client_consts)
  then show "client_inv e c'" using h by (simp add: Let_def)
qed

lemma reset_total: "cl_socket c \<Longrightarrow> \<exists>c'. ResetSession e now c = Some c'"
  by (auto simp: ResetSession_def drop_session_def Close_def Let_def split: option.split)

section \<open>The operations keep the invariant\<close>

lemma build_inv [inv_intro]:
  assumes "BuildSession e now c = Some c'" "client_inv e c"
  shows "client_inv e c'"
  using assms by (auto simp: BuildSession_def send_client client_inv_def split: if_splits)

lemma reconnect_inv [inv_intro]:
  assumes "reconnect_fires e now c = Some c'" "client_inv e c"
  shows "client_inv e c'"
  using assms by (auto simp: reconnect_fires_def BuildSession_def send_client client_inv_def split: if_splits)

lemma connect_client_inv [inv_intro]:
  assumes "Connect e rc now addr c = Some (r, c')" "client_inv e c"
  shows "client_inv e c'"
proof (cases "rc < 0")
  case False
  have "client_inv e (c\<lparr>cl_socket := True, cl_server := Some addr\<rparr>)"
    using assms(2) by (simp add: client_inv_def)
  then show ?thesis using assms(1) False build_inv by (auto simp: Connect_def)
qed (use assms in \<open>simp add: Connect_def\<close>)

lemma disconnect_inv [inv_intro]:
  assumes "Disconnect e now c = Some c'" "client_inv e c"
  shows "client_inv e c' \<and> \<not> cl_socket c' \<and> cl_state c' = CLOSED"
proof -
  have final: "client_inv e (m\<lparr>cl_periodic := False, cl_reconnect_timer := None, cl_timer_registered := False,
      cl_socket := False, cl_state := CLOSED\<rparr>)"
    if "client_inv e (m\<lparr>cl_state := CLOSED\<rparr>)" for m
    using that by (simp add: client_inv_def)
  show ?thesis
  proof (cases "cl_state c")
    case CLOSED
    then have "client_inv e (c\<lparr>cl_state := CLOSED\<rparr>)" using assms(2) by (simp add: client_inv_def)
    then show ?thesis using assms CLOSED final [of c] by (auto simp: Disconnect_def)
  next
    case PENDING
    then have "client_inv e (c\<lparr>cl_pending := None, cl_state := CLOSED\<rparr>)"
      using assms(2) by (auto simp: client_inv_def)
    then show ?thesis
      using assms(1) PENDING final [of "c\<lparr>cl_pending := None\<rparr>"] by (auto simp: Disconnect_def split: if_splits)
  next
    case CONNECTED
    then obtain r where r: "cl_session c = Some r" "cl_pending c = None" using assms(2) by (auto simp: client_inv_def)
    obtain x where x: "Close (callbacks e) now True (cl_heap c ! r) = Some x"
      using assms(1) CONNECTED r by (auto simp: Disconnect_def bind_eq_Some_conv)
    note cc = client_close [OF assms(2) r(1) x]
    let ?c = "c\<lparr>cl_heap := (cl_heap c)[r := x],
      cl_sent := cl_sent c @ [control_packet (adler e) RST_PACKET (se_id x)], cl_session := None\<rparr>"
    have "client_inv e (c\<lparr>cl_heap := (cl_heap c)[r := x], cl_pending := None, cl_session := None, cl_state := CLOSED\<rparr>)"
      using client_inv_closed [OF cc(1)] cc(2,3) r by simp
    then have "client_inv e (?c\<lparr>cl_state := CLOSED\<rparr>)" using r(2) by (simp add: client_inv_def)
    then show ?thesis
      using assms(1) CONNECTED r x final [of ?c] by (auto simp: Disconnect_def send_client split: if_splits)
  qed
qed

lemma periodic_client_inv [inv_intro]:
  assumes "RunPeriodicTask_client e now c = Some c'" "client_inv e c"
  shows "client_inv e c'"
proof (cases "cl_state c")
  case PENDING
  then obtain p where p: "cl_pending c = Some p" "ps_retry p \<le> kClientMaxSynRetryTimes" "ps_id p = 0" "cl_socket c"
    using assms(2) by (auto simp: client_inv_def)
  have "client_inv e (c\<lparr>cl_pending := Some (p\<lparr>ps_retry := ps_retry p + 1, ps_sent := now\<rparr>)\<rparr>)"
    if "ps_retry p < kClientMaxSynRetryTimes"
    using assms(2) p that PENDING by (auto simp: client_inv_def)
  then show ?thesis
    using assms PENDING p reset_inv(1) [of e now c c']
    by (auto simp: RunPeriodicTask_client_def send_client client_inv_def [of e "c\<lparr>cl_pending := _, cl_sent := _\<rparr>"]
        not_le split: if_splits)
next
  case CONNECTED
  then show ?thesis
    using assms reset_inv(1) [of e now c c']
    by (auto simp: RunPeriodicTask_client_def send_client split: if_splits option.splits)
qed (use assms in \<open>auto simp: RunPeriodicTask_client_def\<close>)

section \<open>Packets\<close>

definition rooms_client :: "nat \<Rightarrow> 'a KCPClient \<Rightarrow> bool" where
  "rooms_client n c \<longleftrightarrow> n < 2 ^ 30 \<and> (\<forall>x \<in> set (cl_heap c). acks_room n x)"

lemma syn_client_cases:
  assumes "ProcessSynPacket_client e now hdr p c = Some c'" "client_inv e c"
  obtains (reply) t where "c' = c\<lparr>cl_sent := cl_sent c @ [control_packet (adler e) t (session_id hdr)]\<rparr>"
      "cl_session c \<noteq> None \<or> cl_pending c = None"
  | (connected) x addr where "cl_state c = PENDING" "cl_server c = Some addr"
      "Initialize (callbacks e) True now (session_id hdr) addr session_params new_session = Some (True, x)"
      "c' = c\<lparr>cl_heap := cl_heap c @ [x], cl_session := Some (length (cl_heap c)), cl_pending := None,
         cl_last_ping := Some now, cl_state := CONNECTED,
         cl_sent := cl_sent c @ [control_packet (adler e) ACK_PACKET (session_id hdr)]\<rparr>"
proof (cases "cl_session c \<noteq> None \<or> cl_pending c = None")
  case True
  have "\<exists>t. SendPacket_client e t (session_id hdr) c = Some c'"
    using assms(1) True by (auto simp: ProcessSynPacket_client_def Let_def split: if_splits option.splits)
  then obtain t where "c' = c\<lparr>cl_sent := cl_sent c @ [control_packet (adler e) t (session_id hdr)]\<rparr>"
    by (auto simp: send_client split: if_splits)
  then show ?thesis using True by (rule reply)
next
  case False
  then have st: "cl_state c = PENDING" "cl_socket c" "cl_session c = None"
    using assms(2) by (cases "cl_state c"; auto simp: client_inv_def)+
  then obtain addr where addr: "cl_server c = Some addr" using assms(2) by (auto simp: client_inv_def)
  obtain k where k: "configure (session_id hdr) session_params = Some k" by (rule configure_session)
  obtain ok x where x: "Initialize (callbacks e) True now (session_id hdr) addr session_params new_session = Some (ok, x)"
    using assms(1) False st addr
    by (auto simp: ProcessSynPacket_client_def InitializeSession_client_def Let_def split: if_splits option.splits)
  have "ok" using x k by (auto simp: Initialize_def new_session_def Let_def)
  then show ?thesis
    using assms(1) False st addr x
    by (intro connected [of addr x])
      (auto simp: ProcessSynPacket_client_def InitializeSession_client_def Let_def send_client split: if_splits)
qed

lemma syn_client_inv [inv_intro]:
  assumes "ProcessSynPacket_client e now hdr p c = Some c'" "client_inv e c"
  shows "client_inv e c'"
  using assms
proof (cases rule: syn_client_cases)
  case (reply t)
  then show ?thesis using assms(2) by simp
next
  case (connected x addr)
  note fr = fresh_session [OF connected(3)]
  have "session_reach (callbacks e) x" by (rule session_reach.init [OF connected(3)])
  then have "heap_ok e True (cl_heap c @ [x])"
    using assms(2) fr(3) by (auto simp: client_inv_def heap_ok_def)
  then show ?thesis
    using assms(2) connected(1) by (auto simp: connected(4) client_inv_def nth_append less_Suc_eq)
qed

lemma data_client_inv [inv_intro]:
  assumes "ProcessDataPacket_client e now hdr p c = Some c'" "client_inv e c"
    and "rooms_client n c" "length (RemainingData p) \<le> n"
  shows "client_inv e c'"
proof (cases "cl_session c")
  case None
  then show ?thesis using assms(1,2)
    by (auto simp: ProcessDataPacket_client_def send_client split: if_splits)
next
  case (Some r)
  let ?c = "c\<lparr>cl_last_received := Some now\<rparr>"
  obtain addr x where x: "ProcessPacketInLoopThread (callbacks e) p addr (cl_heap c ! r) = Some x"
    "c' = ?c\<lparr>cl_heap := (cl_heap ?c)[r := x]\<rparr>"
    using assms(1) Some
    by (auto simp: ProcessDataPacket_client_def ProcessPacket_def Let_def split: if_splits option.splits)
  have r: "r < length (cl_heap c)" using assms(2) Some by (simp add: client_inv_def)
  then have m: "cl_heap c ! r \<in> set (cl_heap c)" by simp
  then have "Connection_up \<notin> set (se_queue (cl_heap c ! r))"
    using assms(2) by (auto simp: client_inv_def heap_ok_def)
  moreover have "acks_room (length (RemainingData p)) (cl_heap c ! r)"
    using m assms(3,4) by (fastforce simp: rooms_client_def acks_room_def split: option.splits)
  ultimately have "session_step (callbacks e) (cl_heap c ! r) x" using x(1) by (rule app_packet)
  then have "client_inv e (?c\<lparr>cl_heap := (cl_heap ?c)[r := x]\<rparr>)"
    using client_heap_step [of e ?c r x] assms(2) r by simp
  then show ?thesis by (simp only: x(2))
qed

lemma process_client_inv [inv_intro]:
  assumes "ProcessPacket_client e now d c = Some c'" "client_inv e c" "rooms_client (length d) c"
  shows "client_inv e c'"
proof (cases "\<exists>hdr p. ReadPublicHeader (adler e) (received d) = (SUCCESS, Some hdr, p)")
  case False
  then have "c' = c"
    using assms(1) by (auto simp: ProcessPacket_client_def split: if_splits prod.splits ReadError.splits option.splits)
  with assms(2) show ?thesis by simp
next
  case True
  then obtain hdr p where h: "ReadPublicHeader (adler e) (received d) = (SUCCESS, Some hdr, p)" by blast
  have len: "length (RemainingData p) \<le> length d"
    using h by (cases rule: read_public_header_cases [of d "adler e"]) (auto simp: RemainingData_def)
  have pong: "client_inv e c'" if "ProcessPongPacket_client e now hdr p c = Some c'"
    using that assms(2) by (auto simp: ProcessPongPacket_client_def send_client split: if_splits)
  have rst: "client_inv e c'" if "ProcessRstPacket_client e now hdr p c = Some c'"
    using that assms(2) reset_inv(1) by (auto simp: ProcessRstPacket_client_def split: if_splits)
  show ?thesis
    using assms(1,2) h pong rst syn_client_inv [of e now hdr p c c'] data_client_inv [OF _ assms(2,3) len, of now hdr c']
    by (auto simp: ProcessPacket_client_def split: if_splits option.splits KCPReceivedPacketType.splits)
qed

lemma report_client_inv [inv_intro]:
  assumes "client_inv e c"
  shows "client_inv e (report_error_client u d x c) \<and> cl_socket (report_error_client u d x c) = cl_socket c"
proof -
  obtain icmp ty code where x: "x = (icmp, ty, code)" by (cases x)
  show ?thesis
  proof (cases "\<not> u \<and> icmp \<and> ReadFrom d \<noteq> None \<and> cl_session c \<noteq> None")
    case True
    then obtain r where r: "cl_session c = Some r" by auto
    then have l: "r < length (cl_heap c)" using assms by (simp add: client_inv_def)
    then have "cl_heap c ! r \<in> set (cl_heap c)" by simp
    then have "Connection_up \<notin> set (se_queue (cl_heap c ! r))"
      using assms by (auto simp: client_inv_def heap_ok_def)
    from app_error [OF this] have "session_step (callbacks e) (cl_heap c ! r) ((cl_heap c ! r)\<lparr>se_error := (ty, code)\<rparr>)" .
    from client_heap_step [OF assms l this] show ?thesis
      using True r by (auto simp: x report_error_client_def)
  next
    case False
    then have "report_error_client u d x c = c"
      by (auto simp: x report_error_client_def split: option.splits)
    then show ?thesis using assms by simp
  qed
qed

lemma errors_client_inv [inv_intro]:
  assumes "HandleError_client u ms c = Some c'" "client_inv e c"
  shows "client_inv e c'"
proof -
  have f: "client_inv e (fold (report_error_client u d) xs c)" if "client_inv e c" for d xs c
    using that by (induction xs arbitrary: c) (auto simp: report_client_inv)
  have g: "client_inv e (fold (\<lambda>m c. if em_truncated m then c
      else fold (report_error_client u (em_data m)) (em_errors m) c) ms c)" if "client_inv e c" for c
    using that by (induction ms arbitrary: c) (auto intro: f)
  show ?thesis using assms g by (auto simp: HandleError_client_def split: if_splits)
qed

section \<open>Reachable states\<close>

text \<open>The user connects a client that is not connected yet; the channel and the timers call it
  while they exist.\<close>

inductive client_step :: "'a env \<Rightarrow> 'a KCPClient \<Rightarrow> 'a KCPClient \<Rightarrow> bool" for e where
  connect: "Connect e rc now addr c = Some (r, c') \<Longrightarrow> client_step e c c'"
| disconnect: "Disconnect e now c = Some c' \<Longrightarrow> client_step e c c'"
| read: "HandleRead_client e now rc c = Some c' \<Longrightarrow> (\<forall>d. rc = Some d \<longrightarrow> rooms_client (length d) c) \<Longrightarrow>
    client_step e c c'"
| errors: "cl_socket c \<Longrightarrow> HandleError_client u ms c = Some c' \<Longrightarrow> client_step e c c'"
| periodic: "cl_periodic c \<Longrightarrow> RunPeriodicTask_client e now c = Some c' \<Longrightarrow> client_step e c c'"
| reconnect: "cl_reconnect_timer c \<noteq> None \<Longrightarrow> reconnect_fires e now c = Some c' \<Longrightarrow> client_step e c c'"
| enable: "client_step e c (c\<lparr>cl_reconnect_enabled := b\<rparr>)"
| session: "r < length (cl_heap c) \<Longrightarrow> session_step (callbacks e) (cl_heap c ! r) x \<Longrightarrow>
    client_step e c (c\<lparr>cl_heap := (cl_heap c)[r := x]\<rparr>)"

inductive client_reach :: "'a env \<Rightarrow> 'a KCPClient \<Rightarrow> bool" for e where
  start: "client_reach e (new_client b)"
| step: "client_reach e c \<Longrightarrow> client_step e c c' \<Longrightarrow> client_reach e c'"

inductive_cases client_step_cases: "client_step e c c'"

lemma client_step_inv:
  assumes "client_step e c c'" "client_inv e c"
  shows "client_inv e c'"
  using assms(1)
proof cases
  case (read now rc)
  then show ?thesis
    using assms(2) process_client_inv by (auto simp: HandleRead_client_def split: if_splits option.splits)
next
  case (enable b)
  then show ?thesis using assms(2) by (simp add: client_inv_def)
qed (use assms(2) in \<open>auto intro: connect_client_inv dest: disconnect_inv errors_client_inv
      periodic_client_inv reconnect_inv client_heap_step\<close>)

lemma reach_client_inv: "client_reach e c \<Longrightarrow> client_inv e c"
  by (induction rule: client_reach.induct) (auto intro: client_inv_new client_step_inv)

section \<open>Identifiers\<close>

lemma gen_session_id_fresh:
  "gen_session_id n draws s = Some sid \<Longrightarrow>
   tb_find (sv_sessions s) sid = None \<and> tb_find (sv_time_wait s) sid = None \<and> Some sid \<in> set (take n draws)"
  by (induction n draws s rule: gen_session_id.induct) (auto split: if_splits)

end
