(* ===== verification/Kcp_Net_Props.thy ===== *)
theory Kcp_Net_Props
  imports Kcp_Client_Inv Kcp_Session_Props
begin

text \<open>
  The properties of the server and the client, and of the two together. The witnesses run the
  handshake between a concrete server and a concrete client.
\<close>

section \<open>Concrete endpoints\<close>

definition demo_env :: "nat env" where
  "demo_env = \<lparr>adler = (\<lambda>b. of_nat (length b)), ip_port = (\<lambda>a. replicate a CHR ''a''), callbacks = demo_h\<rparr>"

lemma demo_env [simp]: "adler demo_env = (\<lambda>b. of_nat (length b))"
  "ip_port demo_env a = replicate a CHR ''a''" "callbacks demo_env = demo_h"
  by (simp_all add: demo_env_def)

definition demo_syn :: "nat KCPServer" where
  "demo_syn = the (ProcessPacket_server demo_env [Some 7] 5 (control_packet (adler demo_env) SYN_PACKET 0) 3 (new_server 2))"

definition demo_up :: "nat KCPServer" where
  "demo_up = the (ProcessPacket_server demo_env [] 6 (control_packet (adler demo_env) ACK_PACKET 7) 3 demo_syn)"

lemma demo_server:
  "ProcessPacket_server demo_env [Some 7] 5 (control_packet (adler demo_env) SYN_PACKET 0) 3 (new_server 2) = Some demo_syn"
  by code_simp

lemma demo_server2:
  "ProcessPacket_server demo_env [] 6 (control_packet (adler demo_env) ACK_PACKET 7) 3 demo_syn = Some demo_up"
  by code_simp

lemma demo_server_fields: "sv_heap demo_syn = []" "sv_threads demo_up = 2" "sv_pending demo_up = []"
  "map fst (sv_sessions demo_up) = [7]" "map snd (sv_sessions demo_up) = [0]" "sv_idle demo_up = [(7, 6)]"
  "length (sv_heap demo_up) = 1" "se_log (sv_heap demo_up ! 0) = []"
  by code_simp+

lemma demo_reach_syn: "server_reach demo_env demo_syn"
  by (rule server_reach.step [OF server_reach.start server_step.datagram [OF demo_server]])
    (simp add: rooms_def new_server_def kPublicHeaderLength_def)

lemma demo_reach_up: "server_reach demo_env demo_up"
  by (rule server_reach.step [OF demo_reach_syn server_step.datagram [OF demo_server2]])
    (simp add: rooms_def demo_server_fields kPublicHeaderLength_def)

section \<open>The server\<close>

text \<open>C18: In every reachable state of the server the tables agree: exactly the
  connected sessions have an idle entry, no two entries of the session table share a key or an
  object, the object has the identifier of its key, and a pending handshake is filed under the
  address of its peer with at most ten retries.\<close>

theorem server_tables_agree:
  assumes "server_reach e s"
  shows "tb_keys (sv_idle s) = tb_keys (sv_sessions s) \<and>
    distinct (map fst (sv_sessions s)) \<and> distinct (map snd (sv_sessions s)) \<and>
    (\<forall>sid r. (sid, r) \<in> set (sv_sessions s) \<longrightarrow> r < length (sv_heap s) \<and> se_id (sv_heap s ! r) = sid) \<and>
    (\<forall>key pe. (key, pe) \<in> set (sv_pending s) \<longrightarrow>
       pe_retry pe \<le> kServerMaxSynRetryTimes \<and> ip_port e (pe_peer pe) = key)"
  using reach_server_inv [OF assms] by (auto simp: server_inv_def refs_ok_def tb_ok_def pending_ok_def)

theorem server_tables_agree_witness: "se_id (sv_heap demo_up ! 0) = 7"
proof -
  have "sv_sessions demo_up = [(7, 0)]"
    using demo_server_fields(4,5) by (cases "sv_sessions demo_up") auto
  then show ?thesis using server_tables_agree [OF demo_reach_up] by simp
qed

text \<open>C19: Every session object of a reachable server, in its table or already removed
  from it, behaves as a session: its user sees the callback protocol, and everything it sends
  fits a packet.\<close>

theorem server_sessions_run:
  assumes "server_reach e s" "x \<in> set (sv_heap s)" "on_connection (callbacks e) \<noteq> None"
  shows "(se_log x = [] \<and> \<not> se_closed x \<or>
      life Before (se_log x) = Some (if se_closed x then Down else Up)) \<and>
    (\<forall>buf sid peer. Ev_output buf sid peer \<in> set (se_log x) \<longrightarrow>
      kPublicHeaderLength < length buf \<and> length buf \<le> kMaxPacketSize)"
proof -
  have r: "session_reach (callbacks e) x"
    using reach_server_inv [OF assms(1)] assms(2) by (auto simp: server_inv_def heap_ok_def)
  show ?thesis
    using reach_life [OF r assms(3)] framed.reach_holds [OF r]
    by (fastforce simp: life_inv_def sess_holds_def frame_fits_def)
qed

theorem server_sessions_run_witness: "\<not> se_closed (sv_heap demo_up ! 0)"
proof -
  have "sv_heap demo_up ! 0 \<in> set (sv_heap demo_up)" by (simp add: demo_server_fields)
  from server_sessions_run [OF demo_reach_up this] show ?thesis
    by (auto simp: demo_h_def demo_server_fields split: if_splits)
qed

text \<open>The identifier of a new handshake is the first of at most twenty random draws
  that succeeds and that neither a connected session nor one in its time wait uses; when there
  is none the handshake is refused.\<close>

theorem session_id_fresh:
  "GenerateSessionId draws s = Option.bind
     (find (\<lambda>d. case d of None \<Rightarrow> False
        | Some i \<Rightarrow> tb_find (sv_sessions s) i = None \<and> tb_find (sv_time_wait s) i = None)
       (take 20 draws)) id"
proof -
  have "gen_session_id n draws s = Option.bind
     (find (\<lambda>d. case d of None \<Rightarrow> False
        | Some i \<Rightarrow> tb_find (sv_sessions s) i = None \<and> tb_find (sv_time_wait s) i = None)
       (take n draws)) id" for n
    by (induction n draws s rule: gen_session_id.induct) auto
  then show ?thesis by (simp add: GenerateSessionId_def kServerMaxGenSessionIdTryTimes_def)
qed

lemma start_worker:
  assumes "0 < sv_threads s" "tb_find (sv_sessions s) sid = None"
  shows "\<exists>x. start_session e now sid addr s = Some (True, connect_session sid (ip_port e addr) now x s)"
  using assms
  by (simp add: start_session_def InitializeSession_def Initialize_def new_session_def configure_value)
    (rule exI, rule refl)

lemma deliver_worker:
  "0 < sv_threads s \<Longrightarrow> tb_find (sv_sessions s) sid \<noteq> None \<Longrightarrow> deliver e sid p addr s \<noteq> None"
  by (auto simp: deliver_def ProcessPacket_def)

lemma server_reads:
  "ProcessPacket_server e draws now d addr s =
     (if length d > kMaxPacketSize then Some s
      else case get_header (adler e) d of
        None \<Rightarrow> Some s
      | Some (t, sid, r) \<Rightarrow>
          let hdr = \<lparr>checksum = adler e (drop 4 d), packet_type = t, session_id = sid\<rparr>;
              p = \<lparr>rp_data = d, rp_pos = kPublicHeaderLength\<rparr>
          in case packet_label t of
            Some SYN_PACKET \<Rightarrow> ProcessSynPacket e draws now hdr p addr s
          | Some ACK_PACKET \<Rightarrow> ProcessAckPacket e now hdr p addr s
          | Some RST_PACKET \<Rightarrow> ProcessRstPacket e now hdr p addr s
          | Some PING_PACKET \<Rightarrow> ProcessPingPacket e now hdr p addr s
          | Some DATA_PACKET \<Rightarrow> ProcessDataPacket e now hdr p addr s
          | _ \<Rightarrow> Some s)"
proof (cases rule: read_public_header_cases [of d "adler e"])
  case (good h)
  obtain t i where h: "h = \<lparr>checksum = adler e (drop 4 d), packet_type = t, session_id = i\<rparr>"
    using good(2) by (cases h) simp
  have "get_header (adler e) d = Some (t, i, drop kPublicHeaderLength d)"
    using good(3) by (simp add: h get_header_def RemainingData_def)
  then show ?thesis using good(3) by (simp add: h ProcessPacket_server_def Let_def)
qed (simp_all add: ProcessPacket_server_def get_header_def)

text \<open>When each handler of a server with worker threads aborts, in terms of what the reader found.\<close>

lemma data_aborts:
  assumes "0 < sv_threads s"
  shows "ProcessDataPacket e now hdr p addr s \<noteq> None"
proof (cases "tb_find (sv_sessions s) (session_id hdr)")
  case None
  let ?sid = "session_id hdr" and ?key = "ip_port e addr"
  obtain x where "start_session e now ?sid addr s = Some (True, connect_session ?sid ?key now x s)"
    using start_worker [OF assms None] by blast
  moreover have "deliver e ?sid p addr (connect_session ?sid ?key now x s) \<noteq> None"
    by (rule deliver_worker) (simp_all add: connect_session_def tb_find_insert assms)
  ultimately show ?thesis using None by (simp add: ProcessDataPacket_def Let_def split: option.split)
next
  case (Some q)
  then show ?thesis using deliver_worker [OF assms] by (simp add: ProcessDataPacket_def)
qed

lemma handler_aborts:
  "packet_type hdr = packet_code ACK_PACKET \<Longrightarrow> 0 < sv_threads s \<Longrightarrow>
     ProcessAckPacket e now hdr p addr s = None \<longleftrightarrow> RemainingBytes p \<noteq> 0"
  "packet_type hdr = packet_code RST_PACKET \<Longrightarrow> 0 < sv_threads s \<Longrightarrow>
     ProcessRstPacket e now hdr p addr s = None \<longleftrightarrow> RemainingBytes p \<noteq> 0"
  "packet_type hdr = packet_code SYN_PACKET \<Longrightarrow>
     ProcessSynPacket e draws now hdr p addr s = None \<longleftrightarrow> RemainingBytes p \<noteq> 0 \<or> session_id hdr \<noteq> 0"
  "packet_type hdr = packet_code PING_PACKET \<Longrightarrow>
     ProcessPingPacket e now hdr p addr s = None \<longleftrightarrow> RemainingBytes p \<noteq> 0 \<or> session_id hdr = 0"
  using start_worker [of s "session_id hdr" e now addr]
  by (auto simp: ProcessAckPacket_def ProcessRstPacket_def ProcessSynPacket_def ProcessPingPacket_def
      run_close_def Let_def word_gt_0 ex_bool_eq simp del: packet_code.simps split: option.splits)

text \<open>C20: With worker threads, one datagram can make an assertion of the server fail in
  exactly these cases: a handshake, reset or ping packet with bytes behind its header, a
  handshake packet with an identifier, a ping packet without one. Its sender only has to
  compute the checksum.\<close>

theorem server_packet_aborts:
  assumes "0 < sv_threads s"
  shows "ProcessPacket_server e draws now d addr s = None \<longleftrightarrow> length d \<le> kMaxPacketSize \<and>
    (\<exists>t sid payload. get_header (adler e) d = Some (packet_code t, sid, payload) \<and>
      (t \<in> {SYN_PACKET, ACK_PACKET, RST_PACKET, PING_PACKET} \<and> payload \<noteq> [] \<or>
       t = SYN_PACKET \<and> sid \<noteq> 0 \<or> t = PING_PACKET \<and> sid = 0))"
proof (cases "get_header (adler e) d")
  case None
  then show ?thesis by (simp add: server_reads)
next
  case (Some g)
  obtain b sid r where g: "get_header (adler e) d = Some (b, sid, r)" using Some by (cases g) auto
  have r: "RemainingBytes \<lparr>rp_data = d, rp_pos = kPublicHeaderLength\<rparr> = 0 \<longleftrightarrow> r = []"
    using get_header_cases [OF g] by (auto simp: RemainingBytes_def)
  show ?thesis
  proof (cases "packet_label b")
    case None
    then have "\<And>t. b \<noteq> packet_code t" by (auto simp del: packet_code.simps)
    then show ?thesis using None g by (simp add: server_reads)
  next
    case (Some t)
    then have b: "b = packet_code t" by (simp only: packet_label_Some)
    have inj: "packet_code t = packet_code t' \<longleftrightarrow> t = t'" for t t'
      by (metis option.inject packet_label_code)
    show ?thesis
      using g data_aborts [OF assms, of e now _ _ addr] r assms
      by (cases t) (auto simp: server_reads b inj Let_def handler_aborts simp del: packet_code.simps)
  qed
qed

theorem server_packet_aborts_witness:
  "ProcessPacket_server demo_env [] 0 (control_packet (adler demo_env) SYN_PACKET 9) 3 (new_server 2) = None"
proof -
  have "get_header (adler demo_env) (control_packet (adler demo_env) SYN_PACKET 9) = Some (packet_code SYN_PACKET, 9, [])"
    by (rule get_control_packet)
  then show ?thesis
    using server_packet_aborts [of "new_server 2" demo_env "[]" 0 "control_packet (adler demo_env) SYN_PACKET 9" 3]
    by (force simp: new_server_def kPublicHeaderLength_def kMaxPacketSize_def simp del: packet_code.simps)
qed

definition lives :: "int \<Rightarrow> 'a KCPServer \<Rightarrow> u32 \<times> nat \<Rightarrow> bool" where
  "lives now s = (\<lambda>(sid, r). \<not> se_closed (sv_heap s ! r) \<and>
     (case tb_find (sv_idle s) sid of None \<Rightarrow> False | Some t \<Rightarrow> now - t < kServerSessionIdleSeconds))"

definition closing :: "'a session \<Rightarrow> bool" where
  "closing x \<longleftrightarrow> se_closed x \<or> Close_session False \<in> set (se_queue x)"

lemma run_close_closes:
  assumes "r < length (sv_heap s)"
  obtains x where "run_close e now False r s = Some (s\<lparr>sv_heap := (sv_heap s)[r := x]\<rparr>)" "closing x"
proof (cases "in_loop s")
  case True
  have "Close (callbacks e) now False (sv_heap s ! r) \<noteq> None" by (simp add: Close_def Let_def)
  then obtain x where x: "Close (callbacks e) now False (sv_heap s ! r) = Some x" by blast
  then show ?thesis using True evolves_close(2) [OF x] by (intro that [of x]) (auto simp: run_close_def closing_def)
qed (auto simp: run_close_def closing_def intro: that)

text \<open>One visit of the second loop: the session stays untouched, or it is retired and its object
  is closed or will be.\<close>

lemma session_round_cases:
  assumes "r < length (sv_heap s)"
  obtains (stays) "lives now s (sid, r)" "session_round e now (sid, r) s = Some s"
  | (retired) x where "\<not> lives now s (sid, r)" "closing x"
      "session_round e now (sid, r) s = Some (retire now sid (s\<lparr>sv_heap := (sv_heap s)[r := x]\<rparr>))"
proof -
  obtain x where x: "run_close e now False r s = Some (s\<lparr>sv_heap := (sv_heap s)[r := x]\<rparr>)" "closing x"
    by (rule run_close_closes [OF assms])
  have same: "s\<lparr>sv_heap := (sv_heap s)[r := sv_heap s ! r]\<rparr> = s" by simp
  show ?thesis
  proof (cases "lives now s (sid, r)")
    case True
    then show ?thesis by (intro stays) (auto simp: session_round_def lives_def split: option.splits)
  next
    case False
    show ?thesis
    proof (cases "\<exists>t. tb_find (sv_idle s) sid = Some t \<and> now - t < kServerSessionIdleSeconds")
      case True
      with False have "se_closed (sv_heap s ! r)" by (auto simp: lives_def)
      then show ?thesis
        using True False by (intro retired [of "sv_heap s ! r"]) (auto simp: session_round_def closing_def)
    next
      case t: False
      then show ?thesis
        using x False by (intro retired [of x]) (auto simp: session_round_def split: option.split)
    qed
  qed
qed

lemma session_rounds_effect:
  assumes "distinct (map fst xs)" "distinct (map snd xs)" "\<forall>(sid, r) \<in> set xs. r < length (sv_heap s)"
  shows "\<exists>s'. session_rounds e now xs s = Some s' \<and>
    sv_sessions s' = filter (\<lambda>(i, q). \<forall>(sid, r) \<in> set xs. sid = i \<longrightarrow> lives now s (sid, r)) (sv_sessions s) \<and>
    sv_pending s' = sv_pending s \<and> sv_sent s' = sv_sent s \<and>
    (\<forall>r. r \<notin> snd ` set xs \<longrightarrow> sv_heap s' ! r = sv_heap s ! r) \<and>
    (\<forall>(sid, r) \<in> set xs. lives now s (sid, r) \<or> closing (sv_heap s' ! r))"
  using assms
proof (induction xs arbitrary: s)
  case Nil
  then show ?case by simp
next
  case (Cons x xs)
  obtain sid r where x: "x = (sid, r)" by (cases x)
  have r: "r < length (sv_heap s)" "r \<notin> snd ` set xs" "sid \<notin> fst ` set xs" using Cons.prems x by auto
  show ?case
  proof (cases rule: session_round_cases [OF r(1), of now sid e])
    case 1
    then show ?thesis using Cons.IH [of s] Cons.prems x by (auto simp: split_beta intro!: filter_cong)
  next
    case (2 y)
    note retired = 2
    let ?s = "retire now sid (s\<lparr>sv_heap := (sv_heap s)[r := y]\<rparr>)"
    have l: "lives now ?s z = lives now s z" if "z \<in> set xs" for z
    proof -
      obtain i q where z: "z = (i, q)" by (cases z)
      then have "i \<noteq> sid" "q \<noteq> r" using that r(2,3) by force+
      then show ?thesis by (simp add: z lives_def retire_def tb_find_erase)
    qed
    have "\<forall>(sid, r) \<in> set xs. r < length (sv_heap ?s)" using Cons.prems(3) by (auto simp: retire_def)
    from Cons.IH [OF _ _ this] Cons.prems(1,2) obtain s' where s': "session_rounds e now xs ?s = Some s'"
      "sv_sessions s' = filter (\<lambda>(i, q). \<forall>(sid, r) \<in> set xs. sid = i \<longrightarrow> lives now ?s (sid, r)) (sv_sessions ?s)"
      "sv_pending s' = sv_pending s" "sv_sent s' = sv_sent s"
      "\<forall>r. r \<notin> snd ` set xs \<longrightarrow> sv_heap s' ! r = sv_heap ?s ! r"
      "\<forall>(sid, r) \<in> set xs. lives now ?s (sid, r) \<or> closing (sv_heap s' ! r)"
      by (auto simp: retire_def)
    have "closing (sv_heap s' ! r)" using s'(5) r(1,2) retired(2) by (simp add: retire_def)
    moreover have "sv_sessions s' =
        filter (\<lambda>(i, q). \<forall>(sid, r) \<in> set (x # xs). sid = i \<longrightarrow> lives now s (sid, r)) (sv_sessions s)"
      unfolding s'(2) using retired(1) l
      by (auto simp: x retire_def tb_erase_def intro!: filter_cong)
    ultimately show ?thesis using s' retired l x by (auto simp: retire_def)
  qed
qed

text \<open>C21: The periodic task always returns. It keeps exactly the sessions that sent a ping
  within the idle time and are not closed, every other session is closed or has its close
  queued, and of the pending handshakes it drops those out of retries and answers again those
  that waited two seconds.\<close>

theorem server_periodic:
  assumes "server_reach e s"
  shows "\<exists>s'. RunPeriodicTask e now s = Some s' \<and>
    sv_sessions s' = filter (lives now s) (sv_sessions s) \<and>
    (\<forall>(sid, r) \<in> set (sv_sessions s) - set (sv_sessions s').
      se_closed (sv_heap s' ! r) \<or> Close_session False \<in> set (se_queue (sv_heap s' ! r))) \<and>
    sv_pending s' = map (\<lambda>(key, pe). (key, syn_retried now pe))
      (filter (\<lambda>(_, pe). pe_retry pe < kServerMaxSynRetryTimes) (sv_pending s)) \<and>
    sv_sent s' = sv_sent s @ map (\<lambda>(_, pe). (pe_peer pe, control_packet (adler e) SYN_PACKET (pe_id pe)))
      (filter (\<lambda>(_, pe). pe_retry pe < kServerMaxSynRetryTimes \<and> syn_due now pe) (sv_pending s))"
proof -
  have inv: "distinct (map fst (sv_sessions s))" "distinct (map snd (sv_sessions s))"
    "\<forall>(sid, r) \<in> set (sv_sessions s). r < length (sv_heap s)"
    using reach_server_inv [OF assms] by (auto simp: server_inv_def tb_ok_def refs_ok_def)
  let ?live = "filter (\<lambda>(_, pe). pe_retry pe < kServerMaxSynRetryTimes) (sv_pending s)"
  let ?sent = "sv_sent s @ map (\<lambda>(_, pe). (pe_peer pe, control_packet (adler e) SYN_PACKET (pe_id pe)))
    (filter (\<lambda>(_, pe). syn_due now pe) ?live)"
  let ?s = "s\<lparr>sv_sent := ?sent, sv_pending := map (\<lambda>(key, pe). (key, syn_retried now pe)) ?live\<rparr>"
  obtain s1 where s1: "session_rounds e now (sv_sessions s) ?s = Some s1"
    "sv_sessions s1 = filter (\<lambda>(i, q). \<forall>(sid, r) \<in> set (sv_sessions s). sid = i \<longrightarrow> lives now ?s (sid, r)) (sv_sessions s)"
    "sv_pending s1 = sv_pending ?s" "sv_sent s1 = ?sent"
    "\<forall>(sid, r) \<in> set (sv_sessions s). lives now ?s (sid, r) \<or> closing (sv_heap s1 ! r)"
    using session_rounds_effect [of "sv_sessions s" ?s e now] inv by auto
  have l: "lives now ?s = lives now s" by (simp add: lives_def fun_eq_iff)
  have "sv_sessions s1 = filter (lives now s) (sv_sessions s)"
    unfolding s1(2) l by (intro filter_cong) (auto dest: eq_key_imp_eq_value [OF inv(1)])
  then show ?thesis
    using s1 unfolding l
    by (auto simp: RunPeriodicTask_def pending_rounds Let_def closing_def filter_filter split_beta
        intro!: arg_cong [where f = "map _"] filter_cong)
qed

theorem server_periodic_witness:
  "\<exists>s'. RunPeriodicTask demo_env 121000000 demo_up = Some s' \<and> sv_sessions s' = []"
proof -
  have s: "sv_sessions demo_up = [(7, 0)]"
    using demo_server_fields(4,5) by (cases "sv_sessions demo_up") auto
  have "\<not> lives 121000000 demo_up (7, 0)"
    by (simp add: lives_def demo_server_fields tb_find_def kServerSessionIdleSeconds_def)
  then show ?thesis using server_periodic [OF demo_reach_up, of 121000000] s by auto
qed

section \<open>The client\<close>

definition demo_dial :: "nat KCPClient" where
  "demo_dial = snd (the (Connect demo_env 0 1 3 (new_client True)))"

definition demo_conn :: "nat KCPClient" where
  "demo_conn = the (ProcessPacket_client demo_env 2 (control_packet (adler demo_env) SYN_PACKET 7) demo_dial)"

lemma demo_client:
  "Connect demo_env 0 1 3 (new_client True) = Some (0, demo_dial)"
  by code_simp

lemma demo_client2:
  "ProcessPacket_client demo_env 2 (control_packet (adler demo_env) SYN_PACKET 7) demo_dial = Some demo_conn"
  by code_simp

lemma demo_client_fields: "cl_heap demo_dial = []" "cl_state demo_dial = PENDING" "cl_state demo_conn = CONNECTED"
  "cl_session demo_conn = Some 0" "length (cl_heap demo_conn) = 1" "cl_socket demo_dial" "cl_periodic demo_conn"
  "cl_last_received demo_dial = None" "cl_server demo_dial = Some 3" "cl_session demo_dial = None"
  by code_simp+

lemma demo_reach_dial: "client_reach demo_env demo_dial"
  by (rule client_reach.step [OF client_reach.start client_step.connect [OF demo_client]])

lemma demo_reach_conn: "client_reach demo_env demo_conn"
proof (rule client_reach.step [OF demo_reach_dial])
  have "HandleRead_client demo_env 2 (Some (control_packet (adler demo_env) SYN_PACKET 7)) demo_dial = Some demo_conn"
    using demo_client2 by (simp add: HandleRead_client_def demo_client_fields kPublicHeaderLength_def kMaxPacketSize_def)
  then show "client_step demo_env demo_dial demo_conn"
    by (rule client_step.read) (simp add: rooms_client_def demo_client_fields kPublicHeaderLength_def)
qed

text \<open>C22: In every reachable state of the client its state tells which of the
  handshake and the session exists, at most one session is open, the socket is there unless
  the client is closed, and a reconnect waits between half a second and three seconds.\<close>

theorem client_state_consistent:
  assumes "client_reach e c"
  shows "(cl_pending c \<noteq> None \<longleftrightarrow> cl_state c = PENDING) \<and> (cl_session c \<noteq> None \<longleftrightarrow> cl_state c = CONNECTED) \<and>
    (cl_state c \<noteq> CLOSED \<longrightarrow> cl_socket c) \<and>
    (\<forall>i j. i < length (cl_heap c) \<and> j < length (cl_heap c) \<and>
       \<not> se_closed (cl_heap c ! i) \<and> \<not> se_closed (cl_heap c ! j) \<longrightarrow> i = j) \<and>
    (\<forall>d. cl_reconnect_timer c = Some d \<longrightarrow> reconnect_unit \<le> d \<and> d \<le> kClientMaxReconnectDelay)"
proof -
  note i = reach_client_inv [OF assms]
  have "i = j" if "i < length (cl_heap c)" "j < length (cl_heap c)"
    "\<not> se_closed (cl_heap c ! i)" "\<not> se_closed (cl_heap c ! j)" for i j
  proof -
    have "cl_session c = Some i" "cl_session c = Some j" using \<open>client_inv e c\<close> that by (auto simp: client_inv_def)
    then show ?thesis by simp
  qed
  moreover have "(cl_pending c \<noteq> None \<longleftrightarrow> cl_state c = PENDING) \<and> (cl_session c \<noteq> None \<longleftrightarrow> cl_state c = CONNECTED)"
    using i by (cases "cl_state c") (auto simp: client_inv_def)
  ultimately show ?thesis using i by (auto simp: client_inv_def)
qed

theorem client_state_consistent_witness: "cl_pending demo_conn = None"
  using client_state_consistent [OF demo_reach_conn] by (auto simp: demo_client_fields)

lemma client_close_returns:
  assumes "client_inv e c" "cl_session c = Some r"
  shows "Close (callbacks e) now fl (cl_heap c ! r) \<noteq> None"
proof -
  have "cl_heap c ! r \<in> set (cl_heap c)" using assms by (simp add: client_inv_def)
  then have "session_reach (callbacks e) (cl_heap c ! r)" using assms(1) by (simp add: client_inv_def heap_ok_def)
  then obtain k where "se_kcp (cl_heap c ! r) = Some k" by (rule reach_kcp)
  then show ?thesis by (simp add: Close_def Let_def flush_session_def split: prod.split)
qed

text \<open>C23: The assertions and the dereferences of the client's periodic task and of
  \<open>Disconnect\<close> never fail, whatever happened before; after \<open>Disconnect\<close> the socket is gone and
  every session is closed.\<close>

theorem client_tasks_return:
  assumes "client_reach e c"
  shows "RunPeriodicTask_client e now c \<noteq> None \<and>
    (\<exists>c'. Disconnect e now c = Some c' \<and> \<not> cl_socket c' \<and> cl_state c' = CLOSED \<and>
       (\<forall>x \<in> set (cl_heap c'). se_closed x))"
proof
  note i = reach_client_inv [OF assms]
  show "RunPeriodicTask_client e now c \<noteq> None"
    using i reset_total [of c e now]
    by (cases "cl_state c") (auto simp: RunPeriodicTask_client_def client_inv_def send_client)
  have "Disconnect e now c \<noteq> None"
  proof (cases "cl_state c")
    case CONNECTED
    then obtain r where r: "cl_session c = Some r" "cl_socket c" using i by (auto simp: client_inv_def)
    obtain x where "Close (callbacks e) now True (cl_heap c ! r) = Some x"
      using client_close_returns [OF i r(1)] by blast
    then show ?thesis using r CONNECTED by (simp add: Disconnect_def send_client)
  qed (use i in \<open>auto simp: Disconnect_def client_inv_def\<close>)
  then obtain c' where c': "Disconnect e now c = Some c'" by blast
  have d: "client_inv e c' \<and> \<not> cl_socket c' \<and> cl_state c' = CLOSED" by (rule disconnect_inv [OF c' i])
  then have "\<forall>x \<in> set (cl_heap c'). se_closed x"
    by (auto simp: client_inv_def in_set_conv_nth)
  with c' d show "\<exists>c'. Disconnect e now c = Some c' \<and> \<not> cl_socket c' \<and> cl_state c' = CLOSED \<and>
       (\<forall>x \<in> set (cl_heap c'). se_closed x)" by blast
qed

theorem client_tasks_return_witness:
  "\<exists>c'. Disconnect demo_env 9 demo_conn = Some c' \<and> (\<forall>x \<in> set (cl_heap c'). se_closed x)"
  using client_tasks_return [OF demo_reach_conn, of 9] by blast


lemma client_control:
  "ProcessPacket_client e now (control_packet (adler e) t sid) c =
     (let hdr = \<lparr>checksum = adler e (drop 4 (control_packet (adler e) t sid)), packet_type = packet_code t, session_id = sid\<rparr>;
          p = \<lparr>rp_data = control_packet (adler e) t sid, rp_pos = kPublicHeaderLength\<rparr>
      in case t of
           SYN_PACKET \<Rightarrow> ProcessSynPacket_client e now hdr p c
         | RST_PACKET \<Rightarrow> ProcessRstPacket_client e now hdr p c
         | PONG_PACKET \<Rightarrow> ProcessPongPacket_client e now hdr p c
         | DATA_PACKET \<Rightarrow> ProcessDataPacket_client e now hdr p c
         | _ \<Rightarrow> Some c)"
  using get_header_cases [OF get_control_packet [of "adler e" t sid]]
  by (simp add: ProcessPacket_client_def kPublicHeaderLength_def kMaxPacketSize_def Let_def
      del: packet_code.simps)

lemma initialize_returns:
  assumes "\<And>x. connection_up h x \<noteq> None"
  shows "\<exists>x. Initialize h loop now sid addr session_params new_session = Some (True, x) \<and> se_id x = sid"
proof -
  have "\<exists>x. Initialize h loop now sid addr session_params new_session = Some (True, x)"
    using assms by (cases loop) (auto simp: Initialize_def new_session_def configure_value Let_def)
  then show ?thesis by (auto dest: fresh_session(1))
qed

lemma syn_connects_client:
  assumes "client_inv e c" "cl_state c = PENDING" "sid \<noteq> 0" "\<And>x. connection_up (callbacks e) x \<noteq> None"
  shows "\<exists>c'. ProcessPacket_client e now (control_packet (adler e) SYN_PACKET sid) c = Some c' \<and>
    cl_state c' = CONNECTED \<and> (\<exists>r. cl_session c' = Some r \<and> se_id (cl_heap c' ! r) = sid) \<and>
    last (cl_sent c') = control_packet (adler e) ACK_PACKET sid \<and> cl_last_received c' = cl_last_received c"
proof -
  obtain p addr where c: "cl_session c = None" "cl_pending c = Some p" "cl_socket c" "cl_server c = Some addr"
    using assms(1,2) by (auto simp: client_inv_def)
  obtain x where "Initialize (callbacks e) True now sid addr session_params new_session = Some (True, x)" "se_id x = sid"
    using initialize_returns [OF assms(4)] by blast
  then show ?thesis
    using c assms(3)
    by (simp add: client_control ProcessSynPacket_client_def InitializeSession_client_def send_client
        RemainingBytes_def Let_def word_gt_0 del: packet_code.simps)
qed

text \<open>C24: Without loss the handshake connects: from any reachable states of a client
  that waits and a server that does not know its address and finds an identifier, the SYN,
  its answer and the acknowledgement are all accepted, and afterwards both ends hold a session
  with the same identifier, the server under its session and idle tables and no longer as
  pending. The users' connection callbacks are assumed to return.\<close>

theorem client_handshake:
  assumes "adler ec = adler es" "client_reach ec c" "cl_state c = PENDING" "server_reach es s"
    and "tb_find (sv_pending s) (ip_port es addr) = None"
    and "GenerateSessionId draws s = Some sid" "sid \<noteq> 0"
    and "\<And>x. connection_up (callbacks ec) x \<noteq> None" "\<And>x. connection_up (callbacks es) x \<noteq> None"
  shows "\<exists>s1 c1 s2 rc rs.
    ProcessPacket_server es draws t1 (control_packet (adler es) SYN_PACKET 0) addr s = Some s1 \<and>
    ProcessPacket_client ec t2 (snd (last (sv_sent s1))) c = Some c1 \<and>
    ProcessPacket_server es draws' t3 (last (cl_sent c1)) addr s1 = Some s2 \<and>
    cl_state c1 = CONNECTED \<and> cl_session c1 = Some rc \<and> se_id (cl_heap c1 ! rc) = sid \<and>
    tb_find (sv_sessions s2) sid = Some rs \<and> se_id (sv_heap s2 ! rs) = sid \<and>
    tb_find (sv_idle s2) sid \<noteq> None \<and> tb_find (sv_pending s2) (ip_port es addr) = None"
proof -
  let ?key = "ip_port es addr" and ?a = "adler es"
  let ?pe = "\<lparr>pe_id = sid, pe_retry = 0, pe_received = t1, pe_sent = t1, pe_peer = addr\<rparr>"
  let ?s1 = "s\<lparr>sv_pending := tb_insert ?key ?pe (sv_pending s),
      sv_sent := sv_sent s @ [(addr, control_packet ?a SYN_PACKET sid)]\<rparr>"
  have small: "\<not> length (control_packet ?a t i) > kMaxPacketSize" for t i
    by (simp add: kPublicHeaderLength_def kMaxPacketSize_def)
  have 1: "ProcessPacket_server es draws t1 (control_packet ?a SYN_PACKET 0) addr s = Some ?s1"
    using assms(5,6) small
    by (simp add: server_reads get_control_packet ProcessSynPacket_def send_packet RemainingBytes_def
        Let_def del: packet_code.simps)
  obtain c1 rc where c1: "ProcessPacket_client ec t2 (control_packet ?a SYN_PACKET sid) c = Some c1"
    "cl_state c1 = CONNECTED" "cl_session c1 = Some rc" "se_id (cl_heap c1 ! rc) = sid"
    "last (cl_sent c1) = control_packet ?a ACK_PACKET sid"
    using syn_connects_client [OF reach_client_inv [OF assms(2)] assms(3,7,8), of t2] assms(1) by auto
  have f: "tb_find (sv_sessions ?s1) sid = None" "tb_find (sv_pending ?s1) ?key = Some ?pe"
    using gen_session_id_fresh assms(5,6) by (auto simp: GenerateSessionId_def tb_find_insert)
  obtain x where x: "Initialize (callbacks es) (in_loop s) t3 sid addr session_params new_session = Some (True, x)"
    "se_id x = sid"
    using initialize_returns [OF assms(9)] by blast
  have "ProcessPacket_server es draws' t3 (control_packet ?a ACK_PACKET sid) addr ?s1 =
      Some (connect_session sid ?key t3 x ?s1)"
    using f x small
    by (simp add: server_reads get_control_packet ProcessAckPacket_def start_session_def
        InitializeSession_def RemainingBytes_def Let_def del: packet_code.simps)
  then show ?thesis
    using 1 c1 f x
    by (intro exI [of _ ?s1] exI [of _ c1] exI [of _ "connect_session sid ?key t3 x ?s1"] exI [of _ rc]
        exI [of _ "length (sv_heap s)"])
      (simp add: connect_session_def tb_find_insert tb_find_erase)
qed

lemma demo_up_returns: "connection_up demo_h x \<noteq> None"
  by (simp add: connection_up_def demo_h_def)

theorem client_handshake_witness:
  "\<exists>s1 c1 s2. ProcessPacket_server demo_env [Some 7] 5 (control_packet (adler demo_env) SYN_PACKET 0) 3 (new_server 2) = Some s1 \<and>
    ProcessPacket_client demo_env 6 (snd (last (sv_sent s1))) demo_dial = Some c1 \<and>
    ProcessPacket_server demo_env [] 7 (last (cl_sent c1)) 3 s1 = Some s2 \<and>
    cl_state c1 = CONNECTED \<and> tb_find (sv_sessions s2) 7 \<noteq> None"
proof -
  have g: "GenerateSessionId [Some 7] (new_server 2) = Some 7" by code_simp
  show ?thesis
    using client_handshake [OF refl demo_reach_dial demo_client_fields(2) server_reach.start _ g, of 3 5 6 "[]" 7]
      demo_up_returns
    by (fastforce simp: new_server_def tb_find_def)
qed

text \<open>The time of the last packet survives a reconnect. A client that waits for its
  handshake, but last heard from the server longer ago than the idle time, connects on the
  server's answer, and its next periodic task resets the new session at once unless a packet
  came in between.\<close>

theorem client_stale_timeout:
  assumes "client_reach e c" "cl_state c = PENDING" "sid \<noteq> 0" "\<And>x. connection_up (callbacks e) x \<noteq> None"
    and "cl_last_received c = Some t" "kClientSessionIdleSeconds \<le> later - t"
  shows "\<exists>c1 c2. ProcessPacket_client e now (control_packet (adler e) SYN_PACKET sid) c = Some c1 \<and>
    cl_state c1 = CONNECTED \<and> RunPeriodicTask_client e later c1 = Some c2 \<and> cl_state c2 = CLOSED"
proof -
  note i = reach_client_inv [OF assms(1)]
  obtain c1 r where c1: "ProcessPacket_client e now (control_packet (adler e) SYN_PACKET sid) c = Some c1"
    "cl_state c1 = CONNECTED" "cl_session c1 = Some r" "cl_last_received c1 = Some t"
    using syn_connects_client [OF i assms(2-4), of now] assms(5) by auto
  have "cl_socket c1"
    using c1(1) i assms(2)
    by (auto simp: client_control ProcessSynPacket_client_def InitializeSession_client_def send_client Let_def
        client_inv_def split: if_splits option.splits prod.splits)
  then obtain c2 where c2: "ResetSession e later c1 = Some c2" using reset_total by blast
  then have "cl_state c2 = CLOSED" by (auto simp: ResetSession_def Let_def split: if_splits)
  then show ?thesis using c1 c2 assms(6) by (auto simp: RunPeriodicTask_client_def)
qed


definition demo_pong :: "nat KCPClient" where
  "demo_pong = the (ProcessPacket_client demo_env 3 (control_packet (adler demo_env) PONG_PACKET 7) demo_conn)"

lemma demo_client3:
  "ProcessPacket_client demo_env 3 (control_packet (adler demo_env) PONG_PACKET 7) demo_conn = Some demo_pong"
  "cl_last_received demo_pong = Some 3" "cl_socket demo_conn" "cl_socket demo_pong"
  "cl_reconnect_enabled demo_pong" "\<not> cl_timer_registered demo_pong"
  "map (\<lambda>x. map_option ackcount (se_kcp x)) (cl_heap demo_conn) = [Some 0]"
  "map (\<lambda>x. map_option ackcount (se_kcp x)) (cl_heap demo_pong) = [Some 0]"
  by code_simp+

lemma client_reads:
  assumes "client_reach e c" "cl_socket c" "length d \<le> kMaxPacketSize"
    "ProcessPacket_client e now d c = Some c'"
    "map (\<lambda>x. map_option ackcount (se_kcp x)) (cl_heap c) = [Some 0]"
  shows "client_reach e c'"
proof (rule client_reach.step [OF assms(1)])
  have "HandleRead_client e now (Some d) c = Some c'"
    using assms(2-4) by (simp add: HandleRead_client_def)
  then show "client_step e c c'"
    by (rule client_step.read)
      (use assms(3,5) in \<open>auto simp: rooms_client_def acks_room_def kMaxPacketSize_def\<close>)
qed

lemma rst_redials:
  assumes "cl_socket c" "cl_reconnect_enabled c" "\<not> cl_timer_registered c"
  shows "\<exists>c1 c2. ProcessPacket_client e now (control_packet (adler e) RST_PACKET sid) c = Some c1 \<and>
    cl_reconnect_timer c1 \<noteq> None \<and> reconnect_fires e now' c1 = Some c2 \<and>
    cl_state c2 = PENDING \<and> cl_last_received c2 = cl_last_received c"
proof -
  obtain c1 where c1: "ResetSession e now c = Some c1" using reset_total assms(1) by blast
  then have "cl_reconnect_timer c1 \<noteq> None \<and> cl_state c1 = CLOSED \<and> cl_socket c1 \<and>
      cl_last_received c1 = cl_last_received c"
    using assms by (auto simp: ResetSession_def drop_session_def Let_def split: option.splits)
  then show ?thesis
    using c1 by (simp add: client_control ProcessRstPacket_client_def RemainingBytes_def reconnect_fires_def
        BuildSession_def send_client Let_def del: packet_code.simps)
qed

lemma demo_redial: "\<exists>c. client_reach demo_env c \<and> cl_state c = PENDING \<and> cl_last_received c = Some 3"
proof -
  have l: "length (control_packet (adler demo_env) t sid) \<le> kMaxPacketSize" for t sid
    by (simp add: kPublicHeaderLength_def kMaxPacketSize_def)
  obtain c1 c2 where c: "ProcessPacket_client demo_env 4 (control_packet (adler demo_env) RST_PACKET 0) demo_pong = Some c1"
    "cl_reconnect_timer c1 \<noteq> None" "reconnect_fires demo_env 5 c1 = Some c2" "cl_state c2 = PENDING"
    "cl_last_received c2 = Some 3"
    using rst_redials [OF demo_client3(4-6), of demo_env 4 0 5] demo_client3(2) by auto
  have "client_reach demo_env demo_pong"
    by (rule client_reads [OF demo_reach_conn demo_client3(3) l demo_client3(1,7)])
  then have "client_reach demo_env c1"
    by (rule client_reads [OF _ demo_client3(4) l c(1) demo_client3(8)])
  then have "client_reach demo_env c2"
    by (rule client_reach.step [OF _ client_step.reconnect [OF c(2,3)]])
  with c(4,5) show ?thesis by blast
qed

theorem client_stale_timeout_witness:
  "\<exists>c c1 c2. cl_last_received c = Some 3 \<and> cl_state c = PENDING \<and>
    ProcessPacket_client demo_env 130000000 (control_packet (adler demo_env) SYN_PACKET 8) c = Some c1 \<and>
    cl_state c1 = CONNECTED \<and> RunPeriodicTask_client demo_env 130000001 c1 = Some c2 \<and> cl_state c2 = CLOSED"
proof -
  obtain c where c: "client_reach demo_env c" "cl_state c = PENDING" "cl_last_received c = Some 3"
    using demo_redial by blast
  have "\<And>x. connection_up (callbacks demo_env) x \<noteq> None" using demo_up_returns by simp
  from client_stale_timeout [OF c(1,2) _ this c(3), of 8 130000001 130000000] c(2,3) show ?thesis
    by (auto simp: kClientSessionIdleSeconds_def)
qed

end
