(* ===== verification/Udp_Socket.thy ===== *)
theory Udp_Socket
  imports Kcp_Packets
begin

text \<open>
  The socket wrapper (\<open>kcp/udp_socket.h\<close>, \<open>kcp/udp_socket.cc\<close>): socket addresses and the class
  \<open>UDPSocket\<close> with every system call it makes. The operating system is the parameter
  \<open>kernel\<close>: the reply to a call, given the calls made before. \<open>us_calls\<close> records the calls of a
  socket object, so that what it owns can be read off its history. The address class of the
  network library is the record \<open>'a inet\<close>: the family of an address, its bytes as a
  \<open>sockaddr_in6\<close> and the address made of such bytes. An operation is \<open>None\<close> where an assertion
  fails; logging is left out.
\<close>

section \<open>Socket addresses\<close>

definition AF_UNSPEC :: int where "AF_UNSPEC = 0"
definition AF_INET :: int where "AF_INET = 2"
definition AF_INET6 :: int where "AF_INET6 = 10"

definition EINTR :: int where "EINTR = 4"
definition EFAULT :: int where "EFAULT = 14"
definition EINVAL :: int where "EINVAL = 22"
definition EAFNOSUPPORT :: int where "EAFNOSUPPORT = 97"
definition EADDRNOTAVAIL :: int where "EADDRNOTAVAIL = 99"
definition ENOTCONN :: int where "ENOTCONN = 107"

lemmas socket_consts = AF_UNSPEC_def AF_INET_def AF_INET6_def EINTR_def EFAULT_def EINVAL_def
  EAFNOSUPPORT_def EADDRNOTAVAIL_def ENOTCONN_def

text \<open>The sizes of \<open>sockaddr_in\<close>, \<open>sockaddr_in6\<close> and \<open>sockaddr_storage\<close>.\<close>

definition kSockaddrInSize :: nat where "kSockaddrInSize = 16"
definition kSockaddrIn6Size :: nat where "kSockaddrIn6Size = 28"
definition storage_size :: nat where "storage_size = 128"

lemmas sockaddr_sizes = kSockaddrInSize_def kSockaddrIn6Size_def storage_size_def

record 'a inet =
  family_of :: "'a \<Rightarrow> int"
  raw_of :: "'a \<Rightarrow> bytes"
  of_raw :: "bytes \<Rightarrow> 'a"

record SockaddrStorage =
  addr_len :: nat
  addr_storage :: bytes

text \<open>The bytes of a new storage are whatever was in memory.\<close>

definition new_storage :: "bytes \<Rightarrow> SockaddrStorage" where
  "new_storage junk = \<lparr>addr_len = storage_size, addr_storage = junk\<rparr>"

definition copy_storage :: "SockaddrStorage \<Rightarrow> SockaddrStorage \<Rightarrow> SockaddrStorage" where
  "copy_storage other st = st\<lparr>addr_len := addr_len other,
     addr_storage := write_at (addr_storage st) 0 (take (addr_len other) (addr_storage other))\<rparr>"

definition store_addr :: "bytes \<Rightarrow> nat \<Rightarrow> SockaddrStorage \<Rightarrow> SockaddrStorage" where
  "store_addr raw n st = st\<lparr>addr_storage := write_at (addr_storage st) 0 (take n raw), addr_len := n\<rparr>"

definition ToSockAddr :: "'a inet \<Rightarrow> 'a \<Rightarrow> SockaddrStorage \<Rightarrow> SockaddrStorage option" where
  "ToSockAddr i a st =
     (if family_of i a = AF_INET then Some (store_addr (raw_of i a) kSockaddrInSize st)
      else if family_of i a = AF_INET6 then Some (store_addr (raw_of i a) kSockaddrIn6Size st)
      else None)"

definition ToSockAddr_raw :: "bytes \<Rightarrow> nat \<Rightarrow> SockaddrStorage \<Rightarrow> SockaddrStorage option" where
  "ToSockAddr_raw sock_addr sock_len st =
     (if sock_len = kSockaddrInSize \<or> sock_len = kSockaddrIn6Size
      then Some (store_addr sock_addr sock_len st) else None)"

definition ToInetAddr_raw :: "'a inet \<Rightarrow> bytes \<Rightarrow> nat \<Rightarrow> 'a option" where
  "ToInetAddr_raw i sock_addr sock_len =
     (if sock_len = kSockaddrInSize \<or> sock_len = kSockaddrIn6Size
      then Some (of_raw i (take kSockaddrIn6Size sock_addr)) else None)"

definition ToInetAddr :: "'a inet \<Rightarrow> SockaddrStorage \<Rightarrow> 'a option" where
  "ToInetAddr i st = ToInetAddr_raw i (addr_storage st) (addr_len st)"

text \<open>\<open>sin_addr\<close> starts at byte 4 and \<open>sin6_addr\<close> at byte 8, both in network order.\<close>

definition IsAddressMulticast :: "'a inet \<Rightarrow> 'a \<Rightarrow> bool" where
  "IsAddressMulticast i a =
     (if family_of i a = AF_INET then raw_of i a ! 4 AND 0xF0 = 0xE0
      else if family_of i a = AF_INET6 then raw_of i a ! 8 = 0xFF
      else False)"

section \<open>System calls\<close>

datatype sock_opt =
  SO_REUSEADDR | SO_REUSEPORT | SO_BROADCAST | SO_RCVBUF | SO_SNDBUF
| IP_RECVERR | IPV6_RECVERR | IP_RECVTOS | IPV6_RECVTCLASS
| IP_MULTICAST_IF | IPV6_MULTICAST_IF | IP_MULTICAST_TTL | IPV6_MULTICAST_HOPS
| IP_MULTICAST_LOOP | IPV6_MULTICAST_LOOP | IP_TOS | IPV6_TCLASS

datatype sys_call =
  Sys_socket int
| Sys_close int
| Sys_setsockopt int sock_opt int
| Sys_setgroup int bool nat bytes
| Sys_connect int bytes
| Sys_bind int bytes
| Sys_getsockname int
| Sys_getpeername int
| Sys_nametoindex string
| Sys_indextoname nat
| Sys_recvfrom int nat int
| Sys_sendto int bytes int "bytes option"
| Sys_recvmsg int int
| Sys_sendmsg int "bytes option \<times> bytes" int
| Sys_recvmmsg int nat int
| Sys_sendmmsg int "(bytes \<times> bytes) list" int

record reply =
  rc :: int
  err :: int
  r_data :: bytes
  r_addr :: SockaddrStorage

type_synonym kernel = "sys_call list \<Rightarrow> sys_call \<Rightarrow> reply"

record 'a UDPSocket =
  sockfd :: int
  addr_family :: int
  socket_options :: u32
  local_address :: "'a option"
  peer_address :: "'a option"
  us_calls :: "sys_call list"

definition kInvalidSocket :: int where "kInvalidSocket = -1"

definition new_socket :: "'a UDPSocket" where
  "new_socket = \<lparr>sockfd = kInvalidSocket, addr_family = AF_UNSPEC, socket_options = 0,
     local_address = None, peer_address = None, us_calls = []\<rparr>"

definition IsValidSocket :: "'a UDPSocket \<Rightarrow> bool" where
  "IsValidSocket s \<longleftrightarrow> sockfd s \<noteq> kInvalidSocket"

definition sys :: "kernel \<Rightarrow> sys_call \<Rightarrow> 'a UDPSocket \<Rightarrow> reply \<times> 'a UDPSocket" where
  "sys K c s = (K (us_calls s) c, s\<lparr>us_calls := us_calls s @ [c]\<rparr>)"

text \<open>\<open>HANDLE_EINTR\<close> of the debug build: an interrupted call is repeated at most a hundred times.\<close>

fun handle_eintr :: "nat \<Rightarrow> kernel \<Rightarrow> sys_call \<Rightarrow> 'a UDPSocket \<Rightarrow> reply \<times> 'a UDPSocket" where
  "handle_eintr 0 K c s = sys K c s"
| "handle_eintr (Suc n) K c s = (case sys K c s of (r, s) \<Rightarrow>
     if rc r = -1 \<and> err r = EINTR then handle_eintr n K c s else (r, s))"

definition HANDLE_EINTR :: "kernel \<Rightarrow> sys_call \<Rightarrow> 'a UDPSocket \<Rightarrow> reply \<times> 'a UDPSocket" where
  "HANDLE_EINTR = handle_eintr 100"

text \<open>\<open>ERROR_RETURN(x)\<close> followed by \<open>return 0\<close>.\<close>

definition error_return :: "kernel \<Rightarrow> sys_call \<Rightarrow> 'a UDPSocket \<Rightarrow> int \<times> 'a UDPSocket" where
  "error_return K c s = (case sys K c s of (r, s) \<Rightarrow> (if rc r < 0 then - err r else 0, s))"


section \<open>Opening and closing\<close>

definition SOCKET_OPTION_REUSE_ADDRESS :: u32 where "SOCKET_OPTION_REUSE_ADDRESS = 1"
definition SOCKET_OPTION_REUSE_PORT :: u32 where "SOCKET_OPTION_REUSE_PORT = 2"
definition SOCKET_OPTION_BROADCAST :: u32 where "SOCKET_OPTION_BROADCAST = 4"
definition SOCKET_OPTION_RECEIVE_ERROR :: u32 where "SOCKET_OPTION_RECEIVE_ERROR = 8"
definition SOCKET_OPTION_RECEIVE_DSCP_AND_ECN :: u32 where "SOCKET_OPTION_RECEIVE_DSCP_AND_ECN = 16"

lemmas socket_option_defs = SOCKET_OPTION_REUSE_ADDRESS_def SOCKET_OPTION_REUSE_PORT_def
  SOCKET_OPTION_BROADCAST_def SOCKET_OPTION_RECEIVE_ERROR_def SOCKET_OPTION_RECEIVE_DSCP_AND_ECN_def

definition allow :: "u32 \<Rightarrow> 'a UDPSocket \<Rightarrow> 'a UDPSocket option" where
  "allow flag s = (if IsValidSocket s then None
     else Some (s\<lparr>socket_options := socket_options s OR flag\<rparr>))"

definition AllowReuseAddress :: "'a UDPSocket \<Rightarrow> 'a UDPSocket option" where
  "AllowReuseAddress = allow SOCKET_OPTION_REUSE_ADDRESS"
definition AllowReusePort :: "'a UDPSocket \<Rightarrow> 'a UDPSocket option" where
  "AllowReusePort = allow SOCKET_OPTION_REUSE_PORT"
definition AllowBroadcast :: "'a UDPSocket \<Rightarrow> 'a UDPSocket option" where
  "AllowBroadcast = allow SOCKET_OPTION_BROADCAST"
definition AllowReceiveError :: "'a UDPSocket \<Rightarrow> 'a UDPSocket option" where
  "AllowReceiveError = allow SOCKET_OPTION_RECEIVE_ERROR"
definition AllowReceiveDSCPAndECN :: "'a UDPSocket \<Rightarrow> 'a UDPSocket option" where
  "AllowReceiveDSCPAndECN = allow SOCKET_OPTION_RECEIVE_DSCP_AND_ECN"

definition Close_socket :: "kernel \<Rightarrow> 'a UDPSocket \<Rightarrow> 'a UDPSocket" where
  "Close_socket K s =
     (if \<not> IsValidSocket s then s
      else (snd (sys K (Sys_close (sockfd s)) s))
             \<lparr>sockfd := kInvalidSocket, addr_family := AF_UNSPEC, socket_options := 0\<rparr>)"

definition CreateSocket :: "kernel \<Rightarrow> int \<Rightarrow> 'a UDPSocket \<Rightarrow> (int \<times> 'a UDPSocket) option" where
  "CreateSocket K family s =
     (if IsValidSocket s then None
      else if family \<noteq> AF_INET \<and> family \<noteq> AF_INET6 then Some (- EAFNOSUPPORT, s)
      else case sys K (Sys_socket family) s of (r, s) \<Rightarrow>
        if rc r = kInvalidSocket then Some (- err r, s)
        else Some (0, s\<lparr>addr_family := family, sockfd := rc r\<rparr>))"

text \<open>The options that are set, in the order of the tests, and the loop over them that stops at
  the first error.\<close>

definition chosen_options :: "'a UDPSocket \<Rightarrow> sock_opt list" where
  "chosen_options s =
     (if socket_options s AND SOCKET_OPTION_REUSE_ADDRESS \<noteq> 0 then [SO_REUSEADDR] else []) @
     (if socket_options s AND SOCKET_OPTION_REUSE_PORT \<noteq> 0 then [SO_REUSEPORT] else []) @
     (if socket_options s AND SOCKET_OPTION_BROADCAST \<noteq> 0 then [SO_BROADCAST] else []) @
     (if socket_options s AND SOCKET_OPTION_RECEIVE_ERROR \<noteq> 0
      then [if addr_family s = AF_INET then IP_RECVERR else IPV6_RECVERR] else []) @
     (if socket_options s AND SOCKET_OPTION_RECEIVE_DSCP_AND_ECN \<noteq> 0
      then [if addr_family s = AF_INET then IP_RECVTOS else IPV6_RECVTCLASS] else [])"

fun set_options :: "kernel \<Rightarrow> sock_opt list \<Rightarrow> 'a UDPSocket \<Rightarrow> int \<times> 'a UDPSocket" where
  "set_options K [] s = (0, s)"
| "set_options K (o1 # os) s = (case sys K (Sys_setsockopt (sockfd s) o1 1) s of (r, s) \<Rightarrow>
     if rc r < 0 then (- err r, s) else set_options K os s)"

definition SetSocketOptions :: "kernel \<Rightarrow> 'a UDPSocket \<Rightarrow> (int \<times> 'a UDPSocket) option" where
  "SetSocketOptions K s =
     (if \<not> IsValidSocket s \<or> addr_family s = AF_UNSPEC then None
      else Some (set_options K (chosen_options s) s))"

definition ConnectImpl :: "kernel \<Rightarrow> 'a inet \<Rightarrow> 'a \<Rightarrow> 'a UDPSocket \<Rightarrow> (int \<times> 'a UDPSocket) option" where
  "ConnectImpl K i a s =
     (if \<not> IsValidSocket s then None
      else case ToSockAddr i a (new_storage (replicate storage_size 0)) of
        None \<Rightarrow> Some (- EADDRNOTAVAIL, s)
      | Some st \<Rightarrow> (case HANDLE_EINTR K (Sys_connect (sockfd s) (take (addr_len st) (addr_storage st))) s of
          (r, s) \<Rightarrow> Some (if rc r = 0 then 0 else - err r, s)))"

definition BindImpl :: "kernel \<Rightarrow> 'a inet \<Rightarrow> 'a \<Rightarrow> 'a UDPSocket \<Rightarrow> (int \<times> 'a UDPSocket) option" where
  "BindImpl K i a s =
     (if \<not> IsValidSocket s then None
      else case ToSockAddr i a (new_storage (replicate storage_size 0)) of
        None \<Rightarrow> Some (- EINVAL, s)
      | Some st \<Rightarrow> (case sys K (Sys_bind (sockfd s) (take (addr_len st) (addr_storage st))) s of
          (r, s) \<Rightarrow> Some (if rc r = 0 then 0 else - err r, s)))"

text \<open>What \<open>Connect\<close> and \<open>Bind\<close> share: create, set the options, attach, and close on an error.\<close>

definition open_socket :: "kernel \<Rightarrow> int \<Rightarrow> ('a UDPSocket \<Rightarrow> (int \<times> 'a UDPSocket) option) \<Rightarrow>
    'a UDPSocket \<Rightarrow> (int \<times> 'a UDPSocket) option" where
  "open_socket K family attach s =
     (case CreateSocket K family s of
        None \<Rightarrow> None
      | Some (rv, s) \<Rightarrow>
          if rv < 0 then Some (rv, s)
          else (case SetSocketOptions K s of
            None \<Rightarrow> None
          | Some (rv, s) \<Rightarrow>
              if rv < 0 then Some (rv, Close_socket K s)
              else (case attach s of
                None \<Rightarrow> None
              | Some (rv, s) \<Rightarrow> Some (rv, if rv < 0 then Close_socket K s else s))))"

definition Connect_socket :: "kernel \<Rightarrow> 'a inet \<Rightarrow> 'a \<Rightarrow> 'a UDPSocket \<Rightarrow> (int \<times> 'a UDPSocket) option" where
  "Connect_socket K i a s =
     (if IsValidSocket s \<or> peer_address s \<noteq> None then None
      else open_socket K (family_of i a) (ConnectImpl K i a) s)"

definition Bind :: "kernel \<Rightarrow> 'a inet \<Rightarrow> 'a \<Rightarrow> 'a UDPSocket \<Rightarrow> (int \<times> 'a UDPSocket) option" where
  "Bind K i a s =
     (if IsValidSocket s then None else open_socket K (family_of i a) (BindImpl K i a) s)"

section \<open>Addresses of the socket\<close>

text \<open>The addresses are asked for once and kept. A failed \<open>getsockname\<close> returns \<open>errno\<close> itself, a
  failed \<open>getpeername\<close> its negation. The second component is the address assigned.\<close>

definition GetLocalAddress :: "kernel \<Rightarrow> 'a inet \<Rightarrow> 'a UDPSocket \<Rightarrow> int \<times> 'a option \<times> 'a UDPSocket" where
  "GetLocalAddress K i s =
     (if \<not> IsValidSocket s then (- ENOTCONN, None, s)
      else case local_address s of
        Some a \<Rightarrow> (0, Some a, s)
      | None \<Rightarrow> (case sys K (Sys_getsockname (sockfd s)) s of (r, s) \<Rightarrow>
          if rc r < 0 then (err r, None, s)
          else case ToInetAddr i (r_addr r) of
            None \<Rightarrow> (- EADDRNOTAVAIL, None, s)
          | Some a \<Rightarrow> (0, Some a, s\<lparr>local_address := Some a\<rparr>)))"

definition GetPeerAddress :: "kernel \<Rightarrow> 'a inet \<Rightarrow> 'a UDPSocket \<Rightarrow> int \<times> 'a option \<times> 'a UDPSocket" where
  "GetPeerAddress K i s =
     (if \<not> IsValidSocket s then (- ENOTCONN, None, s)
      else case peer_address s of
        Some a \<Rightarrow> (0, Some a, s)
      | None \<Rightarrow> (case sys K (Sys_getpeername (sockfd s)) s of (r, s) \<Rightarrow>
          if rc r < 0 then (- err r, None, s)
          else case ToInetAddr i (r_addr r) of
            None \<Rightarrow> (- EADDRNOTAVAIL, None, s)
          | Some a \<Rightarrow> (0, Some a, s\<lparr>peer_address := Some a\<rparr>)))"

section \<open>Options of an open socket\<close>

definition SetReceiveBufferSize :: "kernel \<Rightarrow> int \<Rightarrow> 'a UDPSocket \<Rightarrow> (int \<times> 'a UDPSocket) option" where
  "SetReceiveBufferSize K n s =
     (if \<not> IsValidSocket s then None
      else if n < 0 then Some (- EINVAL, s)
      else Some (error_return K (Sys_setsockopt (sockfd s) SO_RCVBUF n) s))"

definition SetSendBufferSize :: "kernel \<Rightarrow> int \<Rightarrow> 'a UDPSocket \<Rightarrow> (int \<times> 'a UDPSocket) option" where
  "SetSendBufferSize K n s =
     (if \<not> IsValidSocket s then None
      else if n < 0 then Some (- EINVAL, s)
      else Some (error_return K (Sys_setsockopt (sockfd s) SO_SNDBUF n) s))"

definition SetMulticastIF :: "kernel \<Rightarrow> nat \<Rightarrow> 'a UDPSocket \<Rightarrow> (int \<times> 'a UDPSocket) option" where
  "SetMulticastIF K ifindex s =
     (if \<not> IsValidSocket s \<or> addr_family s = AF_UNSPEC then None
      else
        let (r, s') = sys K (Sys_indextoname ifindex) s;
            s'' = (if ifindex \<noteq> 0 then s' else s)
        in if ifindex \<noteq> 0 \<and> rc r < 0 then Some (- err r, s')
           else Some (error_return K (Sys_setsockopt (sockfd s)
             (if addr_family s = AF_INET then IP_MULTICAST_IF else IPV6_MULTICAST_IF) (int ifindex)) s''))"

definition SetMulticastIF_name :: "kernel \<Rightarrow> string \<Rightarrow> 'a UDPSocket \<Rightarrow> (int \<times> 'a UDPSocket) option" where
  "SetMulticastIF_name K ifname s =
     (if \<not> IsValidSocket s \<or> addr_family s = AF_UNSPEC then None
      else case sys K (Sys_nametoindex ifname) s of (r, s) \<Rightarrow>
        if rc r = 0 then Some (- err r, s) else SetMulticastIF K (nat (rc r)) s)"

definition SetMulticastTTL :: "kernel \<Rightarrow> int \<Rightarrow> 'a UDPSocket \<Rightarrow> (int \<times> 'a UDPSocket) option" where
  "SetMulticastTTL K ttl s =
     (if \<not> IsValidSocket s \<or> addr_family s = AF_UNSPEC then None
      else if addr_family s = AF_INET then
        if ttl < 0 \<or> ttl > 255 then Some (- EINVAL, s)
        else Some (error_return K (Sys_setsockopt (sockfd s) IP_MULTICAST_TTL (ttl mod 256)) s)
      else
        if ttl < -1 \<or> ttl > 255 then Some (- EINVAL, s)
        else Some (error_return K (Sys_setsockopt (sockfd s) IPV6_MULTICAST_HOPS ttl) s))"

definition SetMulticastLoop :: "kernel \<Rightarrow> bool \<Rightarrow> 'a UDPSocket \<Rightarrow> (int \<times> 'a UDPSocket) option" where
  "SetMulticastLoop K loop s =
     (if \<not> IsValidSocket s \<or> addr_family s = AF_UNSPEC then None
      else Some (error_return K (Sys_setsockopt (sockfd s)
        (if addr_family s = AF_INET then IP_MULTICAST_LOOP else IPV6_MULTICAST_LOOP)
        (if loop then 1 else 0)) s))"

definition SetDSCPAndECN :: "kernel \<Rightarrow> u8 \<Rightarrow> 'a UDPSocket \<Rightarrow> (int \<times> 'a UDPSocket) option" where
  "SetDSCPAndECN K v s =
     (if \<not> IsValidSocket s \<or> addr_family s = AF_UNSPEC then None
      else Some (error_return K (Sys_setsockopt (sockfd s)
        (if addr_family s = AF_INET then IP_TOS else IPV6_TCLASS) (uint v)) s))"

section \<open>Multicast groups\<close>

definition JoinOrLeaveMulticastGroup ::
  "kernel \<Rightarrow> 'a inet \<Rightarrow> 'a \<Rightarrow> nat \<Rightarrow> bool \<Rightarrow> 'a UDPSocket \<Rightarrow> (int \<times> 'a UDPSocket) option" where
  "JoinOrLeaveMulticastGroup K i grp ifindex op_join s =
     (if \<not> IsValidSocket s then None
      else if family_of i grp \<noteq> addr_family s then Some (- EINVAL, s)
      else if \<not> IsAddressMulticast i grp then Some (- EINVAL, s)
      else
        let (r, s') = sys K (Sys_indextoname ifindex) s;
            s'' = (if ifindex > 0 then s' else s)
        in if ifindex > 0 \<and> rc r < 0 then Some (- err r, s')
           else if family_of i grp = AF_INET then
             Some (error_return K (Sys_setgroup (sockfd s) op_join ifindex (take kSockaddrInSize (raw_of i grp))) s'')
           else if family_of i grp = AF_INET6 then
             Some (error_return K (Sys_setgroup (sockfd s) op_join ifindex (take kSockaddrIn6Size (raw_of i grp))) s'')
           else Some (- EINVAL, s''))"

definition multicast_by_name ::
  "kernel \<Rightarrow> 'a inet \<Rightarrow> 'a \<Rightarrow> string \<Rightarrow> bool \<Rightarrow> 'a UDPSocket \<Rightarrow> (int \<times> 'a UDPSocket) option" where
  "multicast_by_name K i grp ifname op_join s =
     (case sys K (Sys_nametoindex ifname) s of (r, s) \<Rightarrow>
        if rc r = 0 then Some (- err r, s)
        else JoinOrLeaveMulticastGroup K i grp (nat (rc r)) op_join s)"

section \<open>Sending and receiving\<close>

text \<open>The result of a receive: the code's return value, the bytes put into the buffer and the
  sender where it was asked for.\<close>

definition RecvFrom :: "kernel \<Rightarrow> 'a inet \<Rightarrow> nat \<Rightarrow> bool \<Rightarrow> int \<Rightarrow> 'a UDPSocket \<Rightarrow>
    (int \<times> bytes \<times> 'a option) \<times> 'a UDPSocket" where
  "RecvFrom K i len want flags s =
     (case HANDLE_EINTR K (Sys_recvfrom (sockfd s) len flags) s of (r, s) \<Rightarrow>
        (if rc r \<ge> 0 then
           (if want then case ToInetAddr i (r_addr r) of
                None \<Rightarrow> (- EINVAL, r_data r, None)
              | Some a \<Rightarrow> (rc r, r_data r, Some a)
            else (rc r, r_data r, None))
         else (- err r, [], None), s))"

definition Read :: "kernel \<Rightarrow> 'a inet \<Rightarrow> nat \<Rightarrow> 'a UDPSocket \<Rightarrow> (int \<times> bytes \<times> 'a option) \<times> 'a UDPSocket" where
  "Read K i len s = RecvFrom K i len False 0 s"

definition SendToImpl :: "kernel \<Rightarrow> 'a inet \<Rightarrow> bytes \<Rightarrow> 'a option \<Rightarrow> int \<Rightarrow> 'a UDPSocket \<Rightarrow> int \<times> 'a UDPSocket" where
  "SendToImpl K i buf address flags s =
     (let dest = (case address of
            None \<Rightarrow> Some None
          | Some a \<Rightarrow> map_option (\<lambda>st. Some (take (addr_len st) (addr_storage st)))
                        (ToSockAddr i a (new_storage (replicate storage_size 0))))
      in case dest of
           None \<Rightarrow> (- EFAULT, s)
         | Some d \<Rightarrow> (case HANDLE_EINTR K (Sys_sendto (sockfd s) buf flags d) s of (r, s) \<Rightarrow>
             (if rc r < 0 then - err r else rc r, s)))"

definition Write_socket :: "kernel \<Rightarrow> 'a inet \<Rightarrow> bytes \<Rightarrow> 'a UDPSocket \<Rightarrow> int \<times> 'a UDPSocket" where
  "Write_socket K i buf s = SendToImpl K i buf None 0 s"

definition SendTo :: "kernel \<Rightarrow> 'a inet \<Rightarrow> bytes \<Rightarrow> 'a \<Rightarrow> int \<Rightarrow> 'a UDPSocket \<Rightarrow> int \<times> 'a UDPSocket" where
  "SendTo K i buf address flags s = SendToImpl K i buf (Some address) flags s"

definition message_call :: "kernel \<Rightarrow> sys_call \<Rightarrow> 'a UDPSocket \<Rightarrow> (int \<times> 'a UDPSocket) option" where
  "message_call K c s =
     (if \<not> IsValidSocket s then None
      else case HANDLE_EINTR K c s of (r, s) \<Rightarrow> Some (if rc r < 0 then - err r else rc r, s))"

definition RecvMmsg :: "kernel \<Rightarrow> nat \<Rightarrow> int \<Rightarrow> 'a UDPSocket \<Rightarrow> (int \<times> 'a UDPSocket) option" where
  "RecvMmsg K vlen flags s = message_call K (Sys_recvmmsg (sockfd s) vlen flags) s"

definition SendMmsg :: "kernel \<Rightarrow> (bytes \<times> bytes) list \<Rightarrow> int \<Rightarrow> 'a UDPSocket \<Rightarrow> (int \<times> 'a UDPSocket) option" where
  "SendMmsg K msgs flags s = message_call K (Sys_sendmmsg (sockfd s) msgs flags) s"

definition RecvMsg :: "kernel \<Rightarrow> int \<Rightarrow> 'a UDPSocket \<Rightarrow> (int \<times> 'a UDPSocket) option" where
  "RecvMsg K flags s = message_call K (Sys_recvmsg (sockfd s) flags) s"

definition SendMsg :: "kernel \<Rightarrow> bytes option \<times> bytes \<Rightarrow> int \<Rightarrow> 'a UDPSocket \<Rightarrow> (int \<times> 'a UDPSocket) option" where
  "SendMsg K msg flags s = message_call K (Sys_sendmsg (sockfd s) msg flags) s"

end
