(* ===== verification/Udp_Socket_Inv.thy ===== *)
theory Udp_Socket_Inv
  imports Udp_Socket
begin

text \<open>
  What a socket object owns: the descriptors it opened and did not close, read off the history
  of its system calls. In every reachable state these are exactly the descriptor it holds, so
  no error path leaks one and none is closed twice.
\<close>

section \<open>Descriptors of a history\<close>

definition fd_effect :: "reply \<Rightarrow> sys_call \<Rightarrow> int list \<Rightarrow> int list" where
  "fd_effect r c A = (case c of
       Sys_socket _ \<Rightarrow> if rc r = kInvalidSocket then A else rc r # A
     | Sys_close fd \<Rightarrow> remove1 fd A
     | _ \<Rightarrow> A)"

fun fds :: "kernel \<Rightarrow> sys_call list \<Rightarrow> sys_call list \<Rightarrow> int list \<Rightarrow> int list" where
  "fds K w [] A = A"
| "fds K w (c # cs) A = fds K (w @ [c]) cs (fd_effect (K w c) c A)"

definition open_fds :: "kernel \<Rightarrow> 'a UDPSocket \<Rightarrow> int list" where
  "open_fds K s = fds K [] (us_calls s) []"

lemma fds_append: "fds K w (xs @ ys) A = fds K (w @ xs) ys (fds K w xs A)"
  by (induction xs arbitrary: w A) auto

lemma open_fds_sys: "open_fds K (snd (sys K c s)) = fd_effect (K (us_calls s) c) c (open_fds K s)"
  by (simp add: open_fds_def sys_def fds_append)

fun harmless :: "sys_call \<Rightarrow> bool" where
  "harmless (Sys_socket _) = False"
| "harmless (Sys_close _) = False"
| "harmless _ = True"

lemma harmless_effect: "harmless c \<Longrightarrow> fd_effect r c A = A"
  by (cases c) (simp_all add: fd_effect_def)

text \<open>An operation that neither opens nor closes anything.\<close>

definition quiet :: "kernel \<Rightarrow> 'a UDPSocket \<Rightarrow> 'a UDPSocket \<Rightarrow> bool" where
  "quiet K s s' \<longleftrightarrow> sockfd s' = sockfd s \<and> addr_family s' = addr_family s \<and> open_fds K s' = open_fds K s"

lemma quiet_refl [simp]: "quiet K s s"
  by (simp add: quiet_def)

lemma quiet_trans: "quiet K a b \<Longrightarrow> quiet K b c \<Longrightarrow> quiet K a c"
  by (simp add: quiet_def)

lemma quiet_fields [simp]:
  "quiet K s (s'\<lparr>local_address := x\<rparr>) = quiet K s s'" "quiet K s (s'\<lparr>peer_address := x\<rparr>) = quiet K s s'"
  "quiet K s (s'\<lparr>socket_options := b\<rparr>) = quiet K s s'"
  by (simp_all add: quiet_def open_fds_def)

lemma quiet_sys: "sys K c s = (r, s') \<Longrightarrow> harmless c \<Longrightarrow> quiet K s s'"
  using open_fds_sys [of K c s] by (auto simp: quiet_def harmless_effect sys_def)

lemma quiet_eintr: "handle_eintr n K c s = (r, s') \<Longrightarrow> harmless c \<Longrightarrow> quiet K s s'"
proof (induction n arbitrary: s)
  case (Suc n)
  obtain q t where t: "sys K c s = (q, t)" by fastforce
  have 1: "quiet K s t" by (rule quiet_sys [OF t Suc.prems(2)])
  show ?case
  proof (cases "rc q = -1 \<and> err q = EINTR")
    case True
    then have "quiet K t s'" using Suc.IH [of t] Suc.prems t by simp
    with 1 show ?thesis by (rule quiet_trans)
  next
    case False
    then show ?thesis using Suc.prems(1) t 1 by (auto split: if_splits)
  qed
qed (simp add: quiet_sys)

lemma quiet_HANDLE: "HANDLE_EINTR K c s = (r, s') \<Longrightarrow> harmless c \<Longrightarrow> quiet K s s'"
  by (simp add: HANDLE_EINTR_def quiet_eintr)

lemma quiet_error_return: "error_return K c s = (r, s') \<Longrightarrow> harmless c \<Longrightarrow> quiet K s s'"
  by (auto simp: error_return_def quiet_sys split: prod.splits)

lemma quiet_set_options: "set_options K os s = (r, s') \<Longrightarrow> quiet K s s'"
proof (induction K os s rule: set_options.induct)
  case (2 K o1 os s)
  obtain q t where t: "sys K (Sys_setsockopt (sockfd s) o1 1) s = (q, t)" by fastforce
  have "quiet K s t" by (rule quiet_sys [OF t]) simp
  then show ?case using 2 t quiet_trans by (fastforce split: if_splits)
qed simp

lemmas quiet_calls = quiet_sys quiet_HANDLE quiet_error_return quiet_set_options

section \<open>The operations\<close>

definition sock_inv :: "kernel \<Rightarrow> 'a UDPSocket \<Rightarrow> bool" where
  "sock_inv K s \<longleftrightarrow> open_fds K s = (if IsValidSocket s then [sockfd s] else []) \<and>
     (if IsValidSocket s then addr_family s \<in> {AF_INET, AF_INET6} else addr_family s = AF_UNSPEC)"

lemma sock_inv_new: "sock_inv K new_socket"
  by (simp add: sock_inv_def open_fds_def new_socket_def IsValidSocket_def)

lemma quiet_inv: "quiet K s s' \<Longrightarrow> sock_inv K s' = sock_inv K s"
  by (simp add: quiet_def sock_inv_def IsValidSocket_def)

lemma quiet_valid: "quiet K s s' \<Longrightarrow> IsValidSocket s' = IsValidSocket s"
  by (simp add: quiet_def IsValidSocket_def)

lemma close_sock_inv:
  assumes "sock_inv K s"
  shows "sock_inv K (Close_socket K s) \<and> \<not> IsValidSocket (Close_socket K s)"
proof (cases "IsValidSocket s")
  case True
  then have "open_fds K (snd (sys K (Sys_close (sockfd s)) s)) = []"
    using assms by (simp add: open_fds_sys fd_effect_def sock_inv_def)
  then show ?thesis
    using True by (simp add: Close_socket_def sock_inv_def IsValidSocket_def open_fds_def)
qed (use assms in \<open>simp add: Close_socket_def\<close>)

lemma create_cases:
  assumes "CreateSocket K family s = Some (rv, s')" "sock_inv K s"
  obtains (failed) "quiet K s s'" "rv = - EAFNOSUPPORT \<or> (\<exists>r. rc r = -1 \<and> rv = - err r \<and> r = K (us_calls s) (Sys_socket family))"
  | (created) "rv = 0" "sock_inv K s'" "IsValidSocket s'" "peer_address s' = peer_address s"
proof (cases "family = AF_INET \<or> family = AF_INET6")
  case False
  then show ?thesis using assms by (intro failed) (auto simp: CreateSocket_def split: if_splits)
next
  case True
  have v: "\<not> IsValidSocket s" using assms(1) by (auto simp: CreateSocket_def split: if_splits)
  let ?r = "K (us_calls s) (Sys_socket family)" and ?t = "snd (sys K (Sys_socket family) s)"
  have f: "open_fds K ?t = (if rc ?r = kInvalidSocket then [] else [rc ?r])"
    using assms(2) v by (simp add: open_fds_sys fd_effect_def sock_inv_def)
  show ?thesis
  proof (cases "rc ?r = kInvalidSocket")
    case c: True
    then have "s' = ?t" "rv = - err ?r" using assms(1) v True by (auto simp: CreateSocket_def sys_def)
    moreover have "quiet K s ?t" using f c assms(2) v by (simp add: quiet_def sys_def sock_inv_def)
    ultimately show ?thesis using c by (intro failed) (auto simp: kInvalidSocket_def)
  next
    case c: False
    then have e: "s' = ?t\<lparr>addr_family := family, sockfd := rc ?r\<rparr>" "rv = 0"
      using assms(1) v True by (auto simp: CreateSocket_def sys_def)
    then show ?thesis
      using f c True by (intro created) (auto simp: sock_inv_def IsValidSocket_def open_fds_def sys_def)
  qed
qed

lemma quiet_attach:
  "ConnectImpl K i a s = Some (r, s') \<Longrightarrow> quiet K s s'" "BindImpl K i a s = Some (r, s') \<Longrightarrow> quiet K s s'"
  by (auto simp: ConnectImpl_def BindImpl_def intro: quiet_calls split: if_splits option.splits prod.splits)

text \<open>Opening: the result is negative exactly when the object owns nothing afterwards.\<close>

lemma open_sock:
  assumes "open_socket K family attach s = Some (rv, s')" "sock_inv K s"
    and attach: "\<And>t r t'. attach t = Some (r, t') \<Longrightarrow> quiet K t t'"
  shows "sock_inv K s' \<and> (IsValidSocket s' \<longleftrightarrow> 0 \<le> rv)"
proof -
  obtain rv1 s1 where s1: "CreateSocket K family s = Some (rv1, s1)"
    using assms(1) by (auto simp: open_socket_def split: option.splits)
  have v: "\<not> IsValidSocket s" using s1 by (auto simp: CreateSocket_def split: if_splits)
  show ?thesis
    using s1 assms(2)
  proof (cases rule: create_cases)
    case failed
    then have i: "sock_inv K s1" "\<not> IsValidSocket s1"
      using assms(2) v by (simp_all add: quiet_inv quiet_valid)
    show ?thesis
    proof (cases "rv1 < 0")
      case True
      then show ?thesis using assms(1) s1 i by (simp add: open_socket_def)
    next
      case False
      then show ?thesis using assms(1) s1 i by (simp add: open_socket_def SetSocketOptions_def)
    qed
  next
    case created
    obtain rv2 s2 where s2: "set_options K (chosen_options s1) s1 = (rv2, s2)" by fastforce
    have i2: "sock_inv K s2" "IsValidSocket s2"
      using quiet_set_options [OF s2] created by (simp_all add: quiet_inv quiet_valid)
    have so: "SetSocketOptions K s1 = Some (rv2, s2)"
      using created s2 by (auto simp: SetSocketOptions_def sock_inv_def socket_consts)
    show ?thesis
    proof (cases "rv2 < 0")
      case True
      then show ?thesis using assms(1) s1 so created(1) close_sock_inv [OF i2(1)] by (simp add: open_socket_def)
    next
      case False
      then obtain rv3 s3 where s3: "attach s2 = Some (rv3, s3)"
        "rv = rv3" "s' = (if rv3 < 0 then Close_socket K s3 else s3)"
        using assms(1) s1 so created(1) by (auto simp: open_socket_def split: option.splits)
      have "sock_inv K s3" using quiet_inv [OF attach [OF s3(1)]] i2(1) by simp
      then show ?thesis using s3(2,3) close_sock_inv [of K s3] quiet_valid [OF attach [OF s3(1)]] i2(2) by auto
    qed
  qed
qed


section \<open>Reachable states\<close>

text \<open>The user of a socket calls its operations in any order; the assertions of the code are the
  only restriction.\<close>

inductive sock_step :: "kernel \<Rightarrow> 'a inet \<Rightarrow> 'a UDPSocket \<Rightarrow> 'a UDPSocket \<Rightarrow> bool" for K i where
  allowed: "allow flag s = Some s' \<Longrightarrow> sock_step K i s s'"
| connect: "Connect_socket K i a s = Some (r, s') \<Longrightarrow> sock_step K i s s'"
| bind: "Bind K i a s = Some (r, s') \<Longrightarrow> sock_step K i s s'"
| close: "sock_step K i s (Close_socket K s)"
| local_name: "GetLocalAddress K i s = (r, x, s') \<Longrightarrow> sock_step K i s s'"
| peer_name: "GetPeerAddress K i s = (r, x, s') \<Longrightarrow> sock_step K i s s'"
| receive_buffer: "SetReceiveBufferSize K n s = Some (r, s') \<Longrightarrow> sock_step K i s s'"
| send_buffer: "SetSendBufferSize K n s = Some (r, s') \<Longrightarrow> sock_step K i s s'"
| multicast_if: "SetMulticastIF K ix s = Some (r, s') \<Longrightarrow> sock_step K i s s'"
| multicast_if_name: "SetMulticastIF_name K nm s = Some (r, s') \<Longrightarrow> sock_step K i s s'"
| multicast_ttl: "SetMulticastTTL K ttl s = Some (r, s') \<Longrightarrow> sock_step K i s s'"
| multicast_loop: "SetMulticastLoop K b s = Some (r, s') \<Longrightarrow> sock_step K i s s'"
| dscp: "SetDSCPAndECN K v s = Some (r, s') \<Longrightarrow> sock_step K i s s'"
| group: "JoinOrLeaveMulticastGroup K i a ix b s = Some (r, s') \<Longrightarrow> sock_step K i s s'"
| group_name: "multicast_by_name K i a nm b s = Some (r, s') \<Longrightarrow> sock_step K i s s'"
| recv_from: "RecvFrom K i len w fl s = (x, s') \<Longrightarrow> sock_step K i s s'"
| send_to: "SendToImpl K i buf dest fl s = (r, s') \<Longrightarrow> sock_step K i s s'"
| recv_mmsg: "RecvMmsg K n fl s = Some (r, s') \<Longrightarrow> sock_step K i s s'"
| send_mmsg: "SendMmsg K ms fl s = Some (r, s') \<Longrightarrow> sock_step K i s s'"
| recv_msg: "RecvMsg K fl s = Some (r, s') \<Longrightarrow> sock_step K i s s'"
| send_msg: "SendMsg K m fl s = Some (r, s') \<Longrightarrow> sock_step K i s s'"

inductive sock_reach :: "kernel \<Rightarrow> 'a inet \<Rightarrow> 'a UDPSocket \<Rightarrow> bool" for K i where
  start: "sock_reach K i new_socket"
| step: "sock_reach K i s \<Longrightarrow> sock_step K i s s' \<Longrightarrow> sock_reach K i s'"

lemma quiet_group:
  assumes "JoinOrLeaveMulticastGroup K i a ix b s = Some (r, s')"
  shows "quiet K s s'"
proof -
  obtain q t where t: "sys K (Sys_indextoname ix) s = (q, t)" by fastforce
  have 1: "quiet K s t" by (rule quiet_sys [OF t]) simp
  show ?thesis
    using assms t 1
    by (auto simp: JoinOrLeaveMulticastGroup_def Let_def split: if_splits
        intro: quiet_trans [OF 1 quiet_error_return] quiet_error_return)
qed

lemma quiet_multicast_if:
  assumes "SetMulticastIF K ix s = Some (r, s')"
  shows "quiet K s s'"
proof -
  obtain q t where t: "sys K (Sys_indextoname ix) s = (q, t)" by fastforce
  have 1: "quiet K s t" by (rule quiet_sys [OF t]) simp
  show ?thesis
    using assms t 1
    by (auto simp: SetMulticastIF_def Let_def split: if_splits
        intro: quiet_trans [OF 1 quiet_error_return] quiet_error_return)
qed

lemma quiet_by_name:
  "SetMulticastIF_name K nm s = Some (r, s') \<Longrightarrow> quiet K s s'"
  "multicast_by_name K i a nm b s = Some (r, s') \<Longrightarrow> quiet K s s'"
proof -
  obtain q t where t: "sys K (Sys_nametoindex nm) s = (q, t)" by fastforce
  have 1: "quiet K s t" by (rule quiet_sys [OF t]) simp
  show "SetMulticastIF_name K nm s = Some (r, s') \<Longrightarrow> quiet K s s'"
    using t 1 by (auto simp: SetMulticastIF_name_def split: if_splits intro: quiet_trans [OF 1 quiet_multicast_if])
  show "multicast_by_name K i a nm b s = Some (r, s') \<Longrightarrow> quiet K s s'"
    using t 1 by (auto simp: multicast_by_name_def split: if_splits intro: quiet_trans [OF 1 quiet_group])
qed

lemma quiet_message: "message_call K c s = Some (r, s') \<Longrightarrow> harmless c \<Longrightarrow> quiet K s s'"
  by (auto simp: message_call_def quiet_HANDLE split: if_splits prod.splits)

lemma quiet_messages:
  "RecvMmsg K n fl s = Some (r, s') \<Longrightarrow> quiet K s s'" "SendMmsg K ms fl s = Some (r, s') \<Longrightarrow> quiet K s s'"
  "RecvMsg K fl s = Some (r, s') \<Longrightarrow> quiet K s s'" "SendMsg K m fl s = Some (r, s') \<Longrightarrow> quiet K s s'"
  by (simp_all add: RecvMmsg_def SendMmsg_def RecvMsg_def SendMsg_def quiet_message)

lemma quiet_ops:
  "allow flag s = Some s' \<Longrightarrow> quiet K s s'"
  "GetLocalAddress K i s = (r, x, s') \<Longrightarrow> quiet K s s'"
  "GetPeerAddress K i s = (r, x, s') \<Longrightarrow> quiet K s s'"
  "SetReceiveBufferSize K n s = Some (r, s') \<Longrightarrow> quiet K s s'"
  "SetSendBufferSize K n s = Some (r, s') \<Longrightarrow> quiet K s s'"
  "SetMulticastTTL K ttl s = Some (r, s') \<Longrightarrow> quiet K s s'"
  "SetMulticastLoop K b s = Some (r, s') \<Longrightarrow> quiet K s s'"
  "SetDSCPAndECN K v s = Some (r, s') \<Longrightarrow> quiet K s s'"
  "RecvFrom K i len w fl s = (y, s') \<Longrightarrow> quiet K s s'"
  "SendToImpl K i buf dest fl s = (r, s') \<Longrightarrow> quiet K s s'"
  by (auto simp: allow_def GetLocalAddress_def GetPeerAddress_def SetReceiveBufferSize_def
      SetSendBufferSize_def SetMulticastTTL_def SetMulticastLoop_def SetDSCPAndECN_def RecvFrom_def
      SendToImpl_def Let_def split: if_splits option.splits prod.splits dest!: quiet_calls)

lemma sock_step_inv:
  assumes "sock_step K i s s'" "sock_inv K s"
  shows "sock_inv K s'"
  using assms(1)
proof cases
  case (connect a r)
  then show ?thesis
    using open_sock [OF _ assms(2) quiet_attach(1)] by (auto simp: Connect_socket_def split: if_splits)
next
  case (bind a r)
  then show ?thesis
    using open_sock [OF _ assms(2) quiet_attach(2)] by (auto simp: Bind_def split: if_splits)
next
  case close
  then show ?thesis using close_sock_inv [OF assms(2)] by simp
qed (use assms(2) quiet_inv in \<open>auto dest: quiet_ops quiet_group quiet_by_name quiet_multicast_if quiet_messages\<close>)

lemma reach_sock_inv: "sock_reach K i s \<Longrightarrow> sock_inv K s"
  by (induction rule: sock_reach.induct) (auto intro: sock_inv_new sock_step_inv)


section \<open>Results of opening a socket\<close>

text \<open>The documented contract of the system calls: a call that fails sets \<open>errno\<close>, which is
  positive, and \<open>socket\<close>, \<open>connect\<close> and \<open>bind\<close> fail with -1.\<close>

definition kernel_ok :: "kernel \<Rightarrow> bool" where
  "kernel_ok K \<longleftrightarrow> (\<forall>h c. (rc (K h c) < 0 \<longrightarrow> err (K h c) > 0) \<and>
     (\<forall>fd a. c = Sys_connect fd a \<or> c = Sys_bind fd a \<longrightarrow> rc (K h c) \<le> 0))"

lemma kernel_okD:
  assumes "kernel_ok K"
  shows "rc (K h c) < 0 \<Longrightarrow> err (K h c) > 0"
    "rc (K h (Sys_connect fd a)) \<le> 0" "rc (K h (Sys_bind fd a)) \<le> 0"
  using assms by (auto simp: kernel_ok_def)

lemma set_options_result:
  assumes "kernel_ok K"
  shows "fst (set_options K os s) \<le> 0"
proof (induction os arbitrary: s)
  case (Cons o1 os)
  then show ?case using kernel_okD(1) [OF assms] by (force simp: sys_def)
qed simp

lemma eintr_reply: "\<exists>h. fst (handle_eintr n K c s) = K h c"
  by (induction n arbitrary: s) (auto simp: sys_def split: prod.splits)

lemma HANDLE_reply: "HANDLE_EINTR K c s = (r, s') \<Longrightarrow> \<exists>h. r = K h c"
  using eintr_reply [of 100 K c s] by (auto simp: HANDLE_EINTR_def)

lemma attach_rc:
  assumes "kernel_ok K" "rc (K h c) \<le> 0"
  shows "(if rc (K h c) = 0 then 0 else - err (K h c)) \<le> 0"
proof (cases "rc (K h c) = 0")
  case False
  then have "0 < err (K h c)" using kernel_okD(1) [OF assms(1), of h c] assms(2) by linarith
  then show ?thesis using False by simp
qed simp

lemma connect_result:
  assumes "kernel_ok K" "IsValidSocket s"
  shows "\<exists>rv s'. ConnectImpl K i a s = Some (rv, s') \<and> rv \<le> 0"
proof (cases "ToSockAddr i a (new_storage (replicate storage_size 0))")
  case (Some st)
  obtain r s' where h: "HANDLE_EINTR K (Sys_connect (sockfd s) (take (addr_len st) (addr_storage st))) s = (r, s')"
    by fastforce
  have "(if rc r = 0 then 0 else - err r) \<le> 0"
    using HANDLE_reply [OF h] attach_rc [OF assms(1) kernel_okD(2) [OF assms(1)]] by blast
  then show ?thesis using Some h assms(2) by (simp add: ConnectImpl_def)
qed (use assms(2) in \<open>simp add: ConnectImpl_def socket_consts\<close>)

lemma bind_result:
  assumes "kernel_ok K" "IsValidSocket s"
  shows "\<exists>rv s'. BindImpl K i a s = Some (rv, s') \<and> rv \<le> 0"
proof (cases "ToSockAddr i a (new_storage (replicate storage_size 0))")
  case (Some st)
  let ?r = "K (us_calls s) (Sys_bind (sockfd s) (take (addr_len st) (addr_storage st)))"
  have "(if rc ?r = 0 then 0 else - err ?r) \<le> 0"
    by (rule attach_rc [OF assms(1) kernel_okD(3) [OF assms(1)]])
  then show ?thesis using Some assms(2) by (simp add: BindImpl_def sys_def)
qed (use assms(2) in \<open>simp add: BindImpl_def socket_consts\<close>)

lemma open_result:
  assumes "kernel_ok K" "sock_inv K s" "\<not> IsValidSocket s"
    and attach: "\<And>t. IsValidSocket t \<Longrightarrow> \<exists>rv t'. attach t = Some (rv, t') \<and> rv \<le> 0"
  shows "\<exists>rv s'. open_socket K family attach s = Some (rv, s') \<and> rv \<le> 0"
proof -
  obtain rv1 s1 where s1: "CreateSocket K family s = Some (rv1, s1)"
    using assms(3) by (cases "CreateSocket K family s") (auto simp: CreateSocket_def sys_def split: if_splits)
  show ?thesis
    using s1 assms(2)
  proof (cases rule: create_cases)
    case failed
    then have "rv1 < 0" using kernel_okD(1) [OF assms(1)] by (auto simp: socket_consts)
    then show ?thesis using s1 by (simp add: open_socket_def)
  next
    case created
    obtain rv2 s2 where s2: "set_options K (chosen_options s1) s1 = (rv2, s2)" by fastforce
    have so: "SetSocketOptions K s1 = Some (rv2, s2)"
      using created s2 by (auto simp: SetSocketOptions_def sock_inv_def socket_consts)
    have v2: "IsValidSocket s2" using quiet_set_options [OF s2] created by (simp add: quiet_valid)
    show ?thesis using s1 so created(1) attach [OF v2] by (auto simp: open_socket_def)
  qed
qed

lemma opened:
  assumes "open_socket K family attach s = Some (rv, s')" "rv \<le> 0" "sock_inv K s"
    and "\<And>t r t'. attach t = Some (r, t') \<Longrightarrow> quiet K t t'"
  shows "(IsValidSocket s' \<longleftrightarrow> rv = 0) \<and> open_fds K s' = (if rv = 0 then [sockfd s'] else [])"
proof -
  have 1: "sock_inv K s'" "IsValidSocket s' \<longleftrightarrow> 0 \<le> rv"
    using open_sock [OF assms(1,3,4)] by simp_all
  show ?thesis
  proof (cases "rv = 0")
    case True
    then show ?thesis using 1 by (simp add: sock_inv_def)
  next
    case False
    then have "\<not> IsValidSocket s'" using 1(2) assms(2) by simp
    then show ?thesis using False 1(1) by (simp add: sock_inv_def)
  qed
qed

section \<open>Properties\<close>

text \<open>C25: Whatever is called in whatever order, a socket object owns exactly
  the descriptor it holds: the descriptors its calls opened and did not close are that one, or
  none at all when the socket is not valid. No error path leaks a descriptor, and an open
  socket always knows the address family it was created for.\<close>

theorem socket_owns_descriptor:
  assumes "sock_reach K i s"
  shows "open_fds K s = (if IsValidSocket s then [sockfd s] else []) \<and>
    (if IsValidSocket s then addr_family s \<in> {AF_INET, AF_INET6} else addr_family s = AF_UNSPEC)"
  using reach_sock_inv [OF assms] unfolding sock_inv_def .

text \<open>Connect and Bind on a closed socket always return. The result is 0 and the
  object then owns one descriptor, or a negated error and it then owns none, whichever of
  creating, setting the options and attaching failed.\<close>

theorem socket_opens:
  assumes "kernel_ok K" "sock_reach K i s" "\<not> IsValidSocket s" "peer_address s = None"
  shows "(\<exists>rv s'. Connect_socket K i a s = Some (rv, s') \<and> rv \<le> 0 \<and> (IsValidSocket s' \<longleftrightarrow> rv = 0) \<and>
            open_fds K s' = (if rv = 0 then [sockfd s'] else [])) \<and>
    (\<exists>rv s'. Bind K i a s = Some (rv, s') \<and> rv \<le> 0 \<and> (IsValidSocket s' \<longleftrightarrow> rv = 0) \<and>
            open_fds K s' = (if rv = 0 then [sockfd s'] else []))"
proof -
  have s: "sock_inv K s" by (rule reach_sock_inv [OF assms(2)])
  have "\<exists>rv s'. open_socket K (family_of i a) (ConnectImpl K i a) s = Some (rv, s') \<and> rv \<le> 0"
    by (rule open_result [OF assms(1) s assms(3)]) (rule connect_result [OF assms(1)])
  then obtain rv s' where c: "open_socket K (family_of i a) (ConnectImpl K i a) s = Some (rv, s')" "rv \<le> 0"
    by blast
  have "\<exists>rw t'. open_socket K (family_of i a) (BindImpl K i a) s = Some (rw, t') \<and> rw \<le> 0"
    by (rule open_result [OF assms(1) s assms(3)]) (rule bind_result [OF assms(1)])
  then obtain rw t' where b: "open_socket K (family_of i a) (BindImpl K i a) s = Some (rw, t')" "rw \<le> 0"
    by blast
  have "Connect_socket K i a s = Some (rv, s')" using c(1) assms(3,4) by (simp add: Connect_socket_def)
  moreover have "Bind K i a s = Some (rw, t')" using b(1) assms(3) by (simp add: Bind_def)
  moreover have "(IsValidSocket s' \<longleftrightarrow> rv = 0) \<and> open_fds K s' = (if rv = 0 then [sockfd s'] else [])"
    by (rule opened [OF c s]) (rule quiet_attach(1))
  moreover have "(IsValidSocket t' \<longleftrightarrow> rw = 0) \<and> open_fds K t' = (if rw = 0 then [sockfd t'] else [])"
    by (rule opened [OF b s]) (rule quiet_attach(2))
  ultimately show ?thesis using c(2) b(2) by blast
qed

text \<open>A small system: descriptor 5 for every socket, addresses that are their own bytes, and a
  \<open>connect\<close> that is refused.\<close>

definition demo_kernel :: kernel where
  "demo_kernel h c = \<lparr>rc = (case c of Sys_socket _ \<Rightarrow> 5 | Sys_connect _ _ \<Rightarrow> -1 | _ \<Rightarrow> 0),
     err = 111, r_data = [], r_addr = new_storage (replicate storage_size 0)\<rparr>"

definition demo_inet :: "bytes inet" where
  "demo_inet = \<lparr>family_of = (\<lambda>b. if b = [] then AF_UNSPEC else AF_INET), raw_of = (\<lambda>b. b), of_raw = (\<lambda>b. b)\<rparr>"

lemma demo_kernel_ok: "kernel_ok demo_kernel"
  by (auto simp: kernel_ok_def demo_kernel_def)

lemmas demo_system = demo_kernel_def demo_inet_def sockaddr_sizes socket_consts

lemma demo_bind: "\<exists>r s. Bind demo_kernel demo_inet [2, 0] new_socket = Some (r, s) \<and> IsValidSocket s"
  by (simp add: Bind_def open_socket_def CreateSocket_def SetSocketOptions_def chosen_options_def
      BindImpl_def ToSockAddr_def IsValidSocket_def new_socket_def kInvalidSocket_def demo_system sys_def)

lemma demo_bound: "\<exists>s. sock_reach demo_kernel demo_inet s \<and> IsValidSocket s"
proof -
  obtain r s where s: "Bind demo_kernel demo_inet [2, 0] new_socket = Some (r, s)" "IsValidSocket s"
    using demo_bind by blast
  have "sock_reach demo_kernel demo_inet s"
    by (rule sock_reach.step [OF sock_reach.start sock_step.bind [OF s(1)]])
  with s(2) show ?thesis by blast
qed

theorem socket_owns_descriptor_witness:
  "\<exists>s :: bytes UDPSocket. IsValidSocket s \<and> open_fds demo_kernel s = [sockfd s]"
proof -
  obtain s where s: "sock_reach demo_kernel demo_inet s" "IsValidSocket s" using demo_bound by blast
  show ?thesis using socket_owns_descriptor [OF s(1)] s(2) by (intro exI [of _ s]) simp
qed

theorem socket_opens_witness:
  "\<exists>rv s'. Connect_socket demo_kernel demo_inet [2, 0] new_socket = Some (rv, s') \<and> rv \<le> 0 \<and>
     open_fds demo_kernel s' = (if rv = 0 then [sockfd s'] else [])"
  using socket_opens [OF demo_kernel_ok sock_reach.start, of demo_inet "[2, 0]"]
  by (auto simp: new_socket_def IsValidSocket_def)

end
