(* ===== verification/Kcp_Tx.thy ===== *)
theory Kcp_Tx
  imports Kcp_Server_Inv Udp_Socket_Inv
begin

text \<open>
  The way to the socket: how \<open>KCPServer::Listen\<close> and \<open>KCPClient::Connect\<close> set up their
  \<open>UDPSocket\<close>, and the transmit queue that every thread of the server keeps
  (\<open>InitializeThread\<close>, \<open>AppendPacket\<close>, \<open>FlushTxQueue\<close> of \<open>kcp/kcp_server.cc\<close>): 32 slots that are
  filled in place and handed to \<open>sendmmsg\<close> together. The locale \<open>batch_queue\<close> is what the
  sessions rely on: a queue in batches is a queue.
\<close>

section \<open>Setting up a socket\<close>

definition kSocketReceiveBuffer :: int where "kSocketReceiveBuffer = 1000 * 1400"
definition kSocketSendBuffer :: int where "kSocketSendBuffer = 32 * 1400"

text \<open>The next call, unless the result so far is negative.\<close>

definition and_then :: "(int \<times> 'a UDPSocket) option \<Rightarrow> ('a UDPSocket \<Rightarrow> (int \<times> 'a UDPSocket) option) \<Rightarrow>
    (int \<times> 'a UDPSocket) option" where
  "and_then r f = (case r of
       None \<Rightarrow> None
     | Some (rv, s) \<Rightarrow> if rv < 0 then Some (rv, s) else f s)"

definition setup_buffers :: "kernel \<Rightarrow> (int \<times> 'a UDPSocket) option \<Rightarrow> (int \<times> 'a UDPSocket) option" where
  "setup_buffers K r = and_then (and_then r (SetReceiveBufferSize K kSocketReceiveBuffer))
     (SetSendBufferSize K kSocketSendBuffer)"

text \<open>The result, the address assigned to \<open>server_address_\<close> and the socket object, which the
  \<open>unique_ptr\<close> destroys (\<open>~UDPSocket\<close> closes it) where the code returns early.\<close>

definition Listen :: "kernel \<Rightarrow> 'a inet \<Rightarrow> 'a \<Rightarrow> (int \<times> 'a option \<times> 'a UDPSocket) option" where
  "Listen K i address = (case AllowReceiveError new_socket of
       None \<Rightarrow> None
     | Some s \<Rightarrow> (case setup_buffers K (Bind K i address s) of
         None \<Rightarrow> None
       | Some (rv, s) \<Rightarrow>
           if rv < 0 then Some (rv, None, Close_socket K s)
           else (case GetLocalAddress K i s of (rv, server_address, s) \<Rightarrow>
             if rv < 0 then Some (rv, None, Close_socket K s)
             else Some (0, server_address, s))))"

text \<open>\<open>KCPClient::Connect\<close> also asks for the address of its peer.\<close>

definition Connect_udp :: "kernel \<Rightarrow> 'a inet \<Rightarrow> 'a \<Rightarrow>
    (int \<times> ('a option \<times> 'a option) \<times> 'a UDPSocket) option" where
  "Connect_udp K i address = (case AllowReceiveError new_socket of
       None \<Rightarrow> None
     | Some s \<Rightarrow> (case setup_buffers K (Connect_socket K i address s) of
         None \<Rightarrow> None
       | Some (rv, s) \<Rightarrow>
           if rv < 0 then Some (rv, (None, None), Close_socket K s)
           else (case GetLocalAddress K i s of (rv, client_address, s) \<Rightarrow>
             if rv < 0 then Some (rv, (None, None), Close_socket K s)
             else (case GetPeerAddress K i s of (rv, server_address, s) \<Rightarrow>
               if rv < 0 then Some (rv, (client_address, None), Close_socket K s)
               else Some (0, (client_address, server_address), s)))))"

section \<open>The queue of a thread\<close>

definition kNumPacketsPerSend :: nat where "kNumPacketsPerSend = 32"

text \<open>One \<open>mmsghdr\<close> with the \<open>RawPacket\<close> it points to.\<close>

record tx_slot =
  msg_namelen :: nat
  slot_addr :: bytes
  iov_len :: nat
  slot_buf :: bytes

record ThreadData =
  td_slots :: "tx_slot list"
  num_packets :: nat

definition InitializeThread :: ThreadData where
  "InitializeThread = \<lparr>td_slots = replicate kNumPacketsPerSend
       \<lparr>msg_namelen = storage_size, slot_addr = replicate storage_size 0,
        iov_len = kMaxPacketSize + 1, slot_buf = replicate (kMaxPacketSize + 1) 0\<rparr>,
     num_packets = 0\<rparr>"

text \<open>What \<open>sendmmsg\<close> reads from a slot: the destination and the datagram.\<close>

definition slot_message :: "tx_slot \<Rightarrow> bytes \<times> bytes" where
  "slot_message sl = (take (msg_namelen sl) (slot_addr sl), take (iov_len sl) (slot_buf sl))"

text \<open>The queue of a thread with the socket of the server. \<open>tx_handed\<close> records the batches that
  were passed to \<open>SendMmsg\<close>.\<close>

record 'a tx =
  tx_data :: ThreadData
  tx_socket :: "'a UDPSocket"
  tx_handed :: "(bytes \<times> bytes) list list"

definition FlushTxQueue_server :: "kernel \<Rightarrow> 'a tx \<Rightarrow> 'a tx option" where
  "FlushTxQueue_server K t =
     (let n = num_packets (tx_data t) in
      if n = 0 then Some t
      else if \<not> n \<le> kNumPacketsPerSend then None
      else
        let ms = map slot_message (take n (td_slots (tx_data t))) in
        case SendMmsg K ms 0 (tx_socket t) of
          None \<Rightarrow> None
        | Some (rv, s) \<Rightarrow> Some (t\<lparr>tx_socket := s, tx_handed := tx_handed t @ [ms],
                              tx_data := (tx_data t)\<lparr>num_packets := 0\<rparr>\<rparr>))"

definition fill_slot :: "SockaddrStorage \<Rightarrow> bytes \<Rightarrow> tx_slot \<Rightarrow> tx_slot" where
  "fill_slot st packet sl = sl\<lparr>msg_namelen := addr_len st,
     slot_addr := write_at (slot_addr sl) 0 (take (addr_len st) (addr_storage st)),
     iov_len := length packet, slot_buf := write_at (slot_buf sl) 0 packet\<rparr>"

definition AppendPacket :: "kernel \<Rightarrow> 'a inet \<Rightarrow> bytes \<Rightarrow> 'a \<Rightarrow> 'a tx \<Rightarrow> 'a tx option" where
  "AppendPacket K i packet address t =
     (if length packet > kMaxPacketSize then Some t
      else
        let index = num_packets (tx_data t) in
        if \<not> index < kNumPacketsPerSend then None
        else case ToSockAddr i address (new_storage (replicate storage_size 0)) of
          None \<Rightarrow> Some t
        | Some st \<Rightarrow>
            let slots = td_slots (tx_data t);
                t = t\<lparr>tx_data := \<lparr>td_slots = slots[index := fill_slot st packet (slots ! index)],
                                  num_packets = index + 1\<rparr>\<rparr>
            in if index + 1 \<ge> kNumPacketsPerSend then FlushTxQueue_server K t else Some t)"

text \<open>The output callback and the flush callback that \<open>InitializeSession\<close> installs, run on the
  events of the sessions of a thread.\<close>

fun tx_event :: "(bytes \<Rightarrow> u32) \<Rightarrow> kernel \<Rightarrow> 'a inet \<Rightarrow> 'a event \<Rightarrow> 'a tx \<Rightarrow> 'a tx option" where
  "tx_event ad K i (Ev_output data sid address) t =
     (case WritePublicHeader ad data (packet_code DATA_PACKET) sid of
        (W_SUCCESS, packet) \<Rightarrow> AppendPacket K i packet address t
      | _ \<Rightarrow> Some t)"
| "tx_event ad K i Ev_flush_tx t = FlushTxQueue_server K t"
| "tx_event ad K i _ t = Some t"

fun tx_run :: "(bytes \<Rightarrow> u32) \<Rightarrow> kernel \<Rightarrow> 'a inet \<Rightarrow> 'a event list \<Rightarrow> 'a tx \<Rightarrow> 'a tx option" where
  "tx_run ad K i [] t = Some t"
| "tx_run ad K i (ev # es) t = Option.bind (tx_event ad K i ev t) (tx_run ad K i es)"

definition tx_start :: "'a UDPSocket \<Rightarrow> 'a tx" where
  "tx_start s = \<lparr>tx_data = InitializeThread, tx_socket = s, tx_handed = []\<rparr>"

definition tx_waiting :: "'a tx \<Rightarrow> (bytes \<times> bytes) list" where
  "tx_waiting t = map slot_message (take (num_packets (tx_data t)) (td_slots (tx_data t)))"

section \<open>The interface of a queue in batches\<close>

text \<open>
  What the sessions rely on when they put packets and flush: nothing is lost, duplicated or
  reordered between them and the socket, a put never blocks, and the batches are bounded.
  \<open>wire m\<close> is what becomes of \<open>m\<close>: one message, or none for one that is refused.
\<close>

datatype 'm queue_op = Put 'm | Flush

fun run_ops :: "('m \<Rightarrow> 'q \<Rightarrow> 'q option) \<Rightarrow> ('q \<Rightarrow> 'q option) \<Rightarrow> 'm queue_op list \<Rightarrow> 'q \<Rightarrow> 'q option" where
  "run_ops put flush [] q = Some q"
| "run_ops put flush (Put m # ops) q = Option.bind (put m q) (run_ops put flush ops)"
| "run_ops put flush (Flush # ops) q = Option.bind (flush q) (run_ops put flush ops)"

fun op_wire :: "('m \<Rightarrow> 'w list) \<Rightarrow> 'm queue_op \<Rightarrow> 'w list" where
  "op_wire wire (Put m) = wire m"
| "op_wire wire Flush = []"

fun op_ok :: "('m \<Rightarrow> bool) \<Rightarrow> 'm queue_op \<Rightarrow> bool" where
  "op_ok ok (Put m) = ok m"
| "op_ok ok Flush = True"

locale batch_queue =
  fixes put :: "'m \<Rightarrow> 'q \<Rightarrow> 'q option"
    and flush :: "'q \<Rightarrow> 'q option"
    and waiting :: "'q \<Rightarrow> 'w list"
    and handed :: "'q \<Rightarrow> 'w list list"
    and wire :: "'m \<Rightarrow> 'w list"
    and ok :: "'m \<Rightarrow> bool"
    and good :: "'q \<Rightarrow> bool"
    and limit :: nat
  assumes put: "good q \<Longrightarrow> ok m \<Longrightarrow> \<exists>q'. put m q = Some q' \<and> good q' \<and>
      concat (handed q') @ waiting q' = concat (handed q) @ waiting q @ wire m"
    and flush: "good q \<Longrightarrow> \<exists>q'. flush q = Some q' \<and> good q' \<and>
      waiting q' = [] \<and> concat (handed q') = concat (handed q) @ waiting q"
    and bounded: "good q \<Longrightarrow> length (waiting q) < limit \<and>
      (\<forall>b \<in> set (handed q). 0 < length b \<and> length b \<le> limit)"
begin

lemma run:
  assumes "good q" "list_all (op_ok ok) ops"
  shows "\<exists>q'. run_ops put flush ops q = Some q' \<and> good q' \<and>
    concat (handed q') @ waiting q' = concat (handed q) @ waiting q @ concat (map (op_wire wire) ops)"
  using assms
proof (induction ops arbitrary: q)
  case (Cons x ops)
  show ?case
  proof (cases x)
    case (Put m)
    then obtain q1 where q1: "put m q = Some q1" "good q1"
      "concat (handed q1) @ waiting q1 = concat (handed q) @ waiting q @ wire m"
      using put [of q m] Cons.prems by auto
    obtain q2 where "run_ops put flush ops q1 = Some q2" "good q2"
      "concat (handed q2) @ waiting q2 = concat (handed q1) @ waiting q1 @ concat (map (op_wire wire) ops)"
      using Cons.IH [OF q1(2)] Cons.prems(2) by auto
    moreover from this(3) have "concat (handed q2) @ waiting q2 =
        (concat (handed q) @ waiting q @ wire m) @ concat (map (op_wire wire) ops)"
      by (simp only: q1(3) flip: append_assoc)
    ultimately show ?thesis using q1(1) Put by simp
  next
    case Flush
    then obtain q1 where q1: "flush q = Some q1" "good q1" "waiting q1 = []"
      "concat (handed q1) = concat (handed q) @ waiting q"
      using flush [of q] Cons.prems by auto
    then show ?thesis using Cons.IH [OF q1(2)] Cons.prems(2) Flush by auto
  qed
qed simp

text \<open>A flush at the end leaves nothing behind.\<close>

lemma run_flushed:
  assumes "good q" "list_all (op_ok ok) ops"
  shows "\<exists>q'. run_ops put flush (ops @ [Flush]) q = Some q' \<and> waiting q' = [] \<and>
    concat (handed q') = concat (handed q) @ waiting q @ concat (map (op_wire wire) ops)"
proof -
  obtain q1 where q1: "run_ops put flush ops q = Some q1" "good q1"
    "concat (handed q1) @ waiting q1 = concat (handed q) @ waiting q @ concat (map (op_wire wire) ops)"
    using run [OF assms] by blast
  obtain q2 where q2: "flush q1 = Some q2" "waiting q2 = []" "concat (handed q2) = concat (handed q1) @ waiting q1"
    using flush [OF q1(2)] by blast
  have "run_ops put flush (ops @ xs) q = Option.bind (run_ops put flush ops q) (run_ops put flush xs)" for xs
    by (induction put flush ops q rule: run_ops.induct) (auto split: bind_splits)
  then show ?thesis using q1 q2 by simp
qed

end


section \<open>The queue of a thread is such a queue\<close>

text \<open>The address class of the network library keeps a \<open>sockaddr_in6\<close>.\<close>

definition inet_ok :: "'a inet \<Rightarrow> bool" where
  "inet_ok i \<longleftrightarrow> (\<forall>a. length (raw_of i a) = kSockaddrIn6Size)"

definition dest_bytes :: "'a inet \<Rightarrow> 'a \<Rightarrow> bytes option" where
  "dest_bytes i a = (if family_of i a = AF_INET then Some (take kSockaddrInSize (raw_of i a))
     else if family_of i a = AF_INET6 then Some (take kSockaddrIn6Size (raw_of i a)) else None)"

definition packet_wire :: "'a inet \<Rightarrow> bytes \<times> 'a \<Rightarrow> (bytes \<times> bytes) list" where
  "packet_wire i = (\<lambda>(packet, a). if length packet > kMaxPacketSize then []
     else case dest_bytes i a of None \<Rightarrow> [] | Some d \<Rightarrow> [(d, packet)])"

definition slot_ok :: "tx_slot \<Rightarrow> bool" where
  "slot_ok sl \<longleftrightarrow> length (slot_addr sl) = storage_size \<and> length (slot_buf sl) = kMaxPacketSize + 1"

definition tx_good :: "'a tx \<Rightarrow> bool" where
  "tx_good t \<longleftrightarrow> IsValidSocket (tx_socket t) \<and> length (td_slots (tx_data t)) = kNumPacketsPerSend \<and>
     list_all slot_ok (td_slots (tx_data t)) \<and> num_packets (tx_data t) < kNumPacketsPerSend \<and>
     (\<forall>b \<in> set (tx_handed t). 0 < length b \<and> length b \<le> kNumPacketsPerSend)"

lemma tx_good_start: "IsValidSocket s \<Longrightarrow> tx_good (tx_start s)"
  by (simp add: tx_good_def tx_start_def InitializeThread_def kNumPacketsPerSend_def slot_ok_def
      list_all_iff)

lemma SendMmsg_valid:
  assumes "IsValidSocket s"
  shows "\<exists>rv s'. SendMmsg K ms fl s = Some (rv, s') \<and> IsValidSocket s'"
proof -
  obtain r s' where h: "HANDLE_EINTR K (Sys_sendmmsg (sockfd s) ms fl) s = (r, s')" by fastforce
  have "quiet K s s'" by (rule quiet_HANDLE [OF h]) simp
  then show ?thesis using assms h by (simp add: SendMmsg_def message_call_def quiet_valid)
qed

text \<open>A flush of any number of slots, the full table of \<open>AppendPacket\<close> included.\<close>

lemma flush_slots:
  assumes "IsValidSocket (tx_socket t)" "length (td_slots (tx_data t)) = kNumPacketsPerSend"
    "list_all slot_ok (td_slots (tx_data t))" "num_packets (tx_data t) \<le> kNumPacketsPerSend"
    "\<forall>b \<in> set (tx_handed t). 0 < length b \<and> length b \<le> kNumPacketsPerSend"
  shows "\<exists>t'. FlushTxQueue_server K t = Some t' \<and> tx_good t' \<and> tx_waiting t' = [] \<and>
    concat (tx_handed t') = concat (tx_handed t) @ tx_waiting t"
proof (cases "num_packets (tx_data t) = 0")
  case True
  then show ?thesis
    using assms by (simp add: FlushTxQueue_server_def tx_good_def tx_waiting_def kNumPacketsPerSend_def)
next
  case False
  obtain rv s where s: "SendMmsg K (tx_waiting t) 0 (tx_socket t) = Some (rv, s)" "IsValidSocket s"
    using SendMmsg_valid [OF assms(1)] by blast
  let ?t = "t\<lparr>tx_socket := s, tx_handed := tx_handed t @ [tx_waiting t],
      tx_data := (tx_data t)\<lparr>num_packets := 0\<rparr>\<rparr>"
  have "FlushTxQueue_server K t = Some ?t"
    using s(1) False assms(4) by (simp add: FlushTxQueue_server_def tx_waiting_def Let_def)
  moreover have "tx_good ?t"
    using assms s(2) False by (auto simp: tx_good_def tx_waiting_def kNumPacketsPerSend_def)
  moreover have "tx_waiting ?t = []" by (simp add: tx_waiting_def)
  ultimately show ?thesis by (intro exI [of _ ?t]) simp
qed

lemma flush_good:
  "tx_good t \<Longrightarrow> \<exists>t'. FlushTxQueue_server K t = Some t' \<and> tx_good t' \<and> tx_waiting t' = [] \<and>
    concat (tx_handed t') = concat (tx_handed t) @ tx_waiting t"
  by (rule flush_slots) (simp_all add: tx_good_def)

lemma write_at_start: "length xs \<le> length buf \<Longrightarrow> take (length xs) (write_at buf 0 xs) = xs"
  by (simp add: write_at_def)

lemma fill_slot_ok:
  assumes "slot_ok sl" "length packet \<le> kMaxPacketSize" "inet_ok i"
    "ToSockAddr i a (new_storage (replicate storage_size 0)) = Some st" "dest_bytes i a = Some d"
  shows "slot_ok (fill_slot st packet sl) \<and> slot_message (fill_slot st packet sl) = (d, packet)"
proof -
  have st: "take (addr_len st) (addr_storage st) = d" "length d = addr_len st" "addr_len st \<le> storage_size"
    using assms(3-5)
    by (auto simp: ToSockAddr_def dest_bytes_def store_addr_def write_at_def new_storage_def
        inet_ok_def sockaddr_sizes split: if_splits)
  have 1: "length (slot_addr sl) = storage_size" "length (slot_buf sl) = kMaxPacketSize + 1"
    using assms(1) by (simp_all add: slot_ok_def)
  have "take (addr_len st) (write_at (slot_addr sl) 0 d) = d"
    using write_at_start [of d "slot_addr sl"] st 1 by simp
  moreover have "take (length packet) (write_at (slot_buf sl) 0 packet) = packet"
    using write_at_start [of packet "slot_buf sl"] assms(2) 1 by simp
  ultimately show ?thesis
    using 1 st assms(2) by (simp add: slot_ok_def fill_slot_def slot_message_def)
qed

lemma dest_sock_addr: "ToSockAddr i a st0 = None \<longleftrightarrow> dest_bytes i a = None"
  by (simp add: ToSockAddr_def dest_bytes_def)

lemma append_good:
  assumes "tx_good t" "inet_ok i"
  shows "\<exists>t'. AppendPacket K i packet a t = Some t' \<and> tx_good t' \<and>
    concat (tx_handed t') @ tx_waiting t' = concat (tx_handed t) @ tx_waiting t @ packet_wire i (packet, a)"
proof -
  let ?n = "num_packets (tx_data t)" and ?slots = "td_slots (tx_data t)"
  have n: "?n < kNumPacketsPerSend" "length ?slots = kNumPacketsPerSend" "list_all slot_ok ?slots"
    using assms(1) by (simp_all add: tx_good_def)
  show ?thesis
  proof (cases "length packet > kMaxPacketSize \<or> dest_bytes i a = None")
    case True
    moreover have "ToSockAddr i a (new_storage (replicate storage_size 0)) = None" if "dest_bytes i a = None"
      using that by (simp add: dest_sock_addr)
    ultimately have "AppendPacket K i packet a t = Some t" "packet_wire i (packet, a) = []"
      using n by (auto simp: AppendPacket_def packet_wire_def)
    then show ?thesis using assms(1) by simp
  next
    case False
    then obtain d where d: "dest_bytes i a = Some d" by blast
    have "ToSockAddr i a (new_storage (replicate storage_size 0)) \<noteq> None"
      using d by (simp add: dest_sock_addr)
    then obtain st where st: "ToSockAddr i a (new_storage (replicate storage_size 0)) = Some st" by blast
    have "slot_ok (?slots ! ?n)" using n by (auto simp: list_all_length)
    note f = fill_slot_ok [OF this _ assms(2) st d, of packet]
    let ?sl = "fill_slot st packet (?slots ! ?n)"
    let ?t = "t\<lparr>tx_data := \<lparr>td_slots = ?slots[?n := ?sl], num_packets = ?n + 1\<rparr>\<rparr>"
    have w: "tx_waiting ?t = tx_waiting t @ packet_wire i (packet, a)"
      using f False d n by (simp add: tx_waiting_def packet_wire_def take_Suc_conv_app_nth)
    have slots: "list_all slot_ok (?slots[?n := ?sl])"
      using n f False by (auto simp: list_all_length nth_list_update)
    show ?thesis
    proof (cases "?n + 1 \<ge> kNumPacketsPerSend")
      case full: True
      then have e: "AppendPacket K i packet a t = FlushTxQueue_server K ?t"
        using False n st by (simp add: AppendPacket_def Let_def)
      have "\<exists>t'. FlushTxQueue_server K ?t = Some t' \<and> tx_good t' \<and> tx_waiting t' = [] \<and>
          concat (tx_handed t') = concat (tx_handed ?t) @ tx_waiting ?t"
        by (rule flush_slots) (use assms(1) n slots in \<open>simp_all add: tx_good_def\<close>)
      then show ?thesis using e w by auto
    next
      case room: False
      then have "AppendPacket K i packet a t = Some ?t"
        using False n st by (simp add: AppendPacket_def Let_def)
      moreover have "tx_good ?t" using assms(1) n slots room by (simp add: tx_good_def)
      ultimately show ?thesis using w by (intro exI [of _ ?t]) simp
    qed
  qed
qed

interpretation tx: batch_queue "\<lambda>(packet, a). AppendPacket K i packet a" "FlushTxQueue_server K"
  tx_waiting tx_handed "packet_wire i" "\<lambda>_. inet_ok i" tx_good kNumPacketsPerSend for K i
proof unfold_locales
  fix q :: "'a tx" and m :: "bytes \<times> 'a"
  assume "tx_good q" "inet_ok i"
  then show "\<exists>q'. (case m of (packet, a) \<Rightarrow> AppendPacket K i packet a) q = Some q' \<and> tx_good q' \<and>
      concat (tx_handed q') @ tx_waiting q' = concat (tx_handed q) @ tx_waiting q @ packet_wire i m"
    using append_good by (cases m) simp
qed (use flush_good in \<open>auto simp: tx_good_def tx_waiting_def\<close>)

end
