(* ===== verification/Kcp_Tx_Props.thy ===== *)
theory Kcp_Tx_Props
  imports Kcp_Tx Kcp_Session_Props
begin

text \<open>
  The properties of the way to the socket: what \<open>Listen\<close> and \<open>Connect\<close> own when they return,
  and what becomes of the packets of the sessions of a thread.
\<close>

section \<open>Setting up\<close>

definition set_up :: "kernel \<Rightarrow> int \<Rightarrow> 'a UDPSocket \<Rightarrow> bool" where
  "set_up K rv s \<longleftrightarrow> rv \<le> 0 \<and> sock_inv K s \<and> (rv = 0 \<longrightarrow> IsValidSocket s)"

lemma error_return_result:
  assumes "kernel_ok K" "set_up K 0 s" "harmless c"
  shows "\<exists>rv s'. error_return K c s = (rv, s') \<and> set_up K rv s'"
proof -
  obtain rv s' where e: "error_return K c s = (rv, s')" by fastforce
  have "quiet K s s'" by (rule quiet_error_return [OF e assms(3)])
  moreover have "rv \<le> 0"
    using e kernel_okD(1) [OF assms(1), of "us_calls s" c]
    by (auto simp: error_return_def sys_def split: if_splits)
  ultimately show ?thesis using e assms(2) by (simp add: set_up_def quiet_inv quiet_valid)
qed

lemma setsockopt_result:
  assumes "kernel_ok K" "set_up K 0 s"
  shows "\<exists>rv s'. error_return K (Sys_setsockopt fd x n) s = (rv, s') \<and> set_up K rv s'"
  by (rule error_return_result [OF assms]) simp

lemma setup_buffers_result:
  assumes "kernel_ok K" "set_up K rv s"
  shows "\<exists>rv' s'. setup_buffers K (Some (rv, s)) = Some (rv', s') \<and> set_up K rv' s'"
proof (cases "rv < 0")
  case True
  then show ?thesis using assms(2) by (simp add: setup_buffers_def and_then_def)
next
  case False
  then have rv: "rv = 0" "set_up K 0 s" "IsValidSocket s" using assms(2) by (auto simp: set_up_def)
  obtain r1 s1 where 1: "error_return K (Sys_setsockopt (sockfd s) SO_RCVBUF kSocketReceiveBuffer) s = (r1, s1)"
    "set_up K r1 s1"
    using setsockopt_result [OF assms(1) rv(2)] by blast
  have e1: "SetReceiveBufferSize K kSocketReceiveBuffer s = Some (r1, s1)"
    using rv(3) 1(1) by (simp add: SetReceiveBufferSize_def kSocketReceiveBuffer_def)
  show ?thesis
  proof (cases "r1 < 0")
    case True
    then show ?thesis using 1(2) e1 rv(1) by (simp add: setup_buffers_def and_then_def)
  next
    case False
    then have z: "r1 = 0" "set_up K 0 s1" "IsValidSocket s1" using 1(2) by (auto simp: set_up_def)
    obtain r2 s2 where 2: "error_return K (Sys_setsockopt (sockfd s1) SO_SNDBUF kSocketSendBuffer) s1 = (r2, s2)"
      "set_up K r2 s2"
      using setsockopt_result [OF assms(1) z(2)] by blast
    have "SetSendBufferSize K kSocketSendBuffer s1 = Some (r2, s2)"
      using z(3) 2(1) by (simp add: SetSendBufferSize_def kSocketSendBuffer_def)
    then show ?thesis using 2(2) e1 rv(1) z(1) by (simp add: setup_buffers_def and_then_def)
  qed
qed

lemma allowed_new:
  obtains s where "AllowReceiveError new_socket = Some s" "sock_inv K s" "\<not> IsValidSocket s"
    "peer_address s = None" "local_address s = None"
  by (simp add: AllowReceiveError_def allow_def new_socket_def IsValidSocket_def sock_inv_def open_fds_def)

lemma open_set_up:
  assumes "kernel_ok K" "sock_inv K s" "\<not> IsValidSocket s" "peer_address s = None"
  shows "\<exists>rv s'. Bind K i a s = Some (rv, s') \<and> set_up K rv s'"
    and "\<exists>rv s'. Connect_socket K i a s = Some (rv, s') \<and> set_up K rv s'"
proof -
  have "\<exists>rv s'. open_socket K (family_of i a) (ConnectImpl K i a) s = Some (rv, s') \<and> rv \<le> 0"
    by (rule open_result [OF assms(1-3)]) (rule connect_result [OF assms(1)])
  then obtain rv s' where c: "open_socket K (family_of i a) (ConnectImpl K i a) s = Some (rv, s')" "rv \<le> 0"
    by blast
  have "sock_inv K s' \<and> (IsValidSocket s' \<longleftrightarrow> 0 \<le> rv)"
    by (rule open_sock [OF c(1) assms(2)]) (rule quiet_attach(1))
  then show "\<exists>rv s'. Connect_socket K i a s = Some (rv, s') \<and> set_up K rv s'"
    using c assms(3,4) by (simp add: Connect_socket_def set_up_def)
  have "\<exists>rv s'. open_socket K (family_of i a) (BindImpl K i a) s = Some (rv, s') \<and> rv \<le> 0"
    by (rule open_result [OF assms(1-3)]) (rule bind_result [OF assms(1)])
  then obtain rw t' where b: "open_socket K (family_of i a) (BindImpl K i a) s = Some (rw, t')" "rw \<le> 0"
    by blast
  have "sock_inv K t' \<and> (IsValidSocket t' \<longleftrightarrow> 0 \<le> rw)"
    by (rule open_sock [OF b(1) assms(2)]) (rule quiet_attach(2))
  then show "\<exists>rv s'. Bind K i a s = Some (rv, s') \<and> set_up K rv s'"
    using b assms(3) by (simp add: Bind_def set_up_def)
qed

text \<open>What the caller of \<open>Listen\<close> or \<open>Connect\<close> gets: a socket or an error, and nothing leaks.\<close>

definition settled :: "kernel \<Rightarrow> int \<Rightarrow> 'a UDPSocket \<Rightarrow> bool" where
  "settled K rv s \<longleftrightarrow> rv \<le> 0 \<and> (IsValidSocket s \<longleftrightarrow> rv = 0) \<and>
     open_fds K s = (if rv = 0 then [sockfd s] else [])"

lemma settled_closed:
  assumes "rv < 0" "sock_inv K s"
  shows "settled K rv (Close_socket K s)"
proof -
  have "sock_inv K (Close_socket K s)" "\<not> IsValidSocket (Close_socket K s)"
    using close_sock_inv [OF assms(2)] by auto
  then show ?thesis using assms(1) by (simp add: settled_def sock_inv_def)
qed

lemma settled_open: "IsValidSocket s \<Longrightarrow> sock_inv K s \<Longrightarrow> settled K 0 s"
  by (simp add: settled_def sock_inv_def)

lemma names_keep:
  assumes "sock_inv K s" "IsValidSocket s"
  shows "GetLocalAddress K i s = (rv, x, s') \<Longrightarrow> sock_inv K s' \<and> IsValidSocket s'"
    "GetPeerAddress K i s = (rv, x, s') \<Longrightarrow> sock_inv K s' \<and> IsValidSocket s'"
  using assms quiet_ops(2,3) [of K i s rv x s'] by (auto simp: quiet_inv quiet_valid)

text \<open>Setting up the socket of a server or a client always returns. The result
  is 0 and the endpoint owns one open descriptor, or negative and every descriptor opened on
  the way is closed again.\<close>

theorem listen_settles:
  assumes "kernel_ok K"
  shows "(\<exists>rv adr s. Listen K i a = Some (rv, adr, s) \<and> rv \<le> 0 \<and> (IsValidSocket s \<longleftrightarrow> rv = 0) \<and>
      open_fds K s = (if rv = 0 then [sockfd s] else [])) \<and>
    (\<exists>rv adrs s. Connect_udp K i a = Some (rv, adrs, s) \<and> rv \<le> 0 \<and> (IsValidSocket s \<longleftrightarrow> rv = 0) \<and>
      open_fds K s = (if rv = 0 then [sockfd s] else []))"
proof -
  obtain s0 :: "'a UDPSocket" where s0: "AllowReceiveError new_socket = Some s0" "sock_inv K s0"
      "\<not> IsValidSocket s0" "peer_address s0 = None"
    by (rule allowed_new [of K])
  obtain r1 s1 where "Bind K i a s0 = Some (r1, s1)" "set_up K r1 s1"
    using open_set_up(1) [OF assms s0(2-4)] by blast
  then obtain r2 s2 where 2: "setup_buffers K (Bind K i a s0) = Some (r2, s2)" "set_up K r2 s2"
    using setup_buffers_result [OF assms] by fastforce
  obtain q1 t1 where "Connect_socket K i a s0 = Some (q1, t1)" "set_up K q1 t1"
    using open_set_up(2) [OF assms s0(2-4)] by blast
  then obtain q2 t2 where t2: "setup_buffers K (Connect_socket K i a s0) = Some (q2, t2)" "set_up K q2 t2"
    using setup_buffers_result [OF assms] by fastforce
  have "\<exists>rv adr s. Listen K i a = Some (rv, adr, s) \<and> settled K rv s"
  proof (cases "r2 < 0")
    case True
    then show ?thesis using s0(1) 2 settled_closed by (simp add: Listen_def set_up_def)
  next
    case False
    then have v: "sock_inv K s2" "IsValidSocket s2" using 2(2) by (auto simp: set_up_def)
    obtain r3 x s3 where 3: "GetLocalAddress K i s2 = (r3, x, s3)" by (metis prod_cases3)
    show ?thesis
      using s0(1) 2(1) 3 False names_keep(1) [OF v 3] settled_closed [of r3 K s3] settled_open [of s3 K]
      by (cases "r3 < 0") (simp_all add: Listen_def)
  qed
  moreover have "\<exists>rv adrs s. Connect_udp K i a = Some (rv, adrs, s) \<and> settled K rv s"
  proof (cases "q2 < 0")
    case True
    then show ?thesis using s0(1) t2 settled_closed by (simp add: Connect_udp_def set_up_def)
  next
    case False
    then have v: "sock_inv K t2" "IsValidSocket t2" using t2(2) by (auto simp: set_up_def)
    obtain r3 x s3 where 3: "GetLocalAddress K i t2 = (r3, x, s3)" by (metis prod_cases3)
    have v3: "sock_inv K s3" "IsValidSocket s3" using names_keep(1) [OF v 3] by auto
    obtain r4 y s4 where 4: "GetPeerAddress K i s3 = (r4, y, s4)" by (metis prod_cases3)
    show ?thesis
    proof (cases "r3 < 0")
      case True
      then show ?thesis using s0(1) t2(1) 3 False settled_closed [OF True v3(1)] by (simp add: Connect_udp_def)
    next
      case r3: False
      then show ?thesis
        using s0(1) t2(1) 3 4 False names_keep(2) [OF v3 4] settled_closed [of r4 K s4] settled_open [of s4 K]
        by (cases "r4 < 0") (simp_all add: Connect_udp_def)
    qed
  qed
  ultimately show ?thesis unfolding settled_def by blast
qed

theorem listen_settles_witness:
  "\<exists>rv adrs s. Connect_udp demo_kernel demo_inet [2, 0] = Some (rv, adrs, s) \<and> rv \<le> 0 \<and>
     open_fds demo_kernel s = (if rv = 0 then [sockfd s] else [])"
  using listen_settles [OF demo_kernel_ok, of demo_inet "[2, 0]"] by blast

text \<open>\<open>GetLocalAddress\<close> reports a failed \<open>getsockname\<close> with the positive
  \<open>errno\<close>, which its callers take for success: a server whose address cannot be read listens
  all the same, with a \<open>server_address_\<close> that was never set.\<close>

theorem listen_without_address:
  assumes "\<And>h fd. rc (K h (Sys_getsockname fd)) < 0 \<and> err (K h (Sys_getsockname fd)) > 0"
    and "setup_buffers K (Bind K i a (new_socket\<lparr>socket_options := SOCKET_OPTION_RECEIVE_ERROR\<rparr>)) = Some (0, s)"
    and "IsValidSocket s" "local_address s = None"
  shows "\<exists>s'. Listen K i a = Some (0, None, s') \<and> IsValidSocket s'"
proof -
  have 0: "AllowReceiveError (new_socket :: 'a UDPSocket) = Some (new_socket\<lparr>socket_options := SOCKET_OPTION_RECEIVE_ERROR\<rparr>)"
    by (simp add: AllowReceiveError_def allow_def new_socket_def IsValidSocket_def)
  have 1: "GetLocalAddress K i s = (err (K (us_calls s) (Sys_getsockname (sockfd s))), None,
      snd (sys K (Sys_getsockname (sockfd s)) s))"
    using assms(1) [of "us_calls s" "sockfd s"] assms(3,4) by (simp add: GetLocalAddress_def sys_def)
  have "\<not> err (K (us_calls s) (Sys_getsockname (sockfd s))) < 0"
    using assms(1) [of "us_calls s" "sockfd s"] by linarith
  then show ?thesis using 0 1 assms(2,3) by (simp add: Listen_def sys_def IsValidSocket_def)
qed

text \<open>A system in which only \<open>getsockname\<close> fails.\<close>

definition nameless_kernel :: kernel where
  "nameless_kernel h c = \<lparr>rc = (case c of Sys_socket _ \<Rightarrow> 5 | Sys_getsockname _ \<Rightarrow> -1 | _ \<Rightarrow> 0),
     err = 105, r_data = [], r_addr = new_storage (replicate storage_size 0)\<rparr>"

theorem listen_without_address_witness:
  "\<exists>s'. Listen nameless_kernel demo_inet [2, 0] = Some (0, None, s') \<and> IsValidSocket s'"
proof (rule listen_without_address)
  show "rc (nameless_kernel h (Sys_getsockname fd)) < 0 \<and> err (nameless_kernel h (Sys_getsockname fd)) > 0" for h fd
    by (simp add: nameless_kernel_def)
  show "setup_buffers nameless_kernel (Bind nameless_kernel demo_inet [2, 0]
      (new_socket\<lparr>socket_options := SOCKET_OPTION_RECEIVE_ERROR\<rparr>)) = Some (0, \<lparr>sockfd = 5, addr_family = AF_INET,
        socket_options = 8, local_address = None, peer_address = None,
        us_calls = [Sys_socket 2, Sys_setsockopt 5 IP_RECVERR 1, Sys_bind 5 ([2, 0] @ replicate 14 0),
          Sys_setsockopt 5 SO_RCVBUF 1400000, Sys_setsockopt 5 SO_SNDBUF 44800]\<rparr>)"
    by (simp add: setup_buffers_def and_then_def Bind_def open_socket_def CreateSocket_def
        SetSocketOptions_def chosen_options_def BindImpl_def ToSockAddr_def IsValidSocket_def new_socket_def
        kInvalidSocket_def socket_option_defs demo_system nameless_kernel_def sys_def new_storage_def store_addr_def
        write_at_def SetReceiveBufferSize_def SetSendBufferSize_def error_return_def
        kSocketReceiveBuffer_def kSocketSendBuffer_def)
qed (simp_all add: IsValidSocket_def kInvalidSocket_def)

section \<open>The transmit queue\<close>

text \<open>The operations on the queue that an event of a session causes, and the message on the wire
  it stands for.\<close>

fun event_ops :: "(bytes \<Rightarrow> u32) \<Rightarrow> 'a event \<Rightarrow> (bytes \<times> 'a) queue_op list" where
  "event_ops ad (Ev_output data sid a) =
     (if length data < kPublicHeaderLength then []
      else [Put (put_header ad (packet_code DATA_PACKET) sid data, a)])"
| "event_ops ad Ev_flush_tx = [Flush]"
| "event_ops ad _ = []"

fun event_wire :: "(bytes \<Rightarrow> u32) \<Rightarrow> 'a inet \<Rightarrow> 'a event \<Rightarrow> (bytes \<times> bytes) list" where
  "event_wire ad i (Ev_output data sid a) =
     (if length data < kPublicHeaderLength \<or> length data > kMaxPacketSize then []
      else case dest_bytes i a of None \<Rightarrow> []
           | Some d \<Rightarrow> [(d, put_header ad (packet_code DATA_PACKET) sid data)])"
| "event_wire ad i _ = []"

abbreviation run_queue :: "kernel \<Rightarrow> 'a inet \<Rightarrow> (bytes \<times> 'a) queue_op list \<Rightarrow> 'a tx \<Rightarrow> 'a tx option" where
  "run_queue K i \<equiv> run_ops (\<lambda>(packet, a). AppendPacket K i packet a) (FlushTxQueue_server K)"

lemma output_write:
  "WritePublicHeader ad data t sid = (if length data < kPublicHeaderLength
     then (UNABLE_WRITE_PUBLIC_HEADER, data) else (W_SUCCESS, put_header ad t sid data))"
  by (simp add: write_public_header_short put_header_def write_public_header)

lemma tx_event_ops: "tx_event ad K i ev t = run_queue K i (event_ops ad ev) t"
  by (cases ev) (simp_all add: output_write del: packet_code.simps split: bind_splits)

lemma run_ops_append:
  "run_ops put flush (xs @ ys) q = Option.bind (run_ops put flush xs q) (run_ops put flush ys)"
  by (induction put flush xs q rule: run_ops.induct) (auto split: bind_splits)

lemma tx_run_ops: "tx_run ad K i es t = run_queue K i (concat (map (event_ops ad) es)) t"
  by (induction ad K i es t rule: tx_run.induct)
    (auto simp: tx_event_ops run_ops_append split: bind_splits)

lemma event_wire_ops:
  "concat (map (op_wire (packet_wire i)) (event_ops ad ev)) = event_wire ad i ev"
  by (cases ev) (auto simp: packet_wire_def hdr.length_put simp del: packet_code.simps)

lemma events_wire_ops:
  "concat (map (op_wire (packet_wire i)) (concat (map (event_ops ad) es))) = concat (map (event_wire ad i) es)"
  by (induction es) (simp_all add: event_wire_ops)

lemma tx_run_good:
  assumes "inet_ok i" "tx_good t"
  shows "\<exists>t'. tx_run ad K i es t = Some t' \<and> tx_good t' \<and>
    concat (tx_handed t') @ tx_waiting t' = concat (tx_handed t) @ tx_waiting t @ concat (map (event_wire ad i) es)"
proof -
  have "op_ok (\<lambda>_. inet_ok i) x" for x :: "(bytes \<times> 'a) queue_op"
    using assms(1) by (cases x) simp_all
  then have "list_all (op_ok (\<lambda>_. inet_ok i)) (concat (map (event_ops ad) es))" by (simp add: list_all_iff)
  from tx.run [OF assms(2) this, of K] show ?thesis
    unfolding tx_run_ops events_wire_ops .
qed

lemma tx_queue_fifo_run:
  assumes "inet_ok i" "IsValidSocket s"
  shows "\<exists>t. tx_run ad K i es (tx_start s) = Some t \<and> tx_good t \<and>
    concat (tx_handed t) @ tx_waiting t = concat (map (event_wire ad i) es)"
  using tx_run_good [OF assms(1) tx_good_start [OF assms(2)], of ad K es]
  by (simp add: tx_start_def tx_waiting_def InitializeThread_def)

text \<open>C26: The transmit queue of a thread is a queue. Whatever the sessions of the thread
  output and whenever they flush, no assertion fails, and the batches handed to \<open>sendmmsg\<close>
  followed by the packets that wait are exactly the framed outputs, once each and in order. A
  batch has between 1 and 32 packets, and fewer than 32 ever wait.\<close>

theorem tx_queue_fifo:
  assumes "inet_ok i" "IsValidSocket s"
  shows "\<exists>t. tx_run ad K i es (tx_start s) = Some t \<and>
    concat (tx_handed t) @ tx_waiting t = concat (map (event_wire ad i) es) \<and>
    length (tx_waiting t) < kNumPacketsPerSend \<and>
    (\<forall>b \<in> set (tx_handed t). 0 < length b \<and> length b \<le> kNumPacketsPerSend)"
  using tx_queue_fifo_run [OF assms, of ad K es] tx.bounded by blast

text \<open>An address class over bytes that is always a \<open>sockaddr_in6\<close>.\<close>

definition wide_inet :: "nat inet" where
  "wide_inet = \<lparr>family_of = (\<lambda>_. AF_INET6), raw_of = (\<lambda>a. replicate kSockaddrIn6Size (of_nat a)), of_raw = (\<lambda>_. 0)\<rparr>"

lemma wide_inet: "inet_ok wide_inet" "dest_bytes wide_inet a \<noteq> None"
  by (simp_all add: inet_ok_def wide_inet_def dest_bytes_def)

definition open_demo :: "nat UDPSocket" where
  "open_demo = new_socket\<lparr>sockfd := 5, addr_family := AF_INET6\<rparr>"

lemma open_demo: "IsValidSocket open_demo"
  by (simp add: open_demo_def IsValidSocket_def kInvalidSocket_def)

theorem tx_queue_fifo_witness:
  "\<exists>t. tx_run (\<lambda>_. 0) demo_kernel wide_inet (replicate 70 (Ev_output (replicate 20 7) 1 3)) (tx_start open_demo) = Some t \<and>
     length (concat (tx_handed t)) + length (tx_waiting t) = 70 \<and> length (tx_waiting t) < 32"
proof -
  have "length (concat (map (event_wire ad wide_inet) (replicate n (Ev_output (replicate 20 7) 1 3)))) = n" for ad n
    by (induction n) (simp_all add: wide_inet_def dest_bytes_def kPublicHeaderLength_def kMaxPacketSize_def)
  moreover obtain t where "tx_run (\<lambda>_. 0) demo_kernel wide_inet (replicate 70 (Ev_output (replicate 20 7) 1 3)) (tx_start open_demo) = Some t"
    "concat (tx_handed t) @ tx_waiting t = concat (map (event_wire (\<lambda>_. 0) wide_inet) (replicate 70 (Ev_output (replicate 20 7) 1 3)))"
    "length (tx_waiting t) < 32"
    using tx_queue_fifo [OF wide_inet(1) open_demo, of "\<lambda>_. 0" demo_kernel "replicate 70 (Ev_output (replicate 20 7) 1 3)"]
    unfolding kNumPacketsPerSend_def by blast
  ultimately show ?thesis by (metis length_append)
qed

text \<open>Flushing: what waits after an event was output after the last flush.\<close>

lemma tx_run_settles:
  assumes "inet_ok i" "tx_good t" "tx_run ad K i es t = Some t'" "\<not> unflushed w es"
    and "\<not> w \<Longrightarrow> tx_waiting t = []"
  shows "tx_waiting t' = []"
  using assms(2-5)
proof (induction es arbitrary: t w)
  case (Cons ev es)
  then obtain t1 where t1: "tx_event ad K i ev t = Some t1" "tx_run ad K i es t1 = Some t'"
    by (auto simp: bind_eq_Some_conv)
  have "tx_run ad K i [ev] t = Some t1" using t1(1) by simp
  then have g1: "tx_good t1" using tx_run_good [OF assms(1) Cons.prems(1), of ad K "[ev]"] by simp
  show ?case
  proof (cases ev)
    case (Ev_output d sid a)
    then show ?thesis using Cons.IH [OF g1 t1(2), of True] Cons.prems(3) by simp
  next
    case Ev_flush_tx
    then have "tx_waiting t1 = []" using t1(1) flush_good [OF Cons.prems(1), of K] by auto
    then show ?thesis using Cons.IH [OF g1 t1(2), of False] Cons.prems(3) Ev_flush_tx by simp
  qed (use Cons.IH [OF g1 t1(2), of w] Cons.prems(3,4) t1(1) in simp_all)
qed simp

lemma fitting_wire:
  assumes "frame_fits data" "dest_bytes i a \<noteq> None"
  shows "event_wire ad i (Ev_output data sid a) =
    [(the (dest_bytes i a), put_header ad (packet_code DATA_PACKET) sid data)]"
  using assms by (auto simp: frame_fits_def)

lemma get_framed:
  assumes "frame_fits data"
  shows "get_header ad (put_header ad t sid data) = Some (t, sid, drop kPublicHeaderLength data) \<and>
    drop kPublicHeaderLength data \<noteq> []"
  using hdr.get_put [of data ad t sid] assms by (simp add: frame_fits_def)

text \<open>C27: What a session outputs reaches the wire. When the transmit queue has
  processed all events of a reachable session, nothing waits: exactly one datagram per output
  went to \<open>sendmmsg\<close>, in order and addressed to the peer, no longer than
  \<open>kMaxPacketSize\<close>, and the receiver of each reads a data packet with the identifier of the
  session and the segments that \<open>ikcp_flush\<close> produced.\<close>

theorem session_on_wire:
  assumes "session_reach h x" "flush_tx_set h" "inet_ok i" "\<And>a. dest_bytes i a \<noteq> None" "IsValidSocket s"
  shows "\<exists>t. tx_run ad K i (se_log x) (tx_start s) = Some t \<and> tx_waiting t = [] \<and>
    list_all2 (\<lambda>(d, packet) (data, sid, a). Some d = dest_bytes i a \<and> length packet \<le> kMaxPacketSize \<and>
        get_header ad packet = Some (packet_code DATA_PACKET, sid, drop kPublicHeaderLength data) \<and>
        drop kPublicHeaderLength data \<noteq> [])
      (concat (tx_handed t))
      (concat (map (\<lambda>ev. case ev of Ev_output data sid a \<Rightarrow> [(data, sid, a)] | _ \<Rightarrow> []) (se_log x)))"
proof -
  note sh = framed.reach_holds [OF assms(1)]
  have fits: "frame_fits data" if "Ev_output data sid a \<in> set (se_log x)" for data sid a
    using sh that by (fastforce simp: sess_holds_def)
  have uf: "\<not> unflushed False (se_log x)" using sh assms(2) by (simp add: sess_holds_def)
  obtain t where t: "tx_run ad K i (se_log x) (tx_start s) = Some t"
    "concat (tx_handed t) @ tx_waiting t = concat (map (event_wire ad i) (se_log x))"
    using tx_queue_fifo_run [OF assms(3,5)] by blast
  have w: "tx_waiting t = []"
    by (rule tx_run_settles [OF assms(3) tx_good_start [OF assms(5)] t(1) uf])
      (simp add: tx_start_def tx_waiting_def InitializeThread_def)
  have "list_all2 (\<lambda>(d, packet) (data, sid, a). Some d = dest_bytes i a \<and> length packet \<le> kMaxPacketSize \<and>
        get_header ad packet = Some (packet_code DATA_PACKET, sid, drop kPublicHeaderLength data) \<and>
        drop kPublicHeaderLength data \<noteq> [])
      (concat (map (event_wire ad i) es))
      (concat (map (\<lambda>ev. case ev of Ev_output data sid a \<Rightarrow> [(data, sid, a)] | _ \<Rightarrow> []) es))"
    if "set es \<subseteq> set (se_log x)" for es
    using that
  proof (induction es)
    case (Cons ev es)
    show ?case
    proof (cases ev)
      case (Ev_output data sid a)
      then have f: "frame_fits data" using fits Cons.prems by auto
      have "length (put_header ad (packet_code DATA_PACKET) sid data) \<le> kMaxPacketSize"
        using f by (simp add: frame_fits_def hdr.length_put del: packet_code.simps)
      then show ?thesis
        using Cons Ev_output fitting_wire [OF f assms(4)] get_framed [OF f] assms(4) [of a]
        by (auto simp del: packet_code.simps event_wire.simps)
    qed (use Cons in \<open>simp_all del: packet_code.simps\<close>)
  qed simp
  then show ?thesis using t w by (intro exI [of _ t]) simp
qed

theorem session_on_wire_witness:
  "\<exists>t. tx_run (\<lambda>_. 0) demo_kernel wide_inet (se_log demo_t) (tx_start open_demo) = Some t \<and>
     tx_waiting t = [] \<and> concat (tx_handed t) \<noteq> []"
proof -
  obtain t where t: "tx_run (\<lambda>_. 0) demo_kernel wide_inet (se_log demo_t) (tx_start open_demo) = Some t"
    "tx_waiting t = []" "length (concat (tx_handed t)) =
       length (concat (map (\<lambda>ev. case ev of Ev_output data sid a \<Rightarrow> [(data, sid, a)] | _ \<Rightarrow> []) (se_log demo_t)))"
    using session_on_wire [OF demo_reach_t _ wide_inet open_demo, of "\<lambda>_. 0" demo_kernel]
    by (auto simp: demo_h_def dest!: list_all2_lengthD)
  moreover have "concat (map (\<lambda>ev. case ev of Ev_output data sid a \<Rightarrow> [(data, sid, a)] | _ \<Rightarrow> []) (se_log demo_t)) \<noteq> []"
    using demo_session_write(2) by force
  ultimately show ?thesis by (metis length_0_conv)
qed

end
