(* ===== verification/Urandom.thy ===== *)
theory Urandom
  imports Udp_Socket
begin

text \<open>
  The random bytes of \<open>kcp/urandom.h\<close>. The replies of \<open>read\<close> are a list, an error code or the
  bytes read each; \<open>None\<close> is a read that has not returned. Opening and closing the device are
  left out.
\<close>

type_synonym read_reply = "int + bytes"

text \<open>\<open>HANDLE_EINTR\<close> around \<open>read\<close>: at most a hundred retries.\<close>

fun read_retry :: "nat \<Rightarrow> read_reply list \<Rightarrow> (read_reply \<times> read_reply list) option" where
  "read_retry n [] = None"
| "read_retry n (Inr data # rs) = Some (Inr data, rs)"
| "read_retry 0 (Inl e # rs) = Some (Inl e, rs)"
| "read_retry (Suc n) (Inl e # rs) = (if e = EINTR then read_retry n rs else Some (Inl e, rs))"

lemma read_retry_length: "read_retry n rs = Some (r, rs') \<Longrightarrow> length rs' < length rs"
  by (induction n rs rule: read_retry.induct) (auto split: if_splits)

text \<open>The loop of \<open>RandBytes\<close> with the bytes that are there already.\<close>

function rand_loop :: "nat \<Rightarrow> bytes \<Rightarrow> read_reply list \<Rightarrow> bytes option" where
  "rand_loop n buf rs =
     (if length buf < n then
        (case read_retry 100 rs of
           None \<Rightarrow> None
         | Some (Inl e, rs) \<Rightarrow> Some buf
         | Some (Inr data, rs) \<Rightarrow> if length data \<le> 0 then Some buf else rand_loop n (buf @ data) rs)
      else Some buf)"
  by pat_completeness auto
termination by (relation "measure (\<lambda>(_, _, rs). length rs)") (auto dest: read_retry_length)

declare rand_loop.simps [simp del]

definition RandBytes :: "nat \<Rightarrow> read_reply list \<Rightarrow> (bool \<times> bytes) option" where
  "RandBytes n rs = map_option (\<lambda>buf. (length buf = n, buf)) (rand_loop n [] rs)"

section \<open>Complete or refused\<close>

text \<open>Replies to the requests of the loop: a read returns at most as many bytes as it is asked for.\<close>

fun replies_fit :: "nat \<Rightarrow> read_reply list \<Rightarrow> bool" where
  "replies_fit n [] = True"
| "replies_fit n (Inl e # rs) = replies_fit n rs"
| "replies_fit n (Inr data # rs) = (length data \<le> n \<and> replies_fit (n - length data) rs)"

fun reply_data :: "read_reply list \<Rightarrow> bytes" where
  "reply_data [] = []"
| "reply_data (Inl e # rs) = reply_data rs"
| "reply_data (Inr data # rs) = data @ reply_data rs"

lemma read_retry_fit:
  "read_retry k rs = Some (r, rs') \<Longrightarrow> replies_fit n rs \<Longrightarrow>
   (case r of Inl e \<Rightarrow> replies_fit n rs' \<and> reply_data rs' = reply_data rs
    | Inr data \<Rightarrow> length data \<le> n \<and> replies_fit (n - length data) rs' \<and> reply_data rs = data @ reply_data rs')"
  by (induction k rs rule: read_retry.induct) (auto split: if_splits sum.splits)

lemma rand_loop_fit:
  assumes "replies_fit (n - length buf) rs" "length buf \<le> n" "rand_loop n buf rs = Some buf'"
  shows "length buf' \<le> n \<and> (\<exists>more. buf @ reply_data rs = buf' @ more)"
  using assms
proof (induction n buf rs rule: rand_loop.induct)
  case (1 n buf rs)
  note step = rand_loop.simps [of n buf rs]
  show ?case
  proof (cases "length buf < n")
    case True
    then obtain r rs' where r: "read_retry 100 rs = Some (r, rs')"
      using "1.prems"(3) step by (cases "read_retry 100 rs") auto
    note fit = read_retry_fit [OF r "1.prems"(1)]
    show ?thesis
    proof (cases r)
      case (Inl e)
      then show ?thesis using "1.prems" True r step by simp
    next
      case (Inr data)
      show ?thesis
      proof (cases "data = []")
        case True
        then show ?thesis using "1.prems" \<open>length buf < n\<close> r step Inr by simp
      next
        case False
        then have l: "rand_loop n (buf @ data) rs' = Some buf'" "\<not> length data \<le> 0"
          using "1.prems"(3) True r step Inr by simp_all
        have "length buf' \<le> n \<and> (\<exists>more. (buf @ data) @ reply_data rs' = buf' @ more)"
          by (rule "1.IH" [OF True r refl Inr l(2) _ _ l(1)]) (use fit Inr True in auto)
        then show ?thesis using fit Inr by auto
      qed
    qed
  qed (use "1.prems" step in simp)
qed

text \<open>Random bytes are drawn completely and in order, or the draw is refused; the buffer is never
  overrun.\<close>

lemma rand_bytes_complete:
  assumes "replies_fit n rs" "RandBytes n rs = Some (ok, buf)"
  shows "length buf \<le> n \<and> (ok \<longleftrightarrow> length buf = n) \<and> (ok \<longrightarrow> buf = take n (reply_data rs))"
  using rand_loop_fit [of n "[]" rs buf] assms by (auto simp: RandBytes_def)

end
