(* ===== verification/Ai_2048.thy ===== *)
theory Ai_2048
  imports Complex_Main Prelude
begin

text \<open>
  The player for the game 2048 (\<open>ai/2048/ai_2048.h\<close>, \<open>ai/2048/ai_2048.cc\<close> and the tables of
  \<open>ai/2048/ai_utils.h\<close>): the board, the moves, the evaluation and the search. A tile holds the
  logarithm of its number, 0 for an empty cell. The 20 bytes of \<open>tiles_\<close> are a list; only the
  first 16 are cells. A tile is an \<open>int8_t\<close>, so an increment wraps around (\<open>int8\<close>). Scores are
  rational numbers: the rounding of \<open>double\<close> is not modelled, but the search is defined for any
  evaluation into a linear order, so what is proved of it holds for the rounded one too.
  \<open>Print\<close> and \<open>AddRandTile\<close>'s source of random numbers are outside of the model.
\<close>

section \<open>The board\<close>

definition int8 :: "int \<Rightarrow> int" where
  "int8 n = (n + 128) mod 256 - 128"

definition kUp :: nat where "kUp = 0"
definition kRight :: nat where "kRight = 1"
definition kDown :: nat where "kDown = 2"
definition kLeft :: nat where "kLeft = 3"

lemmas directions = kUp_def kRight_def kDown_def kLeft_def

definition dir_pos :: "int list list" where
  "dir_pos = [[-1, 1, 4, -1], [-1, 2, 5, 0], [-1, 3, 6, 1], [-1, -1, 7, 2],
     [0, 5, 8, -1], [1, 6, 9, 4], [2, 7, 10, 5], [3, -1, 11, 6],
     [4, 9, 12, -1], [5, 10, 13, 8], [6, 11, 14, 9], [7, -1, 15, 10],
     [8, 13, -1, -1], [9, 14, -1, 12], [10, 15, -1, 13], [11, -1, -1, 14]]"

record AI2048 =
  ai_tiles :: "int list"
  ai_best_move :: int

definition Clear :: AI2048 where
  "Clear = \<lparr>ai_tiles = replicate 20 0, ai_best_move = -1\<rparr>"

definition CopyTilesFrom :: "AI2048 \<Rightarrow> AI2048 \<Rightarrow> AI2048" where
  "CopyTilesFrom ai this = this\<lparr>ai_tiles := ai_tiles ai\<rparr>"

definition IsValid :: "int \<Rightarrow> bool" where
  "IsValid pos \<longleftrightarrow> pos \<ge> 0 \<and> pos \<le> 15"

function lg2 :: "nat \<Rightarrow> nat" where
  "lg2 n = (if n > 1 then lg2 (n div 2) + 1 else 0)"
  by auto
termination by (relation "measure id") auto

declare lg2.simps [simp del]

definition AddComputerMove :: "int list list \<Rightarrow> AI2048 \<Rightarrow> AI2048" where
  "AddComputerMove grid ai = fold (\<lambda>i ai.
     if ai_tiles ai ! i = 0 \<and> grid ! (i div 4) ! (i mod 4) > 0
     then ai\<lparr>ai_tiles := (ai_tiles ai)[i := int8 (int (lg2 (nat (grid ! (i div 4) ! (i mod 4)))))]\<rparr>
     else ai) [0..<16] ai"

definition GetAllTiles :: "AI2048 \<Rightarrow> int list list" where
  "GetAllTiles ai = map (\<lambda>r. map (\<lambda>c.
     if ai_tiles ai ! (4 * r + c) > 0 then 2 ^ nat (ai_tiles ai ! (4 * r + c)) else 0) [0..<4]) [0..<4]"

definition GetAllEmptyPos :: "int list \<Rightarrow> nat list" where
  "GetAllEmptyPos tiles = filter (\<lambda>i. tiles ! i = 0) [0..<16]"

text \<open>The two values that \<open>rand()\<close> returns are arguments.\<close>

definition AddRandTile :: "nat \<Rightarrow> nat \<Rightarrow> AI2048 \<Rightarrow> AI2048" where
  "AddRandTile rand1 rand2 ai =
     (let pos_set = GetAllEmptyPos (ai_tiles ai) in
      if length pos_set > 0 then
        let idx = rand1 mod length pos_set
        in ai\<lparr>ai_tiles := (ai_tiles ai)[pos_set ! idx := if rand2 mod 2 \<noteq> 0 then 1 else 2]\<rparr>
      else ai)"

definition GetEmptyPosNum :: "int list \<Rightarrow> nat" where
  "GetEmptyPosNum tiles = fold (\<lambda>i count. if tiles ! i = 0 then count + 1 else count) [0..<16] 0"

definition GetMaxValue :: "int list \<Rightarrow> int" where
  "GetMaxValue tiles = fold (\<lambda>i max_val. if max_val < tiles ! i then tiles ! i else max_val) [1..<16] (tiles ! 0)"

definition IsWin :: "int list \<Rightarrow> bool" where
  "IsWin tiles \<longleftrightarrow> list_ex (\<lambda>i. tiles ! i = 11) [0..<16]"

section \<open>Moves\<close>

text \<open>The walk of \<open>GetTargetPos\<close> leaves the board after at most four steps; the first argument
  bounds it (lemma \<open>target_loop_lane\<close>).\<close>

fun target_loop :: "nat \<Rightarrow> int list \<Rightarrow> nat \<Rightarrow> int \<Rightarrow> int \<times> int" where
  "target_loop 0 tiles dir prev_pos = (prev_pos, -1)"
| "target_loop (Suc n) tiles dir prev_pos =
     (let pos = dir_pos ! nat prev_pos ! dir
      in if IsValid pos \<and> tiles ! nat pos = 0 then target_loop n tiles dir pos else (prev_pos, pos))"

definition GetTargetPos :: "int list \<Rightarrow> int \<Rightarrow> nat \<Rightarrow> int \<times> int" where
  "GetTargetPos tiles pos dir = target_loop 4 tiles dir pos"

record move =
  mv_tiles :: "int list"
  mv_merged :: "bool list"
  mv_can :: bool

text \<open>The body of the two loops of \<open>TryMove\<close>.\<close>

definition move_cell :: "nat \<Rightarrow> nat \<Rightarrow> move \<Rightarrow> move" where
  "move_cell dir pos mv =
     (let tiles = mv_tiles mv in
      if tiles ! pos > 0 then
        let (target_pos0, target_pos) = GetTargetPos tiles (int pos) dir in
        if IsValid target_pos \<and> tiles ! nat target_pos = tiles ! pos \<and> \<not> mv_merged mv ! nat target_pos then
          \<lparr>mv_tiles = (tiles[nat target_pos := int8 (tiles ! nat target_pos + 1)])[pos := 0],
           mv_merged = (mv_merged mv)[nat target_pos := True], mv_can = True\<rparr>
        else if int pos \<noteq> target_pos0 then
          mv\<lparr>mv_tiles := (tiles[nat target_pos0 := tiles ! pos])[pos := 0], mv_can := True\<rparr>
        else mv
      else mv)"

definition pos_list :: "nat list list" where
  "pos_list = [[0, 1, 2, 3], [3, 2, 1, 0]]"

definition move_order :: "nat \<Rightarrow> nat list" where
  "move_order dir =
     (let x = (if dir = kDown then 1 else 0); y = (if dir = kRight then 1 else 0)
      in concat (map (\<lambda>i. map (\<lambda>j. pos_list ! x ! i * 4 + pos_list ! y ! j) [0..<4]) [0..<4]))"

definition TryMove :: "nat \<Rightarrow> int list \<Rightarrow> bool \<times> int list" where
  "TryMove dir tiles =
     (let mv = fold (move_cell dir) (move_order dir)
                 \<lparr>mv_tiles = tiles, mv_merged = replicate 20 False, mv_can = False\<rparr>
      in (mv_can mv, mv_tiles mv))"

section \<open>Evaluation\<close>

definition EvalSmoothnessValue :: "int list \<Rightarrow> int" where
  "EvalSmoothnessValue tiles = fold (\<lambda>i smooth_val.
     if tiles ! i > 0 then
       fold (\<lambda>dir smooth_val.
         let target_pos = snd (GetTargetPos tiles (int i) dir) in
         if IsValid target_pos \<and> tiles ! nat target_pos > 0
         then smooth_val - \<bar>tiles ! i - tiles ! nat target_pos\<bar> else smooth_val) [1, 2] smooth_val
     else smooth_val) [0..<16] 0"

text \<open>\<open>Mark\<close> calls itself for the four neighbours. Every call that goes deeper marks one more
  cell, so 17 levels are enough.\<close>

fun Mark :: "nat \<Rightarrow> int list \<Rightarrow> int \<Rightarrow> int \<Rightarrow> bool list \<Rightarrow> bool list" where
  "Mark 0 tiles pos val marked = marked"
| "Mark (Suc n) tiles pos val marked =
     (if IsValid pos \<and> tiles ! nat pos = val \<and> \<not> marked ! nat pos then
        fold (\<lambda>dir. Mark n tiles (dir_pos ! nat pos ! dir) val) [0..<4] (marked[nat pos := True])
      else marked)"

definition GetLandNum :: "int list \<Rightarrow> nat" where
  "GetLandNum tiles = fst (fold (\<lambda>i (land_num, marked).
     if tiles ! i \<noteq> 0 \<and> \<not> marked ! i then (land_num + 1, Mark 17 tiles (int i) (tiles ! i) marked)
     else (land_num, marked)) [0..<16] (0, replicate 20 False))"

text \<open>The macro \<open>WORK\<close> for one line: the inner loop that skips empty cells and the loop over
  pairs of neighbours. The stride is never zero.\<close>

function skip_empty :: "int list \<Rightarrow> nat \<Rightarrow> nat \<Rightarrow> nat \<Rightarrow> nat" where
  "skip_empty tiles last_pos add next =
     (if 0 < add \<and> next \<le> last_pos \<and> tiles ! next = 0 then skip_empty tiles last_pos add (next + add) else next)"
  by pat_completeness auto
termination by (relation "measure (\<lambda>(_, e, _, n). e + 1 - n)") auto

declare skip_empty.simps [simp del]

lemma skip_empty_ge: "next \<le> skip_empty tiles e add next"
proof (induction tiles e add "next" rule: skip_empty.induct)
  case (1 tiles e add n)
  show ?case
  proof (cases "0 < add \<and> n \<le> e \<and> tiles ! n = 0")
    case True
    then show ?thesis using 1 by (subst skip_empty.simps) simp
  next
    case False
    then show ?thesis by (subst skip_empty.simps) (simp only: if_False order_refl)
  qed
qed

function work_line :: "int list \<Rightarrow> nat \<Rightarrow> nat \<Rightarrow> nat \<Rightarrow> nat \<Rightarrow> int \<times> int \<Rightarrow> int \<times> int" where
  "work_line tiles last_pos add cur next vals =
     (if 0 < add \<and> next \<le> last_pos then
        let next = skip_empty tiles last_pos add next;
            next = (if next > last_pos then last_pos else next);
            vals = (case vals of (val1, val2) \<Rightarrow>
              if tiles ! cur > tiles ! next then (val1 + (tiles ! next - tiles ! cur), val2)
              else (val1, val2 + (tiles ! cur - tiles ! next)))
        in work_line tiles last_pos add next (next + add) vals
      else vals)"
  by pat_completeness auto
termination
proof (relation "measure (\<lambda>(_, e, _, _, n, _). e + 1 - n)")
  fix tiles :: "int list" and e add cur n :: nat and vals :: "int \<times> int" and m m' vals'
  assume "0 < add \<and> n \<le> e" "m = skip_empty tiles e add n" "m' = (if e < m then e else m)"
  moreover have "n \<le> skip_empty tiles e add n" by (rule skip_empty_ge)
  ultimately show "((tiles, e, add, m', m' + add, vals'), tiles, e, add, cur, n, vals)
      \<in> measure (\<lambda>(_, e, _, _, n, _). e + 1 - n)"
    by auto
qed auto

declare work_line.simps [simp del]

definition work :: "int list \<Rightarrow> (nat \<times> nat) list \<Rightarrow> nat \<Rightarrow> int \<times> int" where
  "work tiles ids add = fold (\<lambda>(first, last_pos). work_line tiles last_pos add first (first + add)) ids (0, 0)"

definition EvalMonotonicityValue :: "int list \<Rightarrow> int" where
  "EvalMonotonicityValue tiles =
     (case work tiles [(0, 3), (4, 7), (8, 11), (12, 15)] 1 of (t0, t1) \<Rightarrow>
      case work tiles [(0, 12), (1, 13), (2, 14), (3, 15)] 4 of (t2, t3) \<Rightarrow>
        max t0 t1 + max t2 t3)"

definition kSmoothWeight :: rat where "kSmoothWeight = 1 / 10"
definition kMonoWeight :: rat where "kMonoWeight = 1"
definition kEmptyWeight :: rat where "kEmptyWeight = 27 / 10"
definition kMaxValueWeight :: rat where "kMaxValueWeight = 1"

definition EvalAll :: "int list \<Rightarrow> rat" where
  "EvalAll tiles = kSmoothWeight * of_int (EvalSmoothnessValue tiles) +
     kMonoWeight * of_int (EvalMonotonicityValue tiles) +
     kEmptyWeight * of_nat (lg2 (GetEmptyPosNum tiles)) +
     kMaxValueWeight * of_int (GetMaxValue tiles)"

section \<open>Search\<close>

text \<open>\<open>ArrayMax\<close> asserts that the array is not empty. The arrays of \<open>GetCandidateSet\<close>, of 20 entries, are
  lists here: that no candidate set has more is not part of the model.\<close>

definition ArrayMax :: "int list \<Rightarrow> int option" where
  "ArrayMax a = (case a of [] \<Rightarrow> None
     | x # xs \<Rightarrow> Some (fold (\<lambda>y max_val. if max_val < y then y else max_val) xs x))"

definition candidate_score :: "int list \<Rightarrow> nat \<Rightarrow> int \<Rightarrow> int" where
  "candidate_score tiles pos val =
     (let t = tiles[pos := int8 val] in - EvalSmoothnessValue t + int (GetLandNum t))"

definition GetCandidateSet :: "int list \<Rightarrow> (nat \<times> int) list option" where
  "GetCandidateSet tiles =
     (let empty_pos = GetAllEmptyPos tiles;
          score1 = map (\<lambda>p. candidate_score tiles p 1) empty_pos;
          score2 = map (\<lambda>p. candidate_score tiles p 2) empty_pos
      in case ArrayMax score1 of
           None \<Rightarrow> None
         | Some m1 \<Rightarrow> (case ArrayMax score2 of
             None \<Rightarrow> None
           | Some m2 \<Rightarrow> Some (concat (map (\<lambda>(val, score).
               map (\<lambda>(p, _). (p, val)) (filter (\<lambda>(_, sc). sc = max m1 m2) (zip empty_pos score)))
               [(1, score1), (2, score2)]))))"

text \<open>The evaluation is a parameter; the result is the value and what \<open>best_move_\<close> is set to, or
  \<open>None\<close> where the assertion of \<open>ArrayMax\<close> fails. \<open>player_loop\<close> and \<open>computer_loop\<close> are the two
  loops of \<open>MiniMaxSearch\<close>, with the depth they search their children to and the directions or
  candidates that are left.\<close>

function MiniMaxSearch :: "(int list \<Rightarrow> 'v :: linorder) \<Rightarrow> nat \<Rightarrow> bool \<Rightarrow> 'v \<Rightarrow> 'v \<Rightarrow> AI2048 \<Rightarrow> ('v \<times> AI2048) option"
  and player_loop :: "(int list \<Rightarrow> 'v) \<Rightarrow> nat \<Rightarrow> nat list \<Rightarrow> 'v \<Rightarrow> 'v \<Rightarrow> AI2048 \<Rightarrow> ('v \<times> AI2048) option"
  and computer_loop :: "(int list \<Rightarrow> 'v) \<Rightarrow> nat \<Rightarrow> (nat \<times> int) list \<Rightarrow> 'v \<Rightarrow> 'v \<Rightarrow> AI2048 \<Rightarrow> ('v \<times> AI2048) option" where
  "MiniMaxSearch ev depth is_player alpha beta ai =
     (if depth = 0 \<or> IsWin (ai_tiles ai) then Some (ev (ai_tiles ai), ai)
      else if is_player then player_loop ev (depth - 1) [0..<4] alpha beta (ai\<lparr>ai_best_move := -1\<rparr>)
      else case GetCandidateSet (ai_tiles ai) of
        None \<Rightarrow> None
      | Some cs \<Rightarrow> computer_loop ev depth cs alpha beta ai)"
| "player_loop ev depth [] alpha beta ai = Some (alpha, ai)"
| "player_loop ev depth (dir # dirs) alpha beta ai =
     (case TryMove dir (ai_tiles ai) of (moved, t) \<Rightarrow>
        if \<not> moved then player_loop ev depth dirs alpha beta ai
        else case MiniMaxSearch ev depth False alpha beta (Clear\<lparr>ai_tiles := t\<rparr>) of
          None \<Rightarrow> None
        | Some (score, _) \<Rightarrow>
            let (alpha, ai) = (if score > alpha then (score, ai\<lparr>ai_best_move := int dir\<rparr>) else (alpha, ai))
            in if beta \<le> alpha then Some (beta, ai) else player_loop ev depth dirs alpha beta ai)"
| "computer_loop ev depth [] alpha beta ai = Some (beta, ai)"
| "computer_loop ev depth ((p, val) # cs) alpha beta ai =
     (case MiniMaxSearch ev depth True alpha beta (Clear\<lparr>ai_tiles := (ai_tiles ai)[p := int8 val]\<rparr>) of
        None \<Rightarrow> None
      | Some (score, _) \<Rightarrow>
          let beta = (if score < beta then score else beta)
          in if beta \<le> alpha then Some (alpha, ai) else computer_loop ev depth cs alpha beta ai)"
  by pat_completeness auto
termination
  by (relation "measures [\<lambda>x. case x of Inl (_, d, p, _) \<Rightarrow> 4 * d + (if p then 1 else 3)
       | Inr (Inl (_, d, _)) \<Rightarrow> 4 * d + 4 | Inr (Inr (_, d, _)) \<Rightarrow> 4 * d + 2,
     \<lambda>x. case x of Inl _ \<Rightarrow> 0 | Inr (Inl (_, _, ds, _)) \<Rightarrow> length ds | Inr (Inr (_, _, cs, _)) \<Rightarrow> length cs]")
    auto

section \<open>Playing\<close>

definition ai_INF :: rat where "ai_INF = 1000"

text \<open>\<open>GetPlayerBestMove\<close> searches deeper and deeper until the time is over: the first argument
  counts the searches that the time is enough for. \<open>best_score\<close> keeps its first value.\<close>

fun best_move_loop :: "nat \<Rightarrow> nat \<Rightarrow> int \<Rightarrow> AI2048 \<Rightarrow> (int \<times> AI2048) option" where
  "best_move_loop 0 depth best_move ai = Some (best_move, ai)"
| "best_move_loop (Suc n) depth best_move ai =
     (case MiniMaxSearch EvalAll depth True (- ai_INF) ai_INF ai of
        None \<Rightarrow> None
      | Some (new_score, ai) \<Rightarrow>
          if ai_best_move ai = -1 then Some (best_move, ai)
          else best_move_loop n (depth + 1) (if new_score > - ai_INF then ai_best_move ai else best_move) ai)"

definition GetPlayerBestMove :: "nat \<Rightarrow> AI2048 \<Rightarrow> (int \<times> AI2048) option" where
  "GetPlayerBestMove rounds ai = best_move_loop rounds 1 0 ai"

end
