(* ===== verification/Ai_Moves.thy ===== *)
theory Ai_Moves
  imports Ai_2048
begin

text \<open>
  The moves of 2048: \<open>TryMove\<close> works in place, cell by cell, with a walk and a table of merged
  cells. Seen from the edge that the tiles move to, the board is four independent lanes, and
  on each of them the move is the textbook one: remove the gaps, merge equal neighbours once
  from the edge on, fill up with empty cells.
\<close>

section \<open>Lanes\<close>

definition lane_cell :: "nat \<Rightarrow> nat \<Rightarrow> nat \<Rightarrow> nat" where
  "lane_cell dir l k = (if dir = kUp then 4 * k + l else if dir = kDown then 4 * (3 - k) + l
     else if dir = kLeft then 4 * l + k else 4 * l + (3 - k))"

definition lane :: "nat \<Rightarrow> 'x list \<Rightarrow> nat \<Rightarrow> 'x list" where
  "lane dir xs l = map (\<lambda>k. xs ! lane_cell dir l k) [0..<4]"

fun merge :: "int list \<Rightarrow> int list" where
  "merge (a # b # xs) = (if a = b then (a + 1) # merge xs else a # merge (b # xs))"
| "merge xs = xs"

definition slide :: "int list \<Rightarrow> int list" where
  "slide xs = (let ys = merge (filter (\<lambda>x. x \<noteq> 0) xs) in ys @ replicate (length xs - length ys) 0)"

lemma upt_4: "[0..<4] = [0, 1, 2, 3]"
  and upt_16: "[0..<16] = [0, 1, 2, 3, 4, 5, 6, 7, 8, 9, 10, 11, 12, 13, 14, 15]"
  by code_simp+

lemma less_4: "(k::nat) < 4 \<longleftrightarrow> k = 0 \<or> k = 1 \<or> k = 2 \<or> k = 3"
  by auto

lemma lane_cell_less: "l < 4 \<Longrightarrow> k < 4 \<Longrightarrow> lane_cell dir l k < 16"
  by (auto simp: lane_cell_def)

lemma lane_cell_inj:
  assumes "l < 4" "k < 4" "l' < 4" "k' < 4"
  shows "lane_cell dir l k = lane_cell dir l' k' \<longleftrightarrow> l = l' \<and> k = k'"
  using assms unfolding lane_cell_def less_4 by (elim disjE) simp_all

lemma length_lane [simp]: "length (lane dir xs l) = 4"
  by (simp add: lane_def)

lemma lane_nth [simp]: "k < 4 \<Longrightarrow> lane dir xs l ! k = xs ! lane_cell dir l k"
  by (simp add: lane_def)

lemma lane_update:
  assumes "l < 4" "k < 4" "l' < 4" "length xs = 20"
  shows "lane dir (xs[lane_cell dir l k := x]) l' = (if l' = l then (lane dir xs l)[k := x] else lane dir xs l')"
proof (rule nth_equalityI)
  fix j
  assume "j < length (lane dir (xs[lane_cell dir l k := x]) l')"
  then have j: "j < 4" by simp
  show "lane dir (xs[lane_cell dir l k := x]) l' ! j = (if l' = l then (lane dir xs l)[k := x] else lane dir xs l') ! j"
    using lane_cell_less [OF assms(1,2), of dir] lane_cell_inj [OF assms(1,2,3) j, of dir] j assms
    by (auto simp: nth_list_update)
qed simp

lemma dir_pos_lane:
  assumes "dir < 4" "l < 4"
  shows "dir_pos ! lane_cell dir l 0 ! dir = -1"
    and "k < 3 \<Longrightarrow> dir_pos ! lane_cell dir l (Suc k) ! dir = int (lane_cell dir l k)"
proof -
  have 1: "\<forall>dir \<in> {0..<4}. \<forall>l \<in> {0..<4}. dir_pos ! lane_cell dir l 0 ! dir = -1"
    by code_simp
  have 2: "\<forall>dir \<in> {0..<4}. \<forall>l \<in> {0..<4}. \<forall>k \<in> {0..<3}.
      dir_pos ! lane_cell dir l (Suc k) ! dir = int (lane_cell dir l k)"
    by code_simp
  show "dir_pos ! lane_cell dir l 0 ! dir = -1" using 1 assms by simp
  show "k < 3 \<Longrightarrow> dir_pos ! lane_cell dir l (Suc k) ! dir = int (lane_cell dir l k)" using 2 assms by simp
qed

text \<open>The walk on a lane: the last empty cell reached, and the tile behind it.\<close>

fun lane_target :: "int list \<Rightarrow> nat \<Rightarrow> nat \<times> nat option" where
  "lane_target vs 0 = (0, None)"
| "lane_target vs (Suc k) = (if vs ! k = 0 then lane_target vs k else (Suc k, Some k))"

lemma lane_target_le: "fst (lane_target vs k) \<le> k" "snd (lane_target vs k) = Some q \<Longrightarrow> q < k"
  by (induction k) (auto split: if_splits)

lemma target_loop_lane:
  assumes "dir < 4" "l < 4" "k < 4" "k < n"
  shows "target_loop n tiles dir (int (lane_cell dir l k)) =
    (case lane_target (lane dir tiles l) k of (p, q) \<Rightarrow> (int (lane_cell dir l p),
       case q of None \<Rightarrow> -1 | Some q \<Rightarrow> int (lane_cell dir l q)))"
  using assms(3,4)
proof (induction k arbitrary: n)
  case 0
  then obtain m where "n = Suc m" by (cases n) auto
  then show ?case using dir_pos_lane(1) [OF assms(1,2)] by (simp add: IsValid_def)
next
  case (Suc k)
  then obtain m where m: "n = Suc m" by (cases n) auto
  have "IsValid (int (lane_cell dir l k))"
    using lane_cell_less [OF assms(2), of k dir] Suc.prems(1) by (simp add: IsValid_def)
  then show ?case
    using dir_pos_lane(2) [OF assms(1,2), of k] Suc.IH [of m] Suc.prems m by (simp add: Let_def)
qed

lemma GetTargetPos_lane:
  assumes "dir < 4" "l < 4" "k < 4"
  shows "GetTargetPos tiles (int (lane_cell dir l k)) dir =
    (case lane_target (lane dir tiles l) k of (p, q) \<Rightarrow> (int (lane_cell dir l p),
       case q of None \<Rightarrow> -1 | Some q \<Rightarrow> int (lane_cell dir l q)))"
  using target_loop_lane [OF assms, of 4 tiles] assms(3) by (simp add: GetTargetPos_def)

section \<open>A move on a lane\<close>

text \<open>The body of the loops, on the tiles, the merged flags and the flag of a change of one lane.\<close>

fun lane_step :: "nat \<Rightarrow> int list \<times> bool list \<times> bool \<Rightarrow> int list \<times> bool list \<times> bool" where
  "lane_step k (vs, ms, c) =
     (if vs ! k > 0 then
        case lane_target vs k of
          (p, Some q) \<Rightarrow>
            if vs ! q = vs ! k \<and> \<not> ms ! q then (vs[q := int8 (vs ! q + 1), k := 0], ms[q := True], True)
            else if k \<noteq> p then (vs[p := vs ! k, k := 0], ms, True) else (vs, ms, c)
        | (p, None) \<Rightarrow> if k \<noteq> p then (vs[p := vs ! k, k := 0], ms, True) else (vs, ms, c)
      else (vs, ms, c))"

declare lane_step.simps [simp del]

definition tile_ok :: "int \<Rightarrow> bool" where
  "tile_ok v \<longleftrightarrow> 0 \<le> v \<and> v \<le> 126"

lemma int8_suc: "tile_ok v \<Longrightarrow> int8 (v + 1) = v + 1"
  by (simp add: tile_ok_def int8_def)

lemma lane_run:
  assumes "tile_ok a" "tile_ok b" "tile_ok c" "tile_ok d"
  shows "\<exists>ms. fold lane_step [0, 1, 2, 3] ([a, b, c, d], replicate 4 False, False) =
    (slide [a, b, c, d], ms, slide [a, b, c, d] \<noteq> [a, b, c, d])"
proof -
  have p: "0 \<le> a" "0 \<le> b" "0 \<le> c" "0 \<le> d" using assms by (simp_all add: tile_ok_def)
  note int8_suc [OF assms(1)] int8_suc [OF assms(2)] int8_suc [OF assms(3)] int8_suc [OF assms(4)]
  then show ?thesis
    using p
    by (cases "a = 0"; cases "b = 0"; cases "c = 0"; cases "d = 0";
      simp add: lane_step.simps slide_def numeral_eq_Suc)
qed

section \<open>The board is four lanes\<close>

definition board_ok :: "move \<Rightarrow> bool" where
  "board_ok mv \<longleftrightarrow> length (mv_tiles mv) = 20 \<and> length (mv_merged mv) = 20"

definition lane_view :: "nat \<Rightarrow> nat \<Rightarrow> bool \<Rightarrow> move \<Rightarrow> int list \<times> bool list \<times> bool" where
  "lane_view dir l c mv = (lane dir (mv_tiles mv) l, lane dir (mv_merged mv) l, c)"

lemma move_cell_lane:
  assumes "dir < 4" "l < 4" "k < 4" "board_ok mv"
  defines "mv' \<equiv> move_cell dir (lane_cell dir l k) mv"
  shows "board_ok mv' \<and> (\<exists>c'. lane_view dir l c' mv' = lane_step k (lane_view dir l (mv_can mv) mv) \<and> mv_can mv' = c') \<and>
    (\<forall>l' < 4. l' \<noteq> l \<longrightarrow> lane_view dir l' c mv' = lane_view dir l' c mv) \<and>
    (\<forall>i. 16 \<le> i \<longrightarrow> mv_tiles mv' ! i = mv_tiles mv ! i)"
proof -
  let ?vs = "lane dir (mv_tiles mv) l"
  have len: "length (mv_tiles mv) = 20" "length (mv_merged mv) = 20" using assms(4) by (simp_all add: board_ok_def)
  obtain p q where t: "lane_target ?vs k = (p, q)" by fastforce
  then have p: "p < 4" "\<And>j. q = Some j \<Longrightarrow> j < 4"
    using lane_target_le [of ?vs k] assms(3) by (fastforce dest: order_le_less_trans)+
  have cells: "lane_cell dir l k < 16" "lane_cell dir l p < 16" "\<And>j. q = Some j \<Longrightarrow> lane_cell dir l j < 16"
    using lane_cell_less assms(2,3) p by auto
  have eq: "lane_cell dir l k = lane_cell dir l p \<longleftrightarrow> k = p"
    using lane_cell_inj assms(2,3) p(1) by blast
  note g = GetTargetPos_lane [OF assms(1-3), of "mv_tiles mv", unfolded t prod.case]
  show ?thesis
    using t g len p cells eq assms(2,3)
    by (cases q; cases mv)
      (auto simp: mv'_def move_cell_def Let_def lane_view_def lane_step.simps board_ok_def
        lane_update IsValid_def)
qed

text \<open>The flag of a lane only ever rises, and a lane does not look at it.\<close>

lemma lane_step_flag:
  obtains vs' ms' b where "\<And>c. lane_step k (vs, ms, c) = (vs', ms', c \<or> b)"
proof -
  obtain vs' ms' b where "lane_step k (vs, ms, False) = (vs', ms', b)" by (metis prod_cases3)
  then have "lane_step k (vs, ms, c) = (vs', ms', c \<or> b)" for c
    by (auto simp: lane_step.simps split: if_splits option.splits prod.splits)
  then show ?thesis by (rule that)
qed

lemma lane_steps_flag:
  "\<exists>vs' ms' b. \<forall>c. fold lane_step ks (vs, ms, c) = (vs', ms', c \<or> b)"
proof (induction ks arbitrary: vs ms)
  case (Cons k ks)
  obtain vs1 ms1 b1 where 1: "\<And>c. lane_step k (vs, ms, c) = (vs1, ms1, c \<or> b1)"
    using lane_step_flag [of k vs ms] by blast
  obtain vs2 ms2 b2 where 2: "\<And>c. fold lane_step ks (vs1, ms1, c) = (vs2, ms2, c \<or> b2)"
    using Cons [of vs1 ms1] by blast
  show ?case
    by (intro exI [of _ vs2] exI [of _ ms2] exI [of _ "b1 \<or> b2"]) (auto simp: 1 2)
qed auto

definition ranks :: "nat \<Rightarrow> (nat \<times> nat) list \<Rightarrow> nat list" where
  "ranks l qs = map snd (filter (\<lambda>(l', _). l' = l) qs)"

lemma ranks_simps [simp]:
  "ranks l [] = []" "ranks l ((l', k) # qs) = (if l' = l then k # ranks l qs else ranks l qs)"
  by (simp_all add: ranks_def)

text \<open>Any order of the cells in which every lane is visited from the edge on gives the lanes.\<close>

lemma move_cells_lanes:
  assumes "dir < 4" "list_all (\<lambda>(l, k). l < 4 \<and> k < 4) qs" "board_ok mv"
  defines "mv' \<equiv> fold (\<lambda>(l, k). move_cell dir (lane_cell dir l k)) qs mv"
  shows "board_ok mv' \<and>
    (\<forall>l < 4. \<exists>c'. lane_view dir l c' mv' = fold lane_step (ranks l qs) (lane_view dir l False mv)) \<and>
    (mv_can mv' \<longleftrightarrow> mv_can mv \<or> (\<exists>l < 4. snd (snd (fold lane_step (ranks l qs) (lane_view dir l False mv))))) \<and>
    (\<forall>i. 16 \<le> i \<longrightarrow> mv_tiles mv' ! i = mv_tiles mv ! i)"
  using assms(2,3) unfolding mv'_def
proof (induction qs arbitrary: mv)
  case Nil
  then show ?case by (auto simp: lane_view_def)
next
  case (Cons q qs)
  obtain l0 k0 where q: "q = (l0, k0)" by fastforce
  let ?m = "move_cell dir (lane_cell dir l0 k0) mv"
  have l0: "l0 < 4" "k0 < 4" "list_all (\<lambda>(l, k). l < 4 \<and> k < 4) qs" using Cons.prems(1) q by auto
  obtain c1 where m: "board_ok ?m" "lane_view dir l0 c1 ?m = lane_step k0 (lane_view dir l0 (mv_can mv) mv)"
    "mv_can ?m = c1" "\<And>l c. l < 4 \<Longrightarrow> l \<noteq> l0 \<Longrightarrow> lane_view dir l c ?m = lane_view dir l c mv"
    "\<And>i. 16 \<le> i \<Longrightarrow> mv_tiles ?m ! i = mv_tiles mv ! i"
    using move_cell_lane [OF assms(1) l0(1,2) Cons.prems(2)] by (metis (no_types, lifting))
  note ih = Cons.IH [OF l0(3) m(1)]
  obtain vs ms b where s: "\<And>c. lane_step k0 (lane_view dir l0 c mv) = (vs, ms, c \<or> b)"
    using lane_step_flag [of k0 "lane dir (mv_tiles mv) l0" "lane dir (mv_merged mv) l0"]
    unfolding lane_view_def by metis
  have m0: "lane_view dir l0 c ?m = (vs, ms, c)" and c1: "c1 = (mv_can mv \<or> b)" for c
    using m(2) s by (auto simp: lane_view_def)
  obtain vs2 ms2 b2 where f: "\<And>c. fold lane_step (ranks l0 qs) (vs, ms, c) = (vs2, ms2, c \<or> b2)"
    using lane_steps_flag [of "ranks l0 qs" vs ms] by blast
  have run: "fold lane_step (ranks l (q # qs)) (lane_view dir l False mv) =
      (if l = l0 then (vs2, ms2, b \<or> b2) else fold lane_step (ranks l qs) (lane_view dir l False ?m))"
    if "l < 4" for l
    using that q s f m(4) by auto
  have view: "\<exists>c'. lane_view dir l c' (fold (\<lambda>(l, k). move_cell dir (lane_cell dir l k)) qs ?m) =
      fold lane_step (ranks l (q # qs)) (lane_view dir l False mv)" if "l < 4" for l
  proof (cases "l = l0")
    case True
    obtain c' where "lane_view dir l0 c' (fold (\<lambda>(l, k). move_cell dir (lane_cell dir l k)) qs ?m) =
        fold lane_step (ranks l0 qs) (lane_view dir l0 False ?m)"
      using ih l0(1) by blast
    then have "lane_view dir l0 (b \<or> b2) (fold (\<lambda>(l, k). move_cell dir (lane_cell dir l k)) qs ?m) = (vs2, ms2, b \<or> b2)"
      using f m0 by (simp add: lane_view_def)
    then show ?thesis using run [OF that] True by auto
  next
    case False
    then show ?thesis using run [OF that] ih that by auto
  qed
  have can: "(mv_can ?m \<or> (\<exists>l < 4. snd (snd (fold lane_step (ranks l qs) (lane_view dir l False ?m))))) \<longleftrightarrow>
      (mv_can mv \<or> (\<exists>l < 4. snd (snd (fold lane_step (ranks l (q # qs)) (lane_view dir l False mv)))))"
  proof -
    define F where "F l = snd (snd (fold lane_step (ranks l qs) (lane_view dir l False ?m)))" for l
    define G where "G l = snd (snd (fold lane_step (ranks l (q # qs)) (lane_view dir l False mv)))" for l
    have "F l0 = b2" using f [of False] m0 [of False] by (simp add: F_def)
    then have "G l = (if l = l0 then b \<or> F l else F l)" if "l < 4" for l
      using run [OF that] that by (simp add: F_def G_def)
    then have "(\<exists>l < 4. G l) \<longleftrightarrow> b \<or> (\<exists>l < 4. F l)" using l0(1) by metis
    then show ?thesis unfolding m(3) c1 F_def G_def by blast
  qed
  show ?case using ih view can m(5) q by simp
qed

lemma move_order_lanes:
  assumes "dir < 4"
  obtains qs where "move_order dir = map (\<lambda>(l, k). lane_cell dir l k) qs"
    "list_all (\<lambda>(l, k). l < 4 \<and> k < 4) qs" "\<And>l. l < 4 \<Longrightarrow> ranks l qs = [0, 1, 2, 3]"
proof -
  let ?rows = "concat (map (\<lambda>k. map (\<lambda>l. (l, k)) [0..<4]) [0..<4])"
  let ?cols = "concat (map (\<lambda>l. map (\<lambda>k. (l, k)) [0..<4]) [0..<4])"
  have 1: "move_order kUp = map (\<lambda>(l, k). lane_cell kUp l k) ?rows"
    "move_order kDown = map (\<lambda>(l, k). lane_cell kDown l k) ?rows"
    "move_order kLeft = map (\<lambda>(l, k). lane_cell kLeft l k) ?cols"
    "move_order kRight = map (\<lambda>(l, k). lane_cell kRight l k) ?cols"
    by code_simp+
  have 2: "\<forall>l \<in> {0..<4}. ranks l ?rows = [0, 1, 2, 3]" "\<forall>l \<in> {0..<4}. ranks l ?cols = [0, 1, 2, 3]"
    by code_simp+
  have 3: "list_all (\<lambda>(l, k). l < 4 \<and> k < 4) ?rows" "list_all (\<lambda>(l, k). l < 4 \<and> k < 4) ?cols"
    by code_simp+
  consider "dir = kUp" | "dir = kDown" | "dir = kLeft" | "dir = kRight"
    using assms by (auto simp: directions less_4)
  then show ?thesis
    by cases (rule that [of ?rows], use 1 2 3 in auto, rule that [of ?rows], use 1 2 3 in auto,
      rule that [of ?cols], use 1 2 3 in auto, rule that [of ?cols], use 1 2 3 in auto)
qed

section \<open>A move is a slide of every lane\<close>

definition tiles_ok :: "int list \<Rightarrow> bool" where
  "tiles_ok tiles \<longleftrightarrow> length tiles = 20 \<and> list_all tile_ok tiles"

lemma lane_cell_surj:
  assumes "dir < 4" "i < 16"
  obtains l k where "l < 4" "k < 4" "i = lane_cell dir l k"
proof -
  have d: "i div 4 < 4" "i mod 4 < 4" "4 * (i div 4) + i mod 4 = i" using assms(2) by auto
  have r: "4 * (3 - (3 - i div 4)) + i mod 4 = i" "4 * (i div 4) + (3 - (3 - i mod 4)) = i"
  proof -
    have "3 - (3 - i div 4) = i div 4" "3 - (3 - i mod 4) = i mod 4" using d(1,2) by linarith+
    then show "4 * (3 - (3 - i div 4)) + i mod 4 = i" "4 * (i div 4) + (3 - (3 - i mod 4)) = i"
      using d(3) by simp_all
  qed
  consider "dir = kUp" | "dir = kDown" | "dir = kLeft" | "dir = kRight"
    using assms(1) by (auto simp: directions less_4)
  then show ?thesis
  proof cases
    case 1
    then show ?thesis using d that [of "i mod 4" "i div 4"] by (simp add: lane_cell_def)
  next
    case 2
    then show ?thesis using d r that [of "i mod 4" "3 - i div 4"] by (simp add: lane_cell_def directions)
  next
    case 3
    then show ?thesis using d that [of "i div 4" "i mod 4"] by (simp add: lane_cell_def directions)
  next
    case 4
    then show ?thesis using d r that [of "i div 4" "3 - i mod 4"] by (simp add: lane_cell_def directions)
  qed
qed

lemma lane_4: "lane dir xs l = [xs ! lane_cell dir l 0, xs ! lane_cell dir l 1, xs ! lane_cell dir l 2, xs ! lane_cell dir l 3]"
  by (simp add: lane_def upt_4)

lemma boards_equal:
  assumes "dir < 4" "length s = 20" "length t = 20" "\<And>i. 16 \<le> i \<Longrightarrow> t ! i = s ! i"
  shows "t = s \<longleftrightarrow> (\<forall>l < 4. lane dir t l = lane dir s l)"
proof
  assume l: "\<forall>l < 4. lane dir t l = lane dir s l"
  show "t = s"
  proof (rule nth_equalityI)
    fix i assume "i < length t"
    show "t ! i = s ! i"
    proof (cases "i < 16")
      case True
      then obtain m k where "m < 4" "k < 4" "i = lane_cell dir m k" using lane_cell_surj [OF assms(1)] by blast
      then show ?thesis using l by (metis lane_nth)
    qed (use assms(4) in simp)
  qed (use assms in simp)
qed simp

lemma try_move_lanes:
  assumes "dir < 4" "tiles_ok tiles" "TryMove dir tiles = (moved, t)"
  shows "length t = 20 \<and> (\<forall>l < 4. lane dir t l = slide (lane dir tiles l)) \<and> (moved \<longleftrightarrow> t \<noteq> tiles) \<and>
    (\<forall>i. 16 \<le> i \<longrightarrow> t ! i = tiles ! i)"
proof -
  let ?m = "\<lparr>mv_tiles = tiles, mv_merged = replicate 20 False, mv_can = False\<rparr>"
  have len: "length tiles = 20" and ok: "\<And>i. i < 20 \<Longrightarrow> tile_ok (tiles ! i)"
    using assms(2) by (auto simp: tiles_ok_def list_all_length)
  obtain qs where qs: "move_order dir = map (\<lambda>(l, k). lane_cell dir l k) qs"
    "list_all (\<lambda>(l, k). l < 4 \<and> k < 4) qs" "\<And>l. l < 4 \<Longrightarrow> ranks l qs = [0, 1, 2, 3]"
    using move_order_lanes [OF assms(1)] by blast
  let ?r = "fold (\<lambda>(l, k). move_cell dir (lane_cell dir l k)) qs ?m"
  have r: "mv_can ?r = moved" "mv_tiles ?r = t"
  proof -
    have "(\<lambda>(l, k). move_cell dir (lane_cell dir l k)) = move_cell dir \<circ> (\<lambda>(l, k). lane_cell dir l k)"
      by auto
    then show "mv_can ?r = moved" "mv_tiles ?r = t"
      using assms(3) by (simp_all add: TryMove_def Let_def qs(1) fold_map)
  qed
  have b: "board_ok ?m" using len by (simp add: board_ok_def)
  note steps = move_cells_lanes [OF assms(1) qs(2) b, unfolded r]
  have run: "\<exists>ms. fold lane_step (ranks l qs) (lane_view dir l False ?m) =
      (slide (lane dir tiles l), ms, slide (lane dir tiles l) \<noteq> lane dir tiles l)" if "l < 4" for l
  proof -
    have "tile_ok (tiles ! lane_cell dir l k)" if "k < 4" for k
      using ok lane_cell_less [OF \<open>l < 4\<close> that, of dir] by simp
    moreover have "lane dir (replicate 20 False) l = replicate 4 False"
    proof (rule nth_equalityI)
      fix k assume "k < length (lane dir (replicate 20 False) l)"
      then have "k < 4" by simp
      then show "lane dir (replicate 20 False) l ! k = replicate 4 False ! k"
        using lane_cell_less [OF that, of k dir] by simp
    qed simp
    ultimately show ?thesis
      using lane_run [of "tiles ! lane_cell dir l 0" "tiles ! lane_cell dir l 1"
          "tiles ! lane_cell dir l 2" "tiles ! lane_cell dir l 3"]
      unfolding qs(3) [OF that] lane_view_def move.select_convs lane_4 by simp
  qed
  have lanes: "lane dir t l = slide (lane dir tiles l)" if "l < 4" for l
    using steps run [OF that] that r by (auto simp: lane_view_def)
  have flag: "snd (snd (fold lane_step (ranks l qs) (lane_view dir l False ?m))) \<longleftrightarrow>
      slide (lane dir tiles l) \<noteq> lane dir tiles l" if "l < 4" for l
    using run [OF that] by auto
  have can: "moved \<longleftrightarrow> (\<exists>l < 4. snd (snd (fold lane_step (ranks l qs) (lane_view dir l False ?m))))"
    using steps by simp
  have rest: "length t = 20" "\<And>i. 16 \<le> i \<Longrightarrow> t ! i = tiles ! i"
    using steps r by (auto simp: board_ok_def)
  have "t = tiles \<longleftrightarrow> (\<forall>l < 4. lane dir t l = lane dir tiles l)"
    by (rule boards_equal [OF assms(1) len rest])
  also have "\<dots> \<longleftrightarrow> (\<forall>l < 4. slide (lane dir tiles l) = lane dir tiles l)" using lanes by simp
  also have "\<dots> \<longleftrightarrow> \<not> moved" unfolding can using flag by blast
  finally show ?thesis using lanes rest by blast
qed

text \<open>What a slide keeps: the sum of the numbers, the sign and the bound of the tiles, and it only
  changes a lane by opening a gap.\<close>

definition number :: "int \<Rightarrow> int" where
  "number v = (if v > 0 then 2 ^ nat v else 0)"

lemma merge_sum: "list_all (\<lambda>v. 0 < v) xs \<Longrightarrow> sum_list (map number (merge xs)) = sum_list (map number xs)"
  by (induction xs rule: merge.induct) (auto simp: number_def nat_add_distrib)

lemma number_filter: "sum_list (map number (filter (\<lambda>v. v \<noteq> 0) xs)) = sum_list (map number xs)"
  by (induction xs) (auto simp: number_def)

lemma slide_sum:
  assumes "list_all (\<lambda>v. 0 \<le> v) xs"
  shows "sum_list (map number (slide xs)) = sum_list (map number xs)"
proof -
  have "list_all (\<lambda>v. 0 < v) (filter (\<lambda>v. v \<noteq> 0) xs)" using assms by (auto simp: list_all_iff)
  from merge_sum [OF this] show ?thesis
    by (simp add: slide_def Let_def number_filter sum_list_replicate number_def)
qed

lemma merge_length: "length (merge xs) \<le> length xs" "length (merge xs) = length xs \<Longrightarrow> merge xs = xs"
proof -
  have "length (merge xs) \<le> length xs \<and> (length (merge xs) = length xs \<longrightarrow> merge xs = xs)"
    by (induction xs rule: merge.induct) auto
  then show "length (merge xs) \<le> length xs" "length (merge xs) = length xs \<Longrightarrow> merge xs = xs" by auto
qed

lemma length_slide [simp]: "length (slide xs) = length xs"
proof -
  have "length (merge (filter (\<lambda>v. v \<noteq> 0) xs)) \<le> length xs"
    using merge_length(1) length_filter_le le_trans by blast
  then show ?thesis by (simp add: slide_def Let_def)
qed

lemma slide_gap:
  assumes "slide xs \<noteq> xs"
  shows "0 \<in> set (slide xs)"
proof (rule ccontr)
  let ?f = "filter (\<lambda>v. v \<noteq> 0) xs"
  assume n: "0 \<notin> set (slide xs)"
  then have "length xs - length (merge ?f) = 0" by (auto simp: slide_def Let_def)
  then have "length (merge ?f) = length ?f" "length ?f = length xs"
    using merge_length(1) [of ?f] length_filter_le [of "\<lambda>v. v \<noteq> 0" xs] by linarith+
  moreover from this(2) have "?f = xs"
    by (metis filter_id_conv length_filter_less nat_neq_iff)
  ultimately have "slide xs = xs" using merge_length(2) [of ?f] by (simp add: slide_def Let_def)
  with assms show False by simp
qed

lemma merge_bound:
  "list_all (\<lambda>v. 0 < v \<and> v \<le> m) xs \<Longrightarrow> list_all (\<lambda>v. 0 < v \<and> v \<le> m + 1) (merge xs)"
  by (induction xs rule: merge.induct) auto

lemma slide_bound:
  assumes "list_all (\<lambda>v. 0 \<le> v \<and> v \<le> m) xs"
  shows "list_all (\<lambda>v. 0 \<le> v \<and> v \<le> m + 1) (slide xs)"
proof (cases "0 \<le> m")
  case True
  have "list_all (\<lambda>v. 0 < v \<and> v \<le> m) (filter (\<lambda>v. v \<noteq> 0) xs)" using assms by (auto simp: list_all_iff)
  from merge_bound [OF this] show ?thesis using True by (fastforce simp: slide_def Let_def list_all_iff)
next
  case False
  then have "xs = []" using assms by (cases xs) auto
  then show ?thesis by (simp add: slide_def)
qed

definition board_sum :: "int list \<Rightarrow> int" where
  "board_sum tiles = sum_list (map (\<lambda>i. number (tiles ! i)) [0..<16])"

lemma board_sum_lanes:
  assumes "dir < 4"
  shows "board_sum tiles = sum_list (map (\<lambda>l. sum_list (map number (lane dir tiles l))) [0..<4])"
  using assms unfolding less_4
  by (elim disjE) (simp_all add: board_sum_def lane_4 upt_4 upt_16 lane_cell_def directions numeral_2_eq_2)

definition bounded_tiles :: "int \<Rightarrow> int list \<Rightarrow> bool" where
  "bounded_tiles m tiles \<longleftrightarrow> length tiles = 20 \<and> list_all (\<lambda>v. 0 \<le> v \<and> v \<le> m) tiles"

lemma bounded_ok: "bounded_tiles m tiles \<Longrightarrow> m \<le> 126 \<Longrightarrow> tiles_ok tiles"
  by (auto simp: bounded_tiles_def tiles_ok_def tile_ok_def list_all_iff)

lemma try_move_bounded:
  assumes "dir < 4" "bounded_tiles m tiles" "m \<le> 126" "TryMove dir tiles = (moved, t)"
  shows "bounded_tiles (m + 1) t"
proof -
  note mv = try_move_lanes [OF assms(1) bounded_ok [OF assms(2,3)] assms(4)]
  have b: "\<And>i. i < 20 \<Longrightarrow> 0 \<le> tiles ! i \<and> tiles ! i \<le> m" and len: "length tiles = 20"
    using assms(2) by (auto simp: bounded_tiles_def list_all_length)
  have "0 \<le> t ! i \<and> t ! i \<le> m + 1" if i: "i < 20" for i
  proof (cases "i < 16")
    case True
    then obtain l k where lk: "l < 4" "k < 4" "i = lane_cell dir l k" using lane_cell_surj [OF assms(1)] by blast
    have "list_all (\<lambda>v. 0 \<le> v \<and> v \<le> m) (lane dir tiles l)"
    proof (clarsimp simp: list_all_length)
      fix j :: nat assume "j < 4"
      then show "0 \<le> tiles ! lane_cell dir l j \<and> tiles ! lane_cell dir l j \<le> m"
        using b [of "lane_cell dir l j"] lane_cell_less [OF lk(1), of j dir] by simp
    qed
    from slide_bound [OF this] have "list_all (\<lambda>v. 0 \<le> v \<and> v \<le> m + 1) (lane dir t l)"
      using mv lk(1) by simp
    then show ?thesis using lk by (auto simp: list_all_length)
  next
    case False
    then show ?thesis using mv b [OF i] by auto
  qed
  then show ?thesis using mv by (simp add: bounded_tiles_def list_all_length)
qed

lemma moved_gap:
  assumes "dir < 4" "tiles_ok tiles" "TryMove dir tiles = (True, t)"
  shows "GetAllEmptyPos t \<noteq> []"
proof -
  note mv = try_move_lanes [OF assms]
  have len: "length tiles = 20" using assms(2) by (simp add: tiles_ok_def)
  obtain l where l: "l < 4" "lane dir t l \<noteq> lane dir tiles l"
    using mv boards_equal [OF assms(1) len, of t] by auto
  then have "slide (lane dir tiles l) \<noteq> lane dir tiles l" using mv by auto
  then have "0 \<in> set (lane dir t l)" using slide_gap mv l(1) by metis
  then obtain k where "k < 4" "t ! lane_cell dir l k = 0" by (auto simp: lane_def)
  moreover have "lane_cell dir l k < 16" using lane_cell_less l(1) calculation(1) by simp
  ultimately show ?thesis by (auto simp: GetAllEmptyPos_def filter_empty_conv intro!: bexI)
qed

end
