(* ===== verification/Ai_Search.thy ===== *)
theory Ai_Search
  imports Ai_Moves
begin

text \<open>
  The search of the 2048 player: alpha-beta pruning computes the minimax value of the game tree
  that \<open>TryMove\<close> and \<open>GetCandidateSet\<close> generate, cut to the window; the move it remembers is one
  whose value is that of the tree; and no assertion fails on the way.
\<close>

section \<open>The game tree\<close>

definition player_moves :: "nat list \<Rightarrow> int list \<Rightarrow> int list list" where
  "player_moves dirs tiles = map snd (filter fst (map (\<lambda>dir. TryMove dir tiles) dirs))"

definition replies :: "(nat \<times> int) list \<Rightarrow> int list \<Rightarrow> int list list" where
  "replies cs tiles = map (\<lambda>(p, val). tiles[p := int8 val]) cs"

text \<open>Plain minimax. A player without a move has the value \<open>lo\<close>, a computer without a reply \<open>hi\<close>.\<close>

fun player_value :: "(int list \<Rightarrow> 'v :: linorder) \<Rightarrow> 'v \<Rightarrow> 'v \<Rightarrow> nat \<Rightarrow> int list \<Rightarrow> 'v" where
  "player_value ev lo hi 0 tiles = ev tiles"
| "player_value ev lo hi (Suc d) tiles =
     (if IsWin tiles then ev tiles
      else foldr (\<lambda>t. max
        (if d = 0 \<or> IsWin t then ev t
         else foldr (\<lambda>u. min (player_value ev lo hi d u)) (replies (the (GetCandidateSet t)) t) hi))
        (player_moves [0..<4] tiles) lo)"

definition computer_value :: "(int list \<Rightarrow> 'v :: linorder) \<Rightarrow> 'v \<Rightarrow> 'v \<Rightarrow> nat \<Rightarrow> int list \<Rightarrow> 'v" where
  "computer_value ev lo hi d t =
     (if d = 0 \<or> IsWin t then ev t
      else foldr (\<lambda>u. min (player_value ev lo hi d u)) (replies (the (GetCandidateSet t)) t) hi)"

lemma player_value_Suc:
  "player_value ev lo hi (Suc d) tiles = (if IsWin tiles then ev tiles
     else foldr (\<lambda>t. max (computer_value ev lo hi d t)) (player_moves [0..<4] tiles) lo)"
  by (simp add: computer_value_def)

declare player_value.simps(2) [simp del]

definition node_value :: "(int list \<Rightarrow> 'v :: linorder) \<Rightarrow> 'v \<Rightarrow> 'v \<Rightarrow> nat \<Rightarrow> bool \<Rightarrow> int list \<Rightarrow> 'v" where
  "node_value ev lo hi d is_player = (if is_player then player_value ev lo hi d else computer_value ev lo hi d)"

section \<open>Values cut to a window\<close>

definition cut :: "'v :: linorder \<Rightarrow> 'v \<Rightarrow> 'v \<Rightarrow> 'v" where
  "cut alpha beta x = max alpha (min beta x)"

lemma cut_le: "alpha \<le> beta \<Longrightarrow> alpha \<le> cut alpha beta x \<and> cut alpha beta x \<le> beta"
  by (simp add: cut_def)

lemma cut_eq:
  assumes "alpha < beta"
  shows "cut alpha beta x = alpha \<longleftrightarrow> x \<le> alpha" "cut alpha beta x = beta \<longleftrightarrow> beta \<le> x"
    "alpha < s \<Longrightarrow> s < beta \<Longrightarrow> cut alpha beta x = s \<longleftrightarrow> x = s"
  using assms by (auto simp: cut_def max_def min_def)

lemma cut_cases:
  assumes "alpha < beta" "cut alpha beta s = cut alpha beta c"
  obtains (low) "s \<le> alpha" "c \<le> alpha" | (inside) "alpha < s" "s < beta" "c = s" | (high) "beta \<le> s" "beta \<le> c"
proof -
  consider "s \<le> alpha" | "alpha < s" "s < beta" | "beta \<le> s" by fastforce
  then show ?thesis
  proof cases
    case 1
    then show ?thesis using low cut_eq(1) [OF assms(1)] assms(2) by metis
  next
    case 2
    then show ?thesis using inside cut_eq(3) [OF assms(1) 2] assms(2) by metis
  next
    case 3
    then show ?thesis using high cut_eq(2) [OF assms(1)] assms(2) by metis
  qed
qed

lemma cut_max:
  "alpha < beta \<Longrightarrow> c \<le> alpha \<Longrightarrow> cut alpha beta (max c r) = cut alpha beta r"
  "alpha < s \<Longrightarrow> s < beta \<Longrightarrow> cut alpha beta (max s r) = cut s beta r"
  "alpha < beta \<Longrightarrow> beta \<le> c \<Longrightarrow> cut alpha beta (max c r) = beta"
  by (auto simp: cut_def max_def min_def)

lemma cut_min:
  "alpha < beta \<Longrightarrow> beta \<le> c \<Longrightarrow> cut alpha beta (min c r) = cut alpha beta r"
  "alpha < s \<Longrightarrow> s < beta \<Longrightarrow> cut alpha beta (min s r) = cut alpha s r"
  "alpha < beta \<Longrightarrow> c \<le> alpha \<Longrightarrow> cut alpha beta (min c r) = alpha"
  by (auto simp: cut_def max_def min_def)

lemma cut_end: "lo \<le> alpha \<Longrightarrow> alpha < beta \<Longrightarrow> cut alpha beta lo = alpha"
  "beta \<le> hi \<Longrightarrow> alpha < beta \<Longrightarrow> cut alpha beta hi = beta"
  by (auto simp: cut_def max_def min_def)

lemma cut_narrow: "alpha < s \<Longrightarrow> s < v \<Longrightarrow> cut s beta c = v \<Longrightarrow> cut alpha beta c = v"
  by (auto simp: cut_def max_def min_def split: if_splits)

lemma cut_self: "alpha < s \<Longrightarrow> s < beta \<Longrightarrow> cut alpha beta s = s"
  by (simp add: cut_def)

section \<open>Pruning does not change the value\<close>

definition best_ok :: "(int list \<Rightarrow> 'v :: linorder) \<Rightarrow> 'v \<Rightarrow> 'v \<Rightarrow> nat \<Rightarrow> nat list \<Rightarrow> 'v \<Rightarrow> 'v \<Rightarrow> AI2048 \<Rightarrow> 'v \<Rightarrow> AI2048 \<Rightarrow> bool" where
  "best_ok ev lo hi d dirs alpha beta ai v ai' \<longleftrightarrow>
     (v = alpha \<and> ai' = ai) \<or>
     (alpha < v \<and> (\<exists>dir \<in> set dirs. ai' = ai\<lparr>ai_best_move := int dir\<rparr> \<and> fst (TryMove dir (ai_tiles ai)) \<and>
        cut alpha beta (computer_value ev lo hi d (snd (TryMove dir (ai_tiles ai)))) = v))"

lemma player_moves_Cons:
  "player_moves (dir # dirs) t =
     (if fst (TryMove dir t) then snd (TryMove dir t) # player_moves dirs t else player_moves dirs t)"
  by (simp add: player_moves_def)

lemma replies_Cons: "replies ((p, val) # cs) t = t[p := int8 val] # replies cs t"
  by (simp add: replies_def)

declare MiniMaxSearch.simps [simp del] player_loop.simps(2) [simp del] computer_loop.simps(2) [simp del]

lemma search_values:
  fixes lo hi :: "'v :: linorder"
  shows "lo \<le> alpha \<Longrightarrow> alpha < beta \<Longrightarrow> beta \<le> hi \<Longrightarrow> MiniMaxSearch ev d is_player alpha beta ai = Some (v, ai') \<Longrightarrow>
      cut alpha beta v = cut alpha beta (node_value ev lo hi d is_player (ai_tiles ai)) \<and>
      (0 < d \<and> \<not> IsWin (ai_tiles ai) \<longrightarrow> alpha \<le> v \<and> v \<le> beta)"
    and "lo \<le> alpha \<Longrightarrow> alpha < beta \<Longrightarrow> beta \<le> hi \<Longrightarrow> player_loop ev d dirs alpha beta ai = Some (v, ai') \<Longrightarrow>
      v = cut alpha beta (foldr (\<lambda>t. max (computer_value ev lo hi d t)) (player_moves dirs (ai_tiles ai)) lo) \<and>
      best_ok ev lo hi d dirs alpha beta ai v ai'"
    and "lo \<le> alpha \<Longrightarrow> alpha < beta \<Longrightarrow> beta \<le> hi \<Longrightarrow> computer_loop ev d cs alpha beta ai = Some (v, ai') \<Longrightarrow>
      v = cut alpha beta (foldr (\<lambda>t. min (player_value ev lo hi d t)) (replies cs (ai_tiles ai)) hi)"
proof (induction ev d is_player alpha beta ai and ev d dirs alpha beta ai and ev d cs alpha beta ai
    arbitrary: v ai' and v ai' and v ai' rule: MiniMaxSearch_player_loop_computer_loop.induct)
  case (1 ev d is_player alpha beta ai)
  show ?case
  proof (cases "d = 0 \<or> IsWin (ai_tiles ai)")
    case True
    then have "v = ev (ai_tiles ai)" using "1.prems"(4) by (auto simp: MiniMaxSearch.simps [of ev d])
    moreover have "node_value ev lo hi d is_player (ai_tiles ai) = ev (ai_tiles ai)"
      using True by (cases d) (auto simp: node_value_def computer_value_def player_value_Suc)
    ultimately show ?thesis using True by auto
  next
    case False
    then obtain d' where d: "d = Suc d'" by (cases d) auto
    show ?thesis
    proof (cases is_player)
      case True
      then have "player_loop ev d' [0..<4] alpha beta (ai\<lparr>ai_best_move := -1\<rparr>) = Some (v, ai')"
        using False d "1.prems"(4) by (simp add: MiniMaxSearch.simps [of ev "Suc d'"])
      then have "v = cut alpha beta (player_value ev lo hi d (ai_tiles ai))"
        using "1.IH"(1) [OF False True "1.prems"(1-3), of v ai'] False d by (simp add: player_value_Suc)
      then show ?thesis
        using True "1.prems"(2) cut_le [of alpha beta] by (auto simp: node_value_def cut_def)
    next
      case pl: False
      then obtain cs where cs: "GetCandidateSet (ai_tiles ai) = Some cs"
        "computer_loop ev d cs alpha beta ai = Some (v, ai')"
        using False "1.prems"(4) by (auto simp: MiniMaxSearch.simps [of ev d] split: option.splits)
      then have "v = cut alpha beta (computer_value ev lo hi d (ai_tiles ai))"
        using "1.IH"(2) [OF False pl cs(1) "1.prems"(1-3) cs(2)] False d by (simp add: computer_value_def)
      then show ?thesis
        using pl "1.prems"(2) cut_le [of alpha beta] by (auto simp: node_value_def cut_def)
    qed
  qed
next
  case (2 ev d alpha beta ai)
  then show ?case by (auto simp: player_moves_def cut_end best_ok_def)
next
  case (3 ev d dir dirs alpha beta ai)
  obtain moved t where mv: "TryMove dir (ai_tiles ai) = (moved, t)" by fastforce
  show ?case
  proof (cases moved)
    case False
    then have "player_loop ev d dirs alpha beta ai = Some (v, ai')"
      using "3.prems"(4) mv by (simp add: player_loop.simps(2))
    then show ?thesis
      using "3.IH"(1) [of _ _, OF mv [symmetric]] False "3.prems"(1-3) mv
      by (auto simp: player_moves_Cons best_ok_def)
  next
    case True
    note f = player_moves_Cons [of dir dirs "ai_tiles ai", unfolded mv fst_conv snd_conv, simplified True if_True]
    let ?c = "computer_value ev lo hi d t" and ?rest = "foldr (\<lambda>t. max (computer_value ev lo hi d t)) (player_moves dirs (ai_tiles ai)) lo"
    obtain score ai1 where s: "MiniMaxSearch ev d False alpha beta (Clear\<lparr>ai_tiles := t\<rparr>) = Some (score, ai1)"
      using "3.prems"(4) mv True by (auto simp: player_loop.simps(2) split: option.splits)
    have c: "cut alpha beta score = cut alpha beta ?c"
      using "3.IH"(2) [OF mv [symmetric]] True "3.prems"(1-3) s by (auto simp: node_value_def)
    show ?thesis
      using "3.prems"(2) c
    proof (cases rule: cut_cases)
      case low
      then have "\<not> alpha < score" "\<not> beta \<le> alpha" using "3.prems"(2) by auto
      then have "player_loop ev d dirs alpha beta ai = Some (v, ai')"
        using "3.prems"(4) mv True s by (simp add: player_loop.simps(2))
      moreover have "(alpha, ai) = (if alpha < score then (score, ai\<lparr>ai_best_move := int dir\<rparr>) else (alpha, ai))"
        using low(1) by auto
      ultimately have 1: "v = cut alpha beta ?rest" "best_ok ev lo hi d dirs alpha beta ai v ai'"
        using "3.IH"(3) [OF mv [symmetric] _ s refl refl] True "3.prems"(1-3) by force+
      then show ?thesis
        using cut_max(1) [OF "3.prems"(2) low(2), of ?rest] f by (auto simp: best_ok_def)
    next
      case inside
      let ?ai = "ai\<lparr>ai_best_move := int dir\<rparr>"
      have "\<not> beta \<le> score" using inside(2) by simp
      then have "player_loop ev d dirs score beta ?ai = Some (v, ai')"
        using "3.prems"(4) mv True s inside by (simp add: player_loop.simps(2))
      moreover have "(score, ?ai) = (if alpha < score then (score, ?ai) else (alpha, ai))"
        using inside(1) by auto
      ultimately have 1: "v = cut score beta ?rest" "best_ok ev lo hi d dirs score beta ?ai v ai'"
        using "3.IH"(3) [OF mv [symmetric] _ s refl refl] True inside "3.prems"(1-3) by force+
      have "v = cut alpha beta (max ?c ?rest)" using 1(1) inside cut_max(2) by metis
      moreover have "best_ok ev lo hi d (dir # dirs) alpha beta ai v ai'"
        using 1(2) inside mv True cut_self [OF inside(1,2)] cut_narrow [OF inside(1)]
        unfolding best_ok_def by (auto intro: less_trans)
      ultimately show ?thesis using f by simp
    next
      case high
      then have "alpha < score" using "3.prems"(2) by simp
      with high have "v = beta" "ai' = ai\<lparr>ai_best_move := int dir\<rparr>"
        using "3.prems"(2,4) mv True s by (auto simp: player_loop.simps(2))
      then show ?thesis
        using f high "3.prems"(2) mv True by (auto simp: cut_max(3) best_ok_def cut_eq(2))
    qed
  qed
next
  case (4 ev d alpha beta ai)
  then show ?case by (simp add: replies_def cut_end)
next
  case (5 ev d p val cs alpha beta ai)
  let ?t = "(ai_tiles ai)[p := int8 val]"
  let ?c = "player_value ev lo hi d ?t" and ?rest = "foldr (\<lambda>t. min (player_value ev lo hi d t)) (replies cs (ai_tiles ai)) hi"
  obtain score ai1 where s: "MiniMaxSearch ev d True alpha beta (Clear\<lparr>ai_tiles := ?t\<rparr>) = Some (score, ai1)"
    using "5.prems"(4) by (auto simp: computer_loop.simps(2) split: option.splits)
  have c: "cut alpha beta score = cut alpha beta ?c"
    using "5.IH"(1) "5.prems"(1-3) s by (auto simp: node_value_def)
  show ?case
    using "5.prems"(2) c
  proof (cases rule: cut_cases)
    case low
    then have "score < beta" using "5.prems"(2) by simp
    with low have "v = alpha"
      using "5.prems"(2,4) s by (auto simp: computer_loop.simps(2) Let_def)
    then show ?thesis using low "5.prems"(2) by (simp add: replies_Cons cut_min(3))
  next
    case inside
    then have "\<not> score \<le> alpha" by simp
    with inside have "computer_loop ev d cs alpha score ai = Some (v, ai')"
      using "5.prems"(4) s by (simp add: computer_loop.simps(2) Let_def)
    then have "v = cut alpha score ?rest"
      using "5.IH"(2) [OF s refl refl] inside "5.prems"(1-3) by auto
    then show ?thesis using inside cut_min(2) [OF inside(1,2)] by (simp add: replies_Cons)
  next
    case high
    then have "\<not> score < beta" "\<not> beta \<le> alpha" using "5.prems"(2) by auto
    then have "computer_loop ev d cs alpha beta ai = Some (v, ai')"
      using "5.prems"(4) s by (simp add: computer_loop.simps(2) Let_def)
    moreover have e: "(if score < beta then score else beta) = beta" using high(1) by auto
    ultimately have "v = cut alpha beta ?rest"
      using "5.IH"(2) [OF s refl refl, unfolded e] "5.prems"(1-3) by auto
    then show ?thesis using cut_min(1) [OF "5.prems"(2) high(2)] by (simp add: replies_Cons)
  qed
qed

section \<open>No assertion fails\<close>

lemma candidates:
  assumes "GetAllEmptyPos tiles \<noteq> []"
  obtains cs where "GetCandidateSet tiles = Some cs" "\<And>p val. (p, val) \<in> set cs \<Longrightarrow> p < 16 \<and> (val = 1 \<or> val = 2)"
proof -
  have less: "p < 16" if "p \<in> set (GetAllEmptyPos tiles)" for p
    using that by (simp add: GetAllEmptyPos_def)
  obtain q qs where "GetAllEmptyPos tiles = q # qs" using assms by (cases "GetAllEmptyPos tiles") auto
  then obtain cs where "GetCandidateSet tiles = Some cs"
    by (simp add: GetCandidateSet_def ArrayMax_def Let_def)
  moreover from this have "p < 16 \<and> (val = 1 \<or> val = 2)" if "(p, val) \<in> set cs" for p val
    using that less
    by (auto simp: GetCandidateSet_def Let_def dest!: set_zip_leftD split: option.splits)
  ultimately show ?thesis by (rule that)
qed

lemma reply_bounded:
  assumes "bounded_tiles m tiles" "2 \<le> m" "val = 1 \<or> val = 2"
  shows "bounded_tiles m (tiles[p := int8 val])"
  using assms set_update_subset_insert [of tiles p "int8 val"]
  by (auto simp: bounded_tiles_def list_all_iff int8_def)

lemma bounded_mono: "bounded_tiles m tiles \<Longrightarrow> m \<le> m' \<Longrightarrow> bounded_tiles m' tiles"
  by (auto simp: bounded_tiles_def list_all_iff)

lemma search_never_None:
  shows "d \<le> 124 \<Longrightarrow> bounded_tiles (126 - int d) (ai_tiles ai) \<Longrightarrow>
      (\<not> is_player \<Longrightarrow> GetAllEmptyPos (ai_tiles ai) \<noteq> []) \<Longrightarrow> MiniMaxSearch ev d is_player alpha beta ai \<noteq> None"
    and "d \<le> 123 \<Longrightarrow> bounded_tiles (125 - int d) (ai_tiles ai) \<Longrightarrow> set dirs \<subseteq> {0..<4} \<Longrightarrow>
      player_loop ev d dirs alpha beta ai \<noteq> None"
    and "d \<le> 124 \<Longrightarrow> bounded_tiles (126 - int d) (ai_tiles ai) \<Longrightarrow>
      (\<And>p val. (p, val) \<in> set cs \<Longrightarrow> p < 16 \<and> (val = 1 \<or> val = 2)) \<Longrightarrow>
      computer_loop ev d cs alpha beta ai \<noteq> None"
proof (induction ev d is_player alpha beta ai and ev d dirs alpha beta ai and ev d cs alpha beta ai
    rule: MiniMaxSearch_player_loop_computer_loop.induct)
  case (1 ev d is_player alpha beta ai)
  show ?case
  proof (cases "d = 0 \<or> IsWin (ai_tiles ai)")
    case True
    then show ?thesis by (auto simp: MiniMaxSearch.simps [of ev d])
  next
    case False
    then obtain d' where d: "d = Suc d'" by (cases d) auto
    show ?thesis
    proof (cases is_player)
      case True
      have "player_loop ev (d - 1) [0..<4] alpha beta (ai\<lparr>ai_best_move := -1\<rparr>) \<noteq> None"
        using "1.IH"(1) [OF False True] "1.prems"(1,2) d by simp
      then show ?thesis using True False by (simp add: MiniMaxSearch.simps [of ev d])
    next
      case pl: False
      obtain cs where cs: "GetCandidateSet (ai_tiles ai) = Some cs"
        "\<And>p val. (p, val) \<in> set cs \<Longrightarrow> p < 16 \<and> (val = 1 \<or> val = 2)"
        using candidates [OF "1.prems"(3) [OF pl]] by blast
      then show ?thesis
        using "1.IH"(2) [OF False pl cs(1) "1.prems"(1,2)] False pl by (simp add: MiniMaxSearch.simps [of ev d])
    qed
  qed
next
  case (3 ev d dir dirs alpha beta ai)
  obtain moved t where mv: "TryMove dir (ai_tiles ai) = (moved, t)" by fastforce
  have dir: "dir < 4" "set dirs \<subseteq> {0..<4}" using "3.prems"(3) by auto
  have ok: "tiles_ok (ai_tiles ai)" using bounded_ok "3.prems"(1,2) by fastforce
  show ?case
  proof (cases moved)
    case False
    then show ?thesis
      using "3.IH"(1) [OF mv [symmetric] _ "3.prems"(1,2) dir(2)] mv by (simp add: player_loop.simps(2))
  next
    case True
    have "bounded_tiles (125 - int d + 1) t"
      by (rule try_move_bounded [OF dir(1) "3.prems"(2) _ mv]) simp
    then have t: "bounded_tiles (126 - int d) t" by simp
    have gap: "GetAllEmptyPos t \<noteq> []" using moved_gap [OF dir(1) ok] mv True by simp
    obtain score ai1 where s: "MiniMaxSearch ev d False alpha beta (Clear\<lparr>ai_tiles := t\<rparr>) = Some (score, ai1)"
      using "3.IH"(2) [OF mv [symmetric]] True "3.prems"(1) t gap by auto
    let ?r = "if alpha < score then (score, ai\<lparr>ai_best_move := int dir\<rparr>) else (alpha, ai)"
    obtain a b where r: "(a, b) = ?r" by (metis surj_pair)
    then have "ai_tiles b = ai_tiles ai" by (auto split: if_splits)
    then have "player_loop ev d dirs a beta b \<noteq> None" if "\<not> beta \<le> a"
      using "3.IH"(3) [OF mv [symmetric] _ s refl refl r that "3.prems"(1)] True "3.prems"(2) dir(2) by simp
    then show ?thesis
      using s True mv r [symmetric] by (simp add: player_loop.simps(2))
  qed
next
  case (5 ev d p val cs alpha beta ai)
  have "bounded_tiles (126 - int d) ((ai_tiles ai)[p := int8 val])"
    using reply_bounded [OF "5.prems"(2)] "5.prems"(1) "5.prems"(3) [of p val] by simp
  then obtain score ai1 where s: "MiniMaxSearch ev d True alpha beta (Clear\<lparr>ai_tiles := (ai_tiles ai)[p := int8 val]\<rparr>) = Some (score, ai1)"
    using "5.IH"(1) "5.prems"(1) by auto
  let ?b = "if score < beta then score else beta"
  have "computer_loop ev d cs alpha ?b ai \<noteq> None" if "\<not> ?b \<le> alpha"
    using "5.IH"(2) [OF s refl refl that "5.prems"(1,2)] "5.prems"(3) by (metis list.set_intros(2))
  then show ?case using s by (simp add: computer_loop.simps(2) Let_def)
qed simp_all

end
