(* ===== verification/Ai_Props.thy ===== *)
theory Ai_Props
  imports Ai_Search
begin

text \<open>
  The properties of the 2048 player. The witnesses play on a small board.
\<close>

definition demo_board :: "int list" where
  "demo_board = [1, 1, 2, 0,  0, 3, 3, 0,  2, 2, 2, 2,  0, 0, 0, 1,  0, 0, 0, 0]"

lemma demo_board_ok: "tiles_ok demo_board" "bounded_tiles 125 demo_board"
  by (simp_all add: tiles_ok_def tile_ok_def bounded_tiles_def demo_board_def)

lemma demo_bounds: "length demo_board = 20" "v \<in> set demo_board \<Longrightarrow> 0 \<le> v \<and> v \<le> 3"
  by (auto simp: demo_board_def)

lemma demo_left: "TryMove 3 demo_board = (True, [2, 2, 0, 0, 4, 0, 0, 0, 3, 3, 0, 0, 1, 0, 0, 0, 0, 0, 0, 0])"
  by code_simp

section \<open>Moves\<close>

text \<open>C34: The in-place move is the textbook move. Every row or column, read from the
  edge that the tiles move to, becomes the same lane with its gaps removed and equal neighbours
  merged once from that edge on; and the result says whether the board changed.\<close>

theorem try_move_slides:
  assumes "dir < 4" "length tiles = 20" "\<And>v. v \<in> set tiles \<Longrightarrow> 0 \<le> v \<and> v \<le> 126"
    and "TryMove dir tiles = (moved, t)"
  shows "length t = 20 \<and> (\<forall>l < 4. lane dir t l = slide (lane dir tiles l)) \<and> (moved \<longleftrightarrow> t \<noteq> tiles)"
  using try_move_lanes [OF assms(1) _ assms(4)] assms(2,3) by (auto simp: tiles_ok_def tile_ok_def list_all_iff)

theorem try_move_slides_witness:
  "lane kLeft [2, 2, 0, 0, 4, 0, 0, 0, 3, 3, 0, 0, 1, 0, 0, 0, 0, 0, 0, 0] 2 = slide [2, 2, 2, 2] \<and> slide [2, 2, 2, 2] = [3, 3, 0, 0]"
proof -
  have "lane 3 [2, 2, 0, 0, 4, 0, 0, 0, 3, 3, 0, 0, 1, 0, 0, 0, 0, 0, 0, 0] 2 = slide (lane 3 demo_board 2)"
    using try_move_slides [OF _ demo_bounds(1) _ demo_left] demo_bounds(2) by fastforce
  moreover have "lane 3 demo_board 2 = [2, 2, 2, 2]" by code_simp
  ultimately show ?thesis by (simp add: kLeft_def slide_def)
qed

text \<open>A move keeps the sum of the numbers on the board, and a move that changes
  the board leaves an empty cell for the tile that the computer adds.\<close>

theorem try_move_keeps_sum:
  assumes "dir < 4" "length tiles = 20" "\<And>v. v \<in> set tiles \<Longrightarrow> 0 \<le> v \<and> v \<le> 126"
    and "TryMove dir tiles = (moved, t)"
  shows "board_sum t = board_sum tiles \<and> (moved \<longrightarrow> GetAllEmptyPos t \<noteq> [])"
proof -
  have ok: "tiles_ok tiles" using assms(2,3) by (auto simp: tiles_ok_def tile_ok_def list_all_iff)
  note mv = try_move_lanes [OF assms(1) ok assms(4)]
  have "sum_list (map number (lane dir t l)) = sum_list (map number (lane dir tiles l))" if "l < 4" for l
  proof -
    have "0 \<le> tiles ! lane_cell dir l k" if "k < 4" for k
      using assms(2) assms(3) [of "tiles ! lane_cell dir l k"] lane_cell_less [OF \<open>l < 4\<close> that, of dir] by simp
    then have "list_all (\<lambda>v. 0 \<le> v) (lane dir tiles l)" by (simp add: list_all_length)
    then show ?thesis using slide_sum mv that by simp
  qed
  then have "map (\<lambda>l. sum_list (map number (lane dir t l))) [0..<4] = map (\<lambda>l. sum_list (map number (lane dir tiles l))) [0..<4]"
    by simp
  then have "board_sum t = board_sum tiles"
    unfolding board_sum_lanes [OF assms(1)] by (rule arg_cong [where f = sum_list])
  then show ?thesis using moved_gap [OF assms(1) ok] assms(4) by auto
qed

theorem try_move_keeps_sum_witness:
  "board_sum [2, 2, 0, 0, 4, 0, 0, 0, 3, 3, 0, 0, 1, 0, 0, 0, 0, 0, 0, 0] = board_sum demo_board"
  using try_move_keeps_sum [OF _ demo_bounds(1) _ demo_left] demo_bounds(2) by fastforce

section \<open>Search\<close>

text \<open>C35: Alpha-beta pruning computes the minimax value of the game tree, cut to its
  window, for every evaluation into a linear order. The best move is set exactly when the value
  is above alpha, and is then a legal move whose own value is the value of the tree.\<close>

theorem search_is_minimax:
  fixes ev :: "int list \<Rightarrow> 'v :: linorder"
  assumes "alpha < beta" "0 < depth" "\<not> IsWin (ai_tiles ai)"
    and "MiniMaxSearch ev depth True alpha beta ai = Some (v, ai')"
  shows "v = max alpha (min beta (player_value ev alpha beta depth (ai_tiles ai))) \<and>
    (ai_best_move ai' = -1 \<longleftrightarrow> v = alpha) \<and>
    (alpha < v \<longrightarrow> (\<exists>dir < 4. ai_best_move ai' = int dir \<and> fst (TryMove dir (ai_tiles ai)) \<and>
       max alpha (min beta (computer_value ev alpha beta (depth - 1) (snd (TryMove dir (ai_tiles ai))))) = v))"
proof -
  obtain d where d: "depth = Suc d" using assms(2) by (cases depth) auto
  have "player_loop ev d [0..<4] alpha beta (ai\<lparr>ai_best_move := -1\<rparr>) = Some (v, ai')"
    using assms(3,4) d by (simp add: MiniMaxSearch.simps [of ev "Suc d"])
  note s = search_values(2) [OF order_refl assms(1) order_refl this]
  have "v = cut alpha beta (player_value ev alpha beta depth (ai_tiles ai))"
    using conjunct1 [OF s] assms(3) d by (simp add: player_value_Suc)
  moreover note conjunct2 [OF s, unfolded best_ok_def]
  ultimately show ?thesis using d by (auto simp: cut_def)
qed

lemma demo_open: "\<not> IsWin demo_board"
  by code_simp

theorem search_is_minimax_witness:
  "\<exists>v ai'. MiniMaxSearch EvalAll 4 True (- 1000) 1000 (Clear\<lparr>ai_tiles := demo_board\<rparr>) = Some (v, ai') \<and>
     v = max (- 1000) (min 1000 (player_value EvalAll (- 1000) 1000 4 demo_board))"
proof -
  have "bounded_tiles (126 - int 4) demo_board" by (simp add: bounded_tiles_def demo_board_def)
  then obtain v ai' where "MiniMaxSearch EvalAll 4 True (- 1000) 1000 (Clear\<lparr>ai_tiles := demo_board\<rparr>) = Some (v, ai')"
    using search_never_None(1) [of 4 "Clear\<lparr>ai_tiles := demo_board\<rparr>" True EvalAll "- 1000" 1000] by auto
  with search_is_minimax [OF _ _ _ this] demo_open show ?thesis by auto
qed

text \<open>The search from the player's side returns to any depth up to 124 on a board
  whose tiles leave room for the merges: the assertion of \<open>ArrayMax\<close> never fails, because a
  legal move always leaves an empty cell.\<close>

theorem search_returns:
  assumes "depth \<le> 124" "length (ai_tiles ai) = 20"
    and "\<And>v. v \<in> set (ai_tiles ai) \<Longrightarrow> 0 \<le> v \<and> v + int depth \<le> 126"
  shows "\<exists>v ai'. MiniMaxSearch ev depth True alpha beta ai = Some (v, ai')"
proof -
  have "bounded_tiles (126 - int depth) (ai_tiles ai)"
    using assms(2,3) by (fastforce simp: bounded_tiles_def list_all_iff)
  then show ?thesis using search_never_None(1) [OF assms(1), of ai True ev alpha beta] by auto
qed

theorem search_returns_witness:
  "\<exists>v ai'. MiniMaxSearch EvalAll 6 True (- 1000) 1000 (Clear\<lparr>ai_tiles := demo_board\<rparr>) = Some (v, ai')"
  by (rule search_returns) (auto simp: demo_board_def)

section \<open>The answer\<close>

lemma search_best:
  assumes "0 < depth" "\<not> IsWin (ai_tiles ai)" "MiniMaxSearch EvalAll depth True (- ai_INF) ai_INF ai = Some (v, ai')"
  shows "ai_tiles ai' = ai_tiles ai"
    and "(ai_best_move ai' = -1 \<and> v = - ai_INF) \<or> (- ai_INF < v \<and> (\<exists>dir < 4. ai_best_move ai' = int dir \<and> fst (TryMove dir (ai_tiles ai))))"
    and "v = cut (- ai_INF) ai_INF (player_value EvalAll (- ai_INF) ai_INF depth (ai_tiles ai))"
proof -
  obtain d where d: "depth = Suc d" using assms(1) by (cases depth) auto
  have lt: "- ai_INF < ai_INF" by (simp add: ai_INF_def)
  have "player_loop EvalAll d [0..<4] (- ai_INF) ai_INF (ai\<lparr>ai_best_move := -1\<rparr>) = Some (v, ai')"
    using assms(2,3) d by (simp add: MiniMaxSearch.simps [of EvalAll "Suc d"])
  from search_values(2) [OF order_refl lt order_refl this]
  show "ai_tiles ai' = ai_tiles ai"
    "(ai_best_move ai' = -1 \<and> v = - ai_INF) \<or> (- ai_INF < v \<and> (\<exists>dir < 4. ai_best_move ai' = int dir \<and> fst (TryMove dir (ai_tiles ai))))"
    "v = cut (- ai_INF) ai_INF (player_value EvalAll (- ai_INF) ai_INF depth (ai_tiles ai))"
    using assms(2) d by (auto simp: best_ok_def player_value_Suc)
qed

definition legal_answer :: "int list \<Rightarrow> int \<Rightarrow> bool" where
  "legal_answer tiles r \<longleftrightarrow> (\<exists>dir < 4. r = int dir \<and> fst (TryMove dir tiles))"

lemma best_move_loop_legal:
  "best_move_loop n depth best ai = Some (r, ai') \<Longrightarrow> 0 < depth \<Longrightarrow> \<not> IsWin (ai_tiles ai) \<Longrightarrow>
   ai_tiles ai' = ai_tiles ai \<and> (r = best \<or> legal_answer (ai_tiles ai) r)"
proof (induction n arbitrary: depth best ai)
  case (Suc n)
  then obtain v ai1 where s: "MiniMaxSearch EvalAll depth True (- ai_INF) ai_INF ai = Some (v, ai1)"
    by (auto split: option.splits)
  note b = search_best [OF Suc.prems(2,3) s]
  show ?case
  proof (cases "ai_best_move ai1 = -1")
    case True
    then show ?thesis using Suc.prems(1) s b(1) by simp
  next
    case False
    then have "legal_answer (ai_tiles ai) (ai_best_move ai1)" "- ai_INF < v"
      using b(2) by (auto simp: legal_answer_def)
    then show ?thesis
      using Suc.IH [of "depth + 1" "ai_best_move ai1" ai1] Suc.prems s False b(1) by auto
  qed
qed simp

lemma best_move_loop_returns:
  assumes "int (depth + n) \<le> 125" "bounded_tiles (127 - int (depth + n)) (ai_tiles ai)" "0 < depth" "\<not> IsWin (ai_tiles ai)"
  shows "best_move_loop n depth best ai \<noteq> None"
  using assms
proof (induction n arbitrary: depth best ai)
  case (Suc n)
  have "bounded_tiles (126 - int depth) (ai_tiles ai)" by (rule bounded_mono [OF Suc.prems(2)]) simp
  then obtain v ai1 where s: "MiniMaxSearch EvalAll depth True (- ai_INF) ai_INF ai = Some (v, ai1)"
    using search_never_None(1) [of depth ai True EvalAll "- ai_INF" ai_INF] Suc.prems(1) by auto
  note b = search_best(1) [OF Suc.prems(3,4) s]
  show ?case using s Suc.IH [of "depth + 1" ai1] Suc.prems b by simp
qed simp

lemma foldr_max_ge: "x \<in> set xs \<Longrightarrow> f x \<le> foldr (\<lambda>t. max (f t)) xs (a :: 'v :: linorder)"
  by (induction xs) (auto simp: le_max_iff_disj)

lemma first_search_best:
  assumes "\<not> IsWin (ai_tiles ai)" "MiniMaxSearch EvalAll 1 True (- ai_INF) ai_INF ai = Some (v, ai')"
    and "dir < 4" "TryMove dir (ai_tiles ai) = (True, t)" "- ai_INF < EvalAll t"
  shows "legal_answer (ai_tiles ai) (ai_best_move ai') \<and> - ai_INF < v"
proof -
  have "t \<in> set (player_moves [0..<4] (ai_tiles ai))"
    using assms(3,4) by (force simp: player_moves_def image_iff)
  from foldr_max_ge [OF this, of "computer_value EvalAll (- ai_INF) ai_INF 0" "- ai_INF"]
  have "EvalAll t \<le> player_value EvalAll (- ai_INF) ai_INF 1 (ai_tiles ai)"
    using assms(1) player_value_Suc [of EvalAll "- ai_INF" ai_INF 0 "ai_tiles ai"] by (simp add: computer_value_def)
  then have "- ai_INF < v"
    using search_best(3) [OF _ assms(1,2)] assms(5) by (auto simp: cut_def ai_INF_def)
  then show ?thesis using search_best(2) [OF _ assms(1,2)] by (auto simp: legal_answer_def)
qed

text \<open>On a board that is not won the answer is one of the four directions and
  the board is as before. It is a legal move unless it is the default, up; and it is legal when
  there was time for a search and some legal move leads to a board worth more than -1000.\<close>

theorem best_move_is_direction:
  assumes "rounds \<le> 124" "length (ai_tiles ai) = 20" "\<not> IsWin (ai_tiles ai)"
    and "\<And>v. v \<in> set (ai_tiles ai) \<Longrightarrow> 0 \<le> v \<and> v + int rounds \<le> 126"
  shows "\<exists>r ai'. GetPlayerBestMove rounds ai = Some (int r, ai') \<and> r < 4 \<and> ai_tiles ai' = ai_tiles ai \<and>
    (r \<noteq> kUp \<or> 0 < rounds \<and> (\<exists>dir < 4. fst (TryMove dir (ai_tiles ai)) \<and> - ai_INF < EvalAll (snd (TryMove dir (ai_tiles ai))))
       \<longrightarrow> fst (TryMove r (ai_tiles ai)))"
proof -
  have "bounded_tiles (127 - int (1 + rounds)) (ai_tiles ai)"
    using assms(2,4) by (fastforce simp: bounded_tiles_def list_all_iff)
  then obtain r ai' where r: "best_move_loop rounds 1 0 ai = Some (r, ai')"
    using best_move_loop_returns [of 1 rounds ai 0] assms(1,3) by auto
  note l = best_move_loop_legal [OF r _ assms(3), simplified]
  have "legal_answer (ai_tiles ai) r"
    if pos: "0 < rounds" and ex: "\<exists>dir < 4. fst (TryMove dir (ai_tiles ai)) \<and> - ai_INF < EvalAll (snd (TryMove dir (ai_tiles ai)))"
  proof -
    obtain dir t where dir: "dir < 4" "TryMove dir (ai_tiles ai) = (True, t)" "- ai_INF < EvalAll t"
      using ex by (metis prod.collapse)
    obtain n where n: "rounds = Suc n" using pos by (cases rounds) auto
    obtain v ai1 where s: "MiniMaxSearch EvalAll 1 True (- ai_INF) ai_INF ai = Some (v, ai1)"
      using r n by (auto split: option.splits)
    note f = first_search_best [OF assms(3) s dir]
    then have "best_move_loop n (1 + 1) (ai_best_move ai1) ai1 = Some (r, ai')"
      using r n s by (auto simp: legal_answer_def simp del: One_nat_def)
    then show ?thesis
      using best_move_loop_legal [of n "1 + 1" "ai_best_move ai1" ai1 r ai'] f search_best(1) [OF _ assms(3) s] assms(3) by auto
  qed
  moreover obtain k where "r = int k" "k < 4" using l by (auto simp: legal_answer_def)
  ultimately show ?thesis
    using r l by (intro exI [of _ k] exI [of _ ai']) (auto simp: GetPlayerBestMove_def legal_answer_def kUp_def)
qed

theorem best_move_is_direction_witness:
  "\<exists>r ai'. GetPlayerBestMove 3 (Clear\<lparr>ai_tiles := demo_board\<rparr>) = Some (int r, ai') \<and> r < 4 \<and> fst (TryMove r demo_board)"
proof -
  have "\<exists>dir < 4. fst (TryMove dir demo_board) \<and> - ai_INF < EvalAll (snd (TryMove dir demo_board))"
    by (rule exI [of _ 3]) code_simp
  then show ?thesis
    using best_move_is_direction [of 3 "Clear\<lparr>ai_tiles := demo_board\<rparr>"] demo_open
    by (fastforce simp: demo_board_def)
qed

end
