(* ===== verification/Ai_Play.thy ===== *)
theory Ai_Play
  imports Ai_Props
begin

text \<open>
  Boards that occur in play have tiles up to 11, because a board with an 11 is won and not
  played on. On them the search returns to any depth, the evaluation stays above the window's
  lower end, and so the player finds a legal move whenever there is one.
\<close>

section \<open>Boards of play\<close>

lemma bounded_nth: "bounded_tiles m t \<Longrightarrow> i < 20 \<Longrightarrow> 0 \<le> t ! i \<and> t ! i \<le> m"
  by (auto simp: bounded_tiles_def list_all_length)

lemma not_win: "\<not> IsWin t \<Longrightarrow> i < 16 \<Longrightarrow> t ! i \<noteq> 11"
  by (auto simp: IsWin_def list_ex_iff)

lemma play_move:
  assumes "dir < 4" "bounded_tiles 11 t" "\<not> IsWin t" "TryMove dir t = (moved, t')"
  shows "bounded_tiles 11 t'"
proof -
  note mv = try_move_lanes [OF assms(1) bounded_ok [OF assms(2)] assms(4)]
  have "0 \<le> t' ! i \<and> t' ! i \<le> 11" if i: "i < 20" for i
  proof (cases "i < 16")
    case True
    then obtain l k where lk: "l < 4" "k < 4" "i = lane_cell dir l k" using lane_cell_surj [OF assms(1)] by blast
    have "0 \<le> t ! lane_cell dir l j \<and> t ! lane_cell dir l j \<le> 10" if "j < 4" for j
      using bounded_nth [OF assms(2), of "lane_cell dir l j"] not_win [OF assms(3), of "lane_cell dir l j"]
        lane_cell_less [OF lk(1) that, of dir] by fastforce
    then have "list_all (\<lambda>v. 0 \<le> v \<and> v \<le> 10) (lane dir t l)" by (simp add: list_all_length)
    from slide_bound [OF this] have "list_all (\<lambda>v. 0 \<le> v \<and> v \<le> 11) (lane dir t' l)" using mv lk(1) by simp
    then show ?thesis using lk by (auto simp: list_all_length)
  next
    case False
    then show ?thesis using mv bounded_nth [OF assms(2) i] by simp
  qed
  then show ?thesis using mv by (simp add: bounded_tiles_def list_all_length)
qed

lemma play_search:
  shows "bounded_tiles 11 (ai_tiles ai) \<Longrightarrow>
      (\<not> is_player \<Longrightarrow> GetAllEmptyPos (ai_tiles ai) \<noteq> []) \<Longrightarrow> MiniMaxSearch ev d is_player alpha beta ai \<noteq> None"
    and "bounded_tiles 11 (ai_tiles ai) \<Longrightarrow> \<not> IsWin (ai_tiles ai) \<Longrightarrow> set dirs \<subseteq> {0..<4} \<Longrightarrow>
      player_loop ev d dirs alpha beta ai \<noteq> None"
    and "bounded_tiles 11 (ai_tiles ai) \<Longrightarrow>
      (\<And>p val. (p, val) \<in> set cs \<Longrightarrow> p < 16 \<and> (val = 1 \<or> val = 2)) \<Longrightarrow>
      computer_loop ev d cs alpha beta ai \<noteq> None"
proof (induction ev d is_player alpha beta ai and ev d dirs alpha beta ai and ev d cs alpha beta ai
    rule: MiniMaxSearch_player_loop_computer_loop.induct)
  case (1 ev d is_player alpha beta ai)
  show ?case
  proof (cases "d = 0 \<or> IsWin (ai_tiles ai)")
    case True
    then show ?thesis by (auto simp: MiniMaxSearch.simps [of ev d])
  next
    case False
    show ?thesis
    proof (cases is_player)
      case True
      then show ?thesis
        using "1.IH"(1) [OF False True] "1.prems"(1) False by (simp add: MiniMaxSearch.simps [of ev d])
    next
      case pl: False
      obtain cs where cs: "GetCandidateSet (ai_tiles ai) = Some cs"
        "\<And>p val. (p, val) \<in> set cs \<Longrightarrow> p < 16 \<and> (val = 1 \<or> val = 2)"
        using candidates [OF "1.prems"(2) [OF pl]] by blast
      then show ?thesis
        using "1.IH"(2) [OF False pl cs(1) "1.prems"(1)] False pl by (simp add: MiniMaxSearch.simps [of ev d])
    qed
  qed
next
  case (3 ev d dir dirs alpha beta ai)
  obtain moved t where mv: "TryMove dir (ai_tiles ai) = (moved, t)" by fastforce
  have dir: "dir < 4" "set dirs \<subseteq> {0..<4}" using "3.prems"(3) by auto
  show ?case
  proof (cases moved)
    case False
    then show ?thesis
      using "3.IH"(1) [OF mv [symmetric] _ "3.prems"(1,2) dir(2)] mv by (simp add: player_loop.simps(2))
  next
    case True
    have t: "bounded_tiles 11 t" by (rule play_move [OF dir(1) "3.prems"(1,2) mv])
    have gap: "GetAllEmptyPos t \<noteq> []" using moved_gap [OF dir(1) bounded_ok [OF "3.prems"(1)]] mv True by simp
    obtain score ai1 where s: "MiniMaxSearch ev d False alpha beta (Clear\<lparr>ai_tiles := t\<rparr>) = Some (score, ai1)"
      using "3.IH"(2) [OF mv [symmetric]] True t gap by auto
    let ?r = "if alpha < score then (score, ai\<lparr>ai_best_move := int dir\<rparr>) else (alpha, ai)"
    obtain a b where r: "(a, b) = ?r" by (metis surj_pair)
    then have "ai_tiles b = ai_tiles ai" by (auto split: if_splits)
    then have "player_loop ev d dirs a beta b \<noteq> None" if "\<not> beta \<le> a"
      using "3.IH"(3) [OF mv [symmetric] _ s refl refl r that] True "3.prems"(1,2) dir(2) by simp
    then show ?thesis using s True mv r [symmetric] by (simp add: player_loop.simps(2))
  qed
next
  case (5 ev d p val cs alpha beta ai)
  have "bounded_tiles 11 ((ai_tiles ai)[p := int8 val])"
    by (rule reply_bounded [OF "5.prems"(1)]) (use "5.prems"(2) in auto)
  then obtain score ai1 where s: "MiniMaxSearch ev d True alpha beta (Clear\<lparr>ai_tiles := (ai_tiles ai)[p := int8 val]\<rparr>) = Some (score, ai1)"
    using "5.IH"(1) by auto
  let ?b = "if score < beta then score else beta"
  have "computer_loop ev d cs alpha ?b ai \<noteq> None" if "\<not> ?b \<le> alpha"
    using "5.IH"(2) [OF s refl refl that "5.prems"(1)] "5.prems"(2) by (metis list.set_intros(2))
  then show ?case using s by (simp add: computer_loop.simps(2) Let_def)
qed simp_all

section \<open>The evaluation stays above the window\<close>

lemma drop_below: "a - m \<le> (b::int) \<Longrightarrow> x + m \<le> y \<Longrightarrow> b - x \<le> c \<Longrightarrow> a - y \<le> c"
  by linarith

lemma work_line_bound:
  assumes "\<And>i. i \<le> e \<Longrightarrow> 0 \<le> tiles ! i \<and> tiles ! i \<le> m" "cur \<le> e" "0 \<le> m"
  shows "fst vals - m * int (e + 1 - next) \<le> fst (work_line tiles e add cur next vals) \<and>
    snd vals - m * int (e + 1 - next) \<le> snd (work_line tiles e add cur next vals)"
  using assms
proof (induction tiles e add cur "next" vals rule: work_line.induct)
  case (1 tiles e add cur n vals)
  show ?case
  proof (cases "0 < add \<and> n \<le> e")
    case True
    let ?n = "if skip_empty tiles e add n > e then e else skip_empty tiles e add n"
    let ?v = "case vals of (val1, val2) \<Rightarrow> if tiles ! cur > tiles ! ?n then (val1 + (tiles ! ?n - tiles ! cur), val2)
        else (val1, val2 + (tiles ! cur - tiles ! ?n))"
    have n: "?n \<le> e" "n \<le> ?n" using skip_empty_ge [of n tiles e add] True by auto
    have v: "fst vals - m \<le> fst ?v" "snd vals - m \<le> snd ?v"
      using "1.prems"(1) [of cur] "1.prems"(1) [OF n(1)] "1.prems"(2,3) by (auto split: prod.split)
    have IH: "fst ?v - m * int (e + 1 - (?n + add)) \<le> fst (work_line tiles e add ?n (?n + add) ?v) \<and>
        snd ?v - m * int (e + 1 - (?n + add)) \<le> snd (work_line tiles e add ?n (?n + add) ?v)"
      by (rule "1.IH" [OF True refl refl refl "1.prems"(1) n(1) "1.prems"(3)])
    have "int (e + 1 - (?n + add)) + 1 \<le> int (e + 1 - n)" using n True by auto
    from mult_left_mono [OF this "1.prems"(3)]
    have "m * int (e + 1 - (?n + add)) + m \<le> m * int (e + 1 - n)" by (simp add: distrib_left)
    moreover have "work_line tiles e add cur n vals = work_line tiles e add ?n (?n + add) ?v"
      using True by (simp add: work_line.simps [of tiles e add cur n] Let_def)
    ultimately show ?thesis using drop_below [OF v(1) _ conjunct1 [OF IH]] drop_below [OF v(2) _ conjunct2 [OF IH]] by simp
  next
    case False
    then have "work_line tiles e add cur n vals = vals" by (simp only: work_line.simps [of tiles e add cur n] if_False)
    then show ?thesis using "1.prems"(3) by simp
  qed
qed

lemma work_bound:
  assumes t: "\<And>i. i < 16 \<Longrightarrow> 0 \<le> tiles ! i \<and> tiles ! i \<le> m" and m: "0 \<le> m"
    and ids: "\<And>a b. (a, b) \<in> set ids \<Longrightarrow> a \<le> b \<and> b < 16 \<and> b + 1 - (a + add) \<le> k"
  shows "- (m * int (k * length ids)) \<le> fst (work tiles ids add) \<and> - (m * int (k * length ids)) \<le> snd (work tiles ids add)"
  using ids
proof (induction ids rule: rev_induct)
  case Nil
  then show ?case by (simp add: work_def)
next
  case (snoc ab ids)
  obtain a b where ab: "ab = (a, b)" by fastforce
  have r: "a \<le> b" "b < 16" "b + 1 - (a + add) \<le> k" using snoc.prems [of a b] ab by auto
  let ?w = "work tiles ids add"
  have w: "work tiles (ids @ [ab]) add = work_line tiles b add a (a + add) ?w" by (simp add: work_def ab)
  have "m * int (b + 1 - (a + add)) \<le> m * int k" using r(3) m by (intro mult_left_mono) simp_all
  moreover have "fst ?w - m * int (b + 1 - (a + add)) \<le> fst (work_line tiles b add a (a + add) ?w) \<and>
      snd ?w - m * int (b + 1 - (a + add)) \<le> snd (work_line tiles b add a (a + add) ?w)"
    by (rule work_line_bound) (use t r m in auto)
  moreover have "- (m * int (k * length ids)) \<le> fst ?w \<and> - (m * int (k * length ids)) \<le> snd ?w"
    by (rule snoc.IH, rule snoc.prems) simp
  moreover have "m * int (k * length (ids @ [ab])) = m * int (k * length ids) + m * int k" by (simp add: algebra_simps)
  ultimately show ?case unfolding w by linarith
qed

lemma monotonicity_bound:
  assumes "\<And>i. i < 16 \<Longrightarrow> 0 \<le> tiles ! i \<and> tiles ! i \<le> m" "0 \<le> m"
  shows "- (48 * m) \<le> EvalMonotonicityValue tiles"
proof -
  have "- (m * int (3 * length [(0 :: nat, 3 :: nat), (4, 7), (8, 11), (12 :: nat, 15 :: nat)])) \<le> fst (work tiles [(0, 3), (4, 7), (8, 11), (12, 15)] 1)"
    by (rule conjunct1 [OF work_bound]) (use assms in auto)
  moreover have "- (m * int (9 * length [(0 :: nat, 12 :: nat), (1, 13), (2, 14), (3 :: nat, 15 :: nat)])) \<le> fst (work tiles [(0, 12), (1, 13), (2, 14), (3, 15)] 4)"
    by (rule conjunct1 [OF work_bound]) (use assms in auto)
  ultimately show ?thesis by (auto simp: EvalMonotonicityValue_def split: prod.split)
qed

lemma smoothness_step:
  assumes "\<And>i. i < 16 \<Longrightarrow> 0 \<le> tiles ! i \<and> tiles ! i \<le> m" "i < 16"
  shows "s - 2 * m \<le> fold (\<lambda>dir s. let target_pos = snd (GetTargetPos tiles (int i) dir) in
      if IsValid target_pos \<and> tiles ! nat target_pos > 0 then s - \<bar>tiles ! i - tiles ! nat target_pos\<bar> else s) [1, 2] s"
proof -
  have d: "\<bar>tiles ! i - tiles ! nat p\<bar> \<le> m" if "IsValid p" for p
  proof -
    have "nat p < 16" using that by (auto simp: IsValid_def)
    then show ?thesis using assms(1) [of i] assms(1) [of "nat p"] assms(2) by linarith
  qed
  have "0 \<le> m" using assms(1) [of 0] by auto
  then show ?thesis
    using d [of "snd (GetTargetPos tiles (int i) 1)"] d [of "snd (GetTargetPos tiles (int i) 2)"] by (auto simp: Let_def)
qed

lemma smoothness_bound:
  assumes "\<And>i. i < 16 \<Longrightarrow> 0 \<le> tiles ! i \<and> tiles ! i \<le> m"
  shows "- (32 * m) \<le> EvalSmoothnessValue tiles"
proof -
  let ?g = "\<lambda>i s. if tiles ! i > 0 then
       fold (\<lambda>dir smooth_val.
         let target_pos = snd (GetTargetPos tiles (int i) dir) in
         if IsValid target_pos \<and> tiles ! nat target_pos > 0
         then smooth_val - \<bar>tiles ! i - tiles ! nat target_pos\<bar> else smooth_val) [1, 2] s
     else s"
  have m: "0 \<le> m" using assms [of 0] by auto
  have "s - int (length is) * (2 * m) \<le> fold ?g is s" if "set is \<subseteq> {..<16}" for "is" s
    using that
  proof (induction "is" arbitrary: s)
    case (Cons i "is")
    have "s - 2 * m \<le> ?g i s" using smoothness_step [OF assms, of i s] Cons.prems m by simp
    moreover have "?g i s - int (length is) * (2 * m) \<le> fold ?g is (?g i s)" using Cons by simp
    moreover have "int (length (i # is)) * (2 * m) = int (length is) * (2 * m) + 2 * m" by (simp add: algebra_simps)
    ultimately show ?case by (simp only: fold_Cons o_apply)
  qed simp
  from this [of "[0..<16]" 0] have "0 - int (length [0..<16]) * (2 * m) \<le> EvalSmoothnessValue tiles"
    unfolding EvalSmoothnessValue_def by (simp only: atLeast_upt [symmetric] subset_refl)
  then show ?thesis by simp
qed

lemma max_value_ge: "0 \<le> tiles ! 0 \<Longrightarrow> 0 \<le> GetMaxValue tiles"
proof -
  assume z: "0 \<le> tiles ! 0"
  have "a \<le> fold (\<lambda>i max_val. if max_val < tiles ! i then tiles ! i else max_val) is a" for "is" and a :: int
    by (induction "is" arbitrary: a) (auto intro: order_trans [OF less_imp_le])
  from order_trans [OF z this] show ?thesis by (simp add: GetMaxValue_def)
qed

lemma EvalAll_above:
  assumes "bounded_tiles 11 tiles"
  shows "- ai_INF < EvalAll tiles"
proof -
  have t: "0 \<le> tiles ! i \<and> tiles ! i \<le> 11" if "i < 16" for i using bounded_nth [OF assms, of i] that by simp
  have "- 352 \<le> EvalSmoothnessValue tiles" "- 528 \<le> EvalMonotonicityValue tiles" "0 \<le> GetMaxValue tiles"
    using smoothness_bound [OF t] monotonicity_bound [OF t] max_value_ge t [of 0] by simp_all
  then have "- 352 \<le> (of_int (EvalSmoothnessValue tiles) :: rat)" "- 528 \<le> (of_int (EvalMonotonicityValue tiles) :: rat)"
      "0 \<le> (of_int (GetMaxValue tiles) :: rat)"
    by (metis of_int_le_iff of_int_minus of_int_numeral of_int_0)+
  moreover have "0 \<le> (of_nat (lg2 (GetEmptyPosNum tiles)) :: rat)" by simp
  ultimately show ?thesis
    unfolding EvalAll_def ai_INF_def kSmoothWeight_def kMonoWeight_def kEmptyWeight_def kMaxValueWeight_def by linarith
qed

section \<open>The answer of the player\<close>

lemma play_loop_returns:
  assumes "bounded_tiles 11 (ai_tiles ai)" "\<not> IsWin (ai_tiles ai)" "0 < depth"
  shows "best_move_loop n depth best ai \<noteq> None"
  using assms
proof (induction n arbitrary: depth best ai)
  case (Suc n)
  obtain v ai1 where s: "MiniMaxSearch EvalAll depth True (- ai_INF) ai_INF ai = Some (v, ai1)"
    using play_search(1) [OF Suc.prems(1), of True EvalAll depth "- ai_INF" ai_INF] by auto
  note b = search_best(1) [OF Suc.prems(3,2) s]
  show ?case using s Suc.IH [of ai1 "depth + 1"] Suc.prems b by simp
qed simp

definition legal :: "int list \<Rightarrow> nat \<Rightarrow> bool" where
  "legal tiles dir \<longleftrightarrow> dir < 4 \<and> fst (TryMove dir tiles)"

lemma play_best_move:
  assumes "bounded_tiles 11 (ai_tiles ai)" "\<not> IsWin (ai_tiles ai)"
  obtains r ai' where "GetPlayerBestMove rounds ai = Some (int r, ai')" "r < 4" "ai_tiles ai' = ai_tiles ai"
    "r \<noteq> kUp \<Longrightarrow> legal (ai_tiles ai) r" "0 < rounds \<Longrightarrow> \<exists>dir. legal (ai_tiles ai) dir \<Longrightarrow> legal (ai_tiles ai) r"
proof -
  obtain r ai' where r: "best_move_loop rounds 1 0 ai = Some (r, ai')"
    using play_loop_returns [OF assms, of 1 rounds 0] by auto
  note l = best_move_loop_legal [OF r _ assms(2), simplified]
  have "legal_answer (ai_tiles ai) r" if pos: "0 < rounds" and ex: "legal (ai_tiles ai) dir" for dir
  proof -
    obtain t where t: "dir < 4" "TryMove dir (ai_tiles ai) = (True, t)" using ex by (metis legal_def prod.collapse)
    have above: "- ai_INF < EvalAll t" by (rule EvalAll_above [OF play_move [OF t(1) assms t(2)]])
    obtain n where n: "rounds = Suc n" using pos by (cases rounds) auto
    obtain v ai1 where s: "MiniMaxSearch EvalAll 1 True (- ai_INF) ai_INF ai = Some (v, ai1)"
      using r n by (auto split: option.splits)
    note f = first_search_best [OF assms(2) s t above]
    then have "best_move_loop n (1 + 1) (ai_best_move ai1) ai1 = Some (r, ai')"
      using r n s by (auto simp: legal_answer_def simp del: One_nat_def)
    then show ?thesis
      using best_move_loop_legal [of n "1 + 1" "ai_best_move ai1" ai1 r ai'] f search_best(1) [OF _ assms(2) s] assms(2) by auto
  qed
  moreover obtain k where k: "r = int k" "k < 4" using l by (auto simp: legal_answer_def)
  moreover have "legal (ai_tiles ai) k \<longleftrightarrow> legal_answer (ai_tiles ai) r" using k by (auto simp: legal_def legal_answer_def)
  moreover have "k \<noteq> kUp \<Longrightarrow> legal_answer (ai_tiles ai) r" using l k by (auto simp: kUp_def)
  ultimately show ?thesis using that [of k ai'] r l by (auto simp: GetPlayerBestMove_def)
qed

text \<open>C37: On a board of play that is not won, the player answers, whatever the time it
  has, with one of the four directions and leaves the board alone; with time for one search it
  answers with a legal move whenever there is one.\<close>

theorem player_finds_move:
  assumes "length (ai_tiles ai) = 20" "\<And>v. v \<in> set (ai_tiles ai) \<Longrightarrow> 0 \<le> v \<and> v \<le> 11" "\<not> IsWin (ai_tiles ai)"
  shows "\<exists>r ai'. GetPlayerBestMove rounds ai = Some (int r, ai') \<and> r < 4 \<and> ai_tiles ai' = ai_tiles ai \<and>
    (0 < rounds \<longrightarrow> (fst (TryMove r (ai_tiles ai)) \<longleftrightarrow> (\<exists>dir < 4. fst (TryMove dir (ai_tiles ai)))))"
proof -
  have "bounded_tiles 11 (ai_tiles ai)" using assms(1,2) by (auto simp: bounded_tiles_def list_all_iff)
  then obtain r ai' where "GetPlayerBestMove rounds ai = Some (int r, ai')" "r < 4" "ai_tiles ai' = ai_tiles ai"
      "0 < rounds \<Longrightarrow> \<exists>dir. legal (ai_tiles ai) dir \<Longrightarrow> legal (ai_tiles ai) r"
    using play_best_move [of ai rounds] assms(3) by blast
  then show ?thesis by (intro exI [of _ r] exI [of _ ai']) (auto simp: legal_def)
qed

theorem player_finds_move_witness:
  "\<exists>r ai'. GetPlayerBestMove 500 (Clear\<lparr>ai_tiles := demo_board\<rparr>) = Some (int r, ai') \<and> r < 4 \<and> fst (TryMove r demo_board)"
proof -
  have "\<exists>dir < 4. fst (TryMove dir demo_board)" by (rule exI [of _ 3]) code_simp
  then show ?thesis
    using player_finds_move [of "Clear\<lparr>ai_tiles := demo_board\<rparr>" 500] demo_open by (fastforce simp: demo_board_def)
qed

section \<open>The boards of a search\<close>

text \<open>The calls that a call of \<open>MiniMaxSearch\<close> makes without pruning: depth, whose turn it is and the
  board.\<close>

inductive search_step :: "nat \<times> bool \<times> int list \<Rightarrow> nat \<times> bool \<times> int list \<Rightarrow> bool" where
  move: "\<not> IsWin t \<Longrightarrow> dir < 4 \<Longrightarrow> TryMove dir t = (True, t') \<Longrightarrow> search_step (Suc d, True, t) (d, False, t')"
| reply: "\<not> IsWin t \<Longrightarrow> GetCandidateSet t = Some cs \<Longrightarrow> (p, val) \<in> set cs \<Longrightarrow>
    search_step (Suc d, False, t) (Suc d, True, t[p := int8 val])"

definition searched :: "nat \<Rightarrow> bool \<Rightarrow> int list \<Rightarrow> int list \<Rightarrow> bool" where
  "searched d is_player tiles t \<longleftrightarrow> (\<exists>d' pl. search_step\<^sup>*\<^sup>* (d, is_player, tiles) (d', pl, t))"

lemma searched_self: "searched d is_player tiles tiles"
  by (auto simp: searched_def)

lemma searched_step:
  "search_step (d, pl, tiles) (d', pl', tiles') \<Longrightarrow> searched d' pl' tiles' t \<Longrightarrow> searched d pl tiles t"
  unfolding searched_def by (blast intro: converse_rtranclp_into_rtranclp)

fun play_call :: "nat \<times> bool \<times> int list \<Rightarrow> bool" where
  "play_call (d, is_player, t) \<longleftrightarrow> bounded_tiles 11 t \<and> (\<not> is_player \<longrightarrow> GetAllEmptyPos t \<noteq> [])"

lemma play_step: "search_step x y \<Longrightarrow> play_call x \<Longrightarrow> play_call y"
proof (induction rule: search_step.induct)
  case (move t dir t' d)
  then show ?case
    using play_move [OF move(2) _ move(1,3)] moved_gap [OF move(2) bounded_ok, of 11 t] by simp
next
  case (reply t cs p val d)
  from candidates [of t] reply have "val = 1 \<or> val = 2" by (metis option.inject play_call.simps)
  with reply show ?case by (auto intro: reply_bounded)
qed

lemma searched_bounded:
  assumes "bounded_tiles 11 tiles" "searched d True tiles t"
  shows "bounded_tiles 11 t"
proof -
  obtain d' pl where "search_step\<^sup>*\<^sup>* (d, True, tiles) (d', pl, t)" using assms(2) by (auto simp: searched_def)
  then have "play_call (d, True, tiles) \<longrightarrow> play_call (d', pl, t)"
    by (induction rule: rtranclp_induct) (auto intro: play_step simp del: play_call.simps)
  then show ?thesis using assms(1) by simp
qed

text \<open>The search asks for the value of no other board.\<close>

lemma searched_only:
  shows "(\<And>t. searched d is_player (ai_tiles ai) t \<Longrightarrow> ev' t = ev t) \<Longrightarrow>
      MiniMaxSearch ev' d is_player alpha beta ai = MiniMaxSearch ev d is_player alpha beta ai"
    and "(\<And>t. searched (Suc d) True (ai_tiles ai) t \<Longrightarrow> ev' t = ev t) \<Longrightarrow> \<not> IsWin (ai_tiles ai) \<Longrightarrow>
      set dirs \<subseteq> {0..<4} \<Longrightarrow> player_loop ev' d dirs alpha beta ai = player_loop ev d dirs alpha beta ai"
    and "(\<And>t. searched d False (ai_tiles ai) t \<Longrightarrow> ev' t = ev t) \<Longrightarrow> \<not> IsWin (ai_tiles ai) \<Longrightarrow> 0 < d \<Longrightarrow>
      GetCandidateSet (ai_tiles ai) \<noteq> None \<Longrightarrow> set cs \<subseteq> set (the (GetCandidateSet (ai_tiles ai))) \<Longrightarrow>
      computer_loop ev' d cs alpha beta ai = computer_loop ev d cs alpha beta ai"
proof (induction ev d is_player alpha beta ai and ev d dirs alpha beta ai and ev d cs alpha beta ai
    rule: MiniMaxSearch_player_loop_computer_loop.induct)
  case (1 ev d is_player alpha beta ai)
  show ?case
  proof (cases "d = 0 \<or> IsWin (ai_tiles ai)")
    case True
    then show ?thesis
      using "1.prems" [OF searched_self] by (simp add: MiniMaxSearch.simps [of _ d])
  next
    case False
    then obtain d' where d: "d = Suc d'" by (cases d) auto
    show ?thesis
    proof (cases is_player)
      case True
      have "player_loop ev' (d - 1) [0..<4] alpha beta (ai\<lparr>ai_best_move := -1\<rparr>) =
          player_loop ev (d - 1) [0..<4] alpha beta (ai\<lparr>ai_best_move := -1\<rparr>)"
        by (rule "1.IH"(1) [OF False True]) (use "1.prems" True False d in auto)
      then show ?thesis using False True by (simp add: MiniMaxSearch.simps [of _ d])
    next
      case pl: False
      have "computer_loop ev' d cs alpha beta ai = computer_loop ev d cs alpha beta ai"
        if cs: "GetCandidateSet (ai_tiles ai) = Some cs" for cs
        by (rule "1.IH"(2) [OF False pl cs]) (use "1.prems" pl False d cs in auto)
      then show ?thesis using False pl by (auto simp: MiniMaxSearch.simps [of _ d] split: option.split)
    qed
  qed
next
  case (3 ev d dir dirs alpha beta ai)
  obtain moved t where mv: "TryMove dir (ai_tiles ai) = (moved, t)" by fastforce
  have dir: "dir < 4" "set dirs \<subseteq> {0..<4}" using "3.prems"(3) by auto
  show ?case
  proof (cases moved)
    case False
    then show ?thesis
      using "3.IH"(1) [OF mv [symmetric] _ "3.prems"(1,2) dir(2)] mv by (simp add: player_loop.simps(2))
  next
    case True
    have st: "search_step (Suc d, True, ai_tiles ai) (d, False, t)"
      by (rule search_step.move) (use "3.prems"(2) dir(1) mv True in auto)
    have e: "MiniMaxSearch ev' d False alpha beta (Clear\<lparr>ai_tiles := t\<rparr>) =
        MiniMaxSearch ev d False alpha beta (Clear\<lparr>ai_tiles := t\<rparr>)"
      by (rule "3.IH"(2) [OF mv [symmetric]]) (use True "3.prems"(1) searched_step [OF st] in auto)
    show ?thesis
    proof (cases "MiniMaxSearch ev d False alpha beta (Clear\<lparr>ai_tiles := t\<rparr>)")
      case None
      then show ?thesis using e True mv by (simp add: player_loop.simps(2))
    next
      case (Some r)
      obtain score ai1 where "r = (score, ai1)" by (cases r)
      with Some have s: "MiniMaxSearch ev d False alpha beta (Clear\<lparr>ai_tiles := t\<rparr>) = Some (score, ai1)" by simp
      let ?r = "if alpha < score then (score, ai\<lparr>ai_best_move := int dir\<rparr>) else (alpha, ai)"
      obtain a b where r: "(a, b) = ?r" by (metis surj_pair)
      then have "ai_tiles b = ai_tiles ai" by (auto split: if_splits)
      then have "player_loop ev' d dirs a beta b = player_loop ev d dirs a beta b" if "\<not> beta \<le> a"
        using "3.IH"(3) [OF mv [symmetric] _ s refl refl r that] True "3.prems"(1,2) dir(2) by simp
      then show ?thesis using s e True mv r [symmetric] by (simp add: player_loop.simps(2))
    qed
  qed
next
  case (5 ev d p val cs alpha beta ai)
  let ?t = "(ai_tiles ai)[p := int8 val]"
  obtain d' where d: "d = Suc d'" using "5.prems"(3) by (cases d) auto
  have st: "search_step (d, False, ai_tiles ai) (d, True, ?t)"
    unfolding d by (rule search_step.reply [of _ "the (GetCandidateSet (ai_tiles ai))"]) (use "5.prems"(2,4,5) in auto)
  have e: "MiniMaxSearch ev' d True alpha beta (Clear\<lparr>ai_tiles := ?t\<rparr>) =
      MiniMaxSearch ev d True alpha beta (Clear\<lparr>ai_tiles := ?t\<rparr>)"
    by (rule "5.IH"(1)) (use "5.prems"(1) searched_step [OF st] in auto)
  show ?case
  proof (cases "MiniMaxSearch ev d True alpha beta (Clear\<lparr>ai_tiles := ?t\<rparr>)")
    case None
    then show ?thesis using e by (simp add: computer_loop.simps(2))
  next
    case (Some r)
    obtain score ai1 where "r = (score, ai1)" by (cases r)
    with Some have s: "MiniMaxSearch ev d True alpha beta (Clear\<lparr>ai_tiles := ?t\<rparr>) = Some (score, ai1)" by simp
    let ?b = "if score < beta then score else beta"
    have "computer_loop ev' d cs alpha ?b ai = computer_loop ev d cs alpha ?b ai" if "\<not> ?b \<le> alpha"
      by (rule "5.IH"(2) [OF s refl refl that "5.prems"(1-4)]) (use "5.prems"(5) in auto)
    then show ?thesis using s e by (simp add: computer_loop.simps(2) Let_def)
  qed
qed simp_all

text \<open>C36: On a board of play, with tiles up to 11, the search returns to any depth: a legal
  move always leaves an empty cell, so the assertion of \<open>ArrayMax\<close> holds. No tile overflows:
  every board the search reaches has tiles from 0 to 11 again, because a won board is not
  searched, and the search depends on the evaluation of these boards only.\<close>

theorem search_total:
  assumes "length (ai_tiles ai) = 20" "\<And>v. v \<in> set (ai_tiles ai) \<Longrightarrow> 0 \<le> v \<and> v \<le> 11"
  shows "(\<exists>v ai'. MiniMaxSearch ev depth True alpha beta ai = Some (v, ai')) \<and>
    (\<forall>t. searched depth True (ai_tiles ai) t \<longrightarrow> (\<forall>v \<in> set t. 0 \<le> v \<and> v \<le> 11)) \<and>
    (\<forall>ev'. (\<forall>t. searched depth True (ai_tiles ai) t \<longrightarrow> ev' t = ev t) \<longrightarrow>
       MiniMaxSearch ev' depth True alpha beta ai = MiniMaxSearch ev depth True alpha beta ai)"
proof -
  have b: "bounded_tiles 11 (ai_tiles ai)" using assms by (auto simp: bounded_tiles_def list_all_iff)
  have "\<exists>v ai'. MiniMaxSearch ev depth True alpha beta ai = Some (v, ai')"
    using play_search(1) [of ai True ev depth alpha beta] b by auto
  moreover have "0 \<le> v \<and> v \<le> 11" if "searched depth True (ai_tiles ai) t" "v \<in> set t" for t v
    using searched_bounded [OF b that(1)] that(2) by (auto simp: bounded_tiles_def list_all_iff)
  ultimately show ?thesis using searched_only(1) by blast
qed

theorem search_total_witness:
  "(\<exists>v ai'. MiniMaxSearch EvalAll 1000 True (- 1000) 1000 (Clear\<lparr>ai_tiles := demo_board\<rparr>) = Some (v, ai')) \<and>
    \<not> searched 1000 True demo_board (demo_board[0 := -128])"
proof -
  let ?ai = "Clear\<lparr>ai_tiles := demo_board\<rparr>"
  have "length (ai_tiles ?ai) = 20" "\<And>v. v \<in> set (ai_tiles ?ai) \<Longrightarrow> 0 \<le> v \<and> v \<le> 11"
    by (auto simp: demo_board_def)
  note t = search_total [OF this, of EvalAll 1000 "- 1000" 1000]
  have "- 128 \<in> set (demo_board[0 := - 128])" by (simp add: demo_board_def)
  then have "\<not> searched 1000 True demo_board (demo_board[0 := - 128])"
    using conjunct1 [OF conjunct2 [OF t]] by fastforce
  with conjunct1 [OF t] show ?thesis by blast
qed

end
