(* ===== verification/Ai_Game.thy ===== *)
theory Ai_Game
  imports Ai_Play
begin

text \<open>
  The 2048 server (\<open>ai/2048/server.cc\<close>) and its client (\<open>ai/2048/client.cc\<close>), with the messages
  of \<open>ai/2048/proto\<close> as a datatype, and the game that one client plays with the server. The
  client keeps the board and adds the random tiles; the server keeps a copy of it and finds the
  moves. \<open>None\<close> is the use of a null pointer or a failed assertion. The lock of the server's
  map and the log are left out.
\<close>

section \<open>Messages\<close>

datatype MoveType = UP | RIGHT | DOWN | LEFT

datatype ai_message = CSAI2048Tile "int list" bool | SCAI2048Move MoveType

datatype ai_action = Send ai_message | Shutdown

definition move_type :: "int \<Rightarrow> MoveType" where
  "move_type best_move = (if best_move = 0 then UP else if best_move = 1 then RIGHT else if best_move = 2 then DOWN else LEFT)"

definition move_dir :: "MoveType \<Rightarrow> nat" where
  "move_dir type = (if type = UP then 0 else if type = RIGHT then 1 else if type = DOWN then 2 else 3)"

section \<open>The server\<close>

text \<open>The map from the names of connections to players. \<open>operator[]\<close> of the map makes an entry with
  a null pointer where there is none.\<close>

record ai_server =
  ai_map :: "nat \<rightharpoonup> AI2048 option"

definition OnConnection_ai :: "nat \<Rightarrow> bool \<Rightarrow> ai_server \<Rightarrow> ai_server" where
  "OnConnection_ai conn up s =
     (if up then s\<lparr>ai_map := (ai_map s)(conn \<mapsto> Some Clear)\<rparr>
      else s\<lparr>ai_map := (ai_map s)(conn := None)\<rparr>)"

definition OnUnknownMessage_ai :: "ai_server \<Rightarrow> ai_server \<times> ai_action list" where
  "OnUnknownMessage_ai s = (s, [Shutdown])"

definition grid_of :: "int list \<Rightarrow> int list list" where
  "grid_of data = map (\<lambda>i. map (\<lambda>j. data ! (4 * i + j)) [0..<4]) [0..<4]"

text \<open>\<open>rounds\<close> is the number of searches that the time of \<open>GetPlayerBestMove\<close> is enough for.\<close>

definition OnCSAI2048Tile_ai :: "nat \<Rightarrow> nat \<Rightarrow> int list \<Rightarrow> bool \<Rightarrow> ai_server \<Rightarrow> (ai_server \<times> ai_action list) option" where
  "OnCSAI2048Tile_ai rounds conn data is_over s =
     (let p = (case ai_map s conn of None \<Rightarrow> None | Some p \<Rightarrow> p);
          s = s\<lparr>ai_map := (ai_map s)(conn \<mapsto> p)\<rparr>
      in if is_over \<or> length data \<noteq> 16 then Some (s, [Shutdown])
         else case p of
           None \<Rightarrow> None
         | Some ai \<Rightarrow> (case GetPlayerBestMove rounds (AddComputerMove (grid_of data) ai) of
             None \<Rightarrow> None
           | Some (best_move, ai) \<Rightarrow>
               let (moved, t) = TryMove (nat best_move) (ai_tiles ai);
                   ai = ai\<lparr>ai_tiles := t\<rparr>;
                   type = (if moved then move_type best_move else UP)
               in Some (s\<lparr>ai_map := (ai_map s)(conn \<mapsto> Some ai)\<rparr>, [Send (SCAI2048Move type)])))"

definition OnSCAI2048Move_ai :: "ai_server \<Rightarrow> ai_server \<times> ai_action list" where
  "OnSCAI2048Move_ai s = (s, [Shutdown])"

text \<open>The dispatcher calls the handler that is registered for the type of the message.\<close>

definition server_message :: "nat \<Rightarrow> nat \<Rightarrow> ai_message \<Rightarrow> ai_server \<Rightarrow> (ai_server \<times> ai_action list) option" where
  "server_message rounds conn m s = (case m of
       CSAI2048Tile data is_over \<Rightarrow> OnCSAI2048Tile_ai rounds conn data is_over s
     | SCAI2048Move _ \<Rightarrow> Some (OnSCAI2048Move_ai s))"

section \<open>The client\<close>

text \<open>The board, and what the client adds to the counter of won games. The random numbers are
  arguments.\<close>

record ai_client =
  dummy :: AI2048
  num_winer :: nat

definition InitDummy :: "nat \<Rightarrow> nat \<Rightarrow> nat \<Rightarrow> nat \<Rightarrow> ai_client" where
  "InitDummy r1 r2 r3 r4 = \<lparr>dummy = AddRandTile r3 r4 (AddRandTile r1 r2 Clear), num_winer = 0\<rparr>"

definition SendTileDataToServer :: "bool \<Rightarrow> ai_client \<Rightarrow> ai_client \<times> ai_message" where
  "SendTileDataToServer is_over c =
     (let (is_over, c) = (if IsWin (ai_tiles (dummy c)) then (True, c\<lparr>num_winer := num_winer c + 1\<rparr>) else (is_over, c))
      in (c, CSAI2048Tile (concat (GetAllTiles (dummy c))) is_over))"

definition OnConnection_client :: "bool \<Rightarrow> ai_client \<Rightarrow> ai_client \<times> ai_message list" where
  "OnConnection_client up c =
     (if up then case SendTileDataToServer False c of (c, m) \<Rightarrow> (c, [m]) else (c, []))"

definition OnSCAI2048Move_client :: "MoveType \<Rightarrow> nat \<Rightarrow> nat \<Rightarrow> ai_client \<Rightarrow> ai_client \<times> ai_message" where
  "OnSCAI2048Move_client type r1 r2 c =
     (let (moved, t) = TryMove (move_dir type) (ai_tiles (dummy c));
          is_over = (\<not> moved);
          c = c\<lparr>dummy := AddRandTile r1 r2 ((dummy c)\<lparr>ai_tiles := t\<rparr>)\<rparr>
      in SendTileDataToServer is_over c)"

section \<open>A game\<close>

text \<open>A client and the server have one message in flight at a time. What the server does for other
  connections leaves the entry of this one alone.\<close>

datatype flight = To_server ai_message | To_client ai_message | Closed

inductive ai_game :: "nat \<Rightarrow> ai_client \<Rightarrow> ai_server \<Rightarrow> flight \<Rightarrow> bool" for conn :: nat where
  connect: "OnConnection_client True (InitDummy r1 r2 r3 r4) = (c, [m]) \<Longrightarrow>
    ai_game conn c (OnConnection_ai conn True s) (To_server m)"
| server: "ai_game conn c s (To_server m) \<Longrightarrow> server_message rounds conn m s = Some (s', [a]) \<Longrightarrow>
    ai_game conn c s' (case a of Send m' \<Rightarrow> To_client m' | Shutdown \<Rightarrow> Closed)"
| client: "ai_game conn c s (To_client (SCAI2048Move type)) \<Longrightarrow> OnSCAI2048Move_client type r1 r2 c = (c', m) \<Longrightarrow>
    ai_game conn c' s (To_server m)"
| others: "ai_game conn c s f \<Longrightarrow> ai_map s' conn = ai_map s conn \<Longrightarrow> ai_game conn c s' f"

section \<open>The two boards\<close>

lemma lg2_pow: "lg2 (2 ^ n) = n"
proof (induction n)
  case (Suc n)
  have "(1::nat) < 2 ^ Suc n" by (rule one_less_power) simp_all
  then have "lg2 (2 ^ Suc n) = lg2 (2 ^ Suc n div 2) + 1" by (subst lg2.simps) simp
  then show ?case using Suc by simp
qed (simp add: lg2.simps)

lemma concat_rows: "concat (map (\<lambda>r. map (\<lambda>c. f (4 * r + c)) [0..<4]) [0..<4]) = map f [0..<16]"
  by (simp add: upt_4 upt_16 numeral_2_eq_2)

lemma tile_data:
  "concat (GetAllTiles ai) = map (\<lambda>i. if ai_tiles ai ! i > 0 then 2 ^ nat (ai_tiles ai ! i) else 0) [0..<16]"
  unfolding GetAllTiles_def by (rule concat_rows)

lemma grid_nth: "i < 16 \<Longrightarrow> grid_of data ! (i div 4) ! (i mod 4) = data ! i"
proof -
  assume "i < 16"
  then have "i div 4 < 4" "4 * (i div 4) + i mod 4 = i" by simp_all
  then show ?thesis by (simp add: grid_of_def)
qed

text \<open>The server's board is the client's one without some tiles.\<close>

definition part_of :: "int list \<Rightarrow> int list \<Rightarrow> bool" where
  "part_of u w \<longleftrightarrow> length u = 20 \<and> (\<forall>i < 20. u ! i = w ! i \<or> i < 16 \<and> u ! i = 0)"

lemma fill_step:
  assumes "part_of u w" "\<forall>i < n. u ! i = w ! i" "n < 16" "0 \<le> w ! n"
    and "u' = (if u ! n = 0 \<and> 0 < w ! n then u[n := w ! n] else u)"
  shows "part_of u' w \<and> (\<forall>i < Suc n. u' ! i = w ! i)"
proof -
  have "n < 20" using assms(3) by simp
  then have "u ! n = w ! n \<or> u ! n = 0" using assms(1) unfolding part_of_def by blast
  then show ?thesis using assms by (auto simp: part_of_def nth_list_update less_Suc_eq)
qed

lemma add_computer_move:
  assumes w: "bounded_tiles 11 (ai_tiles c)" and u: "part_of (ai_tiles ai) (ai_tiles c)"
  shows "ai_tiles (AddComputerMove (grid_of (concat (GetAllTiles c))) ai) = ai_tiles c"
proof -
  let ?g = "\<lambda>i ai. if ai_tiles ai ! i = 0 \<and> grid_of (concat (GetAllTiles c)) ! (i div 4) ! (i mod 4) > 0
     then ai\<lparr>ai_tiles := (ai_tiles ai)[i := int8 (int (lg2 (nat (grid_of (concat (GetAllTiles c)) ! (i div 4) ! (i mod 4)))))]\<rparr>
     else ai"
  have g: "ai_tiles (?g i a) = (if ai_tiles a ! i = 0 \<and> 0 < ai_tiles c ! i then (ai_tiles a)[i := ai_tiles c ! i] else ai_tiles a)"
    if "i < 16" for i a
    using bounded_nth [OF w, of i] that by (auto simp: grid_nth tile_data int8_def lg2_pow nat_power_eq)
  have "n \<le> 16 \<Longrightarrow> part_of (ai_tiles (fold ?g [0..<n] ai)) (ai_tiles c) \<and>
      (\<forall>i < n. ai_tiles (fold ?g [0..<n] ai) ! i = ai_tiles c ! i)" for n
  proof (induction n)
    case (Suc n)
    have f: "fold ?g [0..<Suc n] ai = ?g n (fold ?g [0..<n] ai)" by simp
    have n: "n < 16" using Suc.prems by simp
    have "0 \<le> ai_tiles c ! n" using bounded_nth [OF w, of n] n by simp
    show ?case unfolding f
      by (rule fill_step [OF _ _ n \<open>0 \<le> ai_tiles c ! n\<close> g [OF n]]) (use Suc.IH n in simp_all)
  qed (use u in simp)
  from this [of 16] have a: "part_of (ai_tiles (AddComputerMove (grid_of (concat (GetAllTiles c))) ai)) (ai_tiles c)"
      "\<forall>i < 16. ai_tiles (AddComputerMove (grid_of (concat (GetAllTiles c))) ai) ! i = ai_tiles c ! i"
    by (simp_all add: AddComputerMove_def)
  show ?thesis
  proof (rule nth_equalityI)
    fix i assume "i < length (ai_tiles (AddComputerMove (grid_of (concat (GetAllTiles c))) ai))"
    then have "i < 20" using a(1) by (simp add: part_of_def)
    then show "ai_tiles (AddComputerMove (grid_of (concat (GetAllTiles c))) ai) ! i = ai_tiles c ! i"
      using a by (cases "i < 16") (auto simp: part_of_def)
  qed (use a w in \<open>simp add: part_of_def bounded_tiles_def\<close>)
qed

lemma rand_tile:
  "bounded_tiles 11 (ai_tiles ai) \<Longrightarrow>
   bounded_tiles 11 (ai_tiles (AddRandTile r1 r2 ai)) \<and> part_of (ai_tiles ai) (ai_tiles (AddRandTile r1 r2 ai))"
proof -
  assume b: "bounded_tiles 11 (ai_tiles ai)"
  let ?e = "GetAllEmptyPos (ai_tiles ai)"
  show ?thesis
  proof (cases "?e = []")
    case True
    then show ?thesis using b by (simp add: AddRandTile_def part_of_def bounded_tiles_def)
  next
    case False
    let ?p = "?e ! (r1 mod length ?e)"
    have "?p \<in> set ?e" using False by simp
    then have p: "?p < 16" "ai_tiles ai ! ?p = 0" by (auto simp: GetAllEmptyPos_def)
    have "bounded_tiles 11 ((ai_tiles ai)[?p := if r2 mod 2 \<noteq> 0 then 1 else 2])"
      using b set_update_subset_insert [of "ai_tiles ai" ?p "if r2 mod 2 \<noteq> 0 then 1 else 2"]
      by (auto simp: bounded_tiles_def list_all_iff)
    then show ?thesis using False b p by (auto simp: AddRandTile_def Let_def part_of_def bounded_tiles_def nth_list_update)
  qed
qed

section \<open>The invariant of a game\<close>

definition player_at :: "nat \<Rightarrow> ai_server \<Rightarrow> int list \<Rightarrow> bool" where
  "player_at conn s u \<longleftrightarrow> (\<exists>ai. ai_map s conn = Some (Some ai) \<and> ai_tiles ai = u)"

definition game_ok :: "nat \<Rightarrow> ai_client \<Rightarrow> ai_server \<Rightarrow> flight \<Rightarrow> bool" where
  "game_ok conn c s f =
     (let w = ai_tiles (dummy c) in bounded_tiles 11 w \<and>
      (case f of
         To_server m \<Rightarrow> (\<exists>over u. m = CSAI2048Tile (concat (GetAllTiles (dummy c))) over \<and> (IsWin w \<longrightarrow> over) \<and>
            player_at conn s u \<and> part_of u w)
       | To_client m \<Rightarrow> \<not> IsWin w \<and> (\<exists>type u. m = SCAI2048Move type \<and> player_at conn s u \<and>
            u = snd (TryMove (move_dir type) w))
       | Closed \<Rightarrow> True))"

lemma game_ok_simps:
  "game_ok conn c s (To_server m) \<longleftrightarrow> bounded_tiles 11 (ai_tiles (dummy c)) \<and>
     (\<exists>over u. m = CSAI2048Tile (concat (GetAllTiles (dummy c))) over \<and> (IsWin (ai_tiles (dummy c)) \<longrightarrow> over) \<and>
       player_at conn s u \<and> part_of u (ai_tiles (dummy c)))"
  "game_ok conn c s (To_client m) \<longleftrightarrow> bounded_tiles 11 (ai_tiles (dummy c)) \<and> \<not> IsWin (ai_tiles (dummy c)) \<and>
     (\<exists>type u. m = SCAI2048Move type \<and> player_at conn s u \<and> u = snd (TryMove (move_dir type) (ai_tiles (dummy c))))"
  "game_ok conn c s Closed \<longleftrightarrow> bounded_tiles 11 (ai_tiles (dummy c))"
  unfolding game_ok_def Let_def by (simp_all only: flight.case simp_thms)

lemma server_over: "server_message rounds conn (CSAI2048Tile data True) s = Some (s', as) \<Longrightarrow> as = [Shutdown]"
  "\<exists>s'. server_message rounds conn (CSAI2048Tile data True) s = Some (s', [Shutdown])"
  by (simp_all add: server_message_def OnCSAI2048Tile_ai_def Let_def)

lemma move_type_dir: "r < 4 \<Longrightarrow> move_dir (move_type (int r)) = r"
  unfolding less_4 by (elim disjE) (simp_all add: move_type_def move_dir_def)

lemma move_dir_less: "move_dir type < 4"
  by (cases type) (simp_all add: move_dir_def)

lemma stuck_move:
  assumes "bounded_tiles 11 w" "dir < 4" "\<not> fst (TryMove dir w)"
  shows "TryMove dir w = (False, w)"
  using try_move_lanes [OF assms(2) bounded_ok [OF assms(1)], of "fst (TryMove dir w)" "snd (TryMove dir w)"] assms(3)
  by (cases "TryMove dir w") auto

text \<open>What the server makes of a board of the client.\<close>

lemma server_turn:
  assumes w: "bounded_tiles 11 (ai_tiles (dummy c))" "\<not> IsWin (ai_tiles (dummy c))"
    and u: "player_at conn s u" "part_of u (ai_tiles (dummy c))"
  shows "\<exists>type s'. OnCSAI2048Tile_ai rounds conn (concat (GetAllTiles (dummy c))) False s = Some (s', [Send (SCAI2048Move type)]) \<and>
    player_at conn s' (snd (TryMove (move_dir type) (ai_tiles (dummy c)))) \<and>
    (0 < rounds \<longrightarrow> (\<exists>dir. legal (ai_tiles (dummy c)) dir) \<longrightarrow> legal (ai_tiles (dummy c)) (move_dir type)) \<and>
    (\<forall>other. other \<noteq> conn \<longrightarrow> ai_map s' other = ai_map s other)"
proof -
  let ?w = "ai_tiles (dummy c)"
  obtain ai where ai: "ai_map s conn = Some (Some ai)" "ai_tiles ai = u" using u(1) by (auto simp: player_at_def)
  let ?ai = "AddComputerMove (grid_of (concat (GetAllTiles (dummy c)))) ai"
  have board: "ai_tiles ?ai = ?w" using add_computer_move [OF w(1)] u(2) ai(2) by simp
  obtain r ai' where r: "GetPlayerBestMove rounds ?ai = Some (int r, ai')" "r < 4" "ai_tiles ai' = ?w"
      "r \<noteq> kUp \<Longrightarrow> legal ?w r" "0 < rounds \<Longrightarrow> \<exists>dir. legal ?w dir \<Longrightarrow> legal ?w r"
    using play_best_move [of ?ai rounds] w unfolding board by blast
  have len: "length (concat (GetAllTiles (dummy c))) = 16" by (simp add: tile_data)
  obtain moved t where mv: "TryMove r ?w = (moved, t)" by fastforce
  let ?type = "if moved then move_type (int r) else UP"
  have dir: "move_dir ?type = r"
  proof (cases moved)
    case True
    then show ?thesis using move_type_dir [OF r(2)] by simp
  next
    case False
    then show ?thesis using r(4) mv by (auto simp: legal_def kUp_def move_dir_def)
  qed
  let ?s' = "s\<lparr>ai_map := (ai_map s)(conn \<mapsto> Some (ai'\<lparr>ai_tiles := t\<rparr>))\<rparr>"
  have "OnCSAI2048Tile_ai rounds conn (concat (GetAllTiles (dummy c))) False s = Some (?s', [Send (SCAI2048Move ?type)])"
    using ai r(1,3) mv len by (simp add: OnCSAI2048Tile_ai_def Let_def fun_upd_idem)
  moreover have "player_at conn ?s' (snd (TryMove (move_dir ?type) ?w))" unfolding dir mv by (simp add: player_at_def)
  moreover have "legal ?w (move_dir ?type)" if "0 < rounds" "\<exists>dir. legal ?w dir"
    unfolding dir using r(5) that by blast
  moreover have "ai_map ?s' other = ai_map s other" if "other \<noteq> conn" for other using that by simp
  ultimately show ?thesis by blast
qed

lemma client_turn:
  assumes w: "bounded_tiles 11 (ai_tiles (dummy c))" "\<not> IsWin (ai_tiles (dummy c))"
    and m: "OnSCAI2048Move_client type r1 r2 c = (c', m)"
  shows "bounded_tiles 11 (ai_tiles (dummy c'))"
    and "m = CSAI2048Tile (concat (GetAllTiles (dummy c')))
           (IsWin (ai_tiles (dummy c')) \<or> \<not> fst (TryMove (move_dir type) (ai_tiles (dummy c))))"
    and "part_of (snd (TryMove (move_dir type) (ai_tiles (dummy c)))) (ai_tiles (dummy c'))"
proof -
  let ?w = "ai_tiles (dummy c)"
  obtain moved t where mv: "TryMove (move_dir type) ?w = (moved, t)" by fastforce
  have t: "bounded_tiles 11 t" by (rule play_move [OF move_dir_less w mv])
  let ?d = "AddRandTile r1 r2 ((dummy c)\<lparr>ai_tiles := t\<rparr>)"
  have d: "dummy c' = ?d" "m = CSAI2048Tile (concat (GetAllTiles ?d)) (IsWin (ai_tiles ?d) \<or> \<not> moved)"
    using m mv by (auto simp: OnSCAI2048Move_client_def SendTileDataToServer_def Let_def split: if_splits)
  show "bounded_tiles 11 (ai_tiles (dummy c'))"
    "m = CSAI2048Tile (concat (GetAllTiles (dummy c')))
           (IsWin (ai_tiles (dummy c')) \<or> \<not> fst (TryMove (move_dir type) (ai_tiles (dummy c))))"
    "part_of (snd (TryMove (move_dir type) (ai_tiles (dummy c)))) (ai_tiles (dummy c'))"
    using rand_tile [of "(dummy c)\<lparr>ai_tiles := t\<rparr>" r1 r2] t d mv by simp_all
qed

lemma part_of_zero: "part_of (replicate 20 0) u \<Longrightarrow> part_of u w \<Longrightarrow> part_of (replicate 20 0) w"
proof -
  assume z: "part_of (replicate 20 0) u" and u: "part_of u w"
  have "w ! i = 0" if "i < 20" "\<not> i < 16" for i
    using z u that unfolding part_of_def by (metis nth_replicate)
  then show ?thesis unfolding part_of_def by (metis length_replicate nth_replicate)
qed

lemma start_boards:
  "bounded_tiles 11 (ai_tiles (dummy (InitDummy r1 r2 r3 r4))) \<and> part_of (ai_tiles Clear) (ai_tiles (dummy (InitDummy r1 r2 r3 r4)))"
proof -
  have b0: "bounded_tiles 11 (ai_tiles Clear)" by (simp add: Clear_def bounded_tiles_def list_all_iff)
  note b1 = rand_tile [OF b0, of r1 r2]
  note b2 = rand_tile [OF conjunct1 [OF b1], of r3 r4]
  have "part_of (ai_tiles Clear) (ai_tiles (AddRandTile r3 r4 (AddRandTile r1 r2 Clear)))"
    using part_of_zero b1 b2 by (metis Clear_def AI2048.select_convs(1))
  then show ?thesis using b2 by (simp add: InitDummy_def)
qed

theorem ai_game_ok: "ai_game conn c s f \<Longrightarrow> game_ok conn c s f"
proof (induction rule: ai_game.induct)
  case (connect r1 r2 r3 r4 c m s)
  note b = start_boards [of r1 r2 r3 r4]
  have c: "dummy c = dummy (InitDummy r1 r2 r3 r4)"
    "m = CSAI2048Tile (concat (GetAllTiles (dummy c))) (IsWin (ai_tiles (dummy c)))"
    using connect by (auto simp: OnConnection_client_def SendTileDataToServer_def Let_def split: if_splits)
  have "player_at conn (OnConnection_ai conn True s) (ai_tiles Clear)" by (simp add: player_at_def OnConnection_ai_def)
  then show ?case unfolding game_ok_simps using b c by metis
next
  case (server c s m rounds s' a)
  from server.IH obtain over u where g: "bounded_tiles 11 (ai_tiles (dummy c))"
      "m = CSAI2048Tile (concat (GetAllTiles (dummy c))) over" "IsWin (ai_tiles (dummy c)) \<longrightarrow> over"
      "player_at conn s u" "part_of u (ai_tiles (dummy c))"
    unfolding game_ok_simps by blast
  show ?case
  proof (cases over)
    case True
    then have "server_message rounds conn (CSAI2048Tile (concat (GetAllTiles (dummy c))) True) s = Some (s', [a])"
      using server.hyps(2) g(2) by simp
    then have "a = Shutdown" using server_over(1) by blast
    then show ?thesis using g(1) by (simp add: game_ok_simps)
  next
    case False
    have nw: "\<not> IsWin (ai_tiles (dummy c))" using False g(3) by simp
    obtain type s'' where t: "OnCSAI2048Tile_ai rounds conn (concat (GetAllTiles (dummy c))) False s = Some (s'', [Send (SCAI2048Move type)])"
        "player_at conn s'' (snd (TryMove (move_dir type) (ai_tiles (dummy c))))"
      using server_turn [OF g(1) nw g(4,5), of rounds] by (elim exE conjE) (rule that)
    have "a = Send (SCAI2048Move type)" "s' = s''"
      using server.hyps(2) t(1) False unfolding g(2) server_message_def by simp_all
    then show ?thesis using t(2) g(1,3) False by (simp add: game_ok_simps)
  qed
next
  case (client c s type r1 r2 c' m)
  from client.IH have g: "bounded_tiles 11 (ai_tiles (dummy c))" "\<not> IsWin (ai_tiles (dummy c))"
      "player_at conn s (snd (TryMove (move_dir type) (ai_tiles (dummy c))))"
    unfolding game_ok_simps by blast+
  note ct = client_turn [OF g(1,2) client.hyps(2)]
  then show ?case using g(3) unfolding game_ok_simps by blast
next
  case (others c s f s')
  have "player_at conn s' = player_at conn s" using others.hyps(2) by (simp add: player_at_def fun_eq_iff)
  then show ?case using others.IH by (cases f) (simp_all add: game_ok_simps)
qed

section \<open>Properties\<close>

text \<open>The first turn of a game: two tiles in the second row, and a server without time to search.\<close>

definition example_client :: ai_client where
  "example_client = \<lparr>dummy = \<lparr>ai_tiles = [0, 0, 0, 0, 1, 1, 0, 0, 0, 0, 0, 0, 0, 0, 0, 0, 0, 0, 0, 0], ai_best_move = -1\<rparr>, num_winer = 0\<rparr>"

definition example_data :: "int list" where
  "example_data = [0, 0, 0, 0, 2, 2, 0, 0, 0, 0, 0, 0, 0, 0, 0, 0]"

lemma example_connects: "OnConnection_client True (InitDummy 4 1 4 1) = (example_client, [CSAI2048Tile example_data False])"
  by code_simp

lemma example_game: "ai_game 0 example_client (OnConnection_ai 0 True \<lparr>ai_map = Map.empty\<rparr>) (To_server (CSAI2048Tile example_data False))"
  by (rule ai_game.connect [OF example_connects])

definition example_answer :: "AI2048" where
  "example_answer = \<lparr>ai_tiles = [1, 1, 0, 0, 0, 0, 0, 0, 0, 0, 0, 0, 0, 0, 0, 0, 0, 0, 0, 0], ai_best_move = -1\<rparr>"

lemma example_best: "GetPlayerBestMove 0 (AddComputerMove (grid_of example_data) Clear) = Some (0, dummy example_client)"
  "TryMove (nat 0) (ai_tiles (dummy example_client)) = (True, ai_tiles example_answer)"
  by code_simp+

lemma example_server:
  "server_message 0 0 (CSAI2048Tile example_data False) (OnConnection_ai 0 True \<lparr>ai_map = Map.empty\<rparr>) =
    Some (\<lparr>ai_map = [0 \<mapsto> Some example_answer]\<rparr>, [Send (SCAI2048Move UP)])"
  using example_best
  by (simp add: server_message_def OnCSAI2048Tile_ai_def OnConnection_ai_def move_type_def fun_upd_idem)
     (simp add: example_data_def example_answer_def example_client_def move_type_def)

lemma example_turn: "ai_game 0 example_client \<lparr>ai_map = [0 \<mapsto> Some example_answer]\<rparr> (To_client (SCAI2048Move UP))"
  using ai_game.server [OF example_game example_server] by simp

text \<open>C38: In every game the server's board follows the client's one. When the server
  has a board to answer it never fails and sends a move; the board it holds then is the client's
  board after that move, and with time for a search the move is legal whenever some move is.\<close>

theorem game_boards_agree:
  assumes "ai_game conn c s (To_server (CSAI2048Tile data False))"
  shows "\<exists>type s' ai. server_message rounds conn (CSAI2048Tile data False) s = Some (s', [Send (SCAI2048Move type)]) \<and>
    ai_map s' conn = Some (Some ai) \<and> ai_tiles ai = snd (TryMove (move_dir type) (ai_tiles (dummy c))) \<and>
    (0 < rounds \<longrightarrow> (fst (TryMove (move_dir type) (ai_tiles (dummy c))) \<longleftrightarrow> (\<exists>dir < 4. fst (TryMove dir (ai_tiles (dummy c))))))"
proof -
  let ?w = "ai_tiles (dummy c)"
  from ai_game_ok [OF assms] obtain u where g: "bounded_tiles 11 ?w"
      "data = concat (GetAllTiles (dummy c))" "\<not> IsWin ?w" "player_at conn s u" "part_of u ?w"
    unfolding game_ok_simps by blast
  obtain type s' where t: "OnCSAI2048Tile_ai rounds conn data False s = Some (s', [Send (SCAI2048Move type)])"
      "player_at conn s' (snd (TryMove (move_dir type) ?w))"
      "0 < rounds \<longrightarrow> (\<exists>dir. legal ?w dir) \<longrightarrow> legal ?w (move_dir type)"
    using server_turn [OF g(1,3,4,5), of rounds] unfolding g(2) [symmetric] by (elim exE conjE) (rule that)
  obtain ai where ai: "ai_map s' conn = Some (Some ai)" "ai_tiles ai = snd (TryMove (move_dir type) ?w)"
    using t(2) by (auto simp: player_at_def)
  have "fst (TryMove (move_dir type) ?w) \<longleftrightarrow> (\<exists>dir < 4. fst (TryMove dir ?w))" if "0 < rounds"
    using t(3) that move_dir_less [of type] unfolding legal_def by blast
  then show ?thesis using ai t(1) by (intro exI [of _ type] exI [of _ s'] exI [of _ ai]) (simp add: server_message_def)
qed

theorem game_boards_agree_witness:
  "\<exists>type s' ai. server_message 2 0 (CSAI2048Tile example_data False) (OnConnection_ai 0 True \<lparr>ai_map = Map.empty\<rparr>) =
      Some (s', [Send (SCAI2048Move type)]) \<and> ai_map s' 0 = Some (Some ai) \<and>
    ai_tiles ai = snd (TryMove (move_dir type) (ai_tiles (dummy example_client)))"
  using game_boards_agree [OF example_game, of 2] by (elim exE conjE) (intro exI conjI)

text \<open>C39: When the client has made the move that the server sent, it reports the end of
  the game exactly if its board has a tile 2048 then or the move was not legal; and the server
  ends the connection exactly for such a report.\<close>

theorem game_over_exact:
  assumes "ai_game conn c s (To_client (SCAI2048Move type))" "OnSCAI2048Move_client type r1 r2 c = (c', m)"
  shows "\<exists>over. m = CSAI2048Tile (concat (GetAllTiles (dummy c'))) over \<and>
    (over \<longleftrightarrow> IsWin (ai_tiles (dummy c')) \<or> \<not> fst (TryMove (move_dir type) (ai_tiles (dummy c)))) \<and>
    (\<exists>s' a. server_message rounds conn m s = Some (s', [a]) \<and> (a = Shutdown \<longleftrightarrow> over))"
proof -
  from ai_game_ok [OF assms(1)] have g: "bounded_tiles 11 (ai_tiles (dummy c))" "\<not> IsWin (ai_tiles (dummy c))"
    unfolding game_ok_simps by blast+
  note ct = client_turn [OF g assms(2)]
  let ?over = "IsWin (ai_tiles (dummy c')) \<or> \<not> fst (TryMove (move_dir type) (ai_tiles (dummy c)))"
  have "\<exists>s' a. server_message rounds conn m s = Some (s', [a]) \<and> (a = Shutdown \<longleftrightarrow> ?over)"
  proof (cases ?over)
    case True
    obtain s' where "server_message rounds conn m s = Some (s', [Shutdown])"
      using server_over(2) True unfolding ct(2) by (simp only:) blast
    then show ?thesis using True by blast
  next
    case False
    have "ai_game conn c' s (To_server m)" by (rule ai_game.client [OF assms])
    then have "game_ok conn c' s (To_server m)" by (rule ai_game_ok)
    then obtain u where u: "player_at conn s u" "part_of u (ai_tiles (dummy c'))"
      unfolding game_ok_simps by blast
    have nw: "\<not> IsWin (ai_tiles (dummy c'))" using False by simp
    obtain type' s' where t: "OnCSAI2048Tile_ai rounds conn (concat (GetAllTiles (dummy c'))) False s = Some (s', [Send (SCAI2048Move type')])"
      using server_turn [OF ct(1) nw u, of rounds] by (elim exE conjE) (rule that)
    have "m = CSAI2048Tile (concat (GetAllTiles (dummy c'))) False" using ct(2) False by simp
    then have "server_message rounds conn m s = Some (s', [Send (SCAI2048Move type')])" using t by (simp add: server_message_def)
    then show ?thesis using False by blast
  qed
  then show ?thesis using ct(2) by blast
qed

theorem game_over_exact_witness:
  "snd (OnSCAI2048Move_client UP 0 1 example_client) =
     CSAI2048Tile (concat (GetAllTiles (dummy (fst (OnSCAI2048Move_client UP 0 1 example_client))))) False"
proof -
  have "\<not> IsWin (ai_tiles (dummy (fst (OnSCAI2048Move_client UP 0 1 example_client))))"
    "fst (TryMove (move_dir UP) (ai_tiles (dummy example_client)))" by code_simp+
  moreover obtain over where "snd (OnSCAI2048Move_client UP 0 1 example_client) =
        CSAI2048Tile (concat (GetAllTiles (dummy (fst (OnSCAI2048Move_client UP 0 1 example_client))))) over"
      "over \<longleftrightarrow> IsWin (ai_tiles (dummy (fst (OnSCAI2048Move_client UP 0 1 example_client)))) \<or>
        \<not> fst (TryMove (move_dir UP) (ai_tiles (dummy example_client)))"
    using game_over_exact [OF example_turn surjective_pairing, of 0 1 0] by (elim exE conjE) (rule that)
  ultimately show ?thesis by simp
qed

end
