(* ===== verification/Ai_Codec.thy ===== *)
theory Ai_Codec
  imports Prelude
begin

text \<open>
  The framing of protobuf messages between the 2048 server and its clients
  (\<open>ai/2048/codec.h\<close>, \<open>ai/2048/codec.cc\<close>) and the dispatch by message type
  (\<open>ai/2048/dispatcher.h\<close>). The protobuf library is the parameter \<open>protobuf\<close>: types are known
  by descriptors, a message is parsed and serialized by its type. The checksum of zlib is the
  parameter \<open>adler\<close>. \<open>None\<close> is a failed assertion or a fatal error of the protobuf library.
\<close>

section \<open>Messages on the wire\<close>

record ('d, 'm) protobuf =
  pb_FindMessageTypeByName :: "bytes \<Rightarrow> 'd option"
  pb_GetPrototype :: "'d \<Rightarrow> bool"
  pb_ParseFromArray :: "'d \<Rightarrow> bytes \<Rightarrow> 'm option"
  pb_GetDescriptor :: "'m \<Rightarrow> 'd"
  pb_GetTypeName :: "'m \<Rightarrow> bytes"
  pb_IsInitialized :: "'m \<Rightarrow> bool"
  pb_ByteSize :: "'m \<Rightarrow> nat"
  pb_Serialize :: "'m \<Rightarrow> bytes"

datatype codec_error =
  kNoError | kInvalidLength | kCheckSumError | kInvalidNameLen | kUnknownMessageType | kParseError

definition errorCodeToString :: "codec_error \<Rightarrow> string" where
  "errorCodeToString errorCode = (case errorCode of
       kNoError \<Rightarrow> ''NoError''
     | kInvalidLength \<Rightarrow> ''InvalidLength''
     | kCheckSumError \<Rightarrow> ''CheckSumError''
     | kInvalidNameLen \<Rightarrow> ''InvalidNameLen''
     | kUnknownMessageType \<Rightarrow> ''UnknownMessageType''
     | kParseError \<Rightarrow> ''ParseError'')"

definition kHeaderLen :: nat where "kHeaderLen = 4"
definition kMinMessageLen :: nat where "kMinMessageLen = 2 * kHeaderLen + 2"
definition kMaxMessageLen :: nat where "kMaxMessageLen = 64 * 1024 * 1024"

definition asInt32 :: "bytes \<Rightarrow> int" where
  "asInt32 buf = sint (of_le32 (buf ! 3) (buf ! 2) (buf ! 1) (buf ! 0))"

definition fillEmptyBuffer :: "(bytes \<Rightarrow> u32) \<Rightarrow> ('d, 'm) protobuf \<Rightarrow> bytes \<Rightarrow> 'm \<Rightarrow> bytes option" where
  "fillEmptyBuffer adler P buf message =
     (if buf \<noteq> [] then None
      else
        let typeName = pb_GetTypeName P message;
            nameLen = length typeName + 1;
            buf = buf @ be32 (of_nat nameLen) @ typeName @ [0]
        in if \<not> pb_IsInitialized P message then None
           else
             let byte_size = pb_ByteSize P message; data = pb_Serialize P message
             in if length data \<noteq> byte_size then None
                else
                  let buf = buf @ data;
                      buf = buf @ be32 (adler buf)
                  in if length buf \<noteq> 4 + nameLen + byte_size + 4 then None
                     else Some (be32 (of_nat (length buf)) @ buf))"

definition createMessage :: "('d, 'm) protobuf \<Rightarrow> bytes \<Rightarrow> 'd option" where
  "createMessage P typeName = (case pb_FindMessageTypeByName P typeName of
       None \<Rightarrow> None
     | Some descriptor \<Rightarrow> if pb_GetPrototype P descriptor then Some descriptor else None)"

text \<open>The error code and the message. What a failed \<open>ParseFromArray\<close> leaves in the message is not
  used by the caller.\<close>

definition parse_message :: "(bytes \<Rightarrow> u32) \<Rightarrow> ('d, 'm) protobuf \<Rightarrow> bytes \<Rightarrow> nat \<Rightarrow> codec_error \<times> 'm option" where
  "parse_message adler P buf len =
     (let expectedCheckSum = asInt32 (drop (len - kHeaderLen) buf);
          checkSum = sint (adler (take (len - kHeaderLen) buf))
      in if checkSum = expectedCheckSum then
           let nameLen = asInt32 buf
           in if nameLen \<ge> 2 \<and> nameLen \<le> int len - 2 * int kHeaderLen then
                case createMessage P (take (nat nameLen - 1) (drop kHeaderLen buf)) of
                  None \<Rightarrow> (kUnknownMessageType, None)
                | Some message \<Rightarrow>
                    let data = drop (kHeaderLen + nat nameLen) buf;
                        dataLen = len - nat nameLen - 2 * kHeaderLen
                    in (case pb_ParseFromArray P message (take dataLen data) of
                          None \<Rightarrow> (kParseError, None)
                        | Some m \<Rightarrow> (kNoError, Some m))
              else (kInvalidNameLen, None)
         else (kCheckSumError, None))"

text \<open>The loop of \<open>onMessage\<close>: the messages passed on, what is left of the buffer and the error
  that ended it.\<close>

function onMessage :: "(bytes \<Rightarrow> u32) \<Rightarrow> ('d, 'm) protobuf \<Rightarrow> bytes \<Rightarrow> 'm list \<times> bytes \<times> codec_error option" where
  "onMessage adler P buf =
     (if length buf \<ge> kMinMessageLen + kHeaderLen then
        let len = asInt32 buf
        in if len > int kMaxMessageLen \<or> len < int kMinMessageLen then ([], buf, Some kInvalidLength)
           else if length buf \<ge> nat len + kHeaderLen then
             (case parse_message adler P (drop kHeaderLen buf) (nat len) of
                (kNoError, Some m) \<Rightarrow>
                  (case onMessage adler P (drop (kHeaderLen + nat len) buf) of
                     (ms, rest, e) \<Rightarrow> (m # ms, rest, e))
              | (e, _) \<Rightarrow> ([], buf, Some e))
           else ([], buf, None)
      else ([], buf, None))"
  by pat_completeness auto
termination by (relation "measure (\<lambda>(_, _, buf). length buf)") (auto simp: kHeaderLen_def kMinMessageLen_def)

declare onMessage.simps [simp del]

section \<open>A connection\<close>

text \<open>The network library appends to the buffer and calls \<open>onMessage\<close>. The default callback for
  errors shuts a connection down.\<close>

record 'm codec_conn =
  cc_buf :: bytes
  cc_messages :: "'m list"
  cc_errors :: "codec_error list"
  cc_shutdown :: bool

definition new_codec_conn :: "'m codec_conn" where
  "new_codec_conn = \<lparr>cc_buf = [], cc_messages = [], cc_errors = [], cc_shutdown = False\<rparr>"

definition defaultErrorCallback :: "codec_error \<Rightarrow> 'm codec_conn \<Rightarrow> 'm codec_conn" where
  "defaultErrorCallback errorCode c = c\<lparr>cc_errors := cc_errors c @ [errorCode], cc_shutdown := True\<rparr>"

definition codec_receive :: "(bytes \<Rightarrow> u32) \<Rightarrow> ('d, 'm) protobuf \<Rightarrow> bytes \<Rightarrow> 'm codec_conn \<Rightarrow> 'm codec_conn" where
  "codec_receive adler P data c =
     (case onMessage adler P (cc_buf c @ data) of (ms, rest, e) \<Rightarrow>
        let c = c\<lparr>cc_buf := rest, cc_messages := cc_messages c @ ms\<rparr>
        in case e of None \<Rightarrow> c | Some errorCode \<Rightarrow> defaultErrorCallback errorCode c)"

section \<open>Dispatch\<close>

text \<open>The map of callbacks and the default callback; a callback is any function of the message.\<close>

record ('d, 'm, 'a) dispatcher =
  di_callbacks :: "'d \<rightharpoonup> ('m \<Rightarrow> 'a)"
  di_default :: "'m \<Rightarrow> 'a"

definition registerMessageCallback :: "'d \<Rightarrow> ('m \<Rightarrow> 'a) \<Rightarrow> ('d, 'm, 'a) dispatcher \<Rightarrow> ('d, 'm, 'a) dispatcher" where
  "registerMessageCallback descriptor callback D = D\<lparr>di_callbacks := (di_callbacks D)(descriptor \<mapsto> callback)\<rparr>"

definition onProtobufMessage :: "('d, 'm) protobuf \<Rightarrow> ('d, 'm, 'a) dispatcher \<Rightarrow> 'm \<Rightarrow> 'a" where
  "onProtobufMessage P D message = (case di_callbacks D (pb_GetDescriptor P message) of
       Some callback \<Rightarrow> callback message
     | None \<Rightarrow> di_default D message)"

section \<open>Framing does not depend on how the bytes arrive\<close>

lemmas codec_lens = kHeaderLen_def kMinMessageLen_def kMaxMessageLen_def

lemma asInt32_append: "4 \<le> length buf \<Longrightarrow> asInt32 (buf @ ys) = asInt32 buf"
proof -
  assume "4 \<le> length buf"
  then have "0 < length buf" "1 < length buf" "2 < length buf" "3 < length buf" by linarith+
  then show ?thesis unfolding asInt32_def by (simp only: nth_append if_True)
qed

lemma asInt32_be32: "asInt32 (be32 w @ ys) = sint w"
  by (simp add: asInt32_def be32_def le32_def of_le32_le32)

lemma parse_message_append:
  assumes "8 \<le> len" "len \<le> length buf"
  shows "parse_message adler P (buf @ ys) len = parse_message adler P buf len"
proof -
  have e: "asInt32 (drop (len - kHeaderLen) (buf @ ys)) = asInt32 (drop (len - kHeaderLen) buf)"
      "asInt32 (buf @ ys) = asInt32 buf" "take (len - kHeaderLen) (buf @ ys) = take (len - kHeaderLen) buf"
    using asInt32_append [of "drop (len - kHeaderLen) buf" ys] asInt32_append [of buf ys] assms by (auto simp: codec_lens)
  show ?thesis
  proof (cases "asInt32 buf \<ge> 2 \<and> asInt32 buf \<le> int len - 2 * int kHeaderLen")
    case True
    then have d: "take (nat (asInt32 buf) - 1) (drop kHeaderLen (buf @ ys)) = take (nat (asInt32 buf) - 1) (drop kHeaderLen buf)"
        "take (len - nat (asInt32 buf) - 2 * kHeaderLen) (drop (kHeaderLen + nat (asInt32 buf)) (buf @ ys)) =
          take (len - nat (asInt32 buf) - 2 * kHeaderLen) (drop (kHeaderLen + nat (asInt32 buf)) buf)"
      using assms by (auto simp: codec_lens)
    show ?thesis unfolding parse_message_def Let_def e d by simp
  next
    case False
    then show ?thesis unfolding parse_message_def Let_def e by (simp only: if_False)
  qed
qed

lemmas onMessage_unfold = onMessage.simps [unfolded Let_def]

lemma onMessage_append:
  "onMessage adler P (buf @ ys) = (case onMessage adler P buf of
      (ms, rest, None) \<Rightarrow> (case onMessage adler P (rest @ ys) of (ms', rest', e) \<Rightarrow> (ms @ ms', rest', e))
    | (ms, rest, Some e) \<Rightarrow> (ms, rest @ ys, Some e))"
proof (induction adler P buf rule: onMessage.induct)
  case (1 adler P buf)
  let ?len = "nat (asInt32 buf)"
  note step = onMessage_unfold [of adler P buf] and step_ys = onMessage_unfold [of adler P "buf @ ys"]
  show ?case
  proof (cases "length buf \<ge> kMinMessageLen + kHeaderLen")
    case long: True
    then have long': "length (buf @ ys) \<ge> kMinMessageLen + kHeaderLen" by simp
    have len: "asInt32 (buf @ ys) = asInt32 buf" using long by (intro asInt32_append) (simp add: codec_lens)
    show ?thesis
    proof (cases "asInt32 buf > int kMaxMessageLen \<or> asInt32 buf < int kMinMessageLen")
      case True
      then show ?thesis unfolding step step_ys len by (simp only: long long' if_True case_prod_conv option.case)
    next
      case ok: False
      show ?thesis
      proof (cases "length buf \<ge> ?len + kHeaderLen")
        case all: True
        then have all': "length (buf @ ys) \<ge> ?len + kHeaderLen" by simp
        have p: "parse_message adler P (drop kHeaderLen (buf @ ys)) ?len = parse_message adler P (drop kHeaderLen buf) ?len"
          using parse_message_append [of "?len" "drop kHeaderLen buf" adler P ys] long ok all by (auto simp: codec_lens)
        have d: "drop (kHeaderLen + ?len) (buf @ ys) = drop (kHeaderLen + ?len) buf @ ys" using all by simp
        obtain e m where em: "parse_message adler P (drop kHeaderLen buf) ?len = (e, m)" by fastforce
        have s: "onMessage adler P buf = (case (e, m) of (kNoError, Some m) \<Rightarrow>
            (case onMessage adler P (drop (kHeaderLen + ?len) buf) of (ms, rest, e) \<Rightarrow> (m # ms, rest, e))
            | (e, _) \<Rightarrow> ([], buf, Some e))"
          using long ok all unfolding step em by simp
        have s': "onMessage adler P (buf @ ys) = (case (e, m) of (kNoError, Some m) \<Rightarrow>
            (case onMessage adler P (drop (kHeaderLen + ?len) buf @ ys) of (ms, rest, e) \<Rightarrow> (m # ms, rest, e))
            | (e, _) \<Rightarrow> ([], buf @ ys, Some e))"
          using long' ok all' unfolding step_ys len p em d by simp
        show ?thesis
        proof (cases "e = kNoError \<and> m \<noteq> None")
          case True
          then obtain m' where m: "e = kNoError" "m = Some m'" by blast
          note IH = "1.IH" [OF long refl ok all em [symmetric] m]
          show ?thesis unfolding s s' m IH by (simp split: prod.split option.split)
        next
          case False
          then show ?thesis unfolding s s' by (cases e; cases m) simp_all
        qed
      next
        case False
        then have "onMessage adler P buf = ([], buf, None)" using long ok by (simp add: step)
        then show ?thesis by (simp split: prod.split)
      qed
    qed
  next
    case False
    then have "onMessage adler P buf = ([], buf, None)" by (simp add: step)
    then show ?thesis by (simp split: prod.split)
  qed
qed

section \<open>A frame is read back\<close>

text \<open>A message that the receiver knows: its type is linked in and its parser inverts the
  serializer, as the protobuf library documents.\<close>

definition known_message :: "('d, 'm) protobuf \<Rightarrow> 'm \<Rightarrow> bool" where
  "known_message P m \<longleftrightarrow> pb_GetTypeName P m \<noteq> [] \<and>
     (\<exists>d. createMessage P (pb_GetTypeName P m) = Some d \<and> pb_ParseFromArray P d (pb_Serialize P m) = Some m)"

lemma sint_of_nat_u32: "n < 2 ^ 31 \<Longrightarrow> sint (of_nat n :: u32) = int n"
  by (simp add: signed_of_nat signed_take_bit_int_eq_self)

definition frame_body :: "(bytes \<Rightarrow> u32) \<Rightarrow> ('d, 'm) protobuf \<Rightarrow> 'm \<Rightarrow> bytes" where
  "frame_body adler P m =
     (let b = be32 (of_nat (length (pb_GetTypeName P m) + 1)) @ pb_GetTypeName P m @ [0] @ pb_Serialize P m
      in b @ be32 (adler b))"

lemma length_frame_body: "length (frame_body adler P m) = length (pb_GetTypeName P m) + length (pb_Serialize P m) + 9"
  by (simp add: frame_body_def Let_def)

lemma fill_frame:
  "fillEmptyBuffer adler P [] m = Some f \<Longrightarrow>
   f = be32 (of_nat (length (frame_body adler P m))) @ frame_body adler P m"
  by (simp add: fillEmptyBuffer_def Let_def frame_body_def split: if_splits)

lemma parse_frame:
  assumes k: "known_message P m" and n: "length (frame_body adler P m) \<le> kMaxMessageLen"
  shows "parse_message adler P (frame_body adler P m) (length (frame_body adler P m)) = (kNoError, Some m)"
proof -
  let ?name = "pb_GetTypeName P m" and ?data = "pb_Serialize P m"
  let ?b = "be32 (of_nat (length ?name + 1)) @ ?name @ [0] @ ?data"
  have f: "frame_body adler P m = ?b @ be32 (adler ?b)" by (simp add: frame_body_def Let_def)
  have l: "length (frame_body adler P m) = length ?b + 4" unfolding f by simp
  have small: "length ?name + 1 < 2 ^ 31" using n by (simp add: length_frame_body codec_lens)
  have e: "asInt32 (drop (length ?b + 4 - kHeaderLen) (frame_body adler P m)) = sint (adler ?b)"
    using asInt32_be32 [of "adler ?b" "[]"] unfolding f by (simp add: codec_lens)
  have t: "take (length ?b + 4 - kHeaderLen) (frame_body adler P m) = ?b" unfolding f by (simp add: codec_lens)
  have a: "asInt32 (frame_body adler P m) = int (length ?name + 1)"
    unfolding f using sint_of_nat_u32 [OF small] by (simp only: append_assoc asInt32_be32)
  have name: "take (nat (int (length ?name + 1)) - 1) (drop kHeaderLen (frame_body adler P m)) = ?name"
    unfolding f by (simp add: codec_lens)
  have data: "take (length ?b + 4 - nat (int (length ?name + 1)) - 2 * kHeaderLen)
      (drop (kHeaderLen + nat (int (length ?name + 1))) (frame_body adler P m)) = ?data"
    unfolding f by (simp add: codec_lens nat_add_distrib)
  have r: "2 \<le> int (length ?name + 1) \<and> int (length ?name + 1) \<le> int (length ?b + 4) - 2 * int kHeaderLen"
    using k by (cases ?name) (auto simp: known_message_def codec_lens)
  show ?thesis
    using k unfolding parse_message_def Let_def l e t a name data
    by (simp only: r if_True known_message_def) (auto split: option.splits)
qed

lemma onMessage_frame:
  assumes "fillEmptyBuffer adler P [] m = Some f" "known_message P m" "length f \<le> kMaxMessageLen"
  shows "onMessage adler P (f @ ys) = (case onMessage adler P ys of (ms, rest, e) \<Rightarrow> (m # ms, rest, e))"
proof -
  let ?b = "frame_body adler P m"
  note f = fill_frame [OF assms(1)]
  have lb: "length ?b \<le> kMaxMessageLen" using assms(3) f by simp
  have ge: "kMinMessageLen \<le> length ?b" using assms(2)
    by (cases "pb_GetTypeName P m") (auto simp: length_frame_body known_message_def codec_lens)
  have a: "asInt32 (f @ ys) = int (length ?b)"
    unfolding f using sint_of_nat_u32 [of "length ?b"] lb by (simp add: asInt32_be32 codec_lens)
  have d: "drop kHeaderLen (f @ ys) = ?b @ ys" "drop (kHeaderLen + nat (int (length ?b))) (f @ ys) = ys"
    unfolding f by (simp_all add: codec_lens)
  have p: "parse_message adler P (?b @ ys) (length ?b) = (kNoError, Some m)"
    using parse_message_append [of "length ?b" ?b adler P ys] parse_frame [OF assms(2) lb] ge by (simp add: codec_lens)
  have l: "kMinMessageLen + kHeaderLen \<le> length (f @ ys)" "nat (int (length ?b)) + kHeaderLen \<le> length (f @ ys)"
    unfolding f using ge by (simp_all add: codec_lens)
  show ?thesis
    unfolding onMessage_unfold [of adler P "f @ ys"] a d using l lb ge p by simp
qed

text \<open>An error leaves the bad frame in the buffer, where it is found again.\<close>

lemma onMessage_again:
  "onMessage adler P buf = (ms, rest, Some e) \<Longrightarrow> onMessage adler P rest = ([], rest, Some e)"
proof (induction adler P buf arbitrary: ms rule: onMessage.induct)
  case (1 adler P buf)
  let ?len = "nat (asInt32 buf)"
  note step = onMessage_unfold [of adler P buf]
  show ?case
  proof (cases "length buf \<ge> kMinMessageLen + kHeaderLen \<and> \<not> (asInt32 buf > int kMaxMessageLen \<or> asInt32 buf < int kMinMessageLen)
      \<and> length buf \<ge> ?len + kHeaderLen \<and> (\<exists>m. parse_message adler P (drop kHeaderLen buf) ?len = (kNoError, Some m))")
    case True
    then obtain m where ok: "length buf \<ge> kMinMessageLen + kHeaderLen" "length buf \<ge> ?len + kHeaderLen"
        "\<not> (asInt32 buf > int kMaxMessageLen \<or> asInt32 buf < int kMinMessageLen)"
        and m: "parse_message adler P (drop kHeaderLen buf) ?len = (kNoError, Some m)" by blast
    obtain ms' where "onMessage adler P (drop (kHeaderLen + ?len) buf) = (ms', rest, Some e)"
      using "1.prems" ok m by (auto simp: step split: prod.splits)
    then show ?thesis using "1.IH" [OF ok(1) refl ok(3) ok(2) m [symmetric] refl refl] by blast
  next
    case False
    then have "rest = buf \<and> ms = []" using "1.prems" 
      by (auto simp: step split: if_splits prod.splits codec_error.splits option.splits)
    then show ?thesis using "1.prems" by simp
  qed
qed

definition sendable :: "(bytes \<Rightarrow> u32) \<Rightarrow> ('d, 'm) protobuf \<Rightarrow> 'm \<Rightarrow> bytes \<Rightarrow> bool" where
  "sendable adler P m f \<longleftrightarrow> fillEmptyBuffer adler P [] m = Some f \<and> known_message P m \<and> length f \<le> kMaxMessageLen"

lemma onMessage_frames:
  "list_all2 (sendable adler P) ms fs \<Longrightarrow> onMessage adler P (concat fs) = (ms, [], None)"
proof (induction ms fs rule: list_all2_induct)
  case Nil
  show ?case by (simp add: onMessage.simps codec_lens)
next
  case (Cons m ms f fs)
  then show ?case using onMessage_frame [of adler P m f "concat fs"] by (simp add: sendable_def)
qed

section \<open>Receiving in pieces\<close>

lemma receive_pieces:
  assumes "onMessage adler P (concat chunks) = (ms, rest, None)"
  shows "fold (codec_receive adler P) chunks new_codec_conn =
    \<lparr>cc_buf = rest, cc_messages = ms, cc_errors = [], cc_shutdown = False\<rparr>"
  using assms
proof (induction chunks arbitrary: ms rest rule: rev_induct)
  case Nil
  then show ?case by (simp add: onMessage.simps [of _ _ "[]"] codec_lens new_codec_conn_def)
next
  case (snoc data chunks)
  obtain ms0 rest0 e where b: "onMessage adler P (concat chunks) = (ms0, rest0, e)" by (metis prod_cases3)
  have e: "e = None" using snoc.prems onMessage_append [of adler P "concat chunks" data] b by (cases e) auto
  obtain ms1 where d: "onMessage adler P (rest0 @ data) = (ms1, rest, None)" "ms = ms0 @ ms1"
    using snoc.prems onMessage_append [of adler P "concat chunks" data] b e
    by (cases "onMessage adler P (rest0 @ data)") auto
  show ?case using snoc.IH [OF b [unfolded e]] d by (simp add: codec_receive_def)
qed

lemma onMessage_prefix:
  assumes "onMessage adler P (buf @ ys) = (ms, rest, None)"
  obtains ms0 ms1 rest0 where "onMessage adler P buf = (ms0, rest0, None)" "ms = ms0 @ ms1"
proof -
  obtain ms0 rest0 e where b: "onMessage adler P buf = (ms0, rest0, e)" by (metis prod_cases3)
  then have "e = None" "\<exists>ms1. ms = ms0 @ ms1" using assms onMessage_append [of adler P buf ys]
    by (cases e; auto split: prod.splits)+
  then show ?thesis using that b by blast
qed

section \<open>Properties\<close>

text \<open>A protobuf library with one type, named \<open>A\<close>, whose messages are byte strings.\<close>

definition one_type :: "(unit, bytes) protobuf" where
  "one_type = \<lparr>pb_FindMessageTypeByName = (\<lambda>n. if n = [65] then Some () else None), pb_GetPrototype = (\<lambda>_. True),
     pb_ParseFromArray = (\<lambda>_ b. Some b), pb_GetDescriptor = (\<lambda>_. ()), pb_GetTypeName = (\<lambda>_. [65]),
     pb_IsInitialized = (\<lambda>_. True), pb_ByteSize = length, pb_Serialize = (\<lambda>b. b)\<rparr>"

lemma one_type_sendable:
  "length m \<le> 8 \<Longrightarrow> sendable (\<lambda>_. 7) one_type m (the (fillEmptyBuffer (\<lambda>_. 7) one_type [] m))"
  by (simp add: sendable_def known_message_def createMessage_def fillEmptyBuffer_def one_type_def codec_lens)

text \<open>C32: Messages that are framed one after the other arrive at the receiver complete and in
  order, however the stream is cut into pieces: when all bytes are there, exactly the messages,
  with an empty buffer and no error; before that a part of them from the first on, and no error.\<close>

theorem codec_stream:
  assumes "list_all2 (\<lambda>m f. fillEmptyBuffer adler P [] m = Some f \<and> known_message P m \<and> length f \<le> kMaxMessageLen) ms fs"
    and "concat chunks @ later = concat fs"
  shows "\<exists>rest ms0 ms1. fold (codec_receive adler P) chunks new_codec_conn =
      \<lparr>cc_buf = rest, cc_messages = ms0, cc_errors = [], cc_shutdown = False\<rparr> \<and> ms = ms0 @ ms1 \<and>
      (later = [] \<longrightarrow> ms1 = [] \<and> rest = [])"
proof -
  have all: "onMessage adler P (concat chunks @ later) = (ms, [], None)"
    using onMessage_frames [of adler P ms fs] assms unfolding sendable_def by simp
  obtain ms0 ms1 rest where b: "onMessage adler P (concat chunks) = (ms0, rest, None)" "ms = ms0 @ ms1"
    using onMessage_prefix [OF all] by blast
  moreover have "later = [] \<longrightarrow> ms1 = [] \<and> rest = []" using all b by auto
  ultimately show ?thesis using receive_pieces [OF b(1)] by blast
qed

theorem codec_stream_witness:
  "cc_messages (fold (codec_receive (\<lambda>_. 7) one_type)
     (map (\<lambda>b. [b]) (the (fillEmptyBuffer (\<lambda>_. 7) one_type [] [1, 2]) @ the (fillEmptyBuffer (\<lambda>_. 7) one_type [] [3])))
     new_codec_conn) = [[1, 2], [3]]"
proof -
  let ?f = "\<lambda>m. the (fillEmptyBuffer (\<lambda>_. 7) one_type [] m)"
  have "concat (map (\<lambda>b. [b]) (?f [1, 2] @ ?f [3])) @ [] = concat [?f [1, 2], ?f [3]]" by simp
  from codec_stream [OF _ this, of "\<lambda>_. 7" one_type "[[1, 2], [3]]"]
  show ?thesis using one_type_sendable [of "[1, 2]"] one_type_sendable [of "[3]"] by (auto simp: sendable_def)
qed

text \<open>C33: The cut of any byte stream, well-formed or not, into pieces changes neither the
  messages that are passed on nor, while there is no error, the state of the connection; with an
  error it is reported at the piece that completes the bad frame and the connection is shut.\<close>

theorem codec_pieces:
  "case onMessage adler P (concat chunks) of (ms, rest, e) \<Rightarrow>
     cc_messages (fold (codec_receive adler P) chunks new_codec_conn) = ms \<and>
     cc_buf (fold (codec_receive adler P) chunks new_codec_conn) = rest \<and>
     (cc_shutdown (fold (codec_receive adler P) chunks new_codec_conn) \<longleftrightarrow> e \<noteq> None) \<and>
     set (cc_errors (fold (codec_receive adler P) chunks new_codec_conn)) = set_option e"
proof (induction chunks rule: rev_induct)
  case Nil
  show ?case by (simp add: onMessage.simps [of _ _ "[]"] codec_lens new_codec_conn_def)
next
  case (snoc data chunks)
  obtain ms rest e where b: "onMessage adler P (concat chunks) = (ms, rest, e)" by (metis prod_cases3)
  define c where "c = fold (codec_receive adler P) chunks new_codec_conn"
  have c: "cc_messages c = ms" "cc_buf c = rest" "cc_shutdown c \<longleftrightarrow> e \<noteq> None" "set (cc_errors c) = set_option e"
    using snoc b by (simp_all add: c_def)
  have f: "fold (codec_receive adler P) (chunks @ [data]) new_codec_conn = codec_receive adler P data c"
    by (simp add: c_def)
  obtain ms1 rest1 e1 where d: "onMessage adler P (rest @ data) = (ms1, rest1, e1)" by (metis prod_cases3)
  show ?case
  proof (cases e)
    case None
    then show ?thesis unfolding f using c d onMessage_append [of adler P "concat chunks" data] b
      by (cases e1) (simp_all add: codec_receive_def defaultErrorCallback_def)
  next
    case (Some err)
    have "onMessage adler P rest = ([], rest, Some err)" using onMessage_again b Some by fastforce
    then have "onMessage adler P (rest @ data) = ([], rest @ data, Some err)"
      using onMessage_append [of adler P rest data] by simp
    then show ?thesis unfolding f using c Some onMessage_append [of adler P "concat chunks" data] b
      by (simp add: codec_receive_def defaultErrorCallback_def)
  qed
qed

end
