(* ===== verification/String_Utils.thy ===== *)
theory String_Utils
  imports Prelude
begin

text \<open>
  The string helpers (\<open>common/string_utils.h\<close>; \<open>tcprelay/utils/string_utils.h\<close> is the same code
  in another namespace): a buffer inside a string, hex dumps, splitting, joining and trimming.
  The code fills the buffer that \<open>WriteInto\<close> sizes; a string here is that buffer, and \<open>None\<close> a
  failed assertion. Lengths are below \<open>2 ^ 31\<close>.
\<close>

section \<open>The buffer of a string\<close>

text \<open>\<open>resize\<close> cuts the string or pads it with zero bytes.\<close>

definition WriteInto :: "string \<Rightarrow> nat \<Rightarrow> string option" where
  "WriteInto str length_with_null =
     (if length_with_null > 1
      then Some (take (length_with_null - 1) (str @ replicate (length_with_null - 1) (CHR 0x00)))
      else None)"

text \<open>\<open>ptr[now_len++] = c\<close>, for a run of characters.\<close>

definition put_chars :: "string \<Rightarrow> string \<times> nat \<Rightarrow> string \<times> nat" where
  "put_chars cs = (\<lambda>(buf, now_len). (take now_len buf @ cs @ drop (now_len + length cs) buf, now_len + length cs))"

text \<open>The values of \<open>rand()\<close> are an argument; the low byte of each is kept.\<close>

definition GenRandString :: "int list \<Rightarrow> nat \<Rightarrow> string \<Rightarrow> string option" where
  "GenRandString rands len str =
     (if len > 0 then
        map_option (\<lambda>buf. fst (fold (\<lambda>i. put_chars [char_of (nat (rands ! i mod 256))]) [0..<len] (buf, 0)))
          (WriteInto str (len + 1))
      else None)"

section \<open>Hex dumps\<close>

definition hex_digit :: "nat \<Rightarrow> char" where
  "hex_digit d = ''0123456789abcdef'' ! d"

text \<open>\<open>snprintf(.., "0x%02x ", ..)\<close>.\<close>

definition hex_byte :: "char \<Rightarrow> string" where
  "hex_byte c = ''0x'' @ [hex_digit (of_char c div 16), hex_digit (of_char c mod 16), CHR '' '']"

fun hex_loop :: "string \<Rightarrow> nat \<Rightarrow> string \<times> nat \<Rightarrow> string \<times> nat" where
  "hex_loop [] len_with_null b = b"
| "hex_loop (c # cs) len_with_null (buf, now_len) =
     (if \<not> now_len < len_with_null then (buf, now_len)
      else hex_loop cs len_with_null
        (put_chars (take (len_with_null - now_len - 1) (hex_byte c)) (buf, now_len)))"

definition HexDump :: "string \<Rightarrow> string \<Rightarrow> string option" where
  "HexDump sp result =
     map_option (\<lambda>buf. fst (hex_loop sp (5 * length sp + 1) (buf, 0))) (WriteInto result (5 * length sp + 1))"

section \<open>Split, join and trim\<close>

definition is_space :: "char \<Rightarrow> bool" where
  "is_space c \<longleftrightarrow> c = CHR '' '' \<or> (9 \<le> (of_char c :: nat) \<and> (of_char c :: nat) \<le> 13)"

text \<open>\<open>ss >> x\<close> until it fails: skip white space, read up to the next.\<close>

function stream_words :: "string \<Rightarrow> string list" where
  "stream_words s =
     (let s = dropWhile is_space s in
      if s = [] then []
      else takeWhile (\<lambda>c. \<not> is_space c) s # stream_words (dropWhile (\<lambda>c. \<not> is_space c) s))"
  by pat_completeness auto
termination
proof (relation "measure length")
  fix s t :: string
  assume t: "t = dropWhile is_space s" "t \<noteq> []"
  obtain c cs where c: "t = c # cs" using t(2) by (metis list.exhaust)
  then have "\<not> is_space c" using hd_dropWhile [of is_space s] t by simp
  note c = c this
  have "length (dropWhile (\<lambda>c. \<not> is_space c) t) < length t" using c length_dropWhile_le [of _ cs] by (simp add: le_imp_less_Suc)
  also have "length t \<le> length s" unfolding t(1) by (rule length_dropWhile_le)
  finally show "(dropWhile (\<lambda>c. \<not> is_space c) t, s) \<in> measure length" by simp
qed simp

declare stream_words.simps [simp del]

definition Split :: "string \<Rightarrow> char \<Rightarrow> string list \<Rightarrow> string list" where
  "Split str delim vs = vs @ stream_words (map (\<lambda>c. if c = delim then CHR '' '' else c) str)"

fun join_loop :: "string \<Rightarrow> string list \<Rightarrow> string \<times> nat \<Rightarrow> string \<times> nat" where
  "join_loop str [] b = b"
| "join_loop str [v] b = put_chars v b"
| "join_loop str (v # vs) b = join_loop str vs (put_chars str (put_chars v b))"

definition Join :: "string \<Rightarrow> string list \<Rightarrow> string \<Rightarrow> string option" where
  "Join str vs result =
     (let total_len = (if length vs > 0 then (length vs - 1) * length str else 0) + sum_list (map length vs)
      in map_option (\<lambda>buf. fst (join_loop str vs (buf, 0))) (WriteInto result (total_len + 1)))"

text \<open>The two scans; the indices are integers as in the code, where \<open>end_id\<close> reaches -1.\<close>

function trim_begin :: "string \<Rightarrow> nat \<Rightarrow> nat" where
  "trim_begin str i = (if i < length str \<and> str ! i = CHR '' '' then trim_begin str (i + 1) else i)"
  by pat_completeness auto
termination by (relation "measure (\<lambda>(s, i). length s - i)") auto

function trim_end :: "string \<Rightarrow> int \<Rightarrow> int" where
  "trim_end str i = (if i \<ge> 0 \<and> str ! nat i = CHR '' '' then trim_end str (i - 1) else i)"
  by pat_completeness auto
termination by (relation "measure (\<lambda>(s, i). nat (i + 1))") auto

declare trim_begin.simps [simp del] trim_end.simps [simp del]

definition Trim :: "string \<Rightarrow> string \<Rightarrow> string option" where
  "Trim str result =
     (let begin_id = int (trim_begin str 0);
          end_id = trim_end str (int (length str) - 1);
          len_with_null = (if end_id > begin_id then end_id - begin_id + 2 else 1)
      in map_option (\<lambda>buf. fst (fold (\<lambda>i. put_chars [str ! nat i]) [begin_id..end_id] (buf, 0)))
           (WriteInto result (nat len_with_null)))"

section \<open>Filling a buffer\<close>

lemma length_WriteInto: "WriteInto str n = Some buf \<Longrightarrow> length buf = n - 1"
  by (auto simp: WriteInto_def split: if_splits)

lemma WriteInto_None: "WriteInto str n = None \<longleftrightarrow> n \<le> 1"
  by (simp add: WriteInto_def)

text \<open>\<open>filled xs b\<close>: the buffer starts with \<open>xs\<close> and the next character goes behind it.\<close>

definition filled :: "string \<Rightarrow> nat \<Rightarrow> string \<times> nat \<Rightarrow> bool" where
  "filled xs n = (\<lambda>(buf, now_len). now_len = length xs \<and> take now_len buf = xs \<and> length buf = n)"

lemma filled_put: "filled xs n b \<Longrightarrow> length xs + length cs \<le> n \<Longrightarrow> filled (xs @ cs) n (put_chars cs b)"
  by (cases b) (auto simp: filled_def put_chars_def)

lemma filled_start: "length buf = n \<Longrightarrow> filled [] n (buf, 0)"
  by (simp add: filled_def)

lemma filled_all: "filled xs n b \<Longrightarrow> length xs = n \<Longrightarrow> fst b = xs"
  by (cases b) (auto simp: filled_def)

lemma length_hex_byte [simp]: "length (hex_byte c) = 5"
  by (simp add: hex_byte_def)

lemma hex_loop_filled:
  "filled xs n b \<Longrightarrow> length xs + 5 * length cs \<le> n \<Longrightarrow>
   filled (xs @ concat (map hex_byte cs)) n (hex_loop cs (n + 1) b)"
proof (induction cs arbitrary: xs b)
  case (Cons c cs)
  obtain buf k where b: "b = (buf, k)" by fastforce
  then have k: "k = length xs" using Cons.prems(1) by (simp add: filled_def)
  have "filled (xs @ hex_byte c) n (put_chars (hex_byte c) b)"
    by (rule filled_put [OF Cons.prems(1)]) (use Cons.prems(2) in simp)
  from Cons.IH [OF this] show ?case using Cons.prems(2) b k by simp
qed simp

lemma hex_dump: "HexDump sp result = (if sp = [] then None else Some (concat (map hex_byte sp)))"
proof (cases "sp = []")
  case False
  then obtain buf where w: "WriteInto result (5 * length sp + 1) = Some buf"
    using WriteInto_None [of result "5 * length sp + 1"] by (cases "WriteInto result (5 * length sp + 1)") auto
  have l: "length (concat (map hex_byte sp)) = 5 * length sp" by (induction sp) simp_all
  have "filled (concat (map hex_byte sp)) (5 * length sp) (hex_loop sp (5 * length sp + 1) (buf, 0))"
    using hex_loop_filled [OF filled_start, of buf "5 * length sp" sp] length_WriteInto [OF w] by simp
  then show ?thesis using filled_all l w False by (simp add: HexDump_def)
qed (simp add: HexDump_def WriteInto_def)

section \<open>Join\<close>

fun join_list :: "string \<Rightarrow> string list \<Rightarrow> string" where
  "join_list str [] = []"
| "join_list str [v] = v"
| "join_list str (v # vs) = v @ str @ join_list str vs"

lemma length_join_list:
  "length (join_list str vs) = (if length vs > 0 then (length vs - 1) * length str else 0) + sum_list (map length vs)"
  by (induction str vs rule: join_list.induct) simp_all

lemma join_loop_filled:
  "filled xs n b \<Longrightarrow> length xs + length (join_list str vs) \<le> n \<Longrightarrow> filled (xs @ join_list str vs) n (join_loop str vs b)"
proof (induction str vs b arbitrary: xs rule: join_loop.induct)
  case (2 str v b)
  then show ?case using filled_put by simp
next
  case (3 str v w vs b)
  have "filled ((xs @ v) @ str) n (put_chars str (put_chars v b))"
    using filled_put [OF filled_put [OF "3.prems"(1)]] "3.prems"(2) by simp
  from "3.IH" [OF this] show ?case using "3.prems"(2) by simp
qed simp

lemma join: "Join str vs result = (if join_list str vs = [] then None else Some (join_list str vs))"
proof -
  let ?n = "length (join_list str vs)"
  have e: "Join str vs result = map_option (\<lambda>buf. fst (join_loop str vs (buf, 0))) (WriteInto result (?n + 1))"
    by (simp add: Join_def length_join_list)
  show ?thesis
  proof (cases "WriteInto result (?n + 1)")
    case None
    then show ?thesis using e WriteInto_None [of result "?n + 1"] by simp
  next
    case (Some buf)
    have "filled (join_list str vs) ?n (join_loop str vs (buf, 0))"
      using join_loop_filled [OF filled_start, of buf ?n str vs] length_WriteInto [OF Some] by simp
    then show ?thesis using e Some filled_all WriteInto_None [of result "?n + 1"] by auto
  qed
qed

section \<open>Split\<close>

lemma stream_words_Nil [simp]: "stream_words [] = []"
  by (simp add: stream_words.simps [of "[]"])

lemma stream_words_space: "is_space c \<Longrightarrow> stream_words (c # s) = stream_words s"
  by (subst (1 2) stream_words.simps) simp

definition word :: "string \<Rightarrow> bool" where
  "word v \<longleftrightarrow> v \<noteq> [] \<and> (\<forall>c \<in> set v. \<not> is_space c)"

lemma stream_words_word:
  assumes "word v" "s = [] \<or> is_space (hd s)"
  shows "stream_words (v @ s) = v # stream_words s"
proof -
  obtain c cs where v: "v = c # cs" "\<not> is_space c" using assms(1) by (cases v) (auto simp: word_def)
  have "takeWhile (\<lambda>c. \<not> is_space c) (v @ s) = v" "dropWhile (\<lambda>c. \<not> is_space c) (v @ s) = s"
    using assms by (cases s; simp add: word_def takeWhile_append2 dropWhile_append2)+
  then show ?thesis using v by (subst stream_words.simps) simp
qed

lemma stream_words_join:
  "list_all word vs \<Longrightarrow> stream_words (join_list '' '' vs) = vs"
proof (induction "'' ''" vs rule: join_list.induct)
  case (2 v)
  then show ?case using stream_words_word [of v "[]"] by simp
next
  case (3 v w vs)
  then show ?case
    using stream_words_word [of v "'' '' @ join_list '' '' (w # vs)"] by (simp add: is_space_def stream_words_space)
qed simp

lemma map_join_list: "map f (join_list str vs) = join_list (map f str) (map (map f) vs)"
  by (induction str vs rule: join_list.induct) simp_all

section \<open>Trim\<close>

lemma trim_begin_run:
  "set pre \<subseteq> {CHR '' ''} \<Longrightarrow> rest = [] \<or> hd rest \<noteq> CHR '' '' \<Longrightarrow>
   trim_begin (done @ pre @ rest) (length done) = length done + length pre"
proof (induction pre arbitrary: "done")
  case Nil
  then show ?case by (cases rest) (simp_all add: trim_begin.simps nth_append)
next
  case (Cons c pre)
  have "trim_begin ((done @ [c]) @ pre @ rest) (length (done @ [c])) = length (done @ [c]) + length pre"
    by (rule Cons.IH) (use Cons.prems in auto)
  then show ?case using Cons.prems(1) by (subst trim_begin.simps) simp
qed

lemma trim_end_run:
  "set post \<subseteq> {CHR '' ''} \<Longrightarrow> front = [] \<or> last front \<noteq> CHR '' '' \<Longrightarrow>
   trim_end (front @ post @ rest) (int (length front + length post) - 1) = int (length front) - 1"
proof (induction post arbitrary: rest rule: rev_induct)
  case Nil
  show ?case
  proof (cases "front = []")
    case True
    then show ?thesis by (simp add: trim_end.simps)
  next
    case False
    then obtain xs x where "front = xs @ [x]" by (metis rev_exhaust)
    then have "(front @ rest) ! nat (int (length front) - 1) = last front" by (simp add: nth_append)
    then show ?thesis using Nil False by (subst trim_end.simps) simp
  qed
next
  case (snoc c post)
  have "trim_end (front @ post @ [c] @ rest) (int (length front + length post) - 1) = int (length front) - 1"
    using snoc by simp
  moreover have "(front @ (post @ [c]) @ rest) ! nat (int (length front + length (post @ [c])) - 1) = CHR '' ''"
    using snoc.prems(1) by (simp add: nth_append nat_add_distrib)
  ultimately show ?case by (subst trim_end.simps) simp
qed

lemma fold_put_chars: "fold (\<lambda>i. put_chars [f i]) is b = put_chars (map f is) b"
proof (induction "is" arbitrary: b)
  case Nil
  then show ?case by (cases b) (simp add: put_chars_def)
next
  case (Cons i "is")
  obtain buf n where b: "b = (buf, n)" by fastforce
  show ?case
    by (simp add: Cons b) (auto simp: put_chars_def min_def add.commute)
qed

lemma upto_slice:
  "map (\<lambda>i. (pre @ core @ post) ! nat i) [int (length pre)..int (length pre + length core) - 1] = core"
proof (rule nth_equalityI)
  fix i
  assume "i < length (map (\<lambda>i. (pre @ core @ post) ! nat i) [int (length pre)..int (length pre + length core) - 1])"
  then have i: "i < length core" by simp
  then show "map (\<lambda>i. (pre @ core @ post) ! nat i) [int (length pre)..int (length pre + length core) - 1] ! i = core ! i"
    by (simp add: nth_append nat_add_distrib)
qed simp

lemma trim:
  assumes "set pre \<subseteq> {CHR '' ''}" "set post \<subseteq> {CHR '' ''}" "core \<noteq> []" "hd core \<noteq> CHR '' ''" "last core \<noteq> CHR '' ''"
  shows "Trim (pre @ core @ post) result = (if length core > 1 then Some core else None)"
proof -
  have b: "trim_begin (pre @ core @ post) 0 = length pre"
    using trim_begin_run [OF assms(1), of "core @ post" "[]"] assms(3,4) by simp
  have e: "trim_end (pre @ core @ post) (int (length (pre @ core @ post)) - 1) = int (length pre + length core) - 1"
    using trim_end_run [OF assms(2), of "pre @ core" "[]"] assms(3,5) by (simp add: add.assoc)
  show ?thesis
  proof (cases "length core > 1")
    case True
    let ?n = "nat (1 + int (length core))"
    obtain buf where w: "WriteInto result ?n = Some buf"
      using WriteInto_None [of result ?n] True by (cases "WriteInto result ?n") auto
    have "filled core (length core) (put_chars core (buf, 0))"
      using filled_put [OF filled_start, of buf "length core" core] length_WriteInto [OF w] by (simp add: nat_add_distrib)
    then have "fst (put_chars core (buf, 0)) = core" by (rule filled_all) simp
    moreover have "int (length pre + length core) - 1 - int (length pre) + 2 = 1 + int (length core)" by simp
    ultimately show ?thesis
      using b e w True unfolding Trim_def Let_def b e fold_put_chars upto_slice by simp
  next
    case False
    then have "\<not> int (length pre + length core) - 1 > int (length pre)" by simp
    then show ?thesis using False unfolding Trim_def Let_def b e by (simp add: WriteInto_def)
  qed
qed

section \<open>Properties\<close>

text \<open>Trimming returns the string without its leading and trailing spaces exactly when
  at least two characters are left. A string that trims to a single character makes the
  assertion of \<open>WriteInto\<close> fail.\<close>

theorem trim_result:
  assumes "set pre \<subseteq> {CHR '' ''}" "set post \<subseteq> {CHR '' ''}" "core \<noteq> []" "hd core \<noteq> CHR '' ''" "last core \<noteq> CHR '' ''"
  shows "Trim (pre @ core @ post) result = (if length core > 1 then Some core else None)"
  by (rule trim [OF assms])

theorem trim_result_witness: "Trim ''  a b '' [] = Some ''a b'' \<and> Trim '' x'' [] = None"
  using trim_result [of "''  ''" "'' ''" "''a b''" "[]"] trim_result [of "'' ''" "[]" "''x''" "[]"] by simp

text \<open>Joining words with a separator and splitting the result gives the words back, for
  words without white space or the separator.\<close>

theorem split_join:
  assumes "vs \<noteq> []" "\<And>v. v \<in> set vs \<Longrightarrow> v \<noteq> [] \<and> (\<forall>c \<in> set v. \<not> is_space c \<and> c \<noteq> delim)"
  shows "\<exists>s. Join [delim] vs result = Some s \<and> Split s delim [] = vs"
proof -
  let ?f = "\<lambda>c. if c = delim then CHR '' '' else c"
  have ne: "join_list [delim] vs \<noteq> []"
    using assms by (cases "([delim], vs)" rule: join_list.cases) auto
  have "map ?f v = v" if "v \<in> set vs" for v using assms(2) [OF that] by (intro map_idI) auto
  then have "map (map ?f) vs = vs" by (rule map_idI)
  then have "map ?f (join_list [delim] vs) = join_list '' '' vs" by (simp add: map_join_list)
  moreover have "list_all word vs" using assms(2) by (auto simp: list_all_iff word_def)
  ultimately show ?thesis using ne stream_words_join by (simp add: join Split_def)
qed

theorem split_join_witness:
  "\<exists>s. Join '','' [''ab'', ''c''] [] = Some s \<and> Split s (CHR '','') [] = [''ab'', ''c'']"
  by (rule split_join) (auto simp: is_space_def)

end
