(* ===== verification/Tcprelay.thy ===== *)
theory Tcprelay
  imports String_Utils
begin

text \<open>
  The TCP relay (\<open>tcprelay/\<close>): the wrapper of the ciphers (\<open>encryptor_openssl.cc\<close>), the parser of
  requests and the tunnel (\<open>tunnel.h\<close>) and the handlers of the server (\<open>tcprelay.cc\<close>), for one
  connection of a client. The EVP functions of OpenSSL are the parameter \<open>evp\<close>; a cipher
  context is an abstract value. What the resolver answers is an argument of the handlers.
  An operation is \<open>None\<close> where an assertion of the code or of the network library's buffer
  fails. The names of connections and the options of sockets are left out.
\<close>

section \<open>The encryptor\<close>

text \<open>\<open>evp_iv_length\<close> is \<open>None\<close> for a cipher that \<open>EVP_get_cipherbyname\<close> does not know. An update or
  a final call that fails is \<open>None\<close>.\<close>

record 'c evp =
  evp_iv_length :: "string \<Rightarrow> nat option"
  evp_key_length :: "string \<Rightarrow> nat"
  evp_bytes_to_key :: "string \<Rightarrow> bytes \<Rightarrow> bytes"
  evp_init :: "string \<Rightarrow> bytes \<Rightarrow> bytes \<Rightarrow> bool \<Rightarrow> 'c option"
  evp_update :: "'c \<Rightarrow> bytes \<Rightarrow> (bytes \<times> 'c) option"
  evp_final :: "'c \<Rightarrow> (bytes \<times> 'c) option"

definition SupportedCipher :: "string \<Rightarrow> bool" where
  "SupportedCipher cipher_name \<longleftrightarrow>
     list_ex (\<lambda>s. cipher_name = s) [''aes-128-cfb'', ''aes-192-cfb'', ''aes-256-cfb'']"

definition GetCipherIvLength :: "'c evp \<Rightarrow> string \<Rightarrow> nat" where
  "GetCipherIvLength E cipher_name = (case evp_iv_length E cipher_name of None \<Rightarrow> 0 | Some n \<Rightarrow> n)"

record 'c Encryptor =
  do_encrypt :: bool
  cipher_name :: string
  en_key :: bytes
  en_iv :: bytes
  passwd :: bytes
  en_ctx :: "'c option"

definition new_encryptor :: "'c Encryptor" where
  "new_encryptor = \<lparr>do_encrypt = False, cipher_name = [], en_key = [], en_iv = [], passwd = [], en_ctx = None\<rparr>"

definition Init :: "'c evp \<Rightarrow> string \<Rightarrow> bytes \<Rightarrow> bytes \<Rightarrow> bool \<Rightarrow> 'c Encryptor \<Rightarrow> (bool \<times> 'c Encryptor) option" where
  "Init E name pw iv enc en = (case evp_iv_length E name of
       None \<Rightarrow> Some (False, en)
     | Some iv_length \<Rightarrow>
         let gen_key = evp_bytes_to_key E name pw in
         if iv_length \<noteq> length iv then None
         else if evp_key_length E name \<noteq> length gen_key then None
         else case evp_init E name gen_key iv enc of
           None \<Rightarrow> Some (False, en)
         | Some ctx \<Rightarrow> Some (True, \<lparr>do_encrypt = enc, cipher_name = name, en_key = gen_key, en_iv = iv,
                                    passwd = pw, en_ctx = Some ctx\<rparr>))"

text \<open>The result, \<open>None\<close> for \<open>false\<close>, and the encryptor with the context moved on.\<close>

definition DoCrypt :: "'c evp \<Rightarrow> bytes \<Rightarrow> 'c Encryptor \<Rightarrow> (bytes option \<times> 'c Encryptor) option" where
  "DoCrypt E input en = (case en_ctx en of
       None \<Rightarrow> None
     | Some ctx \<Rightarrow>
         let output_size = length input + (if do_encrypt en then length (en_iv en) else 0) in
         if \<not> output_size > 0 then None
         else case evp_update E ctx input of
           None \<Rightarrow> Some (None, en)
         | Some (out, ctx) \<Rightarrow> (case evp_final E ctx of
             None \<Rightarrow> Some (None, en\<lparr>en_ctx := Some ctx\<rparr>)
           | Some (rest, ctx) \<Rightarrow>
               if length out + length rest \<le> output_size
               then Some (Some (out @ rest), en\<lparr>en_ctx := Some ctx\<rparr>) else None))"

text \<open>\<open>Update\<close> to a buffer: the bytes are appended.\<close>

definition Update :: "'c evp \<Rightarrow> bytes \<Rightarrow> bytes \<Rightarrow> 'c Encryptor \<Rightarrow> (bool \<times> bytes \<times> 'c Encryptor) option" where
  "Update E plaintext output en =
     (if plaintext = [] then None
      else case DoCrypt E plaintext en of
        None \<Rightarrow> None
      | Some (None, en) \<Rightarrow> Some (False, output, en)
      | Some (Some result, en) \<Rightarrow> Some (True, output @ result, en))"

section \<open>Requests\<close>

datatype ReqState =
  STATE_REQ_ADDR_TYPE | STATE_REQ_DST_ADDR_VARLEN | STATE_REQ_DST_ADDR | STATE_REQ_DST_PORT | STATE_REQ_DONE

definition ADDR_TYPE_IPV4 :: u8 where "ADDR_TYPE_IPV4 = 1"
definition ADDR_TYPE_HOST :: u8 where "ADDR_TYPE_HOST = 3"
definition ADDR_TYPE_IPV6 :: u8 where "ADDR_TYPE_IPV6 = 4"

lemmas addr_types = ADDR_TYPE_IPV4_def ADDR_TYPE_HOST_def ADDR_TYPE_IPV6_def

record 'c ServerConnMeta =
  me_state :: ReqState
  me_buf :: bytes
  dst_hostname :: bytes
  dst_addr_len :: nat
  dst_port :: u16
  decryptor :: "'c Encryptor"

definition new_meta :: "'c Encryptor \<Rightarrow> 'c ServerConnMeta" where
  "new_meta d = \<lparr>me_state = STATE_REQ_ADDR_TYPE, me_buf = [], dst_hostname = [], dst_addr_len = 0,
     dst_port = 0, decryptor = d\<rparr>"

definition Decrypt :: "'c evp \<Rightarrow> bytes \<Rightarrow> 'c ServerConnMeta \<Rightarrow> (bool \<times> 'c ServerConnMeta) option" where
  "Decrypt E data m = (case Update E data (me_buf m) (decryptor m) of
       None \<Rightarrow> None
     | Some (ok, buf, d) \<Rightarrow> Some (ok, m\<lparr>me_buf := buf, decryptor := d\<rparr>))"

text \<open>The loop of \<open>ParseRequest\<close>. \<open>retrieveAsString\<close> and \<open>readInt16\<close> assert that enough bytes are
  there; the integer is in network order.\<close>

fun state_rank :: "ReqState \<Rightarrow> nat" where
  "state_rank STATE_REQ_ADDR_TYPE = 4"
| "state_rank STATE_REQ_DST_ADDR_VARLEN = 3"
| "state_rank STATE_REQ_DST_ADDR = 2"
| "state_rank STATE_REQ_DST_PORT = 1"
| "state_rank STATE_REQ_DONE = 0"

function parse_loop :: "nat \<Rightarrow> 'c ServerConnMeta \<Rightarrow> (bool \<times> 'c ServerConnMeta) option" where
  "parse_loop need_bytes m =
     (if length (me_buf m) > need_bytes then
        (case me_state m of
           STATE_REQ_ADDR_TYPE \<Rightarrow>
             let addr_type = hd (me_buf m); m = m\<lparr>me_buf := tl (me_buf m)\<rparr> in
             if addr_type = ADDR_TYPE_HOST then parse_loop need_bytes (m\<lparr>me_state := STATE_REQ_DST_ADDR_VARLEN\<rparr>)
             else if addr_type = ADDR_TYPE_IPV4 then Some (False, m)
             else if addr_type = ADDR_TYPE_IPV6 then Some (False, m)
             else parse_loop need_bytes m
         | STATE_REQ_DST_ADDR_VARLEN \<Rightarrow>
             let addr_len = unat (hd (me_buf m)) in
             parse_loop addr_len (m\<lparr>me_buf := tl (me_buf m), dst_addr_len := addr_len, me_state := STATE_REQ_DST_ADDR\<rparr>)
         | STATE_REQ_DST_ADDR \<Rightarrow>
             let addr_len = dst_addr_len m in
             if addr_len > length (me_buf m) then None
             else parse_loop 2 (m\<lparr>me_buf := drop addr_len (me_buf m), dst_hostname := take addr_len (me_buf m),
                                  me_state := STATE_REQ_DST_PORT\<rparr>)
         | STATE_REQ_DST_PORT \<Rightarrow>
             if 2 > length (me_buf m) then None
             else Some (True, m\<lparr>me_buf := drop 2 (me_buf m), dst_port := of_le16 (me_buf m ! 1) (me_buf m ! 0),
                                me_state := STATE_REQ_DONE\<rparr>)
         | STATE_REQ_DONE \<Rightarrow> Some (False, m))
      else Some (False, m))"
  by pat_completeness auto
termination
  by (relation "measure (\<lambda>(_, m). length (me_buf m) + state_rank (me_state m))") auto

declare parse_loop.simps [simp del]

definition ParseRequest :: "'c ServerConnMeta \<Rightarrow> (bool \<times> 'c ServerConnMeta) option" where
  "ParseRequest m = parse_loop 0 m"

section \<open>A connection of the server\<close>

text \<open>
  \<open>rl_in\<close> is the input buffer of the connection from the client and \<open>rl_up\<close> whether it is up.
  \<open>rl_meta\<close> and \<open>rl_tunnel\<close> are the objects made for it, which the callbacks share with the
  tables, and \<open>rl_listed\<close> tells whether the tables have it. \<open>rl_context\<close> tells whether its
  context holds the connection to the target. The other fields record the calls: \<open>shutdown\<close> of
  the connection, \<open>disconnect\<close> of the tunnel, and the bytes sent to both sides.
\<close>

record 'c Tunnel =
  sent_iv :: bool
  encryptor :: "'c Encryptor"
  data_buf :: bytes

record 'c relay =
  rl_in :: bytes
  rl_up :: bool
  rl_meta :: "'c ServerConnMeta option"
  rl_tunnel :: "'c Tunnel option"
  rl_listed :: bool
  rl_context :: bool
  rl_shutdown :: bool
  rl_disconnect :: bool
  rl_to_target :: bytes
  rl_to_client :: bytes

definition new_relay :: "'c relay" where
  "new_relay = \<lparr>rl_in = [], rl_up = True, rl_meta = None, rl_tunnel = None, rl_listed = False,
     rl_context = False, rl_shutdown = False, rl_disconnect = False, rl_to_target = [], rl_to_client = []\<rparr>"

text \<open>\<open>send(meta->mutable_buf())\<close> takes everything out of the buffer.\<close>

definition send_pending :: "'c ServerConnMeta \<Rightarrow> 'c relay \<Rightarrow> 'c relay" where
  "send_pending m r = r\<lparr>rl_to_target := rl_to_target r @ me_buf m, rl_meta := Some (m\<lparr>me_buf := []\<rparr>)\<rparr>"

text \<open>A message for a connection that has no entry yet: \<open>resolved\<close> is what \<open>resolve\<close> returns. An
  initialization that fails or returns \<open>false\<close> fails the assertion around it.\<close>

definition first_message :: "'c evp \<Rightarrow> string \<Rightarrow> bytes \<Rightarrow> bool \<Rightarrow> 'c relay \<Rightarrow> 'c relay option" where
  "first_message E name pw resolved r =
     (let cipher_iv_len = GetCipherIvLength E name in
      if length (rl_in r) < cipher_iv_len then Some r
      else case Init E name pw (take cipher_iv_len (rl_in r)) False new_encryptor of
        Some (True, d) \<Rightarrow> (case Decrypt E (drop cipher_iv_len (rl_in r)) (new_meta d) of
            None \<Rightarrow> None
          | Some (False, m) \<Rightarrow> Some (r\<lparr>rl_shutdown := True\<rparr>)
          | Some (True, m) \<Rightarrow> (case ParseRequest m of
              None \<Rightarrow> None
            | Some (False, _) \<Rightarrow> Some r
            | Some (True, m) \<Rightarrow>
                if \<not> resolved then Some (r\<lparr>rl_shutdown := True\<rparr>)
                else Some (r\<lparr>rl_in := [], rl_meta := Some m, rl_listed := True\<rparr>)))
      | _ \<Rightarrow> None)"

definition onServerMessage :: "'c evp \<Rightarrow> string \<Rightarrow> bytes \<Rightarrow> bool \<Rightarrow> bytes \<Rightarrow> 'c relay \<Rightarrow> 'c relay option" where
  "onServerMessage E name pw resolved data r =
     (let r = r\<lparr>rl_in := rl_in r @ data\<rparr> in
      if \<not> rl_listed r then first_message E name pw resolved r
      else case rl_meta r of
        None \<Rightarrow> None
      | Some m \<Rightarrow> (case Decrypt E (rl_in r) m of
          None \<Rightarrow> None
        | Some (False, m) \<Rightarrow> Some (r\<lparr>rl_meta := Some m, rl_shutdown := True\<rparr>)
        | Some (True, m) \<Rightarrow>
            let r = r\<lparr>rl_in := [], rl_meta := Some m\<rparr>
            in Some (if rl_context r then send_pending m r else r)))"

text \<open>The resolver calls back with an address: the tunnel of the connection is set up.\<close>

definition resolveCallback :: "'c evp \<Rightarrow> 'c ServerConnMeta \<Rightarrow> 'c relay \<Rightarrow> 'c relay option" where
  "resolveCallback E m r =
     (let d = decryptor m in
      case Init E (cipher_name d) (passwd d) (en_iv d) True new_encryptor of
        Some (True, en) \<Rightarrow> Some (r\<lparr>rl_tunnel := Some \<lparr>sent_iv = False, encryptor = en, data_buf = []\<rparr>\<rparr>)
      | _ \<Rightarrow> None)"

definition teardown :: "'c relay \<Rightarrow> 'c relay" where
  "teardown r = r\<lparr>rl_context := False, rl_shutdown := True\<rparr>"

definition onClientConnection :: "bool \<Rightarrow> 'c ServerConnMeta \<Rightarrow> 'c relay \<Rightarrow> 'c relay" where
  "onClientConnection connected m r =
     (if connected then
        let r = r\<lparr>rl_context := True\<rparr>
        in if length (me_buf m) > 0 then send_pending m r else r
      else teardown r)"

definition onClientMessage :: "'c evp \<Rightarrow> bytes \<Rightarrow> 'c Tunnel \<Rightarrow> 'c relay \<Rightarrow> 'c relay option" where
  "onClientMessage E data t r =
     (let t = (if \<not> sent_iv t then t\<lparr>sent_iv := True, data_buf := data_buf t @ en_iv (encryptor t)\<rparr> else t) in
      case Update E data (data_buf t) (encryptor t) of
        None \<Rightarrow> None
      | Some (True, buf, en) \<Rightarrow>
          Some (r\<lparr>rl_to_client := rl_to_client r @ buf, rl_tunnel := Some (t\<lparr>data_buf := [], encryptor := en\<rparr>)\<rparr>)
      | Some (False, buf, en) \<Rightarrow> Some (teardown (r\<lparr>rl_tunnel := Some (t\<lparr>data_buf := buf, encryptor := en\<rparr>)\<rparr>)))"

definition onHighWaterMark :: "'c relay \<Rightarrow> 'c relay" where
  "onHighWaterMark r = r\<lparr>rl_disconnect := True\<rparr>"

text \<open>The connection of the client goes up or down: then its entries are erased.\<close>

definition onServerConnection :: "bool \<Rightarrow> 'c relay \<Rightarrow> 'c relay" where
  "onServerConnection connected r =
     (if connected then r\<lparr>rl_up := True\<rparr>
      else
        let r = r\<lparr>rl_up := False\<rparr> in
        if rl_listed r then
          let r = r\<lparr>rl_listed := False\<rparr>
          in if rl_tunnel r \<noteq> None then r\<lparr>rl_disconnect := True\<rparr> else r
        else r)"

text \<open>
  The life of one connection: \<open>relay_run E name pw W A r\<close> when the relay is in the state \<open>r\<close>
  after the client has sent the bytes \<open>W\<close> and the target the bytes \<open>A\<close>. Messages come while the
  connection is up and carry data. The resolver answers at most once, and the connection of the
  tunnel exists after its answer; both can come at any time later.
\<close>

inductive relay_run :: "'c evp \<Rightarrow> string \<Rightarrow> bytes \<Rightarrow> bytes \<Rightarrow> bytes \<Rightarrow> 'c relay \<Rightarrow> bool"
  for E :: "'c evp" and name :: string and pw :: bytes where
  start: "relay_run E name pw [] [] new_relay"
| message: "relay_run E name pw W A r \<Longrightarrow> rl_up r \<Longrightarrow> data \<noteq> [] \<Longrightarrow>
    onServerMessage E name pw resolved data r = Some r' \<Longrightarrow> relay_run E name pw (W @ data) A r'"
| resolve: "relay_run E name pw W A r \<Longrightarrow> rl_meta r = Some m \<Longrightarrow> rl_tunnel r = None \<Longrightarrow>
    resolveCallback E m r = Some r' \<Longrightarrow> relay_run E name pw W A r'"
| target: "relay_run E name pw W A r \<Longrightarrow> rl_meta r = Some m \<Longrightarrow> rl_tunnel r \<noteq> None \<Longrightarrow>
    relay_run E name pw W A (onClientConnection connected m r)"
| answer: "relay_run E name pw W A r \<Longrightarrow> rl_tunnel r = Some t \<Longrightarrow> data \<noteq> [] \<Longrightarrow>
    onClientMessage E data t r = Some r' \<Longrightarrow> relay_run E name pw W (A @ data) r'"
| high_water: "relay_run E name pw W A r \<Longrightarrow> rl_tunnel r \<noteq> None \<Longrightarrow> relay_run E name pw W A (onHighWaterMark r)"
| down: "relay_run E name pw W A r \<Longrightarrow> rl_up r \<Longrightarrow> relay_run E name pw W A (onServerConnection False r)"

end
