(* ===== verification/Tcprelay_Props.thy ===== *)
theory Tcprelay_Props
  imports Tcprelay
begin

text \<open>
  The relay: what the parser accepts, that both directions carry exactly the bytes of the other
  side however the connections cut them into messages, and the messages that abort the server.
\<close>

section \<open>The parser\<close>

lemma parse_loop_no_room [simp]: "length (me_buf m) \<le> n \<Longrightarrow> parse_loop n m = Some (False, m)"
  by (simp add: parse_loop.simps [of n m])

lemma buf_last:
  "m\<lparr>me_state := s, me_buf := b\<rparr> = m\<lparr>me_buf := b, me_state := s\<rparr>"
  "m\<lparr>dst_addr_len := n, me_buf := b\<rparr> = m\<lparr>me_buf := b, dst_addr_len := n\<rparr>"
  "m\<lparr>dst_hostname := h, me_buf := b\<rparr> = m\<lparr>me_buf := b, dst_hostname := h\<rparr>"
  "m\<lparr>me_state := s, decryptor := d\<rparr> = m\<lparr>decryptor := d, me_state := s\<rparr>"
  "m\<lparr>dst_addr_len := n, decryptor := d\<rparr> = m\<lparr>decryptor := d, dst_addr_len := n\<rparr>"
  "m\<lparr>dst_hostname := h, decryptor := d\<rparr> = m\<lparr>decryptor := d, dst_hostname := h\<rparr>"
  "m\<lparr>decryptor := d, me_buf := b\<rparr> = m\<lparr>me_buf := b, decryptor := d\<rparr>"
  by (cases m; simp)+

text \<open>What the parser accepts it accepts with more bytes behind, which stay in the buffer, whatever
  the decryptor.\<close>

lemma parse_loop_more:
  "parse_loop n m = Some (True, m') \<Longrightarrow>
   parse_loop n (m\<lparr>me_buf := me_buf m @ ys, decryptor := d\<rparr>) = Some (True, m'\<lparr>me_buf := me_buf m' @ ys, decryptor := d\<rparr>)"
proof (induction n m rule: parse_loop.induct)
  case (1 n m)
  have room: "length (me_buf m) > n" using "1.prems" by (rule_tac ccontr) simp
  then have ne: "me_buf m \<noteq> []" by auto
  note step = parse_loop.simps [of n m] parse_loop.simps [of n "m\<lparr>me_buf := me_buf m @ ys, decryptor := d\<rparr>"]
  show ?case
  proof (cases "me_state m")
    case STATE_REQ_ADDR_TYPE
    then show ?thesis
      using "1.prems" "1.IH"(1,2) [OF room STATE_REQ_ADDR_TYPE refl refl] room ne
      by (simp add: step Let_def addr_types buf_last split: if_splits)
  next
    case STATE_REQ_DST_ADDR_VARLEN
    then show ?thesis
      using "1.prems" "1.IH"(3) [OF room STATE_REQ_DST_ADDR_VARLEN refl] room ne
      by (simp add: step Let_def buf_last)
  next
    case STATE_REQ_DST_ADDR
    then show ?thesis
      using "1.prems" "1.IH"(4) [OF room STATE_REQ_DST_ADDR refl] room
      by (simp add: step Let_def buf_last split: if_splits)
  next
    case STATE_REQ_DST_PORT
    then show ?thesis
      using "1.prems" room by (auto simp: step nth_append buf_last split: if_splits)
  next
    case STATE_REQ_DONE
    then show ?thesis using "1.prems" room by (simp add: step)
  qed
qed

lemma parse_loop_keeps_decryptor: "parse_loop n m = Some (ok, m') \<Longrightarrow> decryptor m' = decryptor m"
proof (induction n m rule: parse_loop.induct)
  case (1 n m)
  show ?case
  proof (cases "length (me_buf m) > n")
    case False
    then show ?thesis using "1.prems" by auto
  next
    case room: True
    note step = parse_loop.simps [of n m]
    show ?thesis
    proof (cases "me_state m")
      case STATE_REQ_ADDR_TYPE
      then show ?thesis
        using "1.prems" "1.IH"(1,2) [OF room STATE_REQ_ADDR_TYPE refl refl] room
        by (auto simp: step Let_def split: if_splits)
    next
      case STATE_REQ_DST_ADDR_VARLEN
      then show ?thesis
        using "1.prems" "1.IH"(3) [OF room STATE_REQ_DST_ADDR_VARLEN refl] room by (simp add: step Let_def)
    next
      case STATE_REQ_DST_ADDR
      then show ?thesis
        using "1.prems" "1.IH"(4) [OF room STATE_REQ_DST_ADDR refl] room by (simp add: step Let_def split: if_splits)
    next
      case STATE_REQ_DST_PORT
      then show ?thesis using "1.prems" room by (auto simp: step split: if_splits)
    next
      case STATE_REQ_DONE
      then show ?thesis using "1.prems" room by (simp add: step)
    qed
  qed
qed

lemmas parse_request_more = parse_loop_more [where n = 0, folded ParseRequest_def]
lemmas parse_request_decryptor = parse_loop_keeps_decryptor [where n = 0, folded ParseRequest_def]

text \<open>A whole request: the loop asks for more than it needs, so a request that ends with the port
  is not taken.\<close>

lemma parse_host:
  assumes "length host = unat n"
  shows "parse_loop 0 (new_meta d\<lparr>me_buf := 3 # n # host @ hi # lo # rest\<rparr>) =
    (if rest = [] then Some (False, new_meta d\<lparr>me_buf := [hi, lo], dst_hostname := host, dst_addr_len := unat n,
         me_state := STATE_REQ_DST_PORT\<rparr>)
     else Some (True, new_meta d\<lparr>me_buf := rest, dst_hostname := host, dst_addr_len := unat n,
         dst_port := of_le16 lo hi, me_state := STATE_REQ_DONE\<rparr>))"
  using assms by (simp add: parse_loop.simps Let_def addr_types new_meta_def)

section \<open>Stream ciphers\<close>

text \<open>The documented behaviour of a cipher in a streaming mode: an update never fails and gives as
  many bytes as it takes, a cut of the input does not matter, and the final call adds nothing.\<close>

definition stream_cipher :: "'c evp \<Rightarrow> ('c \<Rightarrow> bytes \<Rightarrow> bytes \<times> 'c) \<Rightarrow> bool" where
  "stream_cipher E f \<longleftrightarrow>
     (\<forall>c a. evp_update E c a = Some (f c a)) \<and> (\<forall>c. evp_final E c = Some ([], c)) \<and>
     (\<forall>c a. length (fst (f c a)) = length a) \<and> (\<forall>c. f c [] = ([], c)) \<and>
     (\<forall>c a b. f c (a @ b) = (fst (f c a) @ fst (f (snd (f c a)) b), snd (f (snd (f c a)) b)))"

lemma stream_cipherD:
  assumes "stream_cipher E f"
  shows "evp_update E c a = Some (f c a)" "evp_final E c = Some ([], c)" "length (fst (f c a)) = length a"
    "f c [] = ([], c)" "f c (a @ b) = (fst (f c a) @ fst (f (snd (f c a)) b), snd (f (snd (f c a)) b))"
  using assms unfolding stream_cipher_def by blast+

lemma update_stream:
  assumes "stream_cipher E f" "en_ctx en = Some c" "data \<noteq> []"
  shows "Update E data out en = Some (True, out @ fst (f c data), en\<lparr>en_ctx := Some (snd (f c data))\<rparr>)"
proof (cases "f c data")
  case (Pair o1 c1)
  then have "length o1 = length data" using stream_cipherD(3) [OF assms(1), of c data] by simp
  then show ?thesis
    using assms(2,3) Pair by (simp add: Update_def DoCrypt_def stream_cipherD(1,2) [OF assms(1)])
qed

lemma init_fields:
  "Init E name pw iv enc en = Some (True, d) \<Longrightarrow>
   cipher_name d = name \<and> passwd d = pw \<and> en_iv d = iv \<and> (\<exists>c. en_ctx d = Some c)"
  by (auto simp: Init_def Let_def split: option.splits if_splits)

section \<open>The invariant of a connection\<close>

definition fresh :: "bytes \<Rightarrow> bytes \<Rightarrow> 'c relay \<Rightarrow> bool" where
  "fresh W A r \<longleftrightarrow> \<not> rl_listed r \<and> rl_in r = W \<and> A = [] \<and> rl_tunnel r = None \<and> rl_to_target r = [] \<and>
     rl_to_client r = [] \<and> \<not> rl_context r"

text \<open>The direction to the target, for the initialization vector \<open>iv\<close> and the bytes \<open>X\<close> behind it.\<close>

definition forward_ok :: "'c evp \<Rightarrow> ('c \<Rightarrow> bytes \<Rightarrow> bytes \<times> 'c) \<Rightarrow> string \<Rightarrow> bytes \<Rightarrow> bytes \<Rightarrow> bytes \<Rightarrow> bytes \<Rightarrow> 'c ServerConnMeta \<Rightarrow> bool" where
  "forward_ok E f name pw iv X sent m \<longleftrightarrow>
     (\<exists>d c. Init E name pw iv False new_encryptor = Some (True, d) \<and> en_ctx d = Some c \<and>
        decryptor m = d\<lparr>en_ctx := Some (snd (f c X))\<rparr> \<and>
        ParseRequest (new_meta (decryptor m)\<lparr>me_buf := fst (f c X)\<rparr>) = Some (True, m\<lparr>me_buf := sent @ me_buf m\<rparr>))"

definition back_ok :: "'c evp \<Rightarrow> ('c \<Rightarrow> bytes \<Rightarrow> bytes \<times> 'c) \<Rightarrow> string \<Rightarrow> bytes \<Rightarrow> bytes \<Rightarrow> bytes \<Rightarrow> bytes \<Rightarrow> 'c Tunnel \<Rightarrow> bool" where
  "back_ok E f name pw iv A sent t \<longleftrightarrow> data_buf t = [] \<and>
     (\<exists>en c. Init E name pw iv True new_encryptor = Some (True, en) \<and> en_ctx en = Some c \<and>
        encryptor t = en\<lparr>en_ctx := Some (snd (f c A))\<rparr> \<and> (sent_iv t \<longleftrightarrow> A \<noteq> []) \<and>
        sent = (if A = [] then [] else iv @ fst (f c A)))"

definition relay_ok :: "'c evp \<Rightarrow> ('c \<Rightarrow> bytes \<Rightarrow> bytes \<times> 'c) \<Rightarrow> string \<Rightarrow> bytes \<Rightarrow> bytes \<Rightarrow> bytes \<Rightarrow> 'c relay \<Rightarrow> bool" where
  "relay_ok E f name pw W A r =
     (let n = GetCipherIvLength E name in
      case rl_meta r of
        None \<Rightarrow> fresh W A r
      | Some m \<Rightarrow> rl_in r = [] \<and> n \<le> length W \<and> (rl_up r \<longrightarrow> rl_listed r) \<and> (rl_context r \<longrightarrow> me_buf m = []) \<and>
          forward_ok E f name pw (take n W) (drop n W) (rl_to_target r) m \<and>
          (case rl_tunnel r of
             None \<Rightarrow> A = [] \<and> rl_to_client r = []
           | Some t \<Rightarrow> back_ok E f name pw (take n W) A (rl_to_client r) t))"

lemmas relay_defs = relay_ok_def fresh_def

lemma forward_more:
  assumes f: "stream_cipher E f" and m: "forward_ok E f name pw iv X sent m" and data: "data \<noteq> []"
    and m': "Decrypt E data m = Some (ok, m')"
  shows "ok \<and> forward_ok E f name pw iv (X @ data) sent m'"
proof -
  from m obtain d c where d: "Init E name pw iv False new_encryptor = Some (True, d)" "en_ctx d = Some c"
      "decryptor m = d\<lparr>en_ctx := Some (snd (f c X))\<rparr>"
      "ParseRequest (new_meta (decryptor m)\<lparr>me_buf := fst (f c X)\<rparr>) = Some (True, m\<lparr>me_buf := sent @ me_buf m\<rparr>)"
    unfolding forward_ok_def by blast
  let ?c = "snd (f c X)" let ?d' = "d\<lparr>en_ctx := Some (snd (f ?c data))\<rparr>"
  have "Update E data (me_buf m) (decryptor m) = Some (True, me_buf m @ fst (f ?c data), ?d')"
    using update_stream [OF f _ data, of "decryptor m" ?c] d(3) by simp
  then have e: "ok" "m' = m\<lparr>me_buf := me_buf m @ fst (f ?c data), decryptor := ?d'\<rparr>"
    using m' by (simp_all add: Decrypt_def)
  have "ParseRequest (new_meta ?d'\<lparr>me_buf := fst (f c X) @ fst (f ?c data)\<rparr>) =
      Some (True, m'\<lparr>me_buf := sent @ me_buf m'\<rparr>)"
    using parse_request_more [OF d(4), where ys = "fst (f ?c data)" and d = ?d'] unfolding e(2) by (simp add: buf_last new_meta_def)
  then show ?thesis
    unfolding forward_ok_def using d(1,2) e by (intro conjI exI [of _ d] exI [of _ c]) (simp_all add: stream_cipherD(5) [OF f])
qed

lemma update_None: "Update E [] out en = None"
  by (simp add: Update_def)

lemma forward_first:
  assumes f: "stream_cipher E f" and d: "Init E name pw iv False new_encryptor = Some (True, d)"
    and m: "Decrypt E X (new_meta d) = Some (True, m)" and m': "ParseRequest m = Some (True, m')"
  shows "forward_ok E f name pw iv X [] m'"
proof -
  obtain c where c: "en_ctx d = Some c" using init_fields [OF d] by blast
  have X: "X \<noteq> []" using m by (auto simp: Decrypt_def update_None)
  have "m = new_meta d\<lparr>me_buf := fst (f c X), decryptor := d\<lparr>en_ctx := Some (snd (f c X))\<rparr>\<rparr>"
    using m update_stream [OF f c X] by (simp add: Decrypt_def new_meta_def)
  moreover have "decryptor m' = decryptor m" by (rule parse_request_decryptor [OF m'])
  ultimately have "decryptor m' = d\<lparr>en_ctx := Some (snd (f c X))\<rparr>"
      "m = new_meta (decryptor m')\<lparr>me_buf := fst (f c X)\<rparr>" by (simp_all add: new_meta_def)
  then show ?thesis using d c m' unfolding forward_ok_def by auto
qed

lemma first_message_ok:
  assumes f: "stream_cipher E f" and r: "fresh (W @ data) A r" and m: "rl_meta r = None"
    and r': "first_message E name pw resolved r = Some r'"
  shows "relay_ok E f name pw (W @ data) A r'"
proof -
  let ?n = "GetCipherIvLength E name"
  consider "r' = r" | "r' = r\<lparr>rl_shutdown := True\<rparr>"
    | (ok) d m' m'' where "?n \<le> length (rl_in r)" "Init E name pw (take ?n (rl_in r)) False new_encryptor = Some (True, d)"
        "Decrypt E (drop ?n (rl_in r)) (new_meta d) = Some (True, m')" "ParseRequest m' = Some (True, m'')"
        "r' = r\<lparr>rl_in := [], rl_meta := Some m'', rl_listed := True\<rparr>"
    using r' by (auto simp: first_message_def Let_def split: if_splits option.splits prod.splits bool.splits)
  then show ?thesis
  proof cases
    case ok
    have "rl_in r = W @ data" using r by (simp add: fresh_def)
    then show ?thesis
      using r ok forward_first [OF f ok(2,3,4)] by (simp add: relay_defs Let_def)
  qed (use r m in \<open>simp_all add: relay_defs\<close>)
qed

lemma message_ok:
  assumes f: "stream_cipher E f" and r: "relay_ok E f name pw W A r" and up: "rl_up r" and data: "data \<noteq> []"
    and r': "onServerMessage E name pw resolved data r = Some r'"
  shows "relay_ok E f name pw (W @ data) A r'"
proof (cases "rl_meta r")
  case None
  then have "fresh (W @ data) A (r\<lparr>rl_in := rl_in r @ data\<rparr>)" "\<not> rl_listed r" using r by (auto simp: relay_defs)
  then show ?thesis using first_message_ok [OF f, of W data A "r\<lparr>rl_in := rl_in r @ data\<rparr>"] r' None
    by (simp add: onServerMessage_def)
next
  case (Some m)
  let ?n = "GetCipherIvLength E name"
  have l: "rl_listed r" "rl_in r = []" "?n \<le> length W" and fw: "forward_ok E f name pw (take ?n W) (drop ?n W) (rl_to_target r) m"
    using r up Some by (auto simp: relay_ok_def Let_def)
  obtain ok m' where m': "Decrypt E data m = Some (ok, m')"
    using r' l Some by (cases "Decrypt E data m") (auto simp: onServerMessage_def Let_def)
  have fw': ok "forward_ok E f name pw (take ?n (W @ data)) (drop ?n (W @ data)) (rl_to_target r) m'"
    using forward_more [OF f fw data m'] l(3) by auto
  then have "forward_ok E f name pw (take ?n (W @ data)) (drop ?n (W @ data)) (rl_to_target r @ me_buf m') (m'\<lparr>me_buf := []\<rparr>)"
    by (auto simp: forward_ok_def)
  moreover have "r' = (if rl_context r then send_pending m' (r\<lparr>rl_meta := Some m'\<rparr>) else r\<lparr>rl_meta := Some m'\<rparr>)"
    using r' l m' fw' Some by (auto simp: onServerMessage_def send_pending_def)
  ultimately show ?thesis
    using r l fw' Some by (cases "rl_context r") (auto simp: relay_ok_def Let_def send_pending_def split: option.splits)
qed

lemma resolve_ok:
  assumes r: "relay_ok E f name pw W A r" "rl_meta r = Some m" "rl_tunnel r = None" "resolveCallback E m r = Some r'"
    and f: "stream_cipher E f"
  shows "relay_ok E f name pw W A r'"
proof -
  let ?n = "GetCipherIvLength E name"
  from r obtain d c where d: "Init E name pw (take ?n W) False new_encryptor = Some (True, d)" "decryptor m = d\<lparr>en_ctx := c\<rparr>"
    unfolding relay_ok_def forward_ok_def by (auto simp: Let_def)
  then have "Init E (cipher_name (decryptor m)) (passwd (decryptor m)) (en_iv (decryptor m)) True new_encryptor =
      Init E name pw (take ?n W) True new_encryptor" using init_fields [OF d(1)] by simp
  then obtain en where en: "Init E name pw (take ?n W) True new_encryptor = Some (True, en)"
      "r' = r\<lparr>rl_tunnel := Some \<lparr>sent_iv = False, encryptor = en, data_buf = []\<rparr>\<rparr>"
    using r(4) by (auto simp: resolveCallback_def Let_def split: option.splits prod.splits bool.splits)
  moreover obtain c where "en_ctx en = Some c" using init_fields [OF en(1)] by blast
  ultimately show ?thesis
    using r(1-3) by (auto simp: relay_ok_def Let_def back_ok_def stream_cipherD(4) [OF f])
qed

lemma target_ok:
  assumes "relay_ok E f name pw W A r" "rl_meta r = Some m"
  shows "relay_ok E f name pw W A (onClientConnection connected m r)"
  using assms
  by (auto simp: relay_ok_def Let_def onClientConnection_def teardown_def send_pending_def forward_ok_def split: option.splits)

lemma back_more:
  assumes f: "stream_cipher E f" and t: "back_ok E f name pw iv A sent t" and data: "data \<noteq> []"
    and t': "t' = (if \<not> sent_iv t then t\<lparr>sent_iv := True, data_buf := data_buf t @ en_iv (encryptor t)\<rparr> else t)"
  shows "\<exists>buf en. Update E data (data_buf t') (encryptor t') = Some (True, buf, en) \<and>
    back_ok E f name pw iv (A @ data) (sent @ buf) (t'\<lparr>data_buf := [], encryptor := en\<rparr>)"
proof -
  obtain en c where en: "data_buf t = []" "Init E name pw iv True new_encryptor = Some (True, en)" "en_ctx en = Some c"
      "encryptor t = en\<lparr>en_ctx := Some (snd (f c A))\<rparr>" "sent_iv t \<longleftrightarrow> A \<noteq> []" "sent = (if A = [] then [] else iv @ fst (f c A))"
    using t unfolding back_ok_def by blast
  have t'': "data_buf t' = (if A = [] then iv else [])" "encryptor t' = encryptor t" "sent_iv t'"
    using en init_fields [OF en(2)] t' by auto
  show ?thesis
    using update_stream [OF f _ data, of "encryptor t'" "snd (f c A)"] en data t''
    by (auto simp: back_ok_def stream_cipherD(4,5) [OF f])
qed

lemma answer_ok:
  assumes f: "stream_cipher E f" and r: "relay_ok E f name pw W A r" "rl_tunnel r = Some t" and data: "data \<noteq> []"
    and r': "onClientMessage E data t r = Some r'"
  shows "relay_ok E f name pw W (A @ data) r'"
proof -
  let ?n = "GetCipherIvLength E name"
  obtain m where m: "rl_meta r = Some m" using r by (cases "rl_meta r") (auto simp: relay_defs)
  have b: "back_ok E f name pw (take ?n W) A (rl_to_client r) t" using r m by (simp add: relay_ok_def Let_def)
  obtain buf en t' where "back_ok E f name pw (take ?n W) (A @ data) (rl_to_client r @ buf) (t'\<lparr>data_buf := [], encryptor := en\<rparr>)"
      "r' = r\<lparr>rl_to_client := rl_to_client r @ buf, rl_tunnel := Some (t'\<lparr>data_buf := [], encryptor := en\<rparr>)\<rparr>"
    using back_more [OF f b data refl] r' unfolding onClientMessage_def Let_def by auto
  then show ?thesis using r m by (simp add: relay_ok_def Let_def)
qed

lemma down_ok:
  assumes "relay_ok E f name pw W A r"
  shows "relay_ok E f name pw W A (onServerConnection False r)"
  using assms
  by (auto simp: relay_defs Let_def onServerConnection_def split: option.splits)

theorem relay_run_ok:
  assumes "stream_cipher E f" "relay_run E name pw W A r"
  shows "relay_ok E f name pw W A r"
  using assms(2)
proof induction
  case start
  show ?case by (simp add: relay_defs new_relay_def)
next
  case (message W A r data resolved r')
  then show ?case using message_ok [OF assms(1)] by blast
next
  case (resolve W A r m r')
  then show ?case using resolve_ok assms(1) by blast
next
  case (target W A r m connected)
  then show ?case using target_ok by blast
next
  case (answer W A r t data r')
  then show ?case using answer_ok [OF assms(1)] by blast
next
  case (high_water W A r)
  then show ?case by (auto simp: relay_defs Let_def onHighWaterMark_def split: option.splits)
next
  case (down W A r)
  then show ?case using down_ok by blast
qed

section \<open>Properties\<close>

text \<open>A cipher to run the relay with: the context is a counter that is added to every byte.\<close>

definition add_cipher :: "u8 evp" where
  "add_cipher = \<lparr>evp_iv_length = (\<lambda>_. Some 1), evp_key_length = (\<lambda>_. 1), evp_bytes_to_key = (\<lambda>_ _. [7]),
     evp_init = (\<lambda>_ _ iv enc. Some (if enc then hd iv else - hd iv)),
     evp_update = (\<lambda>c a. Some (map ((+) c) a, c)), evp_final = (\<lambda>c. Some ([], c))\<rparr>"

lemma add_cipher_stream: "stream_cipher add_cipher (\<lambda>c a. (map ((+) c) a, c))"
  by (simp add: stream_cipher_def add_cipher_def)

text \<open>One run with this cipher: the request and a byte of data in one message, the answer of the
  resolver, the connection to the target and two bytes from it.\<close>

definition example_wire :: bytes where
  "example_wire = 5 # map ((+) 5) [3, 1, 104, 0, 80, 42]"

definition example_1 :: "u8 relay option" where
  "example_1 = onServerMessage add_cipher ''aes-128-cfb'' [] True example_wire new_relay"

definition example_2 :: "u8 relay option" where
  "example_2 = (case example_1 of None \<Rightarrow> None | Some r \<Rightarrow> resolveCallback add_cipher (the (rl_meta r)) r)"

definition example_3 :: "u8 relay option" where
  "example_3 = (case example_2 of None \<Rightarrow> None | Some r \<Rightarrow> Some (onClientConnection True (the (rl_meta r)) r))"

definition example_4 :: "u8 relay option" where
  "example_4 = (case example_3 of None \<Rightarrow> None | Some r \<Rightarrow> onClientMessage add_cipher [10, 11] (the (rl_tunnel r)) r)"

lemma example_values:
  "case example_1 of Some r \<Rightarrow> rl_meta r \<noteq> None \<and> rl_tunnel r = None | None \<Rightarrow> False"
  "case example_2 of Some r \<Rightarrow> rl_meta r \<noteq> None \<and> rl_tunnel r \<noteq> None | None \<Rightarrow> False"
  "case example_3 of Some r \<Rightarrow> rl_tunnel r \<noteq> None | None \<Rightarrow> False"
  "case example_4 of Some r \<Rightarrow> rl_to_target r = [42] \<and> rl_to_client r = [5, 15, 16] | None \<Rightarrow> False"
  by code_simp+

lemma example_run:
  "\<exists>r. relay_run add_cipher ''aes-128-cfb'' [] example_wire [10, 11] r \<and> rl_to_target r = [42] \<and> rl_to_client r = [5, 15, 16]"
proof -
  note v = example_values
  obtain r1 where 1: "example_1 = Some r1" "rl_meta r1 \<noteq> None" "rl_tunnel r1 = None" using v(1) by (auto split: option.splits)
  obtain r2 where 2: "example_2 = Some r2" "rl_meta r2 \<noteq> None" "rl_tunnel r2 \<noteq> None" using v(2) by (auto split: option.splits)
  obtain r3 where 3: "example_3 = Some r3" "rl_tunnel r3 \<noteq> None" using v(3) by (auto split: option.splits)
  obtain r4 where 4: "example_4 = Some r4" "rl_to_target r4 = [42]" "rl_to_client r4 = [5, 15, 16]"
    using v(4) by (auto split: option.splits)
  let ?run = "relay_run add_cipher ''aes-128-cfb'' []"
  have "?run ([] @ example_wire) [] r1"
    by (rule relay_run.message [OF relay_run.start]) (use 1 in \<open>simp_all add: example_1_def example_wire_def new_relay_def\<close>)
  then have 1: "?run example_wire [] r1" "rl_meta r1 = Some (the (rl_meta r1))" "rl_tunnel r1 = None" "example_1 = Some r1"
    using 1 by simp_all
  have "resolveCallback add_cipher (the (rl_meta r1)) r1 = Some r2" using 2(1) unfolding example_2_def 1(4) by simp
  then have 2: "?run example_wire [] r2" "rl_meta r2 = Some (the (rl_meta r2))" "rl_tunnel r2 \<noteq> None" "example_2 = Some r2"
    using relay_run.resolve [OF 1(1-3)] 2 by simp_all
  have "onClientConnection True (the (rl_meta r2)) r2 = r3" using 3(1) unfolding example_3_def 2(4) by simp
  then have 3: "?run example_wire [] r3" "rl_tunnel r3 = Some (the (rl_tunnel r3))" "example_3 = Some r3"
    using relay_run.target [OF 2(1-3), of True] 3 by simp_all
  have "onClientMessage add_cipher [10, 11] (the (rl_tunnel r3)) r3 = Some r4" using 4(1) unfolding example_4_def 3(3) by simp
  from relay_run.answer [OF 3(1,2) _ this] have "?run example_wire ([] @ [10, 11]) r4" by simp
  then show ?thesis using 4 by auto
qed

text \<open>C30: A request for a host name, the type 3, the length, the name and the port in
  network order, is parsed to that name and port and leaves the bytes behind it in the buffer,
  if there is at least one. A request without a byte behind it is not taken: the parser reports
  failure in the state before the port, because it asks for more bytes than it needs.\<close>

theorem request_roundtrip:
  assumes "length host = unat n"
  shows "ParseRequest (new_meta d\<lparr>me_buf := [3, n] @ host @ [hi, lo] @ rest\<rparr>) =
    (if rest = [] then Some (False, new_meta d\<lparr>me_buf := [hi, lo], dst_hostname := host, dst_addr_len := unat n,
         me_state := STATE_REQ_DST_PORT\<rparr>)
     else Some (True, new_meta d\<lparr>me_buf := rest, dst_hostname := host, dst_addr_len := unat n,
         dst_port := of_le16 lo hi, me_state := STATE_REQ_DONE\<rparr>))"
  using parse_host [OF assms, where d = d and hi = hi and lo = lo and rest = rest] by (simp add: ParseRequest_def)

theorem request_roundtrip_witness:
  "ParseRequest ((new_meta (new_encryptor :: u8 Encryptor))\<lparr>me_buf := [3, 2] @ [104, 105] @ [1, 187] @ [9]\<rparr>) =
    Some (True, (new_meta new_encryptor)\<lparr>me_buf := [9], dst_hostname := [104, 105], dst_addr_len := 2,
         dst_port := of_le16 187 1, me_state := STATE_REQ_DONE\<rparr>)"
  using request_roundtrip [of "[104, 105]" 2, where d = new_encryptor and hi = 1 and lo = 187 and rest = "[9]"] by simp

text \<open>C28: However the bytes of a client are cut into messages, and whenever the resolver
  and the target answer, the bytes behind the initialization vector, decrypted as one stream, are
  the request, what was sent to the target and what waits, in this order; nothing waits while the
  target is connected, and nothing is sent anywhere before the request is complete.\<close>

theorem relay_forwards:
  assumes "stream_cipher E f" "relay_run E name pw W A r"
  shows "case rl_meta r of
      None \<Rightarrow> rl_to_target r = [] \<and> rl_to_client r = []
    | Some m \<Rightarrow> (\<exists>d c. Init E name pw (take (GetCipherIvLength E name) W) False new_encryptor = Some (True, d) \<and>
        en_ctx d = Some c \<and>
        ParseRequest (new_meta (decryptor m)\<lparr>me_buf := fst (f c (drop (GetCipherIvLength E name) W))\<rparr>) =
          Some (True, m\<lparr>me_buf := rl_to_target r @ me_buf m\<rparr>)) \<and>
      (rl_context r \<longrightarrow> me_buf m = [])"
  using relay_run_ok [OF assms]
  by (auto simp: relay_ok_def fresh_def forward_ok_def Let_def split: option.splits)

theorem relay_forwards_witness:
  "\<exists>r. relay_run add_cipher ''aes-128-cfb'' [] example_wire [10, 11] r \<and> rl_to_target r = [42] \<and>
    (\<exists>m. rl_meta r = Some m \<and> (rl_context r \<longrightarrow> me_buf m = []))"
proof -
  obtain r where r: "relay_run add_cipher ''aes-128-cfb'' [] example_wire [10, 11] r" "rl_to_target r = [42]"
    using example_run by blast
  from relay_forwards [OF add_cipher_stream r(1)] r(2) obtain m where "rl_meta r = Some m" "rl_context r \<longrightarrow> me_buf m = []"
    by (cases "rl_meta r") auto
  with r show ?thesis by blast
qed

text \<open>C29: The client receives the initialization vector it chose, once and first, and then
  the bytes of the target, encrypted as one stream in the order they came.\<close>

theorem relay_answers:
  assumes "stream_cipher E f" "relay_run E name pw W A r" "A \<noteq> []"
  shows "\<exists>en c. Init E name pw (take (GetCipherIvLength E name) W) True new_encryptor = Some (True, en) \<and>
    en_ctx en = Some c \<and> rl_to_client r = take (GetCipherIvLength E name) W @ fst (f c A)"
  using relay_run_ok [OF assms(1,2)] assms(3)
  by (auto simp: relay_ok_def fresh_def back_ok_def Let_def split: option.splits)

theorem relay_answers_witness:
  "\<exists>r en c. relay_run add_cipher ''aes-128-cfb'' [] example_wire [10, 11] r \<and>
    Init add_cipher ''aes-128-cfb'' [] [5] True new_encryptor = Some (True, en) \<and> en_ctx en = Some c \<and>
    rl_to_client r = [5, c + 10, c + 11]"
proof -
  obtain r where r: "relay_run add_cipher ''aes-128-cfb'' [] example_wire [10, 11] r"
    using example_run by blast
  have iv: "take (GetCipherIvLength add_cipher ''aes-128-cfb'') example_wire = [5]"
    by (simp add: GetCipherIvLength_def add_cipher_def example_wire_def)
  show ?thesis using relay_answers [OF add_cipher_stream r, unfolded iv] r by auto
qed

text \<open>A connection whose first bytes are exactly the initialization vector makes the
  assertion of \<open>Decrypt\<close> that there is data fail: every client can abort the server.\<close>

theorem relay_iv_aborts:
  assumes "length iv = GetCipherIvLength E name"
  shows "onServerMessage E name pw resolved iv new_relay = None"
  using assms
  by (auto simp: onServerMessage_def first_message_def new_relay_def Decrypt_def update_None Let_def split: option.splits bool.splits)

theorem relay_iv_aborts_witness: "onServerMessage add_cipher ''aes-128-cfb'' [112] True [5] new_relay = None"
  by (rule relay_iv_aborts) (simp add: GetCipherIvLength_def add_cipher_def)

end
