(* ===== verification/Resolver.thy ===== *)
theory Resolver
  imports Prelude
begin

text \<open>
  The asynchronous resolver of the relay (\<open>tcprelay/resolver.cc\<close>) on top of the c-ares library.
  What c-ares does in a call is the list of the callbacks it makes, an argument; so is the
  timeout it asks for, \<open>None\<close> where \<open>ares_timeout\<close> returns a null pointer. An operation is
  \<open>None\<close> where an assertion fails or a deleted query is used. Logging and the options given to
  c-ares are left out.
\<close>

section \<open>State and callbacks\<close>

datatype ares_callback =
  Sock_create int
| Sock_state int bool bool
| Host_result nat "bytes option"

text \<open>\<open>rs_pending\<close> counts the timers that wait in the event loop, \<open>rs_queries\<close> holds the query data
  that are allocated and \<open>rs_results\<close> records the calls of the users' callbacks with the address.\<close>

record resolver =
  timerActive :: bool
  rs_pending :: nat
  channels :: "int set"
  rs_queries :: "nat set"
  rs_results :: "(nat \<times> bytes) list"

definition new_resolver :: resolver where
  "new_resolver = \<lparr>timerActive = False, rs_pending = 0, channels = {}, rs_queries = {}, rs_results = []\<rparr>"

definition onSockCreate :: "int \<Rightarrow> resolver \<Rightarrow> resolver option" where
  "onSockCreate sockfd r =
     (if sockfd \<in> channels r then None else Some (r\<lparr>channels := insert sockfd (channels r)\<rparr>))"

definition onSockStateChange :: "int \<Rightarrow> bool \<Rightarrow> bool \<Rightarrow> resolver \<Rightarrow> resolver option" where
  "onSockStateChange sockfd rd wr r =
     (if sockfd \<notin> channels r then None
      else if rd then Some r
      else Some (r\<lparr>channels := channels r - {sockfd}\<rparr>))"

text \<open>Without a result the address is the one of all zero bytes.\<close>

definition onQueryResult :: "bytes option \<Rightarrow> nat \<Rightarrow> resolver \<Rightarrow> resolver" where
  "onQueryResult result query r =
     (let addr = (case result of None \<Rightarrow> replicate 4 0 | Some h_addr \<Rightarrow> take 4 h_addr)
      in r\<lparr>rs_results := rs_results r @ [(query, addr)]\<rparr>)"

definition ares_host_callback :: "nat \<Rightarrow> bytes option \<Rightarrow> resolver \<Rightarrow> resolver option" where
  "ares_host_callback query hostent r =
     (if query \<notin> rs_queries r then None
      else
        let r = onQueryResult hostent query r
        in Some (r\<lparr>rs_queries := rs_queries r - {query}\<rparr>))"

definition ares_call :: "ares_callback \<Rightarrow> resolver \<Rightarrow> resolver option" where
  "ares_call cb r = (case cb of
       Sock_create fd \<Rightarrow> onSockCreate fd r
     | Sock_state fd rd wr \<Rightarrow> onSockStateChange fd rd wr r
     | Host_result q res \<Rightarrow> ares_host_callback q res r)"

fun ares_calls :: "ares_callback list \<Rightarrow> resolver \<Rightarrow> resolver option" where
  "ares_calls [] r = Some r"
| "ares_calls (cb # cbs) r = Option.bind (ares_call cb r) (ares_calls cbs)"

section \<open>Operations\<close>

definition getSeconds :: "int option \<Rightarrow> int" where
  "getSeconds tv = (case tv of Some t \<Rightarrow> t | None \<Rightarrow> -1)"

definition start_timer :: "resolver \<Rightarrow> resolver" where
  "start_timer r = r\<lparr>rs_pending := rs_pending r + 1\<rparr>"

definition resolve :: "nat \<Rightarrow> ares_callback list \<Rightarrow> resolver \<Rightarrow> (bool \<times> resolver) option" where
  "resolve query cbs r = (case ares_calls cbs (r\<lparr>rs_queries := insert query (rs_queries r)\<rparr>) of
       None \<Rightarrow> None
     | Some r \<Rightarrow> Some (True, if \<not> timerActive r then (start_timer r)\<lparr>timerActive := True\<rparr> else r))"

definition onRead :: "ares_callback list \<Rightarrow> resolver \<Rightarrow> resolver option" where
  "onRead cbs r = ares_calls cbs r"

text \<open>The event loop has taken the timer.\<close>

definition onTimer :: "ares_callback list \<Rightarrow> int option \<Rightarrow> resolver \<Rightarrow> resolver option" where
  "onTimer cbs tv r =
     (let r = r\<lparr>rs_pending := rs_pending r - 1\<rparr> in
      if \<not> timerActive r then None
      else case ares_calls cbs r of
        None \<Rightarrow> None
      | Some r \<Rightarrow> Some (if getSeconds tv < 0 then r\<lparr>timerActive := False\<rparr> else start_timer r))"

section \<open>The contract of c-ares\<close>

text \<open>c-ares opens a socket that is not open, tells about the state of open sockets, neither readable
  nor writable when it closes one, and answers a query once, while it is outstanding.\<close>

fun ares_ok :: "ares_callback list \<Rightarrow> int set \<times> nat set \<Rightarrow> (int set \<times> nat set) option" where
  "ares_ok [] s = Some s"
| "ares_ok (Sock_create fd # cbs) (fds, qs) = (if fd \<in> fds then None else ares_ok cbs (insert fd fds, qs))"
| "ares_ok (Sock_state fd rd wr # cbs) (fds, qs) =
     (if fd \<notin> fds then None else ares_ok cbs (if rd \<or> wr then fds else fds - {fd}, qs))"
| "ares_ok (Host_result q res # cbs) (fds, qs) = (if q \<notin> qs then None else ares_ok cbs (fds, qs - {q}))"

text \<open>Sockets of the resolver are read from; c-ares asks for writing alone only with TCP.\<close>

definition udp_only :: "ares_callback list \<Rightarrow> bool" where
  "udp_only cbs \<longleftrightarrow> list_all (\<lambda>cb. case cb of Sock_state _ rd wr \<Rightarrow> wr \<longrightarrow> rd | _ \<Rightarrow> True) cbs"

text \<open>\<open>resolver_run ids fds qs r\<close>: a resolver with the queries \<open>ids\<close> asked so far and what c-ares knows.\<close>

inductive resolver_run :: "nat list \<Rightarrow> int set \<Rightarrow> nat set \<Rightarrow> resolver \<Rightarrow> bool" where
  new: "resolver_run [] {} {} new_resolver"
| query: "resolver_run ids fds qs r \<Longrightarrow> q \<notin> set ids \<Longrightarrow> udp_only cbs \<Longrightarrow> ares_ok cbs (fds, insert q qs) = Some (fds', qs') \<Longrightarrow>
    resolve q cbs r = Some (True, r') \<Longrightarrow> resolver_run (ids @ [q]) fds' qs' r'"
| readable: "resolver_run ids fds qs r \<Longrightarrow> udp_only cbs \<Longrightarrow> ares_ok cbs (fds, qs) = Some (fds', qs') \<Longrightarrow>
    onRead cbs r = Some r' \<Longrightarrow> resolver_run ids fds' qs' r'"
| timer: "resolver_run ids fds qs r \<Longrightarrow> 0 < rs_pending r \<Longrightarrow> udp_only cbs \<Longrightarrow> ares_ok cbs (fds, qs) = Some (fds', qs') \<Longrightarrow>
    onTimer cbs tv r = Some r' \<Longrightarrow> resolver_run ids fds' qs' r'"

definition answers_ok :: "nat list \<Rightarrow> int set \<Rightarrow> nat set \<Rightarrow> resolver \<Rightarrow> bool" where
  "answers_ok ids fds qs r \<longleftrightarrow> channels r = fds \<and> rs_queries r = qs \<and> qs \<subseteq> set ids \<and>
     distinct (map fst (rs_results r)) \<and> fst ` set (rs_results r) = set ids - qs"

definition timer_ok :: "resolver \<Rightarrow> bool" where
  "timer_ok r \<longleftrightarrow> rs_pending r = (if timerActive r then 1 else 0)"

lemma ares_call_keeps:
  assumes "ares_ok (cb # cbs) (fds, qs) = Some s'" "udp_only [cb]" "answers_ok ids fds qs r"
  obtains r1 fds1 qs1 where "ares_call cb r = Some r1" "ares_ok cbs (fds1, qs1) = Some s'" "answers_ok ids fds1 qs1 r1"
    "timerActive r1 = timerActive r" "rs_pending r1 = rs_pending r"
proof (cases cb)
  case (Sock_create fd)
  then show ?thesis
    using assms that [of "r\<lparr>channels := insert fd (channels r)\<rparr>" "insert fd fds" qs]
    by (auto simp: ares_call_def onSockCreate_def answers_ok_def split: if_splits)
next
  case (Sock_state fd rd wr)
  then show ?thesis
    using assms that [of "if rd then r else r\<lparr>channels := channels r - {fd}\<rparr>" "if rd \<or> wr then fds else fds - {fd}" qs]
    by (auto simp: ares_call_def onSockStateChange_def answers_ok_def udp_only_def split: if_splits)
next
  case (Host_result q res)
  then have q: "q \<in> qs" "ares_ok cbs (fds, qs - {q}) = Some s'" using assms(1) by (auto split: if_splits)
  let ?r = "(onQueryResult res q r)\<lparr>rs_queries := rs_queries r - {q}\<rparr>"
  have "q \<notin> fst ` set (rs_results r)" "q \<in> set ids" using q(1) assms(3) by (auto simp: answers_ok_def)
  then have "answers_ok ids fds (qs - {q}) ?r"
    using assms(3) q(1) by (auto simp: answers_ok_def onQueryResult_def Let_def)
  moreover have "ares_call cb r = Some ?r"
    using Host_result q(1) assms(3) by (simp add: ares_call_def ares_host_callback_def answers_ok_def onQueryResult_def Let_def)
  ultimately show ?thesis using that [of ?r fds "qs - {q}"] q(2) by (simp add: onQueryResult_def Let_def)
qed

lemma ares_calls_keep:
  assumes "ares_ok cbs (fds, qs) = Some (fds', qs')" "udp_only cbs" "answers_ok ids fds qs r"
  shows "\<exists>r'. ares_calls cbs r = Some r' \<and> answers_ok ids fds' qs' r' \<and> timerActive r' = timerActive r \<and> rs_pending r' = rs_pending r"
  using assms
proof (induction cbs arbitrary: r fds qs)
  case (Cons cb cbs)
  have u: "udp_only [cb]" "udp_only cbs" using Cons.prems(2) by (simp_all add: udp_only_def)
  obtain r1 fds1 qs1 where r1: "ares_call cb r = Some r1" "ares_ok cbs (fds1, qs1) = Some (fds', qs')" "answers_ok ids fds1 qs1 r1"
    "timerActive r1 = timerActive r" "rs_pending r1 = rs_pending r"
    using ares_call_keeps [OF Cons.prems(1) u(1) Cons.prems(3)] by metis
  from Cons.IH [OF r1(2) u(2) r1(3)] show ?case using r1 by simp
qed simp

lemma answers_ok_timer [simp]:
  "answers_ok ids fds qs (r\<lparr>rs_pending := n\<rparr>) \<longleftrightarrow> answers_ok ids fds qs r"
  "answers_ok ids fds qs (r\<lparr>timerActive := b\<rparr>) \<longleftrightarrow> answers_ok ids fds qs r"
  by (simp_all add: answers_ok_def)

lemma resolver_run_ok: "resolver_run ids fds qs r \<Longrightarrow> answers_ok ids fds qs r \<and> timer_ok r"
proof (induction rule: resolver_run.induct)
  case new
  show ?case by (simp add: answers_ok_def timer_ok_def new_resolver_def)
next
  case (query ids fds qs r q cbs fds' qs' r')
  have "answers_ok (ids @ [q]) fds (insert q qs) (r\<lparr>rs_queries := insert q (rs_queries r)\<rparr>)"
    using query.IH query.hyps(2) by (auto simp: answers_ok_def)
  from ares_calls_keep [OF query.hyps(4,3) this] obtain r1 where
    "ares_calls cbs (r\<lparr>rs_queries := insert q (rs_queries r)\<rparr>) = Some r1" "answers_ok (ids @ [q]) fds' qs' r1"
    "timerActive r1 = timerActive r" "rs_pending r1 = rs_pending r" by auto
  then show ?case using query.IH query.hyps(5)
    by (cases "timerActive r") (auto simp: resolve_def timer_ok_def start_timer_def)
next
  case (readable ids fds qs r cbs fds' qs' r')
  then show ?case using ares_calls_keep [of cbs fds qs fds' qs' ids r] by (auto simp: onRead_def timer_ok_def)
next
  case (timer ids fds qs r cbs fds' qs' tv r')
  have "answers_ok ids fds qs (r\<lparr>rs_pending := rs_pending r - 1\<rparr>)" using timer.IH by (simp add: answers_ok_def)
  from ares_calls_keep [OF timer.hyps(4,3) this] obtain r1 where
    "ares_calls cbs (r\<lparr>rs_pending := rs_pending r - 1\<rparr>) = Some r1" "answers_ok ids fds' qs' r1"
    "timerActive r1 = timerActive r" "rs_pending r1 = rs_pending r - 1" by auto
  then show ?case using timer.IH timer.hyps(2,5)
    by (cases "timerActive r"; cases "getSeconds tv < 0") (auto simp: onTimer_def timer_ok_def start_timer_def)
qed

text \<open>C31: Under the contract of c-ares no assertion of a reachable resolver fails
  when a query is asked, a socket is readable or the timer fires; there is one pending timer
  exactly while the flag says so, and every query is answered at most once.\<close>

theorem resolver_never_aborts:
  assumes "resolver_run ids fds qs r" "udp_only cbs"
  shows "(q \<notin> set ids \<longrightarrow> ares_ok cbs (fds, insert q qs) \<noteq> None \<longrightarrow> (\<exists>r'. resolve q cbs r = Some (True, r'))) \<and>
    (ares_ok cbs (fds, qs) \<noteq> None \<longrightarrow> onRead cbs r \<noteq> None \<and> (0 < rs_pending r \<longrightarrow> onTimer cbs tv r \<noteq> None)) \<and>
    rs_pending r = (if timerActive r then 1 else 0) \<and> distinct (map fst (rs_results r)) \<and> fst ` set (rs_results r) = set ids - qs"
proof -
  note ok = resolver_run_ok [OF assms(1)]
  have a: "answers_ok ids fds qs (r\<lparr>rs_pending := n\<rparr>)" for n using ok by (simp add: answers_ok_def)
  have b: "answers_ok (ids @ [q]) fds (insert q qs) (r\<lparr>rs_queries := insert q (rs_queries r)\<rparr>)" if "q \<notin> set ids"
    using ok that by (auto simp: answers_ok_def)
  have "\<exists>r'. resolve q cbs r = Some (True, r')" if "q \<notin> set ids" "ares_ok cbs (fds, insert q qs) \<noteq> None"
    using ares_calls_keep [OF _ assms(2) b [OF that(1)]] that(2) by (fastforce simp: resolve_def)
  moreover have "onRead cbs r \<noteq> None \<and> (0 < rs_pending r \<longrightarrow> onTimer cbs tv r \<noteq> None)" if some: "ares_ok cbs (fds, qs) \<noteq> None"
  proof -
    obtain fds' qs' where s: "ares_ok cbs (fds, qs) = Some (fds', qs')" using some by auto
    show ?thesis
      using ares_calls_keep [OF s assms(2) conjunct1 [OF ok]] ares_calls_keep [OF s assms(2) a [of "rs_pending r - 1"]] ok
      by (auto simp: onRead_def onTimer_def timer_ok_def Let_def)
  qed
  ultimately show ?thesis using ok by (auto simp: answers_ok_def timer_ok_def)
qed

text \<open>One query that c-ares answers when its socket becomes readable.\<close>

theorem resolver_never_aborts_witness:
  "onTimer [Sock_state 5 False False] None
     \<lparr>timerActive = True, rs_pending = 1, channels = {5}, rs_queries = {}, rs_results = [(0, [1, 2, 3, 4])]\<rparr> \<noteq> None"
proof -
  let ?r = "\<lparr>timerActive = True, rs_pending = 1, channels = {5}, rs_queries = {0}, rs_results = []\<rparr>"
  let ?r' = "\<lparr>timerActive = True, rs_pending = 1, channels = {5}, rs_queries = {}, rs_results = [(0, [1, 2, 3, 4])]\<rparr>"
  have "resolver_run ([] @ [0]) {5} {0} ?r"
    by (rule resolver_run.query [OF resolver_run.new, where cbs = "[Sock_create 5]"])
       (simp_all add: udp_only_def resolve_def ares_call_def onSockCreate_def new_resolver_def start_timer_def)
  then have "resolver_run ([] @ [0]) {5} {} ?r'"
    by (rule resolver_run.readable [where cbs = "[Host_result 0 (Some [1, 2, 3, 4])]"])
       (simp_all add: udp_only_def onRead_def ares_call_def ares_host_callback_def onQueryResult_def Let_def)
  from resolver_never_aborts [OF this, of "[Sock_state 5 False False]" 0 None] show ?thesis by (simp add: udp_only_def)
qed

end
