(* ===== verification/Stack_Trace.thy ===== *)
theory Stack_Trace
  imports Prelude "HOL-Library.Sublist"
begin

text \<open>
  The stack traces of \<open>common/debug/stack_trace.cc\<close>: the conversion of integers that is safe in
  a signal handler, the replacement of mangled symbols and the text of a trace. What the C
  library says (\<open>backtrace_symbols\<close>, \<open>__cxa_demangle\<close>) are arguments. A buffer is the list of
  its characters and a pointer an index.
\<close>

section \<open>Integers\<close>

definition hex_char :: "nat \<Rightarrow> char" where
  "hex_char d = ''0123456789abcdef'' ! d"

text \<open>The loop over the digits: whether there was room, the end pointer and the buffer.\<close>

function digit_loop :: "nat \<Rightarrow> nat \<Rightarrow> nat \<Rightarrow> nat \<Rightarrow> nat \<Rightarrow> nat \<Rightarrow> string \<Rightarrow> bool \<times> nat \<times> string" where
  "digit_loop sz base j padding n ptr buf =
     (if n + 1 > sz then (False, ptr, buf)
      else
        let buf = buf[ptr := hex_char (j mod base)];
            j = j div base;
            padding = (if padding > 0 then padding - 1 else padding)
        in if j > 0 \<or> padding > 0 then digit_loop sz base j padding (n + 1) (ptr + 1) buf
           else (True, ptr + 1, buf))"
  by pat_completeness auto
termination by (relation "measure (\<lambda>(sz, _, _, _, n, _, _). sz - n)") auto

declare digit_loop.simps [simp del]

function reverse_loop :: "nat \<Rightarrow> nat \<Rightarrow> string \<Rightarrow> string" where
  "reverse_loop start ptr buf =
     (if int ptr - 1 > int start
      then reverse_loop (start + 1) (ptr - 1) (buf[ptr - 1 := buf ! start, start := buf ! (ptr - 1)])
      else buf)"
  by pat_completeness auto
termination by (relation "measure (\<lambda>(_, ptr, _). ptr)") auto

declare reverse_loop.simps [simp del]

text \<open>The flag tells whether \<open>buf\<close> is returned, and not \<open>NULL\<close>. The code negates a signed integer, which
  is undefined for the least one; here it wraps around, as compiled code does.\<close>

definition itoa_r :: "64 word \<Rightarrow> string \<Rightarrow> nat \<Rightarrow> int \<Rightarrow> nat \<Rightarrow> bool \<times> string" where
  "itoa_r i buf sz base padding =
     (let NUL = CHR 0x00; n = 1 in
      if n > sz then (False, buf)
      else if base < 2 \<or> base > 16 then (False, buf[0 := NUL])
      else
        let negative = (sint i < 0 \<and> base = 10); n' = (if negative then n + 1 else n)
        in if n' > sz then (False, buf[0 := NUL])
           else
             let j = (if negative then - i else i);
                 start = (if negative then 1 else 0);
                 buf = (if negative then buf[0 := CHR ''-''] else buf)
             in case digit_loop sz (nat base) (unat j) padding n' start buf of
                  (False, _, buf) \<Rightarrow> (False, buf[0 := NUL])
                | (True, ptr, buf) \<Rightarrow> (True, reverse_loop start ptr (buf[ptr := NUL])))"

section \<open>Symbols\<close>

definition kMangledSymbolPrefix :: string where
  "kMangledSymbolPrefix = ''_Z''"

definition kSymbolCharacters :: string where
  "kSymbolCharacters = ''abcdefghijklmnopqrstuvwxyzABCDEFGHIJKLMNOPQRSTUVWXYZ0123456789_''"

text \<open>\<open>find\<close> and \<open>find_first_not_of\<close> of a string from a position on; \<open>npos\<close> is \<open>None\<close>.\<close>

definition find_from :: "string \<Rightarrow> string \<Rightarrow> nat \<Rightarrow> nat option" where
  "find_from pat text pos = List.find (\<lambda>i. prefix pat (drop i text)) [pos..<length text]"

definition find_first_not_of :: "string \<Rightarrow> string \<Rightarrow> nat \<Rightarrow> nat option" where
  "find_first_not_of chars text pos = List.find (\<lambda>i. text ! i \<notin> set chars) [pos..<length text]"

lemma find_from_Some:
  "find_from pat text pos = Some i \<Longrightarrow> pos \<le> i \<and> i < length text \<and> prefix pat (drop i text)"
  by (auto simp: find_from_def find_Some_iff)

text \<open>The end of a mangled symbol is behind its prefix.\<close>

definition symbol_end :: "string \<Rightarrow> nat \<Rightarrow> nat" where
  "symbol_end text mangled_start = (case find_first_not_of kSymbolCharacters text mangled_start of
       None \<Rightarrow> length text
     | Some mangled_end \<Rightarrow> mangled_end)"

lemma symbol_end_bounds:
  assumes "find_from kMangledSymbolPrefix text pos = Some i"
  shows "i + 2 \<le> symbol_end text i \<and> symbol_end text i \<le> length text"
proof -
  have i: "i < length text" "prefix ''_Z'' (drop i text)" using find_from_Some [OF assms] by (simp_all add: kMangledSymbolPrefix_def)
  then obtain rest where r: "drop i text = CHR ''_'' # CHR ''Z'' # rest" by (auto simp: prefix_def)
  then have "length (drop i text) \<ge> 2" by simp
  then have len: "i + 2 \<le> length text" by simp
  have c: "text ! i = CHR ''_''" "text ! (i + 1) = CHR ''Z''"
    using r nth_drop [of i "text" 0] nth_drop [of i "text" 1] i(1) by simp_all
  show ?thesis
  proof (cases "find_first_not_of kSymbolCharacters text i")
    case None
    then show ?thesis using len by (simp add: symbol_end_def)
  next
    case (Some e)
    then have e: "i \<le> e" "e < length text" "text ! e \<notin> set kSymbolCharacters"
      by (auto simp: find_first_not_of_def find_Some_iff)
    have "e \<noteq> i" "e \<noteq> i + 1" using e(3) c by (auto simp: kSymbolCharacters_def)
    then show ?thesis using e Some by (simp add: symbol_end_def)
  qed
qed

lemma demangle_shrinks:
  assumes "find_from kMangledSymbolPrefix text pos = Some i"
  shows "min (length text) i + (length text - symbol_end text i) - i < length text - pos"
  using symbol_end_bounds [OF assms] find_from_Some [OF assms] by linarith

text \<open>\<open>demangle\<close> is \<open>__cxa_demangle\<close>, \<open>None\<close> for a status that is not zero.\<close>

function demangle_loop :: "(string \<Rightarrow> string option) \<Rightarrow> nat \<Rightarrow> string \<Rightarrow> string" where
  "demangle_loop demangle search_from text =
     (if search_from < length text then
        (case find_from kMangledSymbolPrefix text search_from of
           None \<Rightarrow> text
         | Some mangled_start \<Rightarrow>
             let mangled_end = symbol_end text mangled_start;
                 mangled_symbol = take (mangled_end - mangled_start) (drop mangled_start text)
             in (case demangle mangled_symbol of
                   Some d \<Rightarrow> demangle_loop demangle (mangled_start + length d)
                     (take mangled_start text @ d @ drop mangled_end text)
                 | None \<Rightarrow> demangle_loop demangle (mangled_start + 2) text))
      else text)"
  by pat_completeness auto
termination
  by (relation "measure (\<lambda>(_, pos, text). length text - pos)") (auto simp: demangle_shrinks dest: symbol_end_bounds find_from_Some)

declare demangle_loop.simps [simp del]

definition DemangleSymbols :: "(string \<Rightarrow> string option) \<Rightarrow> string \<Rightarrow> string" where
  "DemangleSymbols demangle text = demangle_loop demangle 0 text"

section \<open>The text of a trace\<close>

definition c_str :: "string \<Rightarrow> string" where
  "c_str buf = takeWhile (\<lambda>c. c \<noteq> CHR 0x00) buf"

text \<open>The symbols of the trace are \<open>None\<close> when \<open>backtrace_symbols\<close> fails.\<close>

definition ProcessBacktrace :: "(string \<Rightarrow> string option) \<Rightarrow> string list option \<Rightarrow> string" where
  "ProcessBacktrace demangle trace_symbols = (case trace_symbols of
       None \<Rightarrow> []
     | Some symbols \<Rightarrow> snd (fold (\<lambda>i (buf, output).
         let buf = snd (itoa_r (of_nat i) buf 30 10 1)
         in (buf, output @ ''#'' @ c_str buf @ c_str (DemangleSymbols demangle (symbols ! i)) @ [CHR 0x0A]))
         [0..<length symbols] (replicate 30 (CHR 0x00), [])))"

section \<open>The digits of a number\<close>

function low_digits :: "nat \<Rightarrow> nat \<Rightarrow> nat \<Rightarrow> nat list" where
  "low_digits base j padding =
     j mod base # (if 2 \<le> base \<and> (j div base > 0 \<or> padding - 1 > 0) then low_digits base (j div base) (padding - 1) else [])"
  by pat_completeness auto
termination
proof (relation "measure (\<lambda>(_, j, p). j + p)")
  fix base j p :: nat
  assume a: "2 \<le> base \<and> (0 < j div base \<or> 0 < p - 1)"
  show "((base, j div base, p - 1), base, j, p) \<in> measure (\<lambda>(_, j, p). j + p)"
  proof (cases "j = 0")
    case False
    then have "j div base < j" using a by simp
    then show ?thesis by simp
  qed (use a in auto)
qed simp

declare low_digits.simps [simp del]

lemma low_digits_props:
  assumes "2 \<le> base"
  shows "foldr (\<lambda>d n. d + base * n) (low_digits base j padding) 0 = j \<and> low_digits base j padding \<noteq> [] \<and>
    list_all (\<lambda>d. d < base) (low_digits base j padding) \<and> padding \<le> length (low_digits base j padding) \<and>
    (max 1 padding < length (low_digits base j padding) \<longrightarrow> last (low_digits base j padding) \<noteq> 0)"
  using assms
proof (induction base j padding rule: low_digits.induct)
  case (1 base j padding)
  let ?r = "low_digits base (j div base) (padding - 1)"
  note step = low_digits.simps [of base j padding]
  show ?case
  proof (cases "j div base > 0 \<or> padding - 1 > 0")
    case True
    note IH = "1.IH" [OF conjI [OF "1.prems" True] "1.prems"]
    have l: "low_digits base j padding = j mod base # ?r" using True "1.prems" step by simp
    have last: "last ?r \<noteq> 0" if m: "max 1 padding < Suc (length ?r)"
    proof (cases "max 1 (padding - 1) < length ?r")
      case True
      then show ?thesis using IH by blast
    next
      case False
      then have one: "length ?r = 1" "padding \<le> 1" using m IH by (cases ?r; force)+
      then obtain d where d: "?r = [d]" by (metis One_nat_def length_0_conv length_Suc_conv)
      then have "d = j div base" using IH by simp
      then show ?thesis using d one True by auto
    qed
    show ?thesis unfolding l using IH "1.prems" last by (cases padding) (auto simp: mod_mult_div_eq)
  next
    case False
    then have "low_digits base j padding = [j mod base]" using step by simp
    then show ?thesis using False "1.prems" by (auto simp: div_eq_0_iff)
  qed
qed

lemma digit_loop_digits:
  assumes "2 \<le> base" "ptr + (sz - n) \<le> length buf"
  shows "let ds = map hex_char (low_digits base j padding) in
    if n + length ds \<le> sz
    then digit_loop sz base j padding n ptr buf = (True, ptr + length ds, take ptr buf @ ds @ drop (ptr + length ds) buf)
    else fst (digit_loop sz base j padding n ptr buf) = False \<and>
      (\<exists>buf'. snd (snd (digit_loop sz base j padding n ptr buf)) = buf' \<and> length buf' = length buf \<and>
        drop (ptr + (sz - n)) buf' = drop (ptr + (sz - n)) buf)"
  using assms
proof (induction sz base j padding n ptr buf rule: digit_loop.induct)
  case (1 sz base j padding n ptr buf)
  let ?buf = "buf[ptr := hex_char (j mod base)]"
  let ?p = "if padding > 0 then padding - 1 else padding"
  have p: "?p = padding - 1" by simp
  note step = digit_loop.simps [of sz base j padding n ptr buf] low_digits.simps [of base j padding]
  show ?case
  proof (cases "n + 1 > sz")
    case True
    then show ?thesis using step by (simp add: Let_def)
  next
    case room: False
    then have ptr: "ptr < length buf" using "1.prems" by linarith
    have t: "take (Suc ptr) ?buf = take ptr buf @ [hex_char (j mod base)]" "drop (Suc ptr) ?buf = drop (Suc ptr) buf"
      "\<And>k. ptr < k \<Longrightarrow> drop k ?buf = drop k buf"
      using ptr by (simp_all add: take_Suc_conv_app_nth)
    show ?thesis
    proof (cases "j div base > 0 \<or> padding - 1 > 0")
      case True
      then have more: "j div base > 0 \<or> ?p > 0" by auto
      have le: "ptr + 1 + (sz - (n + 1)) \<le> length ?buf" using "1.prems" room by simp
      have e: "ptr + 1 + (sz - (n + 1)) = ptr + (sz - n)" using room by simp
      note IH = "1.IH" [OF room refl refl refl more "1.prems"(1) le]
      have d: "digit_loop sz base j padding n ptr buf = digit_loop sz base (j div base) ?p (n + 1) (ptr + 1) ?buf"
        using room more step(1) by (simp add: Let_def)
      have l: "low_digits base j padding = j mod base # low_digits base (j div base) (padding - 1)"
        using True "1.prems"(1) step(2) by simp
      show ?thesis
        using IH t room ptr unfolding d l p e by (auto simp: Let_def split: if_splits)
    next
      case False
      then have d: "digit_loop sz base j padding n ptr buf = (True, ptr + 1, ?buf)"
        using room step(1) by (simp add: Let_def)
      have l: "low_digits base j padding = [j mod base]" using False step(2) by auto
      show ?thesis using room ptr t unfolding d l by (simp add: Let_def upd_conv_take_nth_drop)
    qed
  qed
qed

lemma reverse_loop_run:
  "reverse_loop (length pre) (length pre + length mid) (pre @ mid @ post) = pre @ rev mid @ post"
proof (induction "length mid" arbitrary: pre mid post rule: less_induct)
  case less
  show ?case
  proof (cases "length mid \<le> 1")
    case True
    then have "rev mid = mid" by (cases mid) auto
    then show ?thesis using True by (simp add: reverse_loop.simps [of "length pre"])
  next
    case False
    then obtain a ms where a: "mid = a # ms" "ms \<noteq> []" by (cases mid) auto
    then obtain m b where m: "mid = a # m @ [b]" by (metis rev_exhaust)
    have "reverse_loop (length pre) (length pre + length mid) (pre @ mid @ post) =
        reverse_loop (length (pre @ [b])) (length (pre @ [b]) + length m) ((pre @ [b]) @ m @ ([a] @ post))"
      unfolding m by (subst reverse_loop.simps) (simp add: nth_append list_update_append)
    also have "\<dots> = (pre @ [b]) @ rev m @ ([a] @ post)" by (rule less.hyps) (simp add: m)
    finally show ?thesis by (simp add: m)
  qed
qed

section \<open>What the conversion writes\<close>

definition itoa_digits :: "64 word \<Rightarrow> int \<Rightarrow> nat \<Rightarrow> nat list" where
  "itoa_digits i base padding =
     rev (low_digits (nat base) (unat (if sint i < 0 \<and> base = 10 then - i else i)) padding)"

definition itoa_text :: "64 word \<Rightarrow> int \<Rightarrow> nat \<Rightarrow> string" where
  "itoa_text i base padding =
     (if sint i < 0 \<and> base = 10 then ''-'' else []) @ map hex_char (itoa_digits i base padding)"

lemma itoa_r_writes:
  assumes "sz \<le> length buf" "2 \<le> base" "base \<le> 16"
  shows "if length (itoa_text i base padding) < sz
    then itoa_r i buf sz base padding =
      (True, itoa_text i base padding @ [CHR 0x00] @ drop (length (itoa_text i base padding) + 1) buf)
    else fst (itoa_r i buf sz base padding) = False \<and> length (snd (itoa_r i buf sz base padding)) = length buf \<and>
      (0 < sz \<longrightarrow> snd (itoa_r i buf sz base padding) ! 0 = CHR 0x00) \<and>
      drop sz (snd (itoa_r i buf sz base padding)) = drop sz buf"
proof (cases "sz = 0")
  case True
  then show ?thesis by (simp add: itoa_r_def)
next
  case pos: False
  define neg where "neg = (sint i < 0 \<and> base = 10)"
  define n' where "n' = (if neg then 2 else 1 :: nat)"
  define j where "j = unat (if neg then - i else i)"
  define start where "start = (if neg then 1 else 0 :: nat)"
  define b0 where "b0 = (if neg then buf[0 := CHR ''-''] else buf)"
  define pre where "pre = (if neg then ''-'' else [])"
  define ds where "ds = map hex_char (low_digits (nat base) j padding)"
  have itxt: "itoa_text i base padding = pre @ rev ds"
    by (simp add: itoa_text_def itoa_digits_def neg_def [symmetric] pre_def ds_def j_def rev_map)
  have ds: "ds \<noteq> []" using low_digits_props [of "nat base" j padding] assms by (auto simp: ds_def)
  have base2: "2 \<le> nat base" using assms by simp
  have itoa: "itoa_r i buf sz base padding = (if n' > sz then (False, buf[0 := CHR 0x00])
      else case digit_loop sz (nat base) j padding n' start b0 of
             (False, _, buf) \<Rightarrow> (False, buf[0 := CHR 0x00])
           | (True, ptr, buf) \<Rightarrow> (True, reverse_loop start ptr (buf[ptr := CHR 0x00])))"
  proof -
    have n: "n' = (if neg then 1 + 1 else 1)" by (simp add: n'_def)
    have "\<not> 1 > sz" "\<not> (base < 2 \<or> base > 16)" using pos assms by simp_all
    then show ?thesis
      unfolding itoa_r_def Let_def neg_def [symmetric] n j_def start_def b0_def by (simp only: if_False)
  qed
  have len: "length b0 = length buf" "length pre = start" "n' = start + 1" by (simp_all add: b0_def pre_def start_def n'_def)
  show ?thesis
  proof (cases "n' > sz")
    case True
    then have "\<not> length (itoa_text i base padding) < sz" using len ds unfolding itxt by (cases ds) auto
    then show ?thesis using True pos assms(1) unfolding itoa by (cases buf) (auto simp: drop_Cons')
  next
    case room: False
    have le: "start + (sz - n') \<le> length b0" using assms(1) len room by simp
    note dl = digit_loop_digits [OF base2 le, of j padding, folded ds_def, unfolded Let_def]
    show ?thesis
    proof (cases "n' + length ds \<le> sz")
      case True
      then have d: "digit_loop sz (nat base) j padding n' start b0 = (True, start + length ds, take start b0 @ ds @ drop (start + length ds) b0)"
        using dl by simp
      have t: "take start b0 = pre" using assms(1) pos by (cases buf) (auto simp: start_def b0_def pre_def)
      have dr: "\<And>k. start \<le> k \<Longrightarrow> drop k b0 = drop k buf" by (auto simp: b0_def start_def split: if_splits)
      have k: "start + length ds < length b0" using True assms(1) len by simp
      have u: "(pre @ ds @ drop (start + length ds) b0)[start + length ds := CHR 0x00] =
          pre @ ds @ ([CHR 0x00] @ drop (start + length ds + 1) buf)"
        using k len dr [of "start + length ds + 1"]
        by (simp add: list_update_append Cons_nth_drop_Suc [symmetric])
      have "itoa_r i buf sz base padding = (True, pre @ rev ds @ [CHR 0x00] @ drop (start + length ds + 1) buf)"
        using room reverse_loop_run [of pre ds "[CHR 0x00] @ drop (start + length ds + 1) buf"]
        unfolding itoa d t by (simp add: u [simplified] len(2))
      then show ?thesis using True len unfolding itxt by simp
    next
      case False
      obtain ok ptr buf' where d: "digit_loop sz (nat base) j padding n' start b0 = (ok, ptr, buf')" by (metis prod_cases3)
      then have d': "ok = False" "length buf' = length b0" "drop (start + (sz - n')) buf' = drop (start + (sz - n')) b0"
        using dl False by auto
      have "start + (sz - n') + 1 = sz" using len(3) room by simp
      then have "drop sz buf' = drop sz b0" using d'(3) by (metis drop_drop add.commute)
      moreover have "drop sz b0 = drop sz buf" using pos by (simp add: b0_def)
      ultimately have e: "drop sz (buf'[0 := CHR 0x00]) = drop sz buf" "length buf' = length buf"
        using pos d'(2) len(1) by simp_all
      have "itoa_r i buf sz base padding = (False, buf'[0 := CHR 0x00])" using room d d'(1) unfolding itoa by simp
      moreover have "\<not> length (itoa_text i base padding) < sz" using False len unfolding itxt by simp
      moreover have "buf'[0 := CHR 0x00] ! 0 = CHR 0x00" using e(2) assms(1) pos by (cases buf') auto
      ultimately show ?thesis using e by simp
    qed
  qed
qed

lemma sint_u64: "sint (w :: 64 word) = (if uint w < 2 ^ 63 then uint w else uint w - 2 ^ 64)"
proof -
  have b: "0 \<le> uint w" "uint w < 2 ^ 64" using unsigned_less [of w, where ?'a = int] by simp_all
  have s: "sint w = (uint w + 2 ^ 63) mod 2 ^ 64 - 2 ^ 63"
    using sint_uint [of w] by (simp add: signed_take_bit_eq_take_bit_shift take_bit_eq_mod)
  show ?thesis
  proof (cases "uint w < 2 ^ 63")
    case True
    then show ?thesis unfolding s using b by (subst mod_pos_pos_trivial) simp_all
  next
    case False
    then have "(uint w + 2 ^ 63) mod 2 ^ 64 = uint w + 2 ^ 63 - 2 ^ 64"
      using b by (subst minus_mod_self2 [symmetric], subst mod_pos_pos_trivial) simp_all
    then show ?thesis unfolding s using False by simp
  qed
qed

lemma uint_minus_u64: "uint (- w :: 64 word) = (if uint w = 0 then 0 else 2 ^ 64 - uint w)"
proof -
  have "uint w mod 2 ^ 64 = uint w" using unsigned_less [of w, where ?'a = int] by (intro mod_pos_pos_trivial) simp_all
  then show ?thesis by (simp add: uint_word_ariths zmod_zminus1_eq_if)
qed

lemma magnitude: "int (unat (if sint i < 0 \<and> base = 10 then - i else i)) = (if base = 10 then \<bar>sint i\<bar> else uint i)"
  for i :: "64 word"
proof -
  have b: "0 \<le> uint i" "uint i < 2 ^ 64" using unsigned_less [of i, where ?'a = int] by simp_all
  then show ?thesis using sint_u64 [of i] uint_minus_u64 [of i] by (cases "uint i < 2 ^ 63") auto
qed

section \<open>Demangling, from the front\<close>

function demangle_spec :: "(string \<Rightarrow> string option) \<Rightarrow> string \<Rightarrow> string" where
  "demangle_spec demangle text = (case find_from kMangledSymbolPrefix text 0 of
       None \<Rightarrow> text
     | Some i \<Rightarrow> (case demangle (take (symbol_end text i - i) (drop i text)) of
         Some d \<Rightarrow> take i text @ d @ demangle_spec demangle (drop (symbol_end text i) text)
       | None \<Rightarrow> take (i + 2) text @ demangle_spec demangle (drop (i + 2) text)))"
  by pat_completeness auto
termination
  by (relation "measure (\<lambda>(_, text). length text)") (auto dest: symbol_end_bounds find_from_Some)

declare demangle_spec.simps [simp del]

lemma find_map: "List.find P (map f xs) = map_option f (List.find (P \<circ> f) xs)"
  by (induction xs) auto

lemma find_cong: "(\<And>x. x \<in> set xs \<Longrightarrow> P x = Q x) \<Longrightarrow> List.find P xs = List.find Q xs"
  by (induction xs) auto

lemma upt_shift: "pos \<le> n \<Longrightarrow> [pos + k..<n] = map ((+) pos) [k..<n - pos]"
  by (rule nth_equalityI) auto

lemma find_from_drop: "pos \<le> length text \<Longrightarrow> find_from pat text pos = map_option ((+) pos) (find_from pat (drop pos text) 0)"
  using upt_shift [of pos "length text" 0] by (simp add: find_from_def find_map o_def add.commute)

lemma first_not_of_drop:
  "pos \<le> length text \<Longrightarrow> find_first_not_of chars text (pos + k) = map_option ((+) pos) (find_first_not_of chars (drop pos text) k)"
  using upt_shift [of pos "length text" k] by (auto simp: find_first_not_of_def find_map o_def intro!: arg_cong [where f = "map_option _"] find_cong)

lemma symbol_end_drop: "pos \<le> length text \<Longrightarrow> symbol_end text (pos + k) = pos + symbol_end (drop pos text) k"
  by (simp add: symbol_end_def first_not_of_drop split: option.split)

lemma demangle_loop_spec:
  "pos \<le> length text \<Longrightarrow> demangle_loop demangle pos text = take pos text @ demangle_spec demangle (drop pos text)"
proof (induction demangle pos "text" rule: demangle_loop.induct)
  case (1 demangle pos "text")
  note step = demangle_loop.simps [of demangle pos "text"] and spec = demangle_spec.simps [of demangle "drop pos text"]
  show ?case
  proof (cases "find_from kMangledSymbolPrefix (drop pos text) 0")
    case None
    then show ?thesis using "1.prems" find_from_drop [of pos "text" kMangledSymbolPrefix] by (simp add: step spec)
  next
    case (Some i)
    then have f: "find_from kMangledSymbolPrefix text pos = Some (pos + i)"
      using "1.prems" find_from_drop [of pos "text" kMangledSymbolPrefix] by simp
    have lt: "pos < length text" and b: "pos + i + 2 \<le> symbol_end text (pos + i)" "symbol_end text (pos + i) \<le> length text"
      using find_from_Some [OF f] symbol_end_bounds [OF f] by auto
    let ?e = "symbol_end text (pos + i)" and ?sym = "take (symbol_end text (pos + i) - (pos + i)) (drop (pos + i) text)"
    have e: "symbol_end (drop pos text) i = ?e - pos" using symbol_end_drop [of pos "text" i] "1.prems" by simp
    have sym: "take (symbol_end (drop pos text) i - i) (drop i (drop pos text)) = ?sym"
      unfolding e by (simp add: add.commute)
    show ?thesis
    proof (cases "demangle ?sym")
      case (Some d)
      have l: "demangle_loop demangle pos text = demangle_loop demangle (pos + i + length d) (take (pos + i) text @ d @ drop ?e text)"
        using lt f Some by (simp add: step Let_def)
      have le: "pos + i + length d \<le> length (take (pos + i) text @ d @ drop ?e text)" using b by simp
      have "demangle_loop demangle pos text = take (pos + i) text @ d @ demangle_spec demangle (drop ?e text)"
        using "1.IH"(2) [OF lt f refl refl Some le] b unfolding l by simp
      moreover have "demangle_spec demangle (drop pos text) = take i (drop pos text) @ d @ demangle_spec demangle (drop ?e text)"
        unfolding spec using \<open>find_from kMangledSymbolPrefix (drop pos text) 0 = _\<close> Some b sym e by simp
      moreover have "take (pos + i) text = take pos text @ take i (drop pos text)" by (rule take_add)
      ultimately show ?thesis by simp
    next
      case None
      have l: "demangle_loop demangle pos text = demangle_loop demangle (pos + i + 2) text"
        using lt f None by (simp add: step Let_def)
      have le: "pos + i + 2 \<le> length text" using b by simp
      have "demangle_loop demangle pos text = take (pos + i + 2) text @ demangle_spec demangle (drop (pos + i + 2) text)"
        using "1.IH"(1) [OF lt f refl refl None le] unfolding l .
      moreover have "demangle_spec demangle (drop pos text) = take (i + 2) (drop pos text) @ demangle_spec demangle (drop (pos + i + 2) text)"
        unfolding spec using \<open>find_from kMangledSymbolPrefix (drop pos text) 0 = _\<close> None sym by (simp add: add.commute add.left_commute)
      moreover have "take (pos + i + 2) text = take pos text @ take (i + 2) (drop pos text)"
        using take_add [of pos "i + 2" "text"] by (simp add: add.assoc)
      ultimately show ?thesis by simp
    qed
  qed
qed

section \<open>Properties\<close>

text \<open>C40: The integer conversion writes the sign, for negative numbers in base 10, and the
  digits of the number from the highest on, with as many leading zeros as the padding asks for
  and no others, and a terminating zero byte, if they fit into the size; otherwise it writes the
  empty string and returns NULL. It never writes behind the size it is given.\<close>

theorem itoa_prints:
  assumes "sz \<le> length buf" "2 \<le> base" "base \<le> 16"
  shows "\<exists>ds. list_all (\<lambda>d. d < nat base) ds \<and> ds \<noteq> [] \<and> padding \<le> length ds \<and> (max 1 padding < length ds \<longrightarrow> hd ds \<noteq> 0) \<and>
    int (foldl (\<lambda>n d. d + nat base * n) 0 ds) = (if base = 10 then \<bar>sint i\<bar> else uint i) \<and>
    (let t = (if sint i < 0 \<and> base = 10 then ''-'' else []) @ map hex_char ds in
     if length t < sz then itoa_r i buf sz base padding = (True, t @ [CHR 0x00] @ drop (length t + 1) buf)
     else \<not> fst (itoa_r i buf sz base padding) \<and> (0 < sz \<longrightarrow> snd (itoa_r i buf sz base padding) ! 0 = CHR 0x00) \<and>
       drop sz (snd (itoa_r i buf sz base padding)) = drop sz buf)"
proof -
  let ?j = "unat (if sint i < 0 \<and> base = 10 then - i else i)"
  have "2 \<le> nat base" using assms by simp
  note l = low_digits_props [OF this, of ?j padding]
  have "foldl (\<lambda>n d. d + nat base * n) 0 (itoa_digits i base padding) = ?j"
    using l by (simp add: itoa_digits_def foldr_conv_foldl)
  then have v: "int (foldl (\<lambda>n d. d + nat base * n) 0 (itoa_digits i base padding)) = (if base = 10 then \<bar>sint i\<bar> else uint i)"
    using magnitude [of i base] by simp
  have "list_all (\<lambda>d. d < nat base) (itoa_digits i base padding) \<and> itoa_digits i base padding \<noteq> [] \<and>
      padding \<le> length (itoa_digits i base padding) \<and>
      (max 1 padding < length (itoa_digits i base padding) \<longrightarrow> hd (itoa_digits i base padding) \<noteq> 0)"
    using l by (simp add: itoa_digits_def hd_rev)
  with v itoa_r_writes [OF assms, of i padding] show ?thesis
    by (intro exI [of _ "itoa_digits i base padding"]) (simp add: itoa_text_def Let_def)
qed

theorem itoa_prints_witness:
  "\<not> fst (itoa_r (- 42) ''xxxxxxxx'' 4 10 5) \<and> snd (itoa_r (- 42) ''xxxxxxxx'' 4 10 5) ! 0 = CHR 0x00 \<and>
    drop 4 (snd (itoa_r (- 42) ''xxxxxxxx'' 4 10 5)) = ''xxxx''"
  using itoa_prints [of 4 "''xxxxxxxx''" 10 5 "- 42"] by (auto simp: Let_def)

text \<open>Demangling goes once over the text from the front: everything that looks like a
  mangled symbol is replaced if the library knows it and kept if not, what was inserted is not
  looked at again, and the rest of the text stays.\<close>

theorem demangle_front: "DemangleSymbols demangle text = demangle_spec demangle text"
  using demangle_loop_spec [of 0 "text" demangle] by (simp add: DemangleSymbols_def)

end
