(* ===== verification/Spec2Isabelle.thy ===== *)
theory Spec2Isabelle
  imports Kcp_Liveness Kcp_Pair Kcp_Net_Props Kcp_Tx_Props Urandom Ai_Game Ai_Codec Tcprelay_Props Resolver Stack_Trace
begin

text \<open>
  A verification library of the C++ repository: the reliable-UDP stack of \<open>kcp/\<close> from the
  protocol core to the sockets, the player, server and client of \<open>ai/2048/\<close>, the relay of
  \<open>tcprelay/\<close> and the helpers of \<open>common/\<close>.

  \<^bold>\<open>The program.\<close> \<open>kcp/ikcp.c\<close> is the KCP protocol core: a control block (\<open>IKCPCB\<close>) with two
  queues for each direction, which turns bytes into numbered segments, acknowledges,
  retransmits and reassembles them. \<open>kcp/kcp_session.cc\<close> drives one control block inside an
  event loop and talks to its user by callbacks. \<open>kcp/kcp_server.cc\<close> and
  \<open>kcp/kcp_client.cc\<close> do the handshake, keep the sessions and move their datagrams through
  \<open>kcp/udp_socket.cc\<close>, with the packet header of \<open>kcp/kcp_packets.cc\<close> around them. The 2048
  player searches the game tree with alpha-beta pruning; its server plays for the clients
  (\<open>ai/2048/server.cc\<close>, \<open>client.cc\<close>) over framed protobuf messages (\<open>codec.cc\<close>). The relay
  (\<open>tcprelay/\<close>) decrypts what a client sends, reads from it the host to connect to, resolves
  the name (\<open>resolver.cc\<close>) and copies the bytes both ways.

  \<^bold>\<open>Theories and code.\<close>

  \<^item> \<open>Prelude\<close>: words and their bytes, serial-number arithmetic, lists; the collections
    \<open>wire\<close> and \<open>inv_intro\<close> that the component proofs use as hints.
  \<^item> \<open>Iqueue\<close>: the queue macros of \<open>ikcp.h\<close> on a heap of links, and the refinement to lists.
  \<^item> \<open>Ikcp_Types\<close>, \<open>Ikcp_Recv\<close>, \<open>Ikcp_Send\<close>, \<open>Ikcp_Ack\<close>, \<open>Ikcp_Input\<close>, \<open>Ikcp_Flush\<close>: the
    functions of \<open>ikcp.c\<close> under their names, on the record \<open>ikcpcb\<close>; the loops of a function
    are separate recursive definitions. Each theory has the invariant of its part and the
    lemmas on every branch.
  \<^item> \<open>Kcp_Link\<close>, \<open>Ikcp_Contract\<close>, \<open>Kcp_Core_Props\<close>: two control blocks and a network that
    loses, duplicates, delays and reorders datagrams (\<open>link_step\<close>); the contract that a
    session needs of the core as a locale; the properties of the core.
  \<^item> \<open>Kcp_Recovery\<close>: one round trip without loss (\<open>link_round\<close>) repairs all that was lost.
  \<^item> \<open>Kcp_Progress\<close>, \<open>Kcp_Liveness\<close>: the moves that bring a transfer forward (\<open>goes\<close>,
    \<open>progress\<close>), and that from every reachable state within their bounds they reach its end.
  \<^item> \<open>Kcp_Packets\<close>: the datagram format (\<open>kcp_packets.cc\<close>) and its interface \<open>packet_codec\<close>.
  \<^item> \<open>Kcp_Session\<close>, \<open>Kcp_Session_Life\<close>, \<open>Kcp_Session_Props\<close>: \<open>KCPSession\<close>; the functors and
    timers it hands to the event loop are the queues \<open>se_queue\<close>, \<open>se_delayed\<close> and \<open>se_timer\<close>,
    what it does to the outside is the log \<open>se_log\<close>. \<open>session_step\<close> runs one functor or one
    call of the user. The locale \<open>session_invariant\<close> lifts invariants of the core to every
    reachable session.
  \<^item> \<open>Kcp_Match\<close>, \<open>Kcp_Pair\<close>: a session as an implementation of one end of the link (the locale
    \<open>session_match\<close>, with steps labelled by the bytes written and the datagrams taken,
    \<open>session_act\<close>); a writer and a reader over a hostile network (\<open>pair_reach\<close>).
  \<^item> \<open>Hash_Tables\<close>, \<open>Kcp_Server\<close>, \<open>Kcp_Server_Inv\<close>: \<open>KCPServer\<close> with its four tables and the
    session objects in a heap, as their life is longer than their table entry.
  \<^item> \<open>Kcp_Client\<close>, \<open>Kcp_Client_Inv\<close>, \<open>Kcp_Net_Props\<close>: \<open>KCPClient\<close>, and the properties of both
    ends and of the handshake between them.
  \<^item> \<open>Udp_Socket\<close>, \<open>Udp_Socket_Inv\<close>: \<open>SockaddrStorage\<close> and \<open>UDPSocket\<close> with every system call;
    the operating system is the parameter \<open>kernel\<close>.
  \<^item> \<open>Kcp_Tx\<close>, \<open>Kcp_Tx_Props\<close>: how server and client set up their sockets, and the transmit
    queue of a thread (\<open>AppendPacket\<close>, \<open>FlushTxQueue\<close>) as an instance of \<open>batch_queue\<close>; the
    path of a session's output down to \<open>sendmmsg\<close>.
  \<^item> \<open>Urandom\<close>: the loop that draws random bytes (\<open>urandom.h\<close>).
  \<^item> \<open>Ai_2048\<close>, \<open>Ai_Moves\<close>, \<open>Ai_Search\<close>, \<open>Ai_Props\<close>, \<open>Ai_Play\<close>: the 2048 player; the moves as slides
    of lanes, the search against minimax, and the boards that occur in play.
  \<^item> \<open>Ai_Game\<close>: the handlers of server and client and the game of the two (\<open>ai_game\<close>), with the
    messages of \<open>proto/ai_2048.proto\<close> as a datatype.
  \<^item> \<open>Ai_Codec\<close>: \<open>ProtobufCodec\<close> and \<open>ProtobufDispatcher\<close>.
  \<^item> \<open>String_Utils\<close>: \<open>common/string_utils.h\<close>, of which \<open>tcprelay/utils/string_utils.h\<close> is a copy.
  \<^item> \<open>Tcprelay\<close>, \<open>Tcprelay_Props\<close>: \<open>Encryptor\<close>, \<open>ServerConnMeta\<close>, \<open>Tunnel\<close> and \<open>TCPRelayServer\<close>
    for one connection; \<open>relay_run\<close> is its life, with messages and callbacks in any order.
  \<^item> \<open>Resolver\<close>: \<open>cdns::Resolver\<close> under the contract \<open>ares_ok\<close> of c-ares; that it answers a
    query at most once is what \<open>relay_run\<close> relies on.
  \<^item> \<open>Stack_Trace\<close>: \<open>common/debug/stack_trace.cc\<close>.

  \<^bold>\<open>Conventions.\<close> An operation is \<open>None\<close> where an assertion of the code fails (or where it
  dereferences a null pointer); other errors are the values the code returns. Integers of the
  code are words of their width (\<open>u32\<close>), sizes that cannot overflow are \<open>nat\<close>, times are
  microseconds as \<open>int\<close>. Logging, allocation failure and the release of memory are left out.
  Callbacks of the user are functions from the session to the list of calls they make on it.

  \<^bold>\<open>What the lemmas show.\<close> For the core: delivery is a prefix of what was written whatever the
  network does, no acknowledged segment is lost, one undisturbed round trip after the timers ran
  out recovers from any loss, every transfer within the bounds below can still finish, a flush emits exactly the due segments within
  the MTU, no datagram breaks the invariant or makes a division trap, and the scans of the code
  equal their plain definitions. For sessions: the callback protocol, exactly when a write
  aborts, and that two of them over a hostile network refine the link of the core: one
  writes and one reads (its message callback takes all it is given, and it writes nothing), the
  reader's user sees a prefix of what the writer's user wrote, and its session never aborts on
  the writer's datagrams. For the server and the client: the tables and pointers agree in every reachable state,
  which datagrams abort a server, the handshake works. For sockets: descriptors do not leak.
  For the transmit queue: it is a queue, and the output of a session arrives at the socket
  framed and in order. For the player: a move is the textbook move, alpha-beta pruning
  computes minimax, and on boards of play no tile overflows and it always answers, with a legal move if there is one
  and time to search; in every game the boards of server and client agree. For the codec: the
  messages do not depend on how the stream is cut. For the relay: both directions carry exactly
  the bytes of the other side. For the resolver: its assertions hold. For the integer
  conversion: the digits are right and the buffer is never overrun. The theorems named \<open>.._aborts\<close>, \<open>.._usable\<close>, \<open>wide_window_is_closed\<close>,
  \<open>session_empty_message\<close>,
  \<open>client_stale_timeout\<close> and \<open>listen_without_address\<close>, \<open>trim_result\<close> and the second part of
  \<open>request_roundtrip\<close> record behaviour that the code should not have.

  \<^bold>\<open>Bounds and fuel.\<close> Loops recurse on their data or on a measure. Fuel remains in three
  places: \<open>handle_eintr\<close> counts the hundred retries of \<open>HANDLE_EINTR\<close>; \<open>target_loop\<close> walks at
  most four cells (\<open>target_loop_lane\<close>: the walk ends on its own before that); \<open>Mark\<close> recurses
  once per marked cell, so the 17 levels are more than the 16 cells need. The invariants of the
  core assume fewer than \<open>2 ^ 31\<close> live segments of a direction, as serial numbers do; that a
  transfer can finish also needs a receive window below \<open>2 ^ 16\<close>, the width of the field that
  announces it, and at least the 128 segments that \<open>ikcp_wndsize\<close> enforces, a send window
  that is not zero, an MTU below \<open>2 ^ 24\<close> and fewer than \<open>2 ^ 31 - 2 ^ 16\<close> segments in all. With
  a receive window of 65536 it can wedge (\<open>wide_window_is_closed\<close>).

  \<^bold>\<open>Parameters.\<close> The checksum of zlib (\<open>adler\<close>), the printed form of an address (\<open>ip_port\<close>),
  the address class of the network library (\<open>inet\<close>, with the documented size of a
  \<open>sockaddr_in6\<close> as \<open>inet_ok\<close>), random numbers, the operating system (\<open>kernel\<close>, with the
  documented results of a failed call as \<open>kernel_ok\<close>), the ciphers of OpenSSL (\<open>evp\<close>, with the
  behaviour of a streaming mode as \<open>stream_cipher\<close>), the protobuf library (\<open>protobuf\<close>; a type
  that is linked in and parses back what it serializes is \<open>known_message\<close>), the callbacks of
  c-ares (\<open>ares_ok\<close>) and the symbol names of the C library.

  \<^bold>\<open>Not modelled.\<close> The event loop, the thread pool, the channels and the TCP connections belong
  to the network library; concurrency is the interleaving of the functors of one loop. The
  rounding of \<open>double\<close> in the evaluation of the 2048 player, and the limit of 20 entries of its
  candidate arrays, which are lists here; the generated protobuf messages;
  the initialization of OpenSSL and the options of c-ares; taking a stack trace and writing it.
  The \<open>main\<close> functions, the examples and the benchmarks of \<open>kcp/\<close> only configure the library,
  call it and print.
\<close>

end
